(* ===== verification/LH_Prelude.thy ===== *)
theory LH_Prelude
  imports
    Main
    "HOL-Library.Sublist"
    "HOL-Library.AList"
    "HOL-Library.Char_ord"
    "HOL-Library.List_Lexorder"
begin

text \<open>
  Shared vocabulary of the development: what the Python sources use of the
  language and its standard library.

  \<^item> results of fallible code (\<open>'e + 'a\<close>, \<open>Inl\<close> for an exception) and of
    fallible stateful code (an exception keeps the state changes made before it);
  \<^item> strings: a Python \<open>str\<close> is a list of code points below 256, with
    \<open>strip\<close>, \<open>split\<close>, \<open>splitlines\<close>, \<open>in\<close>, \<open>startswith\<close> and
    \<open>endswith\<close> as Python defines them on that range;
  \<^item> paths (\<open>os.path.join\<close>, \<open>basename\<close>, \<open>dirname\<close>);
  \<^item> dictionaries as association lists with distinct keys.
\<close>

named_theorems py_simps \<open>equations of the Python primitives, for evaluation and unfolding\<close>
named_theorems line_simps \<open>facts on lines and line breaks\<close>

section \<open>Exceptions and state\<close>

definition rbind :: "'e + 'a \<Rightarrow> ('a \<Rightarrow> 'e + 'b) \<Rightarrow> 'e + 'b" where
  "rbind m f = (case m of Inl e \<Rightarrow> Inl e | Inr a \<Rightarrow> f a)"

lemma rbind_simps [simp]:
  "rbind (Inl e) f = Inl e"
  "rbind (Inr a) f = f a"
  by (simp_all add: rbind_def)

lemma rbind_Inr_iff: "rbind m f = Inr b \<longleftrightarrow> (\<exists>a. m = Inr a \<and> f a = Inr b)"
  by (cases m) auto

text \<open>
  A Python block on a state: the outcome (an exception or a value) and the state it
  leaves, which an exception does not roll back.
\<close>

type_synonym ('s, 'e, 'a) block = "'s \<Rightarrow> ('e + 'a) \<times> 's"

definition pret :: "'a \<Rightarrow> ('s, 'e, 'a) block" where
  "pret a s = (Inr a, s)"

definition praise :: "'e \<Rightarrow> ('s, 'e, 'a) block" where
  "praise e s = (Inl e, s)"

definition pbind :: "('s, 'e, 'a) block \<Rightarrow> ('a \<Rightarrow> ('s, 'e, 'b) block) \<Rightarrow> ('s, 'e, 'b) block" where
  "pbind m f s = (case m s of (Inl e, s') \<Rightarrow> (Inl e, s') | (Inr a, s') \<Rightarrow> f a s')"

lemma pret_apply [simp]: "pret a s = (Inr a, s)"
  by (simp add: pret_def)

lemma praise_apply [simp]: "praise e s = (Inl e, s)"
  by (simp add: praise_def)

lemma pbind_Inr: "m s = (Inr a, s') \<Longrightarrow> pbind m f s = f a s'"
  by (simp add: pbind_def)

lemma pbind_Inl: "m s = (Inl e, s') \<Longrightarrow> pbind m f s = (Inl e, s')"
  by (simp add: pbind_def)

section \<open>Characters\<close>

abbreviation TAB :: char where "TAB \<equiv> CHR 0x09"
abbreviation LF :: char where "LF \<equiv> CHR 0x0A"
abbreviation CR :: char where "CR \<equiv> CHR 0x0D"

text \<open>\<open>str.isspace\<close> on code points below 256, what \<open>strip()\<close> and \<open>split()\<close> use.\<close>

definition is_space :: "char \<Rightarrow> bool" where
  "is_space c \<longleftrightarrow> c \<in> set [CHR '' '', LF, TAB, CR, CHR 0x0B, CHR 0x0C, CHR 0x1C, CHR 0x1D,
     CHR 0x1E, CHR 0x1F, CHR 0x85, CHR 0xA0]"

text \<open>The line boundaries of \<open>str.splitlines\<close> below 256.\<close>

definition is_break :: "char \<Rightarrow> bool" where
  "is_break c \<longleftrightarrow> c \<in> set [LF, CR, CHR 0x0B, CHR 0x0C, CHR 0x1C, CHR 0x1D, CHR 0x1E, CHR 0x85]"

lemma break_is_space: "is_break c \<Longrightarrow> is_space c"
  by (auto simp: is_break_def is_space_def)

lemma is_break_LF [simp]: "is_break LF"
  by (simp add: is_break_def)

lemma is_space_LF [simp]: "is_space LF"
  by (simp add: is_space_def)

lemma is_space_SP [simp]: "is_space (CHR '' '')"
  by (simp add: is_space_def)

text \<open>\<open>str.lower\<close> on the ASCII letters.\<close>

definition to_lower_char :: "char \<Rightarrow> char" where
  "to_lower_char c = (if CHR ''A'' \<le> c \<and> c \<le> CHR ''Z'' then char_of (of_char c + 32 :: nat) else c)"

definition lower :: "string \<Rightarrow> string" where
  "lower s = map to_lower_char s"

section \<open>strip, split, startswith\<close>

definition lstrip :: "string \<Rightarrow> string" where
  "lstrip s = dropWhile is_space s"

definition rstrip :: "string \<Rightarrow> string" where
  "rstrip s = rev (dropWhile is_space (rev s))"

definition strip :: "string \<Rightarrow> string" where
  "strip s = rstrip (lstrip s)"

text \<open>\<open>s.lstrip(c)\<close> for one character.\<close>

definition lstrip_char :: "char \<Rightarrow> string \<Rightarrow> string" where
  "lstrip_char c s = dropWhile (\<lambda>d. d = c) s"

function split_ws :: "string \<Rightarrow> string list" where
  "split_ws s =
     (case dropWhile is_space s of
        [] \<Rightarrow> []
      | c # cs \<Rightarrow> (c # takeWhile (\<lambda>d. \<not> is_space d) cs)
                 # split_ws (dropWhile (\<lambda>d. \<not> is_space d) cs))"
  by pat_completeness auto
termination
proof (relation "measure length", goal_cases)
  case (2 s c cs)
  have "length (dropWhile (\<lambda>d. \<not> is_space d) cs) \<le> length cs"
    by (rule length_dropWhile_le)
  also have "length cs < length (dropWhile is_space s)"
    using 2 by simp
  also have "\<dots> \<le> length s"
    by (rule length_dropWhile_le)
  finally show ?case by simp
qed simp

declare split_ws.simps [simp del]

text \<open>\<open>s.split(sep, 1)\<close> where \<open>sep in s\<close>: what is before the first \<open>sep\<close>, and after it.\<close>

definition split1 :: "char \<Rightarrow> string \<Rightarrow> string \<times> string" where
  "split1 sep s = (takeWhile (\<lambda>c. c \<noteq> sep) s, drop 1 (dropWhile (\<lambda>c. c \<noteq> sep) s))"

abbreviation starts_with :: "string \<Rightarrow> string \<Rightarrow> bool" where
  "starts_with s p \<equiv> prefix p s"

abbreviation ends_with :: "string \<Rightarrow> string \<Rightarrow> bool" where
  "ends_with s p \<equiv> suffix p s"

text \<open>\<open>p in s\<close> for strings.\<close>

abbreviation contains :: "string \<Rightarrow> string \<Rightarrow> bool" where
  "contains s p \<equiv> sublist p s"

fun join :: "string \<Rightarrow> string list \<Rightarrow> string" where
  "join sep [] = []"
| "join sep [x] = x"
| "join sep (x # y # zs) = x @ sep @ join sep (y # zs)"

text \<open>\<open>str\<close> of a natural number.\<close>

fun nat_digits :: "nat \<Rightarrow> string" where
  "nat_digits n = (if n < 10 then [char_of (48 + n)] else nat_digits (n div 10) @ [char_of (48 + n mod 10)])"

declare nat_digits.simps [simp del]

lemma split_ws_word:
  assumes "w \<noteq> []" and "\<forall>c \<in> set w. \<not> is_space c" and "s = [] \<or> is_space (hd s)"
  shows "split_ws (w @ s) = w # split_ws s"
proof -
  obtain c cs where w: "w = c # cs"
    using assms(1) by (cases w) auto
  have "takeWhile (\<lambda>d. \<not> is_space d) (cs @ s) = cs" and "dropWhile (\<lambda>d. \<not> is_space d) (cs @ s) = s"
    using assms(2,3) w by (cases s; simp)+
  then show ?thesis
    using assms(2) w by (subst split_ws.simps) simp
qed

lemma split_ws_space: "is_space c \<Longrightarrow> split_ws (c # s) = split_ws s"
  by (subst (1 2) split_ws.simps) simp

lemma split_ws_spaces: "\<forall>c \<in> set s. is_space c \<Longrightarrow> split_ws s = []"
  by (subst split_ws.simps) (simp add: dropWhile_eq_Nil_conv [THEN iffD2])

lemma split_ws_join:
  assumes "\<forall>w \<in> set ws. w \<noteq> [] \<and> (\<forall>c \<in> set w. \<not> is_space c)" and "\<forall>c \<in> set s. is_space c"
  shows "split_ws (join '' '' ws @ s) = ws"
  using assms(1)
proof (induction "'' ''" ws rule: join.induct)
  case 1
  then show ?case
    using assms(2) by (simp add: split_ws_spaces)
next
  case (2 x)
  have "s = [] \<or> is_space (hd s)"
    using assms(2) by (cases s) auto
  then show ?case
    using 2 assms(2) by (simp add: split_ws_word split_ws_spaces)
next
  case (3 x y zs)
  then show ?case
    by (simp add: split_ws_word split_ws_space)
qed

lemma strip_Nil [simp]: "strip [] = []"
  by (simp add: strip_def rstrip_def lstrip_def)

lemma rstrip_id: "s = [] \<or> \<not> is_space (last s) \<Longrightarrow> rstrip s = s"
  by (cases s rule: rev_cases) (auto simp: rstrip_def)

lemma lstrip_id: "s = [] \<or> \<not> is_space (hd s) \<Longrightarrow> lstrip s = s"
  by (cases s) (auto simp: lstrip_def)

lemma strip_id: "s = [] \<or> (\<not> is_space (hd s) \<and> \<not> is_space (last s)) \<Longrightarrow> strip s = s"
  by (auto simp: strip_def lstrip_id rstrip_id)

lemma rstrip_append_space: "\<forall>c \<in> set ws. is_space c \<Longrightarrow> rstrip (s @ ws) = rstrip s"
  by (simp add: rstrip_def) (subst dropWhile_append2, auto)

lemma strip_append_LF:
  assumes "s \<noteq> []" and "\<not> is_space (hd s)"
  shows "strip (s @ [LF]) = strip s"
proof -
  have "lstrip (s @ [LF]) = s @ [LF]" and "lstrip s = s"
    using assms by (cases s; simp add: lstrip_def)+
  then show ?thesis
    by (simp add: strip_def rstrip_append_space)
qed

lemma sublist_lstrip: "sublist (lstrip s) s"
  unfolding lstrip_def by (rule suffix_imp_sublist) (rule suffix_dropWhile)

lemma sublist_rstrip: "sublist (rstrip s) s"
proof (rule prefix_imp_sublist)
  have "suffix (dropWhile is_space (rev s)) (rev s)"
    by (rule suffix_dropWhile)
  then show "prefix (rstrip s) s"
    by (simp add: rstrip_def suffix_to_prefix)
qed

lemma sublist_strip: "sublist (strip s) s"
  unfolding strip_def
  by (rule sublist_order.order_trans [OF sublist_rstrip sublist_lstrip])

section \<open>Lines\<close>

text \<open>
  \<open>s.splitlines(keepends=True)\<close>: the carriage return and line feed pair is one
  break, every other break character ends a line by itself, and a last line without a
  break is a line too.
\<close>

fun splitlines_keep :: "string \<Rightarrow> string list" where
  "splitlines_keep [] = []"
| "splitlines_keep (c # cs) =
     (if c = CR \<and> starts_with cs [LF] then [CR, LF] # splitlines_keep (tl cs)
      else if is_break c then [c] # splitlines_keep cs
      else (case splitlines_keep cs of [] \<Rightarrow> [[c]] | l # ls \<Rightarrow> (c # l) # ls))"

text \<open>A line of \<open>splitlines_keep\<close> without its break.\<close>

definition chomp :: "string \<Rightarrow> string" where
  "chomp l = takeWhile (\<lambda>c. \<not> is_break c) l"

definition splitlines :: "string \<Rightarrow> string list" where
  "splitlines s = map chomp (splitlines_keep s)"

lemma concat_splitlines_keep [simp]: "concat (splitlines_keep s) = s"
proof (induction s rule: splitlines_keep.induct)
  case (2 c cs)
  then show ?case
    by (auto split: list.splits simp: prefix_def)
qed simp

lemma splitlines_keep_eq_Nil [simp]: "splitlines_keep s = [] \<longleftrightarrow> s = []"
  by (cases s) (auto split: list.splits)

lemma splitlines_keep_nonempty: "l \<in> set (splitlines_keep s) \<Longrightarrow> l \<noteq> []"
  by (induction s rule: splitlines_keep.induct) (auto split: list.splits if_splits)

lemma splitlines_keep_chars: "l \<in> set (splitlines_keep s) \<Longrightarrow> set l \<subseteq> set s"
  using concat_splitlines_keep [of s]
  by (metis UN_upper image_eqI set_concat)

lemma in_set_tl: "x \<in> set (tl xs) \<Longrightarrow> x \<in> set xs"
  by (cases xs) auto

text \<open>
  Two texts can be split separately where a break separates them: the first is empty or
  ends with a break which is not the carriage return of a pair.
\<close>

definition line_end :: "string \<Rightarrow> string \<Rightarrow> bool" where
  "line_end a b \<longleftrightarrow> a = [] \<or> (is_break (last a) \<and> \<not> (last a = CR \<and> starts_with b [LF]))"

lemma line_end_LF [simp]: "line_end (a @ [LF]) b"
  by (simp add: line_end_def)

lemma splitlines_keep_append:
  "line_end a b \<Longrightarrow> splitlines_keep (a @ b) = splitlines_keep a @ splitlines_keep b"
proof (induction a rule: splitlines_keep.induct)
  case (2 c cs)
  show ?case
  proof (cases "c = CR \<and> starts_with cs [LF]")
    case True
    then obtain ds where cs: "cs = LF # ds"
      by (auto simp: prefix_def)
    have "line_end ds b"
      using "2.prems" cs by (auto simp: line_end_def split: if_splits)
    then show ?thesis
      using 2 True cs by simp
  next
    case False
    show ?thesis
    proof (cases cs)
      case Nil
      then show ?thesis
        using 2 False by (auto simp: line_end_def)
    next
      case (Cons d ds)
      then have "line_end cs b"
        using "2.prems" by (simp add: line_end_def)
      then have IH: "splitlines_keep (cs @ b) = splitlines_keep cs @ splitlines_keep b"
        using 2 False by (cases "is_break c") auto
      have ne: "splitlines_keep cs \<noteq> []"
        using Cons by (simp del: splitlines_keep.simps)
      have "\<not> (c = CR \<and> starts_with (cs @ b) [LF])"
        using False Cons by (auto simp: prefix_def)
      then show ?thesis
        using False IH ne by (auto split: list.splits)
    qed
  qed
qed simp

lemma splitlines_keep_line:
  "\<forall>c \<in> set l. \<not> is_break c \<Longrightarrow> splitlines_keep (l @ [LF]) = [l @ [LF]]"
  by (induction l) (auto simp: is_break_def)

lemma splitlines_keep_line_append:
  "\<forall>c \<in> set l. \<not> is_break c \<Longrightarrow> splitlines_keep (l @ LF # b) = (l @ [LF]) # splitlines_keep b"
  using splitlines_keep_append [of "l @ [LF]" b] by (simp add: splitlines_keep_line)

lemma splitlines_keep_concat_lines:
  "\<forall>l \<in> set ls. \<forall>c \<in> set l. \<not> is_break c \<Longrightarrow>
   splitlines_keep (concat (map (\<lambda>l. l @ [LF]) ls) @ b) = map (\<lambda>l. l @ [LF]) ls @ splitlines_keep b"
  by (induction ls) (auto simp: splitlines_keep_line_append)

lemma splitlines_lines:
  assumes "\<forall>l \<in> set ls. \<forall>c \<in> set l. \<not> is_break c"
  shows "splitlines (concat (map (\<lambda>l. l @ [LF]) ls)) = ls"
proof -
  have "chomp (l @ [LF]) = l" if "l \<in> set ls" for l
    using that assms by (simp add: chomp_def)
  then have "map (\<lambda>l. chomp (l @ [LF])) ls = ls"
    by (rule map_idI)
  then show ?thesis
    using splitlines_keep_concat_lines [OF assms, of "[]"] by (simp add: splitlines_def o_def)
qed

text \<open>Splitting a text at a line boundary of its own.\<close>

lemma splitlines_keep_take_drop:
  assumes "splitlines_keep s = ls1 @ ls2"
  shows "splitlines_keep (concat ls1) = ls1 \<and> splitlines_keep (concat ls2) = ls2
    \<and> (ls2 \<noteq> [] \<longrightarrow> line_end (concat ls1) (concat ls2))"
  using assms
proof (induction s arbitrary: ls1 rule: splitlines_keep.induct)
  case (2 c cs)
  show ?case
  proof (cases ls1)
    case Nil
    then show ?thesis
      using "2.prems" concat_splitlines_keep [of "c # cs"]
      by (auto simp: line_end_def simp del: splitlines_keep.simps concat_splitlines_keep)
  next
    case (Cons l ls)
    show ?thesis
    proof (cases "c = CR \<and> starts_with cs [LF]")
      case True
      then have l: "l = [CR, LF]" and ls: "splitlines_keep (tl cs) = ls @ ls2"
        using "2.prems" Cons by auto
      from "2.IH"(1) [OF True ls] show ?thesis
        using Cons l by (auto simp: line_end_def)
    next
      case notpair: False
      show ?thesis
      proof (cases "is_break c")
        case True
        then have l: "l = [c]" and ls: "splitlines_keep cs = ls @ ls2"
          using "2.prems" Cons notpair by (auto split: if_splits)
        have cs: "cs = concat ls @ concat ls2"
          using arg_cong [OF ls, of concat] by simp
        from "2.IH"(2) [OF notpair True ls] show ?thesis
          using Cons l True notpair cs by (cases "concat ls") (auto simp: line_end_def)
      next
        case False
        show ?thesis
        proof (cases "splitlines_keep cs")
          case Nil
          then show ?thesis
            using "2.prems" Cons notpair False by (auto simp: is_break_def)
        next
          case (Cons m ms)
          with "2.prems" \<open>ls1 = l # ls\<close> notpair False
          have l: "l = c # m" and ms: "splitlines_keep cs = (m # ls) @ ls2"
            by (auto split: list.splits)
          have ne: "m \<noteq> []"
            using Cons by (intro splitlines_keep_nonempty [of m cs]) simp
          have cs: "cs = m @ concat ls @ concat ls2"
            using arg_cong [OF ms, of concat] by simp
          from "2.IH"(3) [OF notpair False ms] show ?thesis
            using \<open>ls1 = l # ls\<close> l ne cs notpair False
            by (cases m) (auto simp: line_end_def split: list.splits)
        qed
      qed
    qed
  qed
qed (simp add: line_end_def)

text \<open>Reading a text file: universal newlines.\<close>

fun universal_newlines :: "string \<Rightarrow> string" where
  "universal_newlines [] = []"
| "universal_newlines (c # cs) =
     (if c = CR then LF # universal_newlines (if starts_with cs [LF] then tl cs else cs)
      else c # universal_newlines cs)"

lemma universal_newlines_id: "CR \<notin> set s \<Longrightarrow> universal_newlines s = s"
  by (induction s) auto

lemma universal_newlines_no_CR: "CR \<notin> set (universal_newlines s)"
  by (induction s rule: universal_newlines.induct) auto

lemma universal_newlines_idem [simp]: "universal_newlines (universal_newlines s) = universal_newlines s"
  by (simp add: universal_newlines_id universal_newlines_no_CR)

section \<open>Paths\<close>

abbreviation SLASH :: char where "SLASH \<equiv> CHR ''/''"

definition path_join :: "string \<Rightarrow> string \<Rightarrow> string" where
  "path_join a b =
     (if starts_with b [SLASH] then b
      else if a = [] \<or> ends_with a [SLASH] then a @ b
      else a @ [SLASH] @ b)"

definition basename :: "string \<Rightarrow> string" where
  "basename p = rev (takeWhile (\<lambda>c. c \<noteq> SLASH) (rev p))"

lemma basename_append: "SLASH \<notin> set p \<Longrightarrow> d = [] \<or> last d = SLASH \<Longrightarrow> basename (d @ p) = p"
proof -
  assume p: "SLASH \<notin> set p" and d: "d = [] \<or> last d = SLASH"
  have all: "\<And>c. c \<in> set (rev p) \<Longrightarrow> c \<noteq> SLASH"
    using p by auto
  have "takeWhile (\<lambda>c. c \<noteq> SLASH) (rev p @ rev d) = rev p @ takeWhile (\<lambda>c. c \<noteq> SLASH) (rev d)"
    using all by (rule takeWhile_append2)
  also have "takeWhile (\<lambda>c. c \<noteq> SLASH) (rev d) = []"
    using d by (cases d rule: rev_cases) auto
  finally show ?thesis
    by (simp add: basename_def)
qed

lemma basename_join: "SLASH \<notin> set p \<Longrightarrow> basename (path_join d p) = p"
  using basename_append [of p d] basename_append [of p "d @ [SLASH]"]
  by (auto simp: path_join_def prefix_def suffix_def)

text \<open>\<open>os.path.dirname\<close>: the trailing slashes of the head go unless it is all slashes.\<close>

definition dirname :: "string \<Rightarrow> string" where
  "dirname p =
     (let head = rev (dropWhile (\<lambda>c. c \<noteq> SLASH) (rev p));
          short = rev (dropWhile (\<lambda>c. c = SLASH) (rev head))
      in if short = [] then head else short)"

section \<open>Lists of options\<close>

lemma those_map_id: "(\<And>x. x \<in> set xs \<Longrightarrow> f x = Some (g x)) \<Longrightarrow> those (map f xs) = Some (map g xs)"
  by (induction xs) auto

section \<open>Dictionaries\<close>

text \<open>A dictionary is an association list with distinct keys, in insertion order.\<close>

abbreviation dict_ok :: "('k \<times> 'v) list \<Rightarrow> bool" where
  "dict_ok d \<equiv> distinct (map fst d)"

lemma dict_ok_update [simp]: "dict_ok d \<Longrightarrow> dict_ok (AList.update k v d)"
  by (rule distinct_update)

lemma dict_ok_delete [simp]: "dict_ok d \<Longrightarrow> dict_ok (AList.delete k d)"
  by (rule distinct_delete)

lemma map_of_update [simp]: "map_of (AList.update k v d) = (map_of d)(k \<mapsto> v)"
  by (rule ext) (simp add: update_conv')

lemma map_of_delete [simp]: "map_of (AList.delete k d) = (map_of d)(k := None)"
  by (rule ext) (simp add: delete_conv')

section \<open>Files by key\<close>

text \<open>
  The contract the components that keep one file per key rely on (face models, kept
  passwords, passkey records): what reading gives after a file was written or removed.
\<close>

locale file_store =
  fixes read :: "'w \<Rightarrow> 'k \<Rightarrow> 'v option"
    and put :: "'k \<Rightarrow> 'v \<Rightarrow> 'w \<Rightarrow> 'w"
    and drop_key :: "'k \<Rightarrow> 'w \<Rightarrow> 'w"
  assumes read_put: "read (put k v w) = (read w)(k \<mapsto> v)"
    and read_drop: "read (drop_key k w) = (read w)(k := None)"
begin

text \<open>An update: a new content, or \<open>None\<close> for a removal.\<close>

definition apply_update :: "'k \<times> 'v option \<Rightarrow> 'w \<Rightarrow> 'w" where
  "apply_update u w = (case snd u of None \<Rightarrow> drop_key (fst u) w | Some v \<Rightarrow> put (fst u) v w)"

lemma read_apply: "read (apply_update u w) = (read w)(fst u := snd u)"
  by (auto simp: apply_update_def read_put read_drop split: option.splits)

lemma read_untouched:
  "k \<notin> fst ` set us \<Longrightarrow> read (fold apply_update us w) k = read w k"
  by (induction us arbitrary: w) (auto simp: read_apply)

lemma read_last:
  "k \<notin> fst ` set us' \<Longrightarrow> read (fold apply_update (us @ (k, v) # us') w) k = v"
  by (simp add: read_untouched read_apply)

lemma put_restored: "read w k = Some v \<Longrightarrow> read (put k v (put k v' w)) = read w"
  by (auto simp: read_put fun_eq_iff)

lemma drop_restored: "read w k = None \<Longrightarrow> read (drop_key k (put k v w)) = read w"
  by (auto simp: read_put read_drop fun_eq_iff)

end

end
