(* ===== verification/Daemon_Access.thy ===== *)
theory Daemon_Access
  imports LH_Prelude
begin

text \<open>
  Who may call what: the result codes (\<^verbatim>\<open>verification.py\<close>), the access rules
  (\<^verbatim>\<open>daemon/access.py\<close>) and the dispatcher (\<^verbatim>\<open>daemon/dispatch.py\<close>).

  What other services answer is a record: polkit's decision for a caller and an action, the
  account database, and what logind says of sessions; a call that fails is \<open>None\<close>. An
  error sent back to the caller is a value \<open>Failed name\<close> with the stable part of its
  name.
\<close>

section \<open>verification.py: result codes\<close>

datatype vresult = SUCCESS | NO_FACE_MODEL | TIMEOUT_REACHED | ABORT | TOO_DARK | INVALID_DEVICE
  | RUBBERSTAMP | NOT_CONFIRMED | CONFIRM_PAUSED | SKIPPED | NOT_LOCAL | CONFIRM_CONFLICT
  | CANCELLED | UNKNOWN_ERROR

fun result_code :: "vresult \<Rightarrow> int" where
  "result_code SUCCESS = 0"
| "result_code NO_FACE_MODEL = 10"
| "result_code TIMEOUT_REACHED = 11"
| "result_code ABORT = 12"
| "result_code TOO_DARK = 13"
| "result_code INVALID_DEVICE = 14"
| "result_code RUBBERSTAMP = 15"
| "result_code NOT_CONFIRMED = 16"
| "result_code CONFIRM_PAUSED = 17"
| "result_code SKIPPED = 18"
| "result_code NOT_LOCAL = 19"
| "result_code CONFIRM_CONFLICT = 20"
| "result_code CANCELLED = 250"
| "result_code UNKNOWN_ERROR = 251"

definition all_results :: "vresult list" where
  "all_results = [SUCCESS, NO_FACE_MODEL, TIMEOUT_REACHED, ABORT, TOO_DARK, INVALID_DEVICE,
     RUBBERSTAMP, NOT_CONFIRMED, CONFIRM_PAUSED, SKIPPED, NOT_LOCAL, CONFIRM_CONFLICT,
     CANCELLED, UNKNOWN_ERROR]"

definition from_exit_code :: "int \<Rightarrow> vresult" where
  "from_exit_code code =
     (case List.find (\<lambda>r. result_code r = code) all_results of Some r \<Rightarrow> r | None \<Rightarrow> UNKNOWN_ERROR)"

section \<open>verification.py: asking the service\<close>

text \<open>What the call over the bus comes to; \<open>Reply\<close> holds the first value of the body.\<close>

datatype bus_answer = NoBus | CallTimeout | CallRaised | ErrorReply | Reply int

text \<open>
  \<open>FaceVerifier.verify\<close>: the flags say whether another verification of this instance runs,
  and whether \<open>cancel\<close> came before the bus was there or while the call ran.
\<close>

definition face_verify :: "string \<Rightarrow> bool \<Rightarrow> bool \<Rightarrow> bool \<Rightarrow> bus_answer \<Rightarrow> vresult" where
  "face_verify user already_running early_cancel cancelled answer =
     (if user = [] \<or> user = ''root'' then ABORT
      else if already_running then ABORT
      else if answer = NoBus then UNKNOWN_ERROR
      else if early_cancel then CANCELLED
      else (case answer of
              CallTimeout \<Rightarrow> TIMEOUT_REACHED
            | CallRaised \<Rightarrow> if cancelled then CANCELLED else UNKNOWN_ERROR
            | ErrorReply \<Rightarrow> if cancelled then CANCELLED else UNKNOWN_ERROR
            | Reply code \<Rightarrow> if cancelled then CANCELLED else from_exit_code code
            | NoBus \<Rightarrow> UNKNOWN_ERROR))"

section \<open>access.py\<close>

datatype failure = Failed string

record caller =
  sender :: string
  uid :: nat

record session =
  s_active :: "bool option"
  s_remote :: "bool option"

record bus =
  connection_uid :: "string \<Rightarrow> nat option"
  polkit :: "string \<Rightarrow> string \<Rightarrow> bool option"
  getpwuid :: "nat \<Rightarrow> string option"
  getpwnam :: "string \<Rightarrow> nat option"
  session_by_pid :: "nat \<Rightarrow> string option"
  list_sessions :: "(nat \<times> string \<times> string) list option"
  session_properties :: "string \<Rightarrow> session option"

definition ACTION_ENROLL_SELF :: string where "ACTION_ENROLL_SELF = ''io.github.linuxhello.enroll-self''"
definition ACTION_MANAGE_USERS :: string where "ACTION_MANAGE_USERS = ''io.github.linuxhello.manage-users''"
definition ACTION_CONFIGURE :: string where "ACTION_CONFIGURE = ''io.github.linuxhello.configure''"
definition ACTION_PREVIEW :: string where "ACTION_PREVIEW = ''io.github.linuxhello.preview''"

definition resolve :: "bus \<Rightarrow> string \<Rightarrow> failure + caller" where
  "resolve b s =
     (case connection_uid b s of
        None \<Rightarrow> Inl (Failed ''Internal'')
      | Some u \<Rightarrow> Inr \<lparr>sender = s, uid = u\<rparr>)"

definition authorized :: "bus \<Rightarrow> caller \<Rightarrow> string \<Rightarrow> failure + bool" where
  "authorized b c action =
     (if uid c = 0 then Inr True
      else (case polkit b (sender c) action of
              None \<Rightarrow> Inl (Failed ''Internal'')
            | Some yes \<Rightarrow> Inr yes))"

definition require :: "bus \<Rightarrow> caller \<Rightarrow> string \<Rightarrow> failure + unit" where
  "require b c action =
     rbind (authorized b c action)
       (\<lambda>yes. if yes then Inr () else Inl (Failed ''PermissionDenied''))"

definition is_self :: "bus \<Rightarrow> caller \<Rightarrow> string \<Rightarrow> bool" where
  "is_self b c user \<longleftrightarrow> uid c \<noteq> 0 \<and> getpwuid b (uid c) = Some user"

definition require_self_or_admin :: "bus \<Rightarrow> caller \<Rightarrow> string \<Rightarrow> string option \<Rightarrow> failure + unit" where
  "require_self_or_admin b c user action_self =
     (if uid c = 0 then Inr ()
      else if is_self b c user then
        (case action_self of None \<Rightarrow> Inr () | Some action \<Rightarrow> require b c action)
      else require b c ACTION_MANAGE_USERS)"

definition local_and_active :: "session option \<Rightarrow> bool" where
  "local_and_active props =
     (case props of None \<Rightarrow> False | Some s \<Rightarrow> s_active s = Some True \<and> s_remote s = Some False)"

definition has_local_session :: "bus \<Rightarrow> nat \<Rightarrow> nat \<Rightarrow> bool" where
  "has_local_session b u pid =
     (if pid \<noteq> 0 \<and> (case session_by_pid b pid of
                       None \<Rightarrow> False
                     | Some path \<Rightarrow> \<not> local_and_active (session_properties b path))
      then False
      else (case list_sessions b of
              None \<Rightarrow> False
            | Some ss \<Rightarrow> list_ex (\<lambda>(session_uid, seat, path).
                session_uid = u \<and> seat \<noteq> [] \<and> local_and_active (session_properties b path)) ss))"

section \<open>dispatch.py\<close>

datatype dispatch = NotOurs | IntrospectionReply | UnknownMethod | InvalidArgs | StartTask string

record message =
  is_call :: bool
  msg_path :: string
  msg_interface :: "string option"
  msg_member :: string
  msg_signature :: string

definition handle :: "string \<Rightarrow> string \<Rightarrow> (string \<times> string) list \<Rightarrow> message \<Rightarrow> dispatch" where
  "handle path interface signatures m =
     (if \<not> is_call m \<or> msg_path m \<noteq> path then NotOurs
      else if msg_interface m = Some ''org.freedesktop.DBus.Introspectable'' \<and> msg_member m = ''Introspect''
      then IntrospectionReply
      else if msg_interface m = Some ''org.freedesktop.DBus.Peer'' then NotOurs
      else if msg_interface m \<noteq> Some interface \<and> msg_interface m \<noteq> None then NotOurs
      else (case map_of signatures (msg_member m) of
              None \<Rightarrow> UnknownMethod
            | Some sig \<Rightarrow> if msg_signature m \<noteq> sig then InvalidArgs else StartTask (msg_member m)))"

text \<open>
  The reply of a finished task: what the method returned, the error it raised under its own
  name, or \<open>Internal\<close> for any other exception; nothing where no reply is expected.
\<close>

datatype 'a outcome = Returned 'a | DBusError string | OtherException string
datatype 'a reply = MethodReturn 'a | ErrorReplied string

definition ERROR_PREFIX :: string where "ERROR_PREFIX = ''io.github.LinuxHello1.Error.''"

definition run_reply :: "bool \<Rightarrow> 'a outcome \<Rightarrow> 'a reply option" where
  "run_reply no_reply_expected out =
     (let reply = (case out of
                     Returned a \<Rightarrow> MethodReturn a
                   | DBusError name \<Rightarrow> ErrorReplied name
                   | OtherException _ \<Rightarrow> ErrorReplied (ERROR_PREFIX @ ''Internal''))
      in if no_reply_expected then None else Some reply)"

text \<open>The methods the service offers, with the signature of their arguments.\<close>

definition method_signatures :: "(string \<times> string) list" where
  "method_signatures =
     [(''GetStatus'', ''''), (''Verify'', ''s''), (''VerifyNow'', ''s''), (''VerifyConfirmed'', ''su''),
      (''Enroll'', ''ss''), (''Cancel'', ''''), (''ListModels'', ''s''), (''RenameModel'', ''sus''),
      (''DeleteModel'', ''su''), (''ListUsers'', ''''), (''ListTargets'', ''''), (''SetTarget'', ''sb''),
      (''GetSettings'', ''''), (''SetSetting'', ''sss''), (''ListCameras'', ''''), (''Diagnose'', ''''),
      (''RememberLoginSecret'', ''say''), (''LoginSecret'', ''s''), (''SecurityStatus'', '''')]"

section \<open>Facts\<close>

lemma require_Inr: "require b c action = Inr () \<longleftrightarrow> uid c = 0 \<or> polkit b (sender c) action = Some True"
  by (auto simp: require_def authorized_def rbind_Inr_iff split: option.splits if_splits)

lemma require_self_or_admin_Inr:
  "require_self_or_admin b c user action_self = Inr () \<longleftrightarrow>
     uid c = 0
     \<or> (getpwuid b (uid c) = Some user \<and> (\<forall>a. action_self = Some a \<longrightarrow> polkit b (sender c) a = Some True))
     \<or> (getpwuid b (uid c) \<noteq> Some user \<and> polkit b (sender c) ACTION_MANAGE_USERS = Some True)"
  by (auto simp: require_self_or_admin_def is_self_def require_Inr split: option.splits)

lemma from_exit_code_unknown: "code \<notin> result_code ` set all_results \<Longrightarrow> from_exit_code code = UNKNOWN_ERROR"
proof (cases "List.find (\<lambda>r. result_code r = code) all_results")
  case (Some r)
  then have "r \<in> set all_results" "result_code r = code"
    by (auto simp: find_Some_iff)
  moreover assume "code \<notin> result_code ` set all_results"
  ultimately show ?thesis
    by auto
qed (simp add: from_exit_code_def)

text \<open>
  The result codes survive the bus: every result is read back from its code, and a code
  that means nothing is an unknown error, never a success. What the passkey side takes for a
  success is a success the service sent, for a user who is not root, in a call that was not
  cancelled.
\<close>

theorem result_codes_roundtrip:
  "from_exit_code (result_code r) = r
   \<and> (\<not> (\<exists>r'. result_code r' = code) \<longrightarrow> from_exit_code code = UNKNOWN_ERROR)
   \<and> (face_verify user running early cancelled answer = SUCCESS \<longrightarrow>
        answer = Reply 0 \<and> \<not> cancelled \<and> \<not> early \<and> \<not> running \<and> user \<noteq> ''root'' \<and> user \<noteq> [])"
proof (intro conjI impI)
  show rt: "from_exit_code (result_code r) = r" for r
    by (cases r) (simp_all add: from_exit_code_def all_results_def)
  show "\<not> (\<exists>r'. result_code r' = code) \<Longrightarrow> from_exit_code code = UNKNOWN_ERROR"
    by (rule from_exit_code_unknown) auto
  assume s: "face_verify user running early cancelled answer = SUCCESS"
  then obtain k where k: "answer = Reply k" "from_exit_code k = SUCCESS"
    by (auto simp: face_verify_def split: if_splits bus_answer.splits)
  then obtain r' where "result_code r' = k"
    using from_exit_code_unknown [of k] by auto
  then show "answer = Reply 0"
    using k rt [of r'] by auto
  show "\<not> cancelled" "\<not> early" "\<not> running" "user \<noteq> ''root''" "user \<noteq> []"
    using s by (auto simp: face_verify_def split: if_splits bus_answer.splits)
qed

theorem result_codes_roundtrip_witness:
  "face_verify ''alice'' False False False (Reply 0) = SUCCESS \<and> from_exit_code 99 = UNKNOWN_ERROR"
proof -
  have "\<not> (\<exists>r'. result_code r' = 99)"
  proof
    assume "\<exists>r'. result_code r' = 99"
    then obtain r' where "result_code r' = 99" ..
    then show False
      by (cases r') auto
  qed
  then have "from_exit_code 99 = UNKNOWN_ERROR"
    using result_codes_roundtrip [of SUCCESS 99] by blast
  moreover have "face_verify ''alice'' False False False (Reply 0) = SUCCESS"
    using result_codes_roundtrip [of SUCCESS 0 "[]" False False False NoBus] by (simp add: face_verify_def)
  ultimately show ?thesis
    by simp
qed

text \<open>
  Whose face may be asked for an elevation: someone has to be able to sit at the
  keyboard. The user has an active, local session at a seat, and the asking process, where
  logind knows its session, is in one that is active and local too.
\<close>

theorem local_session_needs_seat:
  assumes "has_local_session b u pid"
  shows "(\<exists>ss seat path. list_sessions b = Some ss \<and> (u, seat, path) \<in> set ss \<and> seat \<noteq> []
            \<and> (\<exists>s. session_properties b path = Some s \<and> s_active s = Some True \<and> s_remote s = Some False))
    \<and> (pid \<noteq> 0 \<longrightarrow> (\<forall>path. session_by_pid b pid = Some path
           \<longrightarrow> (\<exists>s. session_properties b path = Some s \<and> s_active s = Some True \<and> s_remote s = Some False)))"
  using assms
  by (auto simp: has_local_session_def local_and_active_def list_ex_iff split: if_splits option.splits)

definition sample_bus :: bus where
  "sample_bus =
     \<lparr>connection_uid = (\<lambda>s. if s = '':1.5'' then Some 1000 else if s = '':1.1'' then Some 0 else None),
      polkit = (\<lambda>s a. Some (s = '':1.5'' \<and> a = ACTION_ENROLL_SELF)),
      getpwuid = (\<lambda>u. if u = 1000 then Some ''alice'' else if u = 0 then Some ''root'' else None),
      getpwnam = (\<lambda>n. if n = ''alice'' then Some 1000 else if n = ''root'' then Some 0 else None),
      session_by_pid = (\<lambda>p. None),
      list_sessions = Some [(1000, ''seat0'', ''/s2'')],
      session_properties = (\<lambda>p. Some \<lparr>s_active = Some True, s_remote = Some False\<rparr>)\<rparr>"

theorem local_session_needs_seat_witness:
  "has_local_session sample_bus 1000 77 \<and> (\<exists>ss. list_sessions sample_bus = Some ss)"
proof -
  have h: "has_local_session sample_bus 1000 77"
    by (simp add: has_local_session_def sample_bus_def local_and_active_def)
  show ?thesis
    using local_session_needs_seat [OF h] h by auto
qed

end
