(* ===== verification/Byte_Struct.thy ===== *)
theory Byte_Struct
  imports LH_Prelude "HOL-Library.Word"
begin

text \<open>
  What the sources use of \<open>struct\<close> and \<open>bytes\<close>: little and big endian fields, and
  arrays of records of a fixed size read with \<open>unpack_from\<close> at every offset that leaves
  room for a whole record. A byte is an \<open>8 word\<close>; a field's value is a natural number
  below its width, a signed field an integer.
\<close>

type_synonym byte = "8 word"

named_theorems byte_simps \<open>encoding and decoding of fixed-width fields\<close>

section \<open>Little and big endian fields\<close>

fun from_le :: "byte list \<Rightarrow> nat" where
  "from_le [] = 0"
| "from_le (b # bs) = unat b + 256 * from_le bs"

fun to_le :: "nat \<Rightarrow> nat \<Rightarrow> byte list" where
  "to_le 0 v = []"
| "to_le (Suc n) v = of_nat v # to_le n (v div 256)"

definition from_be :: "byte list \<Rightarrow> nat" where
  "from_be bs = from_le (rev bs)"

definition to_be :: "nat \<Rightarrow> nat \<Rightarrow> byte list" where
  "to_be n v = rev (to_le n v)"

text \<open>Two's complement of a field of \<open>n\<close> bytes.\<close>

definition signed_value :: "nat \<Rightarrow> nat \<Rightarrow> int" where
  "signed_value n v = (if int v < 2 ^ (8 * n - 1) then int v else int v - 2 ^ (8 * n))"

lemma length_to_le [simp]: "length (to_le n v) = n"
  by (induction n arbitrary: v) auto

lemma length_to_be [simp]: "length (to_be n v) = n"
  by (simp add: to_be_def)

lemma unat_of_nat_byte [simp]: "unat (of_nat v :: byte) = v mod 256"
  by (simp add: unat_of_nat)

lemma unat_byte_less [simp]: "unat (b :: byte) < 256"
  using unsigned_less [of b] by simp

lemma from_to_le_mod: "from_le (to_le n v) = v mod 256 ^ n"
proof (induction n arbitrary: v)
  case (Suc n)
  have "v mod 256 + 256 * (v div 256 mod 256 ^ n) = v mod (256 * 256 ^ n)"
    by (simp add: mod_mult2_eq)
  then show ?case
    using Suc by simp
qed simp

lemma from_to_le [byte_simps]: "v < 256 ^ n \<Longrightarrow> from_le (to_le n v) = v"
  by (simp add: from_to_le_mod)

lemma from_to_be [byte_simps]: "v < 256 ^ n \<Longrightarrow> from_be (to_be n v) = v"
  by (simp add: from_be_def to_be_def from_to_le)

lemma from_le_less: "from_le bs < 256 ^ length bs"
proof (induction bs)
  case (Cons b bs)
  have "x < 256 \<Longrightarrow> x + 256 * y < 256 * (y + 1)" for x y :: nat
    by simp
  from this [OF unat_byte_less] have "unat b + 256 * from_le bs < 256 * (from_le bs + 1)" .
  also have "\<dots> \<le> 256 * 256 ^ length bs"
    using Cons by (intro mult_le_mono2) simp
  finally show ?case
    by simp
qed simp

lemma from_be_less: "from_be bs < 256 ^ length bs"
  using from_le_less [of "rev bs"] by (simp add: from_be_def)

lemma to_from_le [byte_simps]: "to_le (length bs) (from_le bs) = bs"
proof (induction bs)
  case (Cons b bs)
  have "unat b < 256"
    by simp
  then have "(unat b + 256 * from_le bs) div 256 = from_le bs"
    by simp
  moreover have "(of_nat (unat b + 256 * from_le bs) :: byte) = b"
    by (rule word_unat_eq_iff [THEN iffD2]) (simp only: unat_of_nat_byte, simp)
  ultimately show ?case
    using Cons by simp
qed simp

lemma to_from_be [byte_simps]: "to_be (length bs) (from_be bs) = bs"
  using to_from_le [of "rev bs"] by (simp add: to_be_def from_be_def)

lemma from_le_append: "from_le (xs @ ys) = from_le xs + 256 ^ length xs * from_le ys"
  by (induction xs) (auto simp: algebra_simps)

section \<open>Arrays of records\<close>

text \<open>
  The records of \<open>n\<close> bytes at offsets 0, \<open>n\<close>, 2\<open>n\<close>, as \<open>range(0, len(data) - n + 1, n)\<close>
  walks them: a tail too short for a record is left out.
\<close>

function records :: "nat \<Rightarrow> 'a list \<Rightarrow> 'a list list" where
  "records n xs = (if n = 0 \<or> length xs < n then [] else take n xs # records n (drop n xs))"
  by pat_completeness auto
termination
  by (relation "measure (\<lambda>(n, xs). length xs)") auto

declare records.simps [simp del]

lemma records_short: "length xs < n \<Longrightarrow> records n xs = []"
  by (simp add: records.simps)

lemma records_append: "0 < n \<Longrightarrow> length x = n \<Longrightarrow> records n (x @ xs) = x # records n xs"
  by (subst records.simps) simp

lemma records_concat:
  assumes "0 < n" and "\<forall>x \<in> set xss. length x = n" and "length tail < n"
  shows "records n (concat xss @ tail) = xss"
  using assms(2)
proof (induction xss)
  case Nil
  then show ?case
    using assms(3) by (simp add: records_short)
next
  case (Cons x xss)
  then show ?case
    using assms(1) by (simp add: records_append)
qed

lemma records_length: "x \<in> set (records n xs) \<Longrightarrow> length x = n"
  by (induction n xs rule: records.induct) (subst (asm) (2) records.simps, auto split: if_splits)

end
