(* ===== verification/Input_Devices.thy ===== *)
theory Input_Devices
  imports Complex_Main Byte_Struct
begin

text \<open>
  \<^verbatim>\<open>daemon/confirm.py\<close> and \<^verbatim>\<open>daemon/presence.py\<close>: which input devices count, and
  the two waits on them (Enter before an elevation, any activity before the lock screen
  scans again).

  What the kernel shows of the devices is a record: readable text files, resolved links,
  directory listings, and the mode and access list of device nodes. A wait is a loop over
  rounds, one per iteration, each holding what the iteration observes: whether the request
  was cancelled, the monotonic clock (in seconds, as a real), and what reading the ready
  descriptors gives. Where the given rounds end before the loop does the result is \<open>None\<close>:
  the wait still runs.
\<close>

unbundle bit_operations_syntax

section \<open>Reading the system\<close>

record input_fs =
  read_file :: "string \<Rightarrow> string option"
  real_path :: "string \<Rightarrow> string"
  list_dir :: "string \<Rightarrow> string list option"
  node_mode :: "string \<Rightarrow> nat option"
  node_acl :: "string \<Rightarrow> byte list option"

definition hex_digit :: "char \<Rightarrow> int option" where
  "hex_digit c =
     (if CHR ''0'' \<le> c \<and> c \<le> CHR ''9'' then Some (of_char c - 48)
      else if CHR ''a'' \<le> c \<and> c \<le> CHR ''f'' then Some (of_char c - 87)
      else if CHR ''A'' \<le> c \<and> c \<le> CHR ''F'' then Some (of_char c - 55)
      else None)"

text \<open>
  \<open>int(word, 16)\<close> of a word without white space: a sign, the prefix \<open>0x\<close> and single
  underscores between digits are accepted, \<open>None\<close> is \<open>ValueError\<close>. The flag says
  whether the number may end or have an underscore here.
\<close>

fun hex_scan :: "bool \<Rightarrow> int \<Rightarrow> string \<Rightarrow> int option" where
  "hex_scan ok v [] = (if ok then Some v else None)"
| "hex_scan ok v (c # cs) =
     (if c = CHR ''_'' then (if ok then hex_scan False v cs else None)
      else (case hex_digit c of None \<Rightarrow> None | Some d \<Rightarrow> hex_scan True (16 * v + d) cs))"

definition hex_unsigned :: "string \<Rightarrow> int option" where
  "hex_unsigned s =
     (if starts_with s ''0x'' \<or> starts_with s ''0X''
      then (if length s = 2 then None else hex_scan True 0 (drop 2 s))
      else hex_scan False 0 s)"

definition int_of_hex :: "string \<Rightarrow> int option" where
  "int_of_hex s =
     (if starts_with s ''-'' then map_option uminus (hex_unsigned (drop 1 s))
      else if starts_with s ''+'' then hex_unsigned (drop 1 s)
      else hex_unsigned s)"

fun bitmap_words :: "int \<Rightarrow> string list \<Rightarrow> int option" where
  "bitmap_words v [] = Some v"
| "bitmap_words v (w # ws) =
     (case int_of_hex w of None \<Rightarrow> None | Some x \<Rightarrow> bitmap_words (push_bit 64 v OR x) ws)"

definition bitmap :: "input_fs \<Rightarrow> string \<Rightarrow> int option" where
  "bitmap fs path =
     (case read_file fs path of None \<Rightarrow> Some 0 | Some t \<Rightarrow> bitmap_words 0 (split_ws t))"

definition has_bit :: "int \<Rightarrow> nat \<Rightarrow> bool" where
  "has_bit v n \<longleftrightarrow> drop_bit n v AND 1 \<noteq> 0"

section \<open>confirm.py: physical keyboards\<close>

definition KEY_ESC :: nat where "KEY_ESC = 1"
definition KEY_ENTER :: nat where "KEY_ENTER = 28"
definition KEY_KPENTER :: nat where "KEY_KPENTER = 96"
definition BTN_MISC :: nat where "BTN_MISC = 0x100"
definition EV_KEY :: nat where "EV_KEY = 1"
definition PRESSED :: int where "PRESSED = 1"
definition WINDOW_SECONDS :: real where "WINDOW_SECONDS = 3"
definition OTHER_KEYS_ALLOWED :: nat where "OTHER_KEYS_ALLOWED = 1"
definition ACL_USER :: nat where "ACL_USER = 2"
definition ACL_GROUP :: nat where "ACL_GROUP = 8"
definition ACL_WRITE :: nat where "ACL_WRITE = 2"
definition S_IWOTH :: nat where "S_IWOTH = 2"

definition is_physical_keyboard :: "input_fs \<Rightarrow> string \<Rightarrow> bool option" where
  "is_physical_keyboard fs device =
     (if contains (real_path fs device) ''/devices/virtual/'' then Some False
      else map_option (\<lambda>v. has_bit v KEY_ENTER)
             (bitmap fs (path_join (path_join device ''capabilities'') ''key'')))"

definition udev_says_keyboard :: "input_fs \<Rightarrow> string \<Rightarrow> string \<Rightarrow> bool" where
  "udev_says_keyboard fs event udev_data =
     (case read_file fs (path_join event ''dev'') of
        None \<Rightarrow> False
      | Some dev \<Rightarrow>
          (case read_file fs (path_join udev_data (''c'' @ strip dev)) of
             None \<Rightarrow> False
           | Some t \<Rightarrow>
               ''E:ID_INPUT_KEYBOARD=1'' \<in> set (splitlines t)
               \<and> \<not> list_ex (\<lambda>l. starts_with l ''E:ID_INPUT_JOYSTICK='') (splitlines t)))"

text \<open>An entry of the access list: \<open>(tag, permissions, id)\<close> as \<open>ACL_ENTRY\<close> unpacks them.\<close>

definition acl_entry :: "byte list \<Rightarrow> nat \<times> nat \<times> nat" where
  "acl_entry bs = (from_le (take 2 bs), from_le (take 2 (drop 2 bs)), from_le (take 4 (drop 4 bs)))"

definition acl_entries :: "byte list \<Rightarrow> (nat \<times> nat \<times> nat) list" where
  "acl_entries acl = map acl_entry (records 8 (drop 4 acl))"

definition users_may_write :: "input_fs \<Rightarrow> string \<Rightarrow> bool" where
  "users_may_write fs node =
     (case node_mode fs node of
        None \<Rightarrow> True
      | Some mode \<Rightarrow>
          if mode AND S_IWOTH \<noteq> 0 then True
          else (case node_acl fs node of
                  None \<Rightarrow> False
                | Some acl \<Rightarrow>
                    list_ex (\<lambda>(tag, permissions, _). (tag = ACL_USER \<or> tag = ACL_GROUP)
                                \<and> permissions AND ACL_WRITE \<noteq> 0) (acl_entries acl)))"

fun keyboard_scan :: "input_fs \<Rightarrow> string \<Rightarrow> string \<Rightarrow> string \<Rightarrow> string list \<Rightarrow> string list option" where
  "keyboard_scan fs input_class udev_data dev_input [] = Some []"
| "keyboard_scan fs input_class udev_data dev_input (name # names) =
     (let event = path_join input_class name; node = path_join dev_input name;
          rest = keyboard_scan fs input_class udev_data dev_input names in
      if \<not> starts_with name ''event'' then rest
      else (case is_physical_keyboard fs (path_join event ''device'') of
              None \<Rightarrow> None
            | Some physical \<Rightarrow>
                if physical \<and> udev_says_keyboard fs event udev_data \<and> \<not> users_may_write fs node
                then map_option (Cons node) rest else rest))"

definition keyboards :: "input_fs \<Rightarrow> string \<Rightarrow> string \<Rightarrow> string \<Rightarrow> string list option" where
  "keyboards fs input_class udev_data dev_input =
     (case list_dir fs input_class of
        None \<Rightarrow> Some []
      | Some names \<Rightarrow> keyboard_scan fs input_class udev_data dev_input (sort names))"

section \<open>confirm.py: waiting for Enter\<close>

datatype pressed = ENTER | SKIP | TYPING | NOTHING

record enter_round =
  e_cancel :: bool
  e_now :: real
  e_reads :: "byte list option list"

text \<open>\<open>EVENT.unpack_from\<close>: the type, code and value of a \<open>struct input_event\<close>.\<close>

definition EVENT_SIZE :: nat where "EVENT_SIZE = 24"

definition unpack_event :: "byte list \<Rightarrow> nat \<times> nat \<times> int" where
  "unpack_event bs =
     (from_le (take 2 (drop 16 bs)), from_le (take 2 (drop 18 bs)),
      signed_value 4 (from_le (take 4 (drop 20 bs))))"

text \<open>The loop over the events of one read: the outcome, or how many other keys so far.\<close>

fun scan_events :: "nat \<Rightarrow> (nat \<times> nat \<times> int) list \<Rightarrow> pressed + nat" where
  "scan_events other [] = Inr other"
| "scan_events other ((k, code, v) # es) =
     (if k \<noteq> EV_KEY \<or> v \<noteq> PRESSED \<or> code \<ge> BTN_MISC then scan_events other es
      else if code = KEY_ENTER \<or> code = KEY_KPENTER then Inl ENTER
      else if code = KEY_ESC then Inl SKIP
      else if other + 1 > OTHER_KEYS_ALLOWED then Inl TYPING
      else scan_events (other + 1) es)"

fun scan_reads :: "nat \<Rightarrow> byte list option list \<Rightarrow> pressed + nat" where
  "scan_reads other [] = Inr other"
| "scan_reads other (None # rs) = scan_reads other rs"
| "scan_reads other (Some data # rs) =
     (case scan_events other (map unpack_event (records EVENT_SIZE data)) of
        Inl p \<Rightarrow> Inl p
      | Inr other' \<Rightarrow> scan_reads other' rs)"

fun enter_loop :: "real \<Rightarrow> nat \<Rightarrow> enter_round list \<Rightarrow> pressed option" where
  "enter_loop deadline other [] = None"
| "enter_loop deadline other (r # rs) =
     (if e_cancel r then Some NOTHING
      else if deadline - e_now r \<le> 0 then Some NOTHING
      else (case scan_reads other (e_reads r) of
              Inl p \<Rightarrow> Some p
            | Inr other' \<Rightarrow> enter_loop deadline other' rs))"

text \<open>\<open>opens\<close> says which of the device nodes can be opened; without any there is no wait.\<close>

definition wait_for_enter ::
    "string list \<Rightarrow> (string \<Rightarrow> bool) \<Rightarrow> real \<Rightarrow> real \<Rightarrow> enter_round list \<Rightarrow> pressed option" where
  "wait_for_enter devices opens start window rounds =
     (if filter opens devices = [] then Some NOTHING
      else enter_loop (start + window) 0 rounds)"

section \<open>presence.py\<close>

definition EV_REL :: nat where "EV_REL = 2"
definition EV_SW :: nat where "EV_SW = 5"
definition KEY_A :: nat where "KEY_A = 30"
definition BTN_LEFT :: nat where "BTN_LEFT = 0x110"
definition BTN_TOUCH :: nat where "BTN_TOUCH = 0x14A"
definition SW_LID :: nat where "SW_LID = 0"
definition RESCAN_SECONDS :: real where "RESCAN_SECONDS = 5"

definition is_activity_device :: "input_fs \<Rightarrow> string \<Rightarrow> bool option" where
  "is_activity_device fs capabilities =
     (case bitmap fs (path_join capabilities ''ev'') of None \<Rightarrow> None | Some ev \<Rightarrow>
     (case bitmap fs (path_join capabilities ''key'') of None \<Rightarrow> None | Some key \<Rightarrow>
      if has_bit ev EV_KEY \<and> (has_bit key KEY_A \<or> has_bit key BTN_LEFT \<or> has_bit key BTN_TOUCH)
      then Some True
      else if has_bit ev EV_REL then Some True
      else if has_bit ev EV_SW
      then map_option (\<lambda>sw. has_bit sw SW_LID) (bitmap fs (path_join capabilities ''sw''))
      else Some False))"

fun activity_scan :: "input_fs \<Rightarrow> string \<Rightarrow> string list \<Rightarrow> string list option" where
  "activity_scan fs input_class [] = Some []"
| "activity_scan fs input_class (name # names) =
     (let rest = activity_scan fs input_class names in
      if \<not> starts_with name ''event'' then rest
      else (case is_activity_device fs
                   (path_join (path_join (path_join input_class name) ''device'') ''capabilities'') of
              None \<Rightarrow> None
            | Some yes \<Rightarrow> if yes then map_option (Cons (path_join ''/dev/input'' name)) rest else rest))"

definition activity_devices :: "input_fs \<Rightarrow> string \<Rightarrow> string list option" where
  "activity_devices fs input_class =
     (case list_dir fs input_class of
        None \<Rightarrow> Some []
      | Some names \<Rightarrow> activity_scan fs input_class (sort names))"

text \<open>
  An iteration of the wait for activity: the devices a scan would find, those that can be
  opened, and, for a device select reports, whether reading it works.
\<close>

record watch_round =
  w_cancel :: bool
  w_now :: real
  w_devices :: "string list"
  w_opens :: "string \<Rightarrow> bool"
  w_ready :: "string \<Rightarrow> bool option"

definition open_new :: "(string \<Rightarrow> bool) \<Rightarrow> string list \<Rightarrow> string list \<Rightarrow> string list" where
  "open_new opens devices fds =
     fold (\<lambda>node fds. if node \<notin> set fds \<and> opens node then fds @ [node] else fds) devices fds"

fun activity_loop :: "real \<Rightarrow> real \<Rightarrow> string list \<Rightarrow> watch_round list \<Rightarrow> bool option" where
  "activity_loop deadline next_scan fds [] = None"
| "activity_loop deadline next_scan fds (r # rs) =
     (if w_cancel r then Some False
      else if w_now r \<ge> deadline then Some False
      else
        let scan = (w_now r \<ge> next_scan);
            fds' = (if scan then open_new (w_opens r) (w_devices r) fds else fds);
            next' = (if scan then w_now r + RESCAN_SECONDS else next_scan)
        in if list_ex (\<lambda>node. w_ready r node = Some True) fds' then Some True
           else activity_loop deadline next' fds' rs)"

definition wait_for_activity :: "real \<Rightarrow> real \<Rightarrow> watch_round list \<Rightarrow> bool option" where
  "wait_for_activity start timeout rounds = activity_loop (start + timeout) 0 [] rounds"

section \<open>What a capability bitmap says\<close>

lemma has_bit_bit: "has_bit v n \<longleftrightarrow> bit v n"
  by (simp add: has_bit_def and_one_eq bit_iff_odd_drop_bit odd_iff_mod_2_eq_one)

text \<open>How the kernel prints one word of a bitmap.\<close>

definition hex_chars :: string where "hex_chars = ''0123456789abcdef''"

function hex_of :: "nat \<Rightarrow> string" where
  "hex_of n = (if n < 16 then [hex_chars ! n] else hex_of (n div 16) @ [hex_chars ! (n mod 16)])"
  by pat_completeness auto
termination
  by (relation "measure id") auto

declare hex_of.simps [simp del]

lemma hex_digit_chars: "n < 16 \<Longrightarrow> hex_digit (hex_chars ! n) = Some (int n)"
proof -
  have "list_all (\<lambda>n. hex_digit (hex_chars ! n) = Some (int n)) [0..<16]"
    by code_simp
  then show "n < 16 \<Longrightarrow> ?thesis"
    by (simp add: list_all_iff)
qed

lemma hex_of_chars: "set (hex_of n) \<subseteq> set hex_chars \<and> hex_of n \<noteq> []"
proof (induction n rule: hex_of.induct)
  case (1 n)
  have "hex_chars ! i \<in> set hex_chars" if "i < 16" for i
    using that by (intro nth_mem) (simp add: hex_chars_def)
  then show ?case
    using 1 by (subst (1 2) hex_of.simps) auto
qed

lemma hex_chars_plain:
  "list_all (\<lambda>c. hex_digit c \<noteq> None \<and> c \<noteq> CHR ''_'' \<and> c \<notin> set ''xX+-'' \<and> \<not> is_space c) hex_chars"
  by code_simp

lemma hex_of_plain:
  "c \<in> set (hex_of n) \<Longrightarrow> hex_digit c \<noteq> None \<and> c \<noteq> CHR ''_'' \<and> c \<notin> set ''xX+-'' \<and> \<not> is_space c"
  using hex_chars_plain hex_of_chars [of n] unfolding list_all_iff by blast

lemma hex_scan_digits:
  "\<forall>c \<in> set cs. hex_digit c \<noteq> None \<and> c \<noteq> CHR ''_'' \<Longrightarrow> ok \<or> cs \<noteq> [] \<Longrightarrow>
   hex_scan ok v cs = Some (foldl (\<lambda>a c. 16 * a + the (hex_digit c)) v cs)"
  by (induction cs arbitrary: ok v) auto

lemma foldl_hex_of: "foldl (\<lambda>a c. 16 * a + the (hex_digit c)) 0 (hex_of n) = int n"
proof (induction n rule: hex_of.induct)
  case (1 n)
  then show ?case
    by (subst hex_of.simps) (simp add: hex_digit_chars zdiv_int zmod_int)
qed

lemma int_of_hex_of [simp]: "int_of_hex (hex_of n) = Some (int n)"
proof -
  have no: "\<not> starts_with (hex_of n) (a # p)" if "a \<in> set ''xX+-''" for a p
    using that hex_of_plain [of a n] by (auto simp: prefix_def)
  have nox: "\<not> starts_with (hex_of n) [a, b]" if "b \<in> set ''xX+-''" for a b
    using that hex_of_plain [of b n] by (auto simp: prefix_def)
  have "hex_scan False 0 (hex_of n) = Some (int n)"
    using hex_of_chars [of n] hex_of_plain foldl_hex_of [of n] by (subst hex_scan_digits) auto
  then have "hex_unsigned (hex_of n) = Some (int n)"
    by (simp add: hex_unsigned_def nox)
  then show ?thesis
    by (simp add: int_of_hex_def no)
qed

lemma bit_word_or:
  assumes "x < 2 ^ 64"
  shows "bit (push_bit 64 v OR int x) k \<longleftrightarrow> (if k < 64 then bit (int x) k else bit v (k - 64))"
proof -
  have "\<not> bit (int x) k" if "\<not> k < 64"
  proof -
    have "x < 2 ^ k"
      using that assms power_increasing [of 64 k "2::nat"] by simp
    then have "x div 2 ^ k = 0"
      by simp
    then have "\<not> bit x k"
      by (simp add: bit_iff_odd)
    then show ?thesis
      by (simp add: bit_of_nat_iff)
  qed
  then show ?thesis
    by (auto simp: bit_or_iff bit_push_bit_iff)
qed

lemma bitmap_words_bit:
  "\<forall>x \<in> set vs. x < 2 ^ 64 \<Longrightarrow>
   \<exists>r. bitmap_words v (map hex_of vs) = Some r
     \<and> (\<forall>k. bit r k \<longleftrightarrow> (if k div 64 < length vs then bit (int (rev vs ! (k div 64))) (k mod 64)
                          else bit v (k - 64 * length vs)))"
proof (induction vs arbitrary: v)
  case (Cons x vs)
  let ?v = "push_bit 64 v OR int x"
  obtain r where r: "bitmap_words ?v (map hex_of vs) = Some r"
    and bits: "\<And>k. bit r k \<longleftrightarrow> (if k div 64 < length vs then bit (int (rev vs ! (k div 64))) (k mod 64)
                            else bit ?v (k - 64 * length vs))"
    using Cons.IH [of ?v] Cons.prems by auto
  have "bit r k \<longleftrightarrow> (if k div 64 < length (x # vs) then bit (int (rev (x # vs) ! (k div 64))) (k mod 64)
                 else bit v (k - 64 * length (x # vs)))" for k
  proof (cases "k div 64 < length vs")
    case True
    then show ?thesis
      by (simp add: bits nth_append)
  next
    case False
    then have le: "64 * length vs \<le> k"
      by (simp add: not_less less_eq_div_iff_mult_less_eq mult.commute)
    have "k div 64 = length vs \<longleftrightarrow> k - 64 * length vs < 64"
      using le False by (auto simp: div_nat_eqI less_mult_imp_div_less)
    moreover have "k mod 64 = k - 64 * length vs" if "k div 64 = length vs"
      using minus_mult_div_eq_mod [of k 64] that by simp
    moreover have "k div 64 < length (x # vs) \<longleftrightarrow> k div 64 = length vs"
      using False by auto
    ultimately show ?thesis
      using False Cons.prems by (simp add: bits bit_word_or nth_append add.commute)
  qed
  then show ?case
    using r by auto
qed simp

lemma bitmap_of_words:
  assumes content: "read_file fs path = Some (join '' '' (map hex_of vs) @ [LF])"
    and words: "\<forall>x \<in> set vs. x < 2 ^ 64"
  shows "\<exists>r. bitmap fs path = Some r
    \<and> (\<forall>k. bit r k \<longleftrightarrow> k div 64 < length vs \<and> bit (rev vs ! (k div 64)) (k mod 64))"
proof -
  have "split_ws (join '' '' (map hex_of vs) @ [LF]) = map hex_of vs"
    using hex_of_chars hex_of_plain by (intro split_ws_join) auto
  then show ?thesis
    using bitmap_words_bit [OF words, of 0] content by (auto simp: bitmap_def bit_of_nat_iff)
qed

section \<open>Which device nodes count as keyboards\<close>

text \<open>How the kernel lays out an access list, in \<open>linux/posix_acl_xattr.h\<close>.\<close>

definition encode_acl :: "(nat \<times> nat \<times> nat) list \<Rightarrow> byte list" where
  "encode_acl es = to_le 4 2 @ concat (map (\<lambda>(tag, permissions, i). to_le 2 tag @ to_le 2 permissions @ to_le 4 i) es)"

lemma acl_entries_encode:
  assumes "\<forall>(tag, permissions, i) \<in> set es. tag < 2 ^ 16 \<and> permissions < 2 ^ 16 \<and> i < 2 ^ 32"
  shows "acl_entries (encode_acl es) = es"
proof -
  let ?enc = "\<lambda>(tag, permissions, i). to_le 2 tag @ to_le 2 permissions @ to_le 4 i"
  have "records 8 (concat (map ?enc es) @ []) = map ?enc es"
    by (rule records_concat) auto
  moreover have "acl_entry (?enc e) = e" if "e \<in> set es" for e
    using that assms by (cases e) (auto simp: acl_entry_def from_to_le)
  ultimately show ?thesis
    by (simp add: acl_entries_def encode_acl_def map_idI)
qed

lemma and_two_bit: "(n::nat) AND 2 \<noteq> 0 \<longleftrightarrow> bit n 1"
proof -
  have "n AND 2 = of_bool (bit n 1) * 2"
    using and_exp_eq_0_iff_not_bit [of n 1] bit_eq_iff [of "n AND 2" "of_bool (bit n 1) * 2"]
    by (auto simp: bit_and_iff bit_simps)
  then show ?thesis
    by simp
qed

lemma and_two_bits [simp]:
  "0 < (n::nat) AND 2 \<longleftrightarrow> bit n (Suc 0)" "(n::nat) AND 2 = 0 \<longleftrightarrow> \<not> bit n (Suc 0)"
  using and_two_bit [of n] neq0_conv [of "n AND 2"] by auto

lemma users_may_write_bits:
  "users_may_write fs node \<longleftrightarrow>
     (case node_mode fs node of
        None \<Rightarrow> True
      | Some mode \<Rightarrow> bit mode 1
          \<or> (\<exists>acl tag permissions i. node_acl fs node = Some acl \<and> (tag, permissions, i) \<in> set (acl_entries acl)
                \<and> (tag = ACL_USER \<or> tag = ACL_GROUP) \<and> bit permissions 1))"
proof (cases "node_mode fs node")
  case (Some mode)
  have "list_ex (\<lambda>(tag, permissions, _). (tag = ACL_USER \<or> tag = ACL_GROUP) \<and> permissions AND ACL_WRITE \<noteq> 0) es
     \<longleftrightarrow> (\<exists>tag permissions i. (tag, permissions, i) \<in> set es \<and> (tag = ACL_USER \<or> tag = ACL_GROUP)
            \<and> bit permissions 1)" for es :: "(nat \<times> nat \<times> nat) list"
    by (induction es) (auto simp: ACL_WRITE_def)
  then show ?thesis
    using Some by (cases "node_acl fs node") (simp_all add: users_may_write_def S_IWOTH_def)
qed (simp add: users_may_write_def)

lemma physical_keyboard_iff:
  "is_physical_keyboard fs device = Some True \<longleftrightarrow>
     \<not> contains (real_path fs device) ''/devices/virtual/''
     \<and> (\<exists>keys. bitmap fs (path_join (path_join device ''capabilities'') ''key'') = Some keys \<and> bit keys KEY_ENTER)"
  by (auto simp: is_physical_keyboard_def has_bit_bit)

lemma not_users_may_write_iff:
  "\<not> users_may_write fs node \<longleftrightarrow>
     (\<exists>mode. node_mode fs node = Some mode \<and> \<not> bit mode 1)
     \<and> (\<forall>acl tag permissions i. node_acl fs node = Some acl \<longrightarrow> (tag, permissions, i) \<in> set (acl_entries acl)
            \<longrightarrow> tag = ACL_USER \<or> tag = ACL_GROUP \<longrightarrow> \<not> bit permissions 1)"
  unfolding users_may_write_bits by (cases "node_mode fs node") auto

lemma keyboard_scan_set:
  "keyboard_scan fs ic ud di names = Some nodes \<Longrightarrow>
   set nodes = (path_join di) ` {name \<in> set names. starts_with name ''event''
     \<and> is_physical_keyboard fs (path_join (path_join ic name) ''device'') = Some True
     \<and> udev_says_keyboard fs (path_join ic name) ud \<and> \<not> users_may_write fs (path_join di name)}"
proof (induction names arbitrary: nodes)
  case (Cons name names)
  show ?case
  proof (cases "keyboard_scan fs ic ud di names")
    case None
    then show ?thesis
      using Cons.prems by (auto simp: Let_def split: if_splits option.splits)
  next
    case (Some ns)
    from Cons.IH [OF this] show ?thesis
      using Cons.prems Some by (auto simp: Let_def split: if_splits option.splits)
  qed
qed simp

text \<open>
  A device as the kernel and udev know it, and the files they show of it: the path of the device, its keys (the words of the bitmap, the highest first),
  its number with udev's properties, the permissions and the access list of its node. \<open>None\<close>: not there, or not readable.
\<close>

record input_device =
  d_name :: string
  d_path :: string
  d_keys :: "nat list option"
  d_number :: "string option"
  d_properties :: "string list option"
  d_mode :: "nat option"
  d_acl :: "(nat \<times> nat \<times> nat) list option"

definition text_lines :: "string list \<Rightarrow> string" where
  "text_lines ls = concat (map (\<lambda>l. l @ [LF]) ls)"

definition kernel_shows :: "input_fs \<Rightarrow> string \<Rightarrow> string \<Rightarrow> string \<Rightarrow> input_device \<Rightarrow> bool" where
  "kernel_shows fs ic ud di d \<longleftrightarrow>
     (let event = path_join ic (d_name d); device = path_join event ''device'' in
      real_path fs device = d_path d
      \<and> read_file fs (path_join (path_join device ''capabilities'') ''key'')
          = map_option (\<lambda>ws. join '' '' (map hex_of ws) @ [LF]) (d_keys d)
      \<and> pred_option (\<lambda>ws. \<forall>x \<in> set ws. x < 2 ^ 64) (d_keys d)
      \<and> read_file fs (path_join event ''dev'') = map_option (\<lambda>n. n @ [LF]) (d_number d)
      \<and> pred_option (\<lambda>n. n \<noteq> [] \<and> (\<forall>c \<in> set n. \<not> is_space c)
            \<and> read_file fs (path_join ud (''c'' @ n)) = map_option text_lines (d_properties d)) (d_number d)
      \<and> pred_option (\<lambda>ps. \<forall>p \<in> set ps. \<forall>c \<in> set p. \<not> is_break c) (d_properties d)
      \<and> node_mode fs (path_join di (d_name d)) = d_mode d
      \<and> node_acl fs (path_join di (d_name d)) = map_option encode_acl (d_acl d)
      \<and> pred_option (\<lambda>es. \<forall>(tag, permissions, i) \<in> set es. tag < 2 ^ 16 \<and> permissions < 2 ^ 16 \<and> i < 2 ^ 32) (d_acl d))"

text \<open>
  A keyboard whose keys no program without root can press: not a virtual device; the key number 28, Enter, is in the word of the lowest 64 keys; udev
  lists it as a keyboard and has no joystick property for it; others may not write the node (bit 1 of the mode), and nobody named in
  its access list, no user (tag 2) and no group (tag 8), may.
\<close>

definition trusted_keyboard :: "input_device \<Rightarrow> bool" where
  "trusted_keyboard d \<longleftrightarrow>
     \<not> contains (d_path d) ''/devices/virtual/''
     \<and> (\<exists>ws. d_keys d = Some ws \<and> ws \<noteq> [] \<and> bit (last ws) 28)
     \<and> (\<exists>n ps. d_number d = Some n \<and> d_properties d = Some ps \<and> ''E:ID_INPUT_KEYBOARD=1'' \<in> set ps
          \<and> (\<forall>p \<in> set ps. \<not> starts_with p ''E:ID_INPUT_JOYSTICK=''))
     \<and> (\<exists>mode. d_mode d = Some mode \<and> \<not> bit mode 1)
     \<and> (\<forall>es tag permissions i. d_acl d = Some es \<longrightarrow> (tag, permissions, i) \<in> set es \<longrightarrow> tag = 2 \<or> tag = 8 \<longrightarrow> \<not> bit permissions 1)"

lemma shown_bitmap:
  assumes "read_file fs path = map_option (\<lambda>ws. join '' '' (map hex_of ws) @ [LF]) keys"
    and "pred_option (\<lambda>ws. \<forall>x \<in> set ws. x < 2 ^ 64) keys"
  shows "\<exists>r. bitmap fs path = Some r \<and> (has_bit r KEY_ENTER \<longleftrightarrow> (\<exists>ws. keys = Some ws \<and> ws \<noteq> [] \<and> bit (last ws) 28))"
proof (cases keys)
  case None
  then show ?thesis
    using assms(1) by (simp add: bitmap_def has_bit_def)
next
  case (Some ws)
  then obtain r where r: "bitmap fs path = Some r" "\<And>k. bit r k \<longleftrightarrow> k div 64 < length ws \<and> bit (rev ws ! (k div 64)) (k mod 64)"
    using bitmap_of_words [of fs path ws] assms by auto
  have "has_bit r KEY_ENTER \<longleftrightarrow> ws \<noteq> [] \<and> bit (last ws) 28"
    by (cases "ws = []") (simp_all add: has_bit_bit r(2) KEY_ENTER_def rev_nth last_conv_nth)
  then show ?thesis
    using r(1) Some by simp
qed

lemma shown_physical:
  assumes "kernel_shows fs ic ud di d"
  shows "is_physical_keyboard fs (path_join (path_join ic (d_name d)) ''device'') =
    Some (\<not> contains (d_path d) ''/devices/virtual/'' \<and> (\<exists>ws. d_keys d = Some ws \<and> ws \<noteq> [] \<and> bit (last ws) 28))"
  using shown_bitmap [of fs "path_join (path_join (path_join (path_join ic (d_name d)) ''device'') ''capabilities'') ''key''" "d_keys d"] assms
  by (auto simp: kernel_shows_def Let_def is_physical_keyboard_def)

lemma shown_udev:
  assumes "kernel_shows fs ic ud di d"
  shows "udev_says_keyboard fs (path_join ic (d_name d)) ud \<longleftrightarrow>
    (\<exists>n ps. d_number d = Some n \<and> d_properties d = Some ps \<and> ''E:ID_INPUT_KEYBOARD=1'' \<in> set ps
       \<and> (\<forall>p \<in> set ps. \<not> starts_with p ''E:ID_INPUT_JOYSTICK=''))"
proof (cases "d_number d")
  case (Some n)
  then have n: "read_file fs (path_join (path_join ic (d_name d)) ''dev'') = Some (n @ [LF])" "strip (n @ [LF]) = n"
      "read_file fs (path_join ud (''c'' @ n)) = map_option text_lines (d_properties d)"
    using assms strip_append_LF [of n] strip_id [of n] by (simp_all add: kernel_shows_def Let_def)
  show ?thesis
  proof (cases "d_properties d")
    case props: (Some ps)
    then have "splitlines (text_lines ps) = ps"
      unfolding text_lines_def using assms by (intro splitlines_lines) (auto simp: kernel_shows_def Let_def)
    then show ?thesis
      using n Some props by (simp add: udev_says_keyboard_def list_ex_iff)
  qed (use n Some in \<open>simp add: udev_says_keyboard_def\<close>)
qed (use assms in \<open>simp add: udev_says_keyboard_def kernel_shows_def Let_def\<close>)

lemma shown_access:
  assumes "kernel_shows fs ic ud di d"
  shows "\<not> users_may_write fs (path_join di (d_name d)) \<longleftrightarrow> (\<exists>mode. d_mode d = Some mode \<and> \<not> bit mode 1)
    \<and> (\<forall>es tag permissions i. d_acl d = Some es \<longrightarrow> (tag, permissions, i) \<in> set es \<longrightarrow> tag = 2 \<or> tag = 8 \<longrightarrow> \<not> bit permissions 1)"
proof -
  have "acl_entries (encode_acl es) = es" if "d_acl d = Some es" for es
    using that assms by (intro acl_entries_encode) (auto simp: kernel_shows_def Let_def)
  moreover have "node_mode fs (path_join di (d_name d)) = d_mode d" "node_acl fs (path_join di (d_name d)) = map_option encode_acl (d_acl d)"
    using assms by (simp_all add: kernel_shows_def Let_def)
  ultimately show ?thesis
    unfolding not_users_may_write_iff by (cases "d_acl d") (simp_all add: ACL_USER_def ACL_GROUP_def)
qed

lemma keyboard_scan_total:
  "\<forall>name \<in> set names. starts_with name ''event'' \<longrightarrow> is_physical_keyboard fs (path_join (path_join ic name) ''device'') \<noteq> None \<Longrightarrow>
   \<exists>nodes. keyboard_scan fs ic ud di names = Some nodes"
  by (induction names) (auto simp: Let_def)

text \<open>
  C27. Enter is taken from exactly the keyboards whose keys no program without root can press (\<open>trusted_keyboard\<close>), whatever devices there are, given that the
  kernel and udev show them in their own formats: key bitmaps as words in hexadecimal, the highest first, properties as lines, access lists as
  the kernel encodes them. A device with something missing or unreadable is not one of them, except that a node without an access list has the permissions of
  its mode. The mask of an access list is not looked at, so an entry that it withholds counts as well.
\<close>

theorem keyboards_exact:
  assumes "list_dir fs ic = Some (map d_name ds)"
    and "\<forall>d \<in> set ds. starts_with (d_name d) ''event'' \<longrightarrow> kernel_shows fs ic ud di d"
  shows "\<exists>nodes. keyboards fs ic ud di = Some nodes \<and>
    set nodes = {path_join di (d_name d) | d. d \<in> set ds \<and> starts_with (d_name d) ''event'' \<and> trusted_keyboard d}"
proof -
  let ?names = "sort (map d_name ds)"
  have trusted: "trusted_keyboard d \<longleftrightarrow> is_physical_keyboard fs (path_join (path_join ic (d_name d)) ''device'') = Some True
      \<and> udev_says_keyboard fs (path_join ic (d_name d)) ud \<and> \<not> users_may_write fs (path_join di (d_name d))"
    if "d \<in> set ds" "starts_with (d_name d) ''event''" for d
    using that assms(2) shown_physical [of fs ic ud di d] shown_udev [of fs ic ud di d] shown_access [of fs ic ud di d]
    by (simp add: trusted_keyboard_def)
  have "\<forall>name \<in> set ?names. starts_with name ''event'' \<longrightarrow> is_physical_keyboard fs (path_join (path_join ic name) ''device'') \<noteq> None"
    using assms(2) shown_physical by fastforce
  then obtain nodes where nodes: "keyboard_scan fs ic ud di ?names = Some nodes"
    using keyboard_scan_total by blast
  have "set nodes = {path_join di (d_name d) | d. d \<in> set ds \<and> starts_with (d_name d) ''event'' \<and> trusted_keyboard d}"
    using keyboard_scan_set [OF nodes] trusted by auto
  then show ?thesis
    using nodes assms(1) by (simp add: keyboards_def)
qed

text \<open>A keyboard with keys beyond the first 64, and a mouse.\<close>

definition sample_keyboard :: input_device where
  "sample_keyboard =
     \<lparr>d_name = ''event3'', d_path = ''/sys/devices/platform/i8042/serio0/input/input3'', d_keys = Some [1, 268435456], d_number = Some ''13:67'',
      d_properties = Some [''E:ID_INPUT=1'', ''E:ID_INPUT_KEYBOARD=1''], d_mode = Some 432, d_acl = Some [(1, 6, 0), (4, 6, 0), (32, 0, 0)]\<rparr>"

definition sample_input :: input_fs where
  "sample_input =
     \<lparr>read_file = map_of
        [(''/sys/class/input/event3/device/capabilities/key'', join '' '' (map hex_of [1, 268435456]) @ [LF]),
         (''/sys/class/input/event3/dev'', ''13:67'' @ [LF]),
         (''/run/udev/data/c13:67'', ''E:ID_INPUT=1'' @ [LF] @ ''E:ID_INPUT_KEYBOARD=1'' @ [LF])],
      real_path = (\<lambda>p. ''/sys/devices/platform/i8042/serio0/input/input3''),
      list_dir = (\<lambda>d. Some [''mice'', ''event3'']),
      node_mode = (\<lambda>p. Some 432),
      node_acl = (\<lambda>p. Some (encode_acl [(1, 6, 0), (4, 6, 0), (32, 0, 0)]))\<rparr>"

lemma sample_shown: "kernel_shows sample_input ''/sys/class/input'' ''/run/udev/data'' ''/dev/input'' sample_keyboard"
proof -
  have paths: "path_join ''/sys/class/input'' ''event3'' = ''/sys/class/input/event3''" "path_join ''/dev/input'' ''event3'' = ''/dev/input/event3''"
      "path_join ''/sys/class/input/event3'' ''device'' = ''/sys/class/input/event3/device''"
      "path_join ''/sys/class/input/event3/device'' ''capabilities'' = ''/sys/class/input/event3/device/capabilities''"
      "path_join ''/sys/class/input/event3/device/capabilities'' ''key'' = ''/sys/class/input/event3/device/capabilities/key''"
      "path_join ''/sys/class/input/event3'' ''dev'' = ''/sys/class/input/event3/dev''"
      "path_join ''/run/udev/data'' ''c13:67'' = ''/run/udev/data/c13:67''"
    by code_simp+
  have "list_all (\<lambda>c. \<not> is_space c) ''13:67''" "list_all (list_all (\<lambda>c. \<not> is_break c)) [''E:ID_INPUT=1'', ''E:ID_INPUT_KEYBOARD=1'']"
    by code_simp+
  then show ?thesis
    by (simp add: kernel_shows_def Let_def sample_keyboard_def paths list_all_iff) (simp add: sample_input_def text_lines_def)
qed

theorem keyboards_exact_witness:
  "\<exists>nodes. keyboards sample_input ''/sys/class/input'' ''/run/udev/data'' ''/dev/input'' = Some nodes \<and> set nodes = {''/dev/input/event3''}"
proof -
  define mouse where "mouse = sample_keyboard\<lparr>d_name := ''mice''\<rparr>"
  have names: "d_name mouse = ''mice''" "d_name sample_keyboard = ''event3''"
    by (simp_all add: mouse_def sample_keyboard_def)
  have strings: "\<not> starts_with ''mice'' ''event''" "starts_with ''event3'' ''event''" "path_join ''/dev/input'' ''event3'' = ''/dev/input/event3''"
    by code_simp+
  have listed: "list_dir sample_input ''/sys/class/input'' = Some (map d_name [mouse, sample_keyboard])"
    by (simp add: sample_input_def names)
  have shown: "\<forall>d \<in> set [mouse, sample_keyboard]. starts_with (d_name d) ''event'' \<longrightarrow>
      kernel_shows sample_input ''/sys/class/input'' ''/run/udev/data'' ''/dev/input'' d"
    using sample_shown names strings by simp
  have trusted: "trusted_keyboard sample_keyboard"
  proof -
    have "bit (268435456 :: nat) 28" "\<not> bit (432 :: nat) 1" "\<not> bit (0 :: nat) 1"
      by (simp_all add: bit_iff_odd)
    moreover have "\<not> contains ''/sys/devices/platform/i8042/serio0/input/input3'' ''/devices/virtual/''"
        "list_all (\<lambda>p. \<not> starts_with p ''E:ID_INPUT_JOYSTICK='') [''E:ID_INPUT=1'', ''E:ID_INPUT_KEYBOARD=1'']"
      by code_simp+
    ultimately show ?thesis
      by (auto simp: trusted_keyboard_def sample_keyboard_def)
  qed
  have "{path_join ''/dev/input'' (d_name d) | d. d \<in> set [mouse, sample_keyboard] \<and> starts_with (d_name d) ''event'' \<and> trusted_keyboard d} =
      {''/dev/input/event3''}"
    using trusted names strings by (auto intro!: exI [of _ sample_keyboard])
  then show ?thesis
    using keyboards_exact [OF listed shown] by simp
qed

section \<open>What the wait for Enter decides\<close>

text \<open>The key presses of an iteration, of all its reads in order.\<close>

definition is_press :: "nat \<times> nat \<times> int \<Rightarrow> bool" where
  "is_press e = (case e of (k, code, v) \<Rightarrow> k = EV_KEY \<and> v = PRESSED \<and> code < BTN_MISC)"

definition read_presses :: "byte list option \<Rightarrow> nat list" where
  "read_presses d =
     (case d of None \<Rightarrow> []
      | Some data \<Rightarrow> map (\<lambda>(_, code, _). code) (filter is_press (map unpack_event (records EVENT_SIZE data))))"

lemma read_presses_None [simp]: "read_presses None = []"
  by (simp add: read_presses_def)

definition key_presses :: "enter_round \<Rightarrow> nat list" where
  "key_presses r = concat (map read_presses (e_reads r))"

definition is_enter :: "nat \<Rightarrow> bool" where
  "is_enter code \<longleftrightarrow> code = KEY_ENTER \<or> code = KEY_KPENTER"

text \<open>The verdict on a sequence of key presses, after some other keys already.\<close>

definition verdict :: "nat \<Rightarrow> nat list \<Rightarrow> pressed option" where
  "verdict other codes =
     (let others = takeWhile (\<lambda>c. \<not> is_enter c \<and> c \<noteq> KEY_ESC) codes in
      if other + length others > OTHER_KEYS_ALLOWED \<and> others \<noteq> [] then Some TYPING
      else (case drop (length others) codes of
              [] \<Rightarrow> None
            | c # _ \<Rightarrow> Some (if is_enter c then ENTER else SKIP)))"

lemma verdict_Nil [simp]: "verdict other [] = None"
  by (simp add: verdict_def)

lemma verdict_Cons:
  "verdict other (c # cs) =
     (if is_enter c then Some ENTER else if c = KEY_ESC then Some SKIP
      else if other + 1 > OTHER_KEYS_ALLOWED then Some TYPING else verdict (other + 1) cs)"
  by (auto simp: verdict_def Let_def OTHER_KEYS_ALLOWED_def split: list.splits)

lemma verdict_append:
  "verdict other (cs @ ds) = (case verdict other cs of None \<Rightarrow> verdict (other + length cs) ds | Some p \<Rightarrow> Some p)"
  by (induction cs arbitrary: other) (auto simp: verdict_Cons split: option.split)

lemma scan_events_verdict:
  "scan_events other es =
     (let cs = map (\<lambda>(_, code, _). code) (filter is_press es) in
      case verdict other cs of Some p \<Rightarrow> Inl p | None \<Rightarrow> Inr (other + length cs))"
proof (induction es arbitrary: other)
  case (Cons e es)
  then show ?case
    by (cases e) (auto simp: is_press_def verdict_Cons is_enter_def Let_def not_less split: option.splits)
qed simp

lemma scan_reads_verdict:
  "scan_reads other (e_reads r) =
     (case verdict other (key_presses r) of Some p \<Rightarrow> Inl p | None \<Rightarrow> Inr (other + length (key_presses r)))"
proof -
  have "scan_reads other ds =
     (case verdict other (concat (map read_presses ds)) of
        Some p \<Rightarrow> Inl p | None \<Rightarrow> Inr (other + length (concat (map read_presses ds))))" for ds
  proof (induction other ds rule: scan_reads.induct)
    case (3 other data rs)
    let ?cs = "read_presses (Some data)"
    have "scan_events other (map unpack_event (records EVENT_SIZE data))
        = (case verdict other ?cs of Some p \<Rightarrow> Inl p | None \<Rightarrow> Inr (other + length ?cs))"
      unfolding scan_events_verdict read_presses_def Let_def option.case ..
    then show ?case
      using "3.IH" by (cases "verdict other ?cs") (simp_all add: verdict_append add.assoc split: option.split)
  qed (simp_all split: option.split)
  then show ?thesis
    by (simp only: key_presses_def)
qed

definition waiting :: "real \<Rightarrow> enter_round \<Rightarrow> bool" where
  "waiting deadline r \<longleftrightarrow> \<not> e_cancel r \<and> e_now r < deadline"

text \<open>The key presses seen before the window ends or the request is cancelled.\<close>

definition pressed_in_time :: "real \<Rightarrow> enter_round list \<Rightarrow> nat list" where
  "pressed_in_time deadline rounds = concat (map key_presses (takeWhile (waiting deadline) rounds))"

lemma enter_loop_verdict:
  "enter_loop deadline other rounds =
     (case verdict other (pressed_in_time deadline rounds) of
        Some p \<Rightarrow> Some p
      | None \<Rightarrow> if list_all (waiting deadline) rounds then None else Some NOTHING)"
proof (induction rounds arbitrary: other)
  case (Cons r rounds)
  show ?case
  proof (cases "waiting deadline r")
    case True
    then have "\<not> e_cancel r" and "\<not> deadline - e_now r \<le> 0"
      by (simp_all add: waiting_def)
    then show ?thesis
      using True by (simp add: Cons.IH scan_reads_verdict pressed_in_time_def verdict_append split: option.splits)
  next
    case False
    then have "e_cancel r \<or> deadline - e_now r \<le> 0"
      by (auto simp: waiting_def)
    then show ?thesis
      using False by (auto simp: pressed_in_time_def)
  qed
qed (simp add: pressed_in_time_def)

lemma verdict_enter_iff:
  "verdict 0 codes = Some ENTER \<longleftrightarrow>
     (\<exists>pre c post. codes = pre @ c # post \<and> is_enter c \<and> length pre \<le> OTHER_KEYS_ALLOWED
        \<and> (\<forall>d \<in> set pre. \<not> is_enter d \<and> d \<noteq> KEY_ESC))"
proof
  assume v: "verdict 0 codes = Some ENTER"
  let ?P = "\<lambda>c. \<not> is_enter c \<and> c \<noteq> KEY_ESC"
  define pre where "pre = takeWhile ?P codes"
  have len: "length pre \<le> OTHER_KEYS_ALLOWED"
    using v by (auto simp: verdict_def Let_def pre_def split: if_splits)
  have codes: "codes = pre @ drop (length pre) codes"
    by (simp add: pre_def flip: dropWhile_eq_drop)
  obtain c post where d: "drop (length pre) codes = c # post" and "is_enter c"
    using v by (auto simp: verdict_def Let_def pre_def split: if_splits list.splits)
  then show "\<exists>pre c post. codes = pre @ c # post \<and> is_enter c \<and> length pre \<le> OTHER_KEYS_ALLOWED
        \<and> (\<forall>d \<in> set pre. ?P d)"
    using codes len set_takeWhileD [of _ ?P codes] unfolding pre_def [symmetric]
    by (intro exI [of _ pre] exI [of _ c] exI [of _ post]) auto
next
  assume "\<exists>pre c post. codes = pre @ c # post \<and> is_enter c \<and> length pre \<le> OTHER_KEYS_ALLOWED
        \<and> (\<forall>d \<in> set pre. \<not> is_enter d \<and> d \<noteq> KEY_ESC)"
  then obtain pre c post where eq: "codes = pre @ c # post" "is_enter c" "length pre \<le> OTHER_KEYS_ALLOWED"
    "\<forall>d \<in> set pre. \<not> is_enter d \<and> d \<noteq> KEY_ESC"
    by blast
  then have "takeWhile (\<lambda>c. \<not> is_enter c \<and> c \<noteq> KEY_ESC) codes = pre"
    by simp
  then show "verdict 0 codes = Some ENTER"
    using eq by (simp add: verdict_def Let_def)
qed

text \<open>
  C28. A request counts as confirmed exactly when Enter was pressed on one of the opened
  keyboards while the window was open and the request not cancelled, with at most one
  other key, and no Esc, before it.
\<close>

theorem enter_needs_enter:
  "wait_for_enter devices opens start window rounds = Some ENTER \<longleftrightarrow>
     (\<exists>node \<in> set devices. opens node)
     \<and> (\<exists>pre c post. pressed_in_time (start + window) rounds = pre @ c # post \<and> is_enter c
          \<and> length pre \<le> OTHER_KEYS_ALLOWED \<and> (\<forall>d \<in> set pre. \<not> is_enter d \<and> d \<noteq> KEY_ESC))"
  unfolding verdict_enter_iff [symmetric]
  by (auto simp: wait_for_enter_def enter_loop_verdict filter_empty_conv split: option.splits)

theorem enter_needs_enter_witness:
  "wait_for_enter [''/dev/input/event3''] (\<lambda>_. True) 10 WINDOW_SECONDS
     [\<lparr>e_cancel = False, e_now = 10, e_reads = [Some (replicate 16 0 @ [1, 0, 28, 0, 1, 0, 0, 0])]\<rparr>] = Some ENTER"
proof -
  let ?r = "\<lparr>e_cancel = False, e_now = 10, e_reads = [Some (replicate 16 0 @ [1, 0, 28, 0, 1, 0, 0, 0])]\<rparr> :: enter_round"
  have "map (\<lambda>(_, code, _). code) (filter is_press (map unpack_event
          (records EVENT_SIZE (replicate 16 0 @ [1, 0, 28, 0, 1, 0, 0, 0])))) = [28]"
    by code_simp
  then have k: "key_presses ?r = [28]"
    by (simp add: key_presses_def read_presses_def)
  have w: "pressed_in_time (10 + WINDOW_SECONDS) [?r] = [] @ 28 # []"
    by (simp add: pressed_in_time_def waiting_def WINDOW_SECONDS_def k)
  show ?thesis
    unfolding enter_needs_enter
  proof (intro conjI exI)
    show "pressed_in_time (10 + WINDOW_SECONDS) [?r] = [] @ 28 # []"
      by (rule w)
  qed (simp_all add: is_enter_def KEY_ENTER_def)
qed

text \<open>
  The wait ends: once an iteration finds the window over or the request cancelled, it
  has a result, and one in which nobody pressed anything is never a confirmation.
\<close>

theorem enter_wait_ends:
  assumes "\<exists>r \<in> set rounds. e_cancel r \<or> e_now r \<ge> start + window"
  shows "\<exists>p. wait_for_enter devices opens start window rounds = Some p
     \<and> (pressed_in_time (start + window) rounds = [] \<longrightarrow> p = NOTHING)"
proof -
  have "\<not> list_all (waiting (start + window)) rounds"
    using assms by (auto simp: list_all_iff waiting_def not_less)
  then show ?thesis
    by (auto simp: wait_for_enter_def enter_loop_verdict split: option.splits)
qed

theorem enter_wait_ends_witness:
  "\<exists>p. wait_for_enter [''/dev/input/event3''] (\<lambda>_. True) 10 WINDOW_SECONDS
     [\<lparr>e_cancel = False, e_now = 11, e_reads = []\<rparr>, \<lparr>e_cancel = True, e_now = 12, e_reads = []\<rparr>] = Some p"
  using enter_wait_ends [of "[\<lparr>e_cancel = False, e_now = 11, e_reads = []\<rparr>, \<lparr>e_cancel = True, e_now = 12, e_reads = []\<rparr>]"
      10 WINDOW_SECONDS "[''/dev/input/event3'']" "\<lambda>_. True"]
  by auto

section \<open>What the wait for activity decides\<close>

lemma set_open_new: "set (open_new opens devices fds) = set fds \<union> {n \<in> set devices. opens n}"
  by (induction devices arbitrary: fds) (auto simp: open_new_def)

definition watching :: "real \<Rightarrow> watch_round \<Rightarrow> bool" where
  "watching deadline r \<longleftrightarrow> \<not> w_cancel r \<and> w_now r < deadline"

lemma activity_loop_watching:
  assumes "watching deadline r"
  shows "activity_loop deadline next_scan fds (r # rs) =
    (let scan = (w_now r \<ge> next_scan);
         fds' = (if scan then open_new (w_opens r) (w_devices r) fds else fds);
         next' = (if scan then w_now r + RESCAN_SECONDS else next_scan)
     in if list_ex (\<lambda>node. w_ready r node = Some True) fds' then Some True
        else activity_loop deadline next' fds' rs)"
  using assms by (simp add: watching_def)

declare activity_loop.simps(2) [simp del]

lemma activity_loop_sound:
  "activity_loop deadline next_scan fds rounds = Some True \<Longrightarrow>
   \<exists>pre r post node. rounds = pre @ r # post \<and> list_all (watching deadline) (pre @ [r])
     \<and> w_ready r node = Some True
     \<and> (node \<in> set fds \<or> (\<exists>q \<in> set (pre @ [r]). node \<in> set (w_devices q) \<and> w_opens q node))"
proof (induction rounds arbitrary: next_scan fds)
  case (Cons r rs)
  let ?fds = "if w_now r \<ge> next_scan then open_new (w_opens r) (w_devices r) fds else fds"
  let ?next = "if w_now r \<ge> next_scan then w_now r + RESCAN_SECONDS else next_scan"
  have w: "watching deadline r"
    using Cons.prems by (auto simp: watching_def activity_loop.simps(2) split: if_splits)
  have fds: "n \<in> set ?fds \<Longrightarrow> n \<in> set fds \<or> n \<in> set (w_devices r) \<and> w_opens r n" for n
    by (auto simp: set_open_new split: if_splits)
  show ?case
  proof (cases "list_ex (\<lambda>node. w_ready r node = Some True) ?fds")
    case True
    then obtain node where "node \<in> set ?fds" "w_ready r node = Some True"
      by (auto simp: list_ex_iff)
    then show ?thesis
      using w fds [of node] by (intro exI [of _ "[]"] exI [of _ r] exI [of _ rs] exI [of _ node]) simp
  next
    case False
    then have "activity_loop deadline ?next ?fds rs = Some True"
      using Cons.prems w by (simp add: activity_loop_watching Let_def)
    from Cons.IH [OF this] obtain pre q post node where IH: "rs = pre @ q # post"
      "list_all (watching deadline) (pre @ [q])" "w_ready q node = Some True"
      "node \<in> set ?fds \<or> (\<exists>q' \<in> set (pre @ [q]). node \<in> set (w_devices q') \<and> w_opens q' node)"
      by blast
    then show ?thesis
      using w fds [of node]
      by (intro exI [of _ "r # pre"] exI [of _ q] exI [of _ post] exI [of _ node]) auto
  qed
qed simp

lemma activity_loop_open_wakes:
  "node \<in> set fds \<Longrightarrow> list_all (watching deadline) (pre @ [r]) \<Longrightarrow> w_ready r node = Some True \<Longrightarrow>
   activity_loop deadline next_scan fds (pre @ r # post) = Some True"
proof (induction pre arbitrary: next_scan fds)
  case Nil
  then show ?case
    by (auto simp: activity_loop_watching Let_def list_ex_iff set_open_new)
next
  case (Cons q pre)
  let ?fds = "if w_now q \<ge> next_scan then open_new (w_opens q) (w_devices q) fds else fds"
  have "node \<in> set ?fds"
    using Cons.prems by (simp add: set_open_new)
  from Cons.IH [OF this] show ?case
    using Cons.prems by (simp add: activity_loop_watching Let_def)
qed

text \<open>
  The pause of the lock screen ends with input and not without: the wait reports
  activity only when a device it had opened delivered an event before the deadline and
  before the request was cancelled, and a device that was there when the wait began wakes
  it with its first event.
\<close>

theorem activity_wakes:
  "(wait_for_activity start timeout rounds = Some True \<longrightarrow>
      (\<exists>pre r post node. rounds = pre @ r # post \<and> list_all (watching (start + timeout)) (pre @ [r])
         \<and> w_ready r node = Some True
         \<and> (\<exists>q \<in> set (pre @ [r]). node \<in> set (w_devices q) \<and> w_opens q node)))
   \<and> (\<forall>pre r post node. rounds = pre @ r # post \<longrightarrow> list_all (watching (start + timeout)) (pre @ [r])
        \<longrightarrow> w_ready r node = Some True \<longrightarrow> 0 \<le> w_now (hd rounds)
        \<longrightarrow> node \<in> set (w_devices (hd rounds)) \<and> w_opens (hd rounds) node
        \<longrightarrow> wait_for_activity start timeout rounds = Some True)"
proof (intro conjI impI allI)
  assume "wait_for_activity start timeout rounds = Some True"
  then show "\<exists>pre r post node. rounds = pre @ r # post \<and> list_all (watching (start + timeout)) (pre @ [r])
         \<and> w_ready r node = Some True
         \<and> (\<exists>q \<in> set (pre @ [r]). node \<in> set (w_devices q) \<and> w_opens q node)"
    using activity_loop_sound [of "start + timeout" 0 "[]" rounds] by (simp add: wait_for_activity_def)
next
  fix pre r post node
  assume a: "rounds = pre @ r # post" "list_all (watching (start + timeout)) (pre @ [r])"
    "w_ready r node = Some True" "0 \<le> w_now (hd rounds)"
    "node \<in> set (w_devices (hd rounds)) \<and> w_opens (hd rounds) node"
  show "wait_for_activity start timeout rounds = Some True"
  proof (cases pre)
    case Nil
    then show ?thesis
      using a by (auto simp: wait_for_activity_def activity_loop_watching Let_def list_ex_iff set_open_new)
  next
    case (Cons q pre')
    have "node \<in> set (open_new (w_opens q) (w_devices q) [])"
      using a Cons by (simp add: set_open_new)
    from activity_loop_open_wakes [OF this] show ?thesis
      using a Cons by (simp add: wait_for_activity_def activity_loop_watching Let_def)
  qed
qed

theorem activity_wakes_witness:
  "wait_for_activity 100 25
     [\<lparr>w_cancel = False, w_now = 100, w_devices = [''/dev/input/event3''], w_opens = (\<lambda>_. True), w_ready = (\<lambda>_. None)\<rparr>,
      \<lparr>w_cancel = False, w_now = 101, w_devices = [], w_opens = (\<lambda>_. True), w_ready = (\<lambda>_. Some True)\<rparr>] = Some True"
  (is "wait_for_activity _ _ [?q, ?r] = _")
  using activity_wakes [of 100 25 "[?q] @ ?r # []"]
  by (elim conjE allE [of _ "[?q]"] allE [of _ ?r] allE [of _ "[]"] allE [of _ "''/dev/input/event3''"])
    (simp add: watching_def)

end
