(* ===== verification/Manager_Tasks.thy ===== *)
theory Manager_Tasks
  imports Complex_Main Daemon_Access Input_Devices
begin

text \<open>
  \<^verbatim>\<open>daemon/manager.py\<close>, the requests that wait: Verify, VerifyNow, VerifyConfirmed,
  Enroll and ListCameras as tasks of one event loop.

  A coroutine runs without interruption from one await to the next, so each handler is a
  few functions, one per such stretch, on the manager's memory: the cancel events by
  sender, the failed scans and the missed confirmations by user, the Enter window that is
  open, the camera lock. \<open>sys_step\<close> interleaves the stretches of all tasks with
  cancellations and the clock. Events and windows are objects, numbered in the order they
  are made; a set event is in \<open>set_events\<close>, a window told of an overlap in
  \<open>overlapped\<close>. Times are seconds of the monotonic clock.
\<close>

section \<open>The manager's memory\<close>

record mgr =
  running :: "(string \<times> nat) list"
  set_events :: "nat list"
  failures :: "(string \<times> nat \<times> real) list"
  confirm_misses :: "(string \<times> real list) list"
  confirm_paused :: "(string \<times> real) list"
  confirm_pauses :: "(string \<times> nat) list"
  confirm_window :: "nat option"
  overlapped :: "nat list"
  camera_lock :: bool
  fresh :: nat

definition new_manager :: mgr where
  "new_manager = \<lparr>running = [], set_events = [], failures = [], confirm_misses = [], confirm_paused = [],
     confirm_pauses = [], confirm_window = None, overlapped = [], camera_lock = False, fresh = 0\<rparr>"

definition PAUSE_AFTER :: nat where "PAUSE_AFTER = 3"
definition STREAK_SECONDS :: real where "STREAK_SECONDS = 30"
definition CONFIRM_MISSES :: nat where "CONFIRM_MISSES = 3"
definition CONFIRM_PAUSE_SECONDS :: real where "CONFIRM_PAUSE_SECONDS = 60"
definition CONFIRM_PAUSE_MAX_SECONDS :: real where "CONFIRM_PAUSE_MAX_SECONDS = 3600"

text \<open>\<open>threading.Event()\<close>, registered under the sender: the number it gets is \<open>fresh\<close>.\<close>

definition register :: "string \<Rightarrow> mgr \<Rightarrow> mgr" where
  "register s m = m\<lparr>running := AList.update s (fresh m) (running m), fresh := fresh m + 1\<rparr>"

definition unregister :: "string \<Rightarrow> mgr \<Rightarrow> mgr" where
  "unregister s m = m\<lparr>running := AList.delete s (running m)\<rparr>"

definition cancel_sender :: "string \<Rightarrow> mgr \<Rightarrow> mgr" where
  "cancel_sender s m =
     (case map_of (running m) s of None \<Rightarrow> m | Some e \<Rightarrow> m\<lparr>set_events := e # set_events m\<rparr>)"

definition is_set :: "nat \<Rightarrow> mgr \<Rightarrow> bool" where
  "is_set e m \<longleftrightarrow> e \<in> set (set_events m)"

section \<open>Who may ask\<close>

definition check_user :: "bus \<Rightarrow> string \<Rightarrow> failure + unit" where
  "check_user b user =
     (if getpwnam b user = None then Inl (Failed ''InvalidArgs'')
      else if user = ''root'' then Inl (Failed ''InvalidArgs'')
      else Inr ())"

section \<open>Missed confirmations\<close>

definition confirm_missed :: "string \<Rightarrow> real \<Rightarrow> mgr \<Rightarrow> mgr" where
  "confirm_missed user now m =
     (let old = (case map_of (confirm_misses m) user of None \<Rightarrow> [] | Some ts \<Rightarrow> ts);
          misses = filter (\<lambda>t. now - t < CONFIRM_PAUSE_SECONDS) old @ [now] in
      if length misses < CONFIRM_MISSES
      then m\<lparr>confirm_misses := AList.update user misses (confirm_misses m)\<rparr>
      else
        let pauses = (case map_of (confirm_pauses m) user of None \<Rightarrow> 0 | Some n \<Rightarrow> n);
            seconds = min (CONFIRM_PAUSE_SECONDS * 2 ^ pauses) CONFIRM_PAUSE_MAX_SECONDS
        in m\<lparr>confirm_misses := AList.delete user (confirm_misses m),
             confirm_pauses := AList.update user (pauses + 1) (confirm_pauses m),
             confirm_paused := AList.update user (now + seconds) (confirm_paused m)\<rparr>)"

section \<open>Verify\<close>

datatype answer = Answer vresult real | Refused failure

definition streak :: "string \<Rightarrow> real \<Rightarrow> mgr \<Rightarrow> nat" where
  "streak user now m =
     (let (count, last) = (case map_of (failures m) user of None \<Rightarrow> (0, 0) | Some cl \<Rightarrow> cl)
      in if now - last > STREAK_SECONDS then 0 else count)"

datatype work = VerifyWork string bool | EnrollWork string | ProbeWork

text \<open>Where a task is: at which await, with its own event.\<close>

datatype pc =
    Window nat nat string
  | Activity nat string
  | Queued nat work
  | Scanning nat work
  | Done answer

text \<open>\<open>_camera\<close> up to the lock: the event is registered before waiting for the camera.\<close>

definition camera_queue :: "caller \<Rightarrow> work \<Rightarrow> mgr \<Rightarrow> pc \<times> mgr" where
  "camera_queue c work m = (Queued (fresh m) work, register (sender c) m)"

text \<open>
  \<open>verify\<close> up to its first await. \<open>encoded\<close> says whether the user's models hold any
  encoding.
\<close>

definition verify_start :: "bus \<Rightarrow> caller \<Rightarrow> string \<Rightarrow> bool \<Rightarrow> bool \<Rightarrow> real \<Rightarrow> mgr \<Rightarrow> pc \<times> mgr" where
  "verify_start b c user pausable encoded now m =
     (if uid c \<noteq> 0 \<and> \<not> is_self b c user then (Done (Refused (Failed ''PermissionDenied'')), m)
      else (case check_user b user of
              Inl e \<Rightarrow> (Done (Refused e), m)
            | Inr _ \<Rightarrow>
                if \<not> encoded then (Done (Answer NO_FACE_MODEL (-1)), m)
                else
                  let lock_screen = (pausable \<and> uid c \<noteq> 0) in
                  if lock_screen \<and> streak user now m \<ge> PAUSE_AFTER
                  then (Activity (fresh m) user, register (sender c) m)
                  else camera_queue c (VerifyWork user lock_screen) m))"

text \<open>\<open>_wait_for_activity\<close> after its wait, and \<open>verify\<close> from there to the camera.\<close>

definition activity_end :: "caller \<Rightarrow> nat \<Rightarrow> string \<Rightarrow> bool \<Rightarrow> real \<Rightarrow> mgr \<Rightarrow> pc \<times> mgr" where
  "activity_end c e user resumed now m =
     (let m1 = unregister (sender c) m in
      if resumed then camera_queue c (VerifyWork user True) (m1\<lparr>failures := AList.delete user (failures m1)\<rparr>)
      else if is_set e m1 then (Done (Answer CANCELLED (-1)), m1)
      else
        let (count, _) = (case map_of (failures m1) user of None \<Rightarrow> (PAUSE_AFTER, 0) | Some cl \<Rightarrow> cl)
        in (Done (Answer TIMEOUT_REACHED (-1)), m1\<lparr>failures := AList.update user (count, now) (failures m1)\<rparr>))"

text \<open>\<open>_camera\<close> once the lock is free.\<close>

definition camera_enter :: "caller \<Rightarrow> nat \<Rightarrow> work \<Rightarrow> mgr \<Rightarrow> pc \<times> mgr" where
  "camera_enter c e work m =
     (if is_set e m then (Done (Refused (Failed ''Cancelled'')), unregister (sender c) m)
      else (Scanning e work, m\<lparr>camera_lock := True\<rparr>))"

text \<open>The camera is released, and \<open>verify\<close> goes on with the result.\<close>

definition scan_end :: "caller \<Rightarrow> work \<Rightarrow> vresult \<Rightarrow> real \<Rightarrow> real \<Rightarrow> mgr \<Rightarrow> pc \<times> mgr" where
  "scan_end c work result certainty now m =
     (let m1 = unregister (sender c) (m\<lparr>camera_lock := False\<rparr>) in
      case work of
        VerifyWork user lock_screen \<Rightarrow>
          (Done (Answer result certainty),
           if \<not> lock_screen then m1
           else if result = SUCCESS then m1\<lparr>failures := AList.delete user (failures m1)\<rparr>
           else if result = TIMEOUT_REACHED \<or> result = TOO_DARK
           then m1\<lparr>failures := AList.update user (streak user now m1 + 1, now) (failures m1)\<rparr>
           else m1)
      | _ \<Rightarrow> (Done (Answer result certainty), m1))"

section \<open>VerifyConfirmed\<close>

text \<open>
  Up to the wait for Enter. \<open>real_uid\<close> gives the real uid of a process, \<open>None\<close> when it is
  gone; \<open>enrolled\<close> says whether the user has models.
\<close>

definition confirm_start ::
    "bus \<Rightarrow> (nat \<Rightarrow> nat option) \<Rightarrow> caller \<Rightarrow> string \<Rightarrow> nat \<Rightarrow> bool \<Rightarrow> real \<Rightarrow> mgr \<Rightarrow> pc \<times> mgr" where
  "confirm_start b real_uid c user requester enrolled now m =
     (if uid c \<noteq> 0 then (Done (Refused (Failed ''PermissionDenied'')), m)
      else (case check_user b user of
              Inl e \<Rightarrow> (Done (Refused e), m)
            | Inr _ \<Rightarrow>
                let u = the (getpwnam b user);
                    left = (case map_of (confirm_paused m) user of None \<Rightarrow> -1 | Some t \<Rightarrow> t - now) in
                if requester \<noteq> 0 \<and> real_uid requester \<noteq> Some u then (Done (Answer NOT_LOCAL (-1)), m)
                else if \<not> has_local_session b u requester then (Done (Answer NOT_LOCAL (-1)), m)
                else if \<not> enrolled then (Done (Answer NO_FACE_MODEL (-1)), m)
                else if left > 0 then (Done (Answer CONFIRM_PAUSED left), m)
                else (case confirm_window m of
                        Some w \<Rightarrow>
                          (Done (Answer CONFIRM_CONFLICT (-1)),
                           confirm_missed user now (m\<lparr>overlapped := w # overlapped m\<rparr>))
                      | None \<Rightarrow>
                          let w = fresh m; m1 = m\<lparr>confirm_window := Some w, fresh := w + 1\<rparr>
                          in (Window w (fresh m1) user, register (sender c) m1))))"

text \<open>After the wait: what was pressed decides, and only Enter leads to the scan.\<close>

definition confirm_end ::
    "bus \<Rightarrow> caller \<Rightarrow> nat \<Rightarrow> nat \<Rightarrow> string \<Rightarrow> pressed \<Rightarrow> bool \<Rightarrow> real \<Rightarrow> mgr \<Rightarrow> pc \<times> mgr" where
  "confirm_end b c w e user pressed encoded now m =
     (let m1 = (unregister (sender c) m)\<lparr>confirm_window := None\<rparr> in
      if w \<in> set (overlapped m1) then (Done (Answer CONFIRM_CONFLICT (-1)), confirm_missed user now m1)
      else if pressed = SKIP then (Done (Answer SKIPPED (-1)), m1)
      else if pressed \<noteq> ENTER then (Done (Answer NOT_CONFIRMED (-1)), confirm_missed user now m1)
      else if is_set e m1 then (Done (Answer CANCELLED (-1)), m1)
      else verify_start b c user False encoded now
             (m1\<lparr>confirm_misses := AList.delete user (confirm_misses m1),
                 confirm_pauses := AList.delete user (confirm_pauses m1)\<rparr>))"

section \<open>The event loop\<close>

record task =
  t_caller :: caller
  t_pc :: pc

text \<open>What happened, newest first: windows opening and ending, conflicts, scans.\<close>

datatype tevent = Opened nat string | Conflict string | Closed nat | Approved nat string | ScanStarted nat

record system =
  memory :: mgr
  tasks :: "task list"
  clock :: real
  trace :: "tevent list"

definition confirm_events :: "string \<Rightarrow> pc \<Rightarrow> tevent list" where
  "confirm_events user p =
     (case p of
        Window w e u \<Rightarrow> [Opened w user]
      | Done (Answer r _) \<Rightarrow> if r = CONFIRM_CONFLICT then [Conflict user] else []
      | _ \<Rightarrow> [])"

text \<open>Whether an ended wait for Enter led to a scan.\<close>

definition end_events :: "nat \<Rightarrow> string \<Rightarrow> pc \<Rightarrow> tevent list" where
  "end_events w user p = (case p of Queued e k \<Rightarrow> [Approved w user, Closed w] | _ \<Rightarrow> [Closed w])"

definition scan_events_of :: "pc \<Rightarrow> tevent list" where
  "scan_events_of p = (case p of Scanning e k \<Rightarrow> [ScanStarted e] | _ \<Rightarrow> [])"

inductive sys_step :: "bus \<Rightarrow> (nat \<Rightarrow> nat option) \<Rightarrow> system \<Rightarrow> system \<Rightarrow> bool" for b real_uid where
  verify_request:
    "verify_start b c user pausable encoded (clock s) (memory s) = (p, m') \<Longrightarrow>
     sys_step b real_uid s (s\<lparr>memory := m', tasks := tasks s @ [\<lparr>t_caller = c, t_pc = p\<rparr>]\<rparr>)"
| confirm_request:
    "confirm_start b real_uid c user requester enrolled (clock s) (memory s) = (p, m') \<Longrightarrow>
     sys_step b real_uid s
       (s\<lparr>memory := m', tasks := tasks s @ [\<lparr>t_caller = c, t_pc = p\<rparr>],
          trace := confirm_events user p @ trace s\<rparr>)"
| camera_request:
    "k = EnrollWork user \<or> k = ProbeWork \<Longrightarrow> camera_queue c k (memory s) = (p, m') \<Longrightarrow>
     sys_step b real_uid s (s\<lparr>memory := m', tasks := tasks s @ [\<lparr>t_caller = c, t_pc = p\<rparr>]\<rparr>)"
| enter_wait_over:
    "i < length (tasks s) \<Longrightarrow> tasks s ! i = \<lparr>t_caller = c, t_pc = Window w e user\<rparr> \<Longrightarrow>
     confirm_end b c w e user pressed encoded (clock s) (memory s) = (p, m') \<Longrightarrow>
     sys_step b real_uid s
       (s\<lparr>memory := m', tasks := (tasks s)[i := \<lparr>t_caller = c, t_pc = p\<rparr>],
          trace := end_events w user p @ trace s\<rparr>)"
| activity_wait_over:
    "i < length (tasks s) \<Longrightarrow> tasks s ! i = \<lparr>t_caller = c, t_pc = Activity e user\<rparr> \<Longrightarrow>
     activity_end c e user resumed (clock s) (memory s) = (p, m') \<Longrightarrow>
     sys_step b real_uid s (s\<lparr>memory := m', tasks := (tasks s)[i := \<lparr>t_caller = c, t_pc = p\<rparr>]\<rparr>)"
| camera_free:
    "i < length (tasks s) \<Longrightarrow> tasks s ! i = \<lparr>t_caller = c, t_pc = Queued e k\<rparr> \<Longrightarrow>
     \<not> camera_lock (memory s) \<Longrightarrow> camera_enter c e k (memory s) = (p, m') \<Longrightarrow>
     sys_step b real_uid s
       (s\<lparr>memory := m', tasks := (tasks s)[i := \<lparr>t_caller = c, t_pc = p\<rparr>],
          trace := scan_events_of p @ trace s\<rparr>)"
| scan_over:
    "i < length (tasks s) \<Longrightarrow> tasks s ! i = \<lparr>t_caller = c, t_pc = Scanning e k\<rparr> \<Longrightarrow>
     scan_end c k result certainty (clock s) (memory s) = (p, m') \<Longrightarrow>
     sys_step b real_uid s (s\<lparr>memory := m', tasks := (tasks s)[i := \<lparr>t_caller = c, t_pc = p\<rparr>]\<rparr>)"
| cancelled_or_gone:
    "sys_step b real_uid s (s\<lparr>memory := cancel_sender name (memory s)\<rparr>)"
| time_passes:
    "clock s \<le> t \<Longrightarrow> sys_step b real_uid s (s\<lparr>clock := t\<rparr>)"

definition idle_system :: "real \<Rightarrow> system" where
  "idle_system t = \<lparr>memory = new_manager, tasks = [], clock = t, trace = []\<rparr>"

definition reachable :: "bus \<Rightarrow> (nat \<Rightarrow> nat option) \<Rightarrow> system \<Rightarrow> bool" where
  "reachable b real_uid s \<longleftrightarrow> (\<exists>t. (sys_step b real_uid)\<^sup>*\<^sup>* (idle_system t) s)"

section \<open>What each stretch leaves alone\<close>

lemma confirm_missed_fields [simp]:
  "running (confirm_missed user now m) = running m"
  "set_events (confirm_missed user now m) = set_events m"
  "failures (confirm_missed user now m) = failures m"
  "confirm_window (confirm_missed user now m) = confirm_window m"
  "overlapped (confirm_missed user now m) = overlapped m"
  "camera_lock (confirm_missed user now m) = camera_lock m"
  "fresh (confirm_missed user now m) = fresh m"
  by (simp_all add: confirm_missed_def Let_def)

lemma register_fields [simp]:
  "confirm_window (register s m) = confirm_window m" "overlapped (register s m) = overlapped m"
  "camera_lock (register s m) = camera_lock m" "fresh (register s m) = fresh m + 1"
  "failures (register s m) = failures m" "set_events (register s m) = set_events m"
  "confirm_paused (register s m) = confirm_paused m"
  by (simp_all add: register_def)

lemma unregister_fields [simp]:
  "confirm_window (unregister s m) = confirm_window m" "overlapped (unregister s m) = overlapped m"
  "camera_lock (unregister s m) = camera_lock m" "fresh (unregister s m) = fresh m"
  "failures (unregister s m) = failures m" "set_events (unregister s m) = set_events m"
  by (simp_all add: unregister_def)

lemma cancel_sender_fields [simp]:
  "confirm_window (cancel_sender s m) = confirm_window m" "overlapped (cancel_sender s m) = overlapped m"
  "camera_lock (cancel_sender s m) = camera_lock m" "fresh (cancel_sender s m) = fresh m"
  by (simp_all add: cancel_sender_def split: option.splits)

definition is_scanning :: "task \<Rightarrow> bool" where
  "is_scanning t = (case t_pc t of Scanning e k \<Rightarrow> True | _ \<Rightarrow> False)"

definition scanning :: "task list \<Rightarrow> nat" where
  "scanning ts = length (filter is_scanning ts)"

definition window_of :: "pc \<Rightarrow> (nat \<times> string) list" where
  "window_of p = (case p of Window w e u \<Rightarrow> [(w, u)] | _ \<Rightarrow> [])"

definition windows :: "task list \<Rightarrow> (nat \<times> string) list" where
  "windows ts = concat (map (\<lambda>t. window_of (t_pc t)) ts)"

lemma length_filter_update:
  "i < length xs \<Longrightarrow> length (filter P (xs[i := y])) + (if P (xs ! i) then 1 else 0)
     = length (filter P xs) + (if P y then 1 else 0)"
proof -
  assume i: "i < length xs"
  have xs: "xs = take i xs @ xs ! i # drop (Suc i) xs"
    by (rule id_take_nth_drop [OF i])
  have up: "xs[i := y] = take i xs @ y # drop (Suc i) xs"
    by (rule upd_conv_take_nth_drop [OF i])
  have "length (filter P xs) = length (filter P (take i xs @ xs ! i # drop (Suc i) xs))"
    using xs by simp
  then show ?thesis
    by (simp add: up)
qed

lemma scanning_update:
  "i < length ts \<Longrightarrow> scanning (ts[i := t]) + (if is_scanning (ts ! i) then 1 else 0)
     = scanning ts + (if is_scanning t then 1 else 0)"
  unfolding scanning_def by (rule length_filter_update)

lemma scanning_append [simp]: "scanning (ts @ [t]) = scanning ts + (if is_scanning t then 1 else 0)"
  by (simp add: scanning_def)

lemma windows_append [simp]: "windows (ts @ [t]) = windows ts @ window_of (t_pc t)"
  by (simp add: windows_def)

lemma windows_update:
  assumes "i < length ts"
  shows "\<exists>xs ys. windows ts = xs @ window_of (t_pc (ts ! i)) @ ys \<and> windows (ts[i := t]) = xs @ window_of (t_pc t) @ ys"
proof -
  let ?a = "take i ts" and ?b = "drop (Suc i) ts"
  have "windows (?a @ ts ! i # ?b) = windows ?a @ window_of (t_pc (ts ! i)) @ windows ?b"
    "windows (?a @ t # ?b) = windows ?a @ window_of (t_pc t) @ windows ?b"
    by (simp_all add: windows_def)
  then show ?thesis
    using id_take_nth_drop [OF assms] upd_conv_take_nth_drop [OF assms, of t] by metis
qed

text \<open>No window before and none after leaves the windows as they are.\<close>

lemma windows_same: "i < length ts \<Longrightarrow> window_of (t_pc (ts ! i)) = [] \<Longrightarrow> window_of (t_pc t) = [] \<Longrightarrow>
   windows (ts[i := t]) = windows ts"
  using windows_update [of i ts t] by auto

section \<open>The stretches as seen by the invariant\<close>

lemmas stretch_defs = verify_start_def activity_end_def camera_enter_def scan_end_def camera_queue_def

lemma verify_start_frame:
  assumes "verify_start b c user pausable encoded now m = (p, m')"
  shows "confirm_window m' = confirm_window m \<and> overlapped m' = overlapped m \<and> camera_lock m' = camera_lock m
    \<and> fresh m \<le> fresh m' \<and> window_of p = [] \<and> (\<forall>e k. p \<noteq> Scanning e k)"
  using assms
  by (auto simp: verify_start_def camera_queue_def window_of_def Let_def split: if_splits sum.splits)

lemma activity_end_frame:
  assumes "activity_end c e user resumed now m = (p, m')"
  shows "confirm_window m' = confirm_window m \<and> overlapped m' = overlapped m \<and> camera_lock m' = camera_lock m
    \<and> fresh m \<le> fresh m' \<and> window_of p = [] \<and> (\<forall>e k. p \<noteq> Scanning e k)"
  using assms
  by (auto simp: activity_end_def camera_queue_def window_of_def Let_def split: if_splits prod.splits)

lemma camera_enter_frame:
  assumes "camera_enter c e k m = (p, m')"
  shows "confirm_window m' = confirm_window m \<and> overlapped m' = overlapped m \<and> fresh m' = fresh m \<and> window_of p = []
    \<and> camera_lock m' = (camera_lock m \<or> p = Scanning e k) \<and> (p = Scanning e k \<or> (\<forall>e k. p \<noteq> Scanning e k))"
  using assms by (auto simp: camera_enter_def window_of_def split: if_splits)

lemma scan_end_frame:
  assumes "scan_end c k result certainty now m = (p, m')"
  shows "confirm_window m' = confirm_window m \<and> overlapped m' = overlapped m \<and> fresh m' = fresh m \<and> window_of p = []
    \<and> \<not> camera_lock m' \<and> (\<forall>e k. p \<noteq> Scanning e k)"
  using assms by (auto simp: scan_end_def window_of_def Let_def split: work.splits if_splits)

lemma confirm_start_cases:
  assumes "confirm_start b real_uid c user requester enrolled now m = (p, m')"
  shows "(m' = m \<and> (\<exists>a. p = Done a) \<and> confirm_events user p = [])
    \<or> (\<exists>w. confirm_window m = Some w \<and> m' = confirm_missed user now (m\<lparr>overlapped := w # overlapped m\<rparr>)
         \<and> p = Done (Answer CONFIRM_CONFLICT (-1)))
    \<or> (confirm_window m = None \<and> p = Window (fresh m) (fresh m + 1) user
         \<and> m' = register (sender c) (m\<lparr>confirm_window := Some (fresh m), fresh := fresh m + 1\<rparr>))"
  using assms
  by (auto simp: confirm_start_def Let_def confirm_events_def split: if_splits sum.splits option.splits)

lemma confirm_end_frame:
  assumes "confirm_end b c w e user pressed encoded now m = (p, m')"
  shows "confirm_window m' = None \<and> overlapped m' = overlapped m \<and> camera_lock m' = camera_lock m
    \<and> fresh m \<le> fresh m' \<and> window_of p = [] \<and> (\<forall>e k. p \<noteq> Scanning e k)"
  using assms
  by (auto simp: confirm_end_def Let_def window_of_def split: if_splits dest!: verify_start_frame)

lemma confirm_end_queued:
  assumes "confirm_end b c w e user pressed encoded now m = (Queued e' k, m')"
  shows "pressed = ENTER \<and> w \<notin> set (overlapped m) \<and> \<not> is_set e m"
  using assms by (auto simp: confirm_end_def Let_def is_set_def split: if_splits)

section \<open>The invariant\<close>

text \<open>An approval is directly preceded by its window's end, and that by the window alone.\<close>

definition quiet :: "tevent list \<Rightarrow> bool" where
  "quiet mid \<longleftrightarrow> (\<forall>e \<in> set mid. \<exists>n. e = ScanStarted n)"

definition good_trace :: "tevent list \<Rightarrow> bool" where
  "good_trace tr \<longleftrightarrow> (\<forall>post w u rest. tr = post @ Approved w u # rest \<longrightarrow>
     (\<exists>mid before. rest = Closed w # mid @ Opened w u # before \<and> quiet mid))"

lemma good_trace_Nil [simp]: "good_trace []"
  by (simp add: good_trace_def)

lemma good_trace_Cons: "\<forall>w u. e \<noteq> Approved w u \<Longrightarrow> good_trace (e # tr) = good_trace tr"
  unfolding good_trace_def
proof (intro iffI allI impI)
  fix post w u rest
  assume a: "\<forall>post w u rest. e # tr = post @ Approved w u # rest \<longrightarrow>
     (\<exists>mid before. rest = Closed w # mid @ Opened w u # before \<and> quiet mid)"
    and tr: "tr = post @ Approved w u # rest"
  have "e # tr = (e # post) @ Approved w u # rest"
    by (simp add: tr)
  with a show "\<exists>mid before. rest = Closed w # mid @ Opened w u # before \<and> quiet mid"
    by blast
next
  fix post w u rest
  assume e: "\<forall>w u. e \<noteq> Approved w u"
    and a: "\<forall>post w u rest. tr = post @ Approved w u # rest \<longrightarrow>
     (\<exists>mid before. rest = Closed w # mid @ Opened w u # before \<and> quiet mid)"
    and tr: "e # tr = post @ Approved w u # rest"
  from tr e obtain post' where "post = e # post'"
    by (cases post) auto
  with tr a show "\<exists>mid before. rest = Closed w # mid @ Opened w u # before \<and> quiet mid"
    by auto
qed

lemma good_trace_Approved:
  assumes "good_trace tr" and "tr = mid @ Opened w u # before" and "quiet mid"
  shows "good_trace (Approved w u # Closed w # tr)"
  unfolding good_trace_def
proof (intro allI impI)
  fix post v x rest
  assume eq: "Approved w u # Closed w # tr = post @ Approved v x # rest"
  show "\<exists>mid before. rest = Closed v # mid @ Opened v x # before \<and> quiet mid"
  proof (cases post)
    case Nil
    then show ?thesis
      using eq assms by auto
  next
    case (Cons p ps)
    then have "Closed w # tr = ps @ Approved v x # rest"
      using eq by simp
    then have "\<exists>ps'. tr = ps' @ Approved v x # rest"
      by (cases ps) auto
    then show ?thesis
      using assms(1) unfolding good_trace_def by blast
  qed
qed

text \<open>The window that is open, if any: its only task, and what happened since it opened.\<close>

definition window_inv :: "mgr \<Rightarrow> task list \<Rightarrow> tevent list \<Rightarrow> bool" where
  "window_inv m ts tr \<longleftrightarrow>
     (case confirm_window m of
        None \<Rightarrow> windows ts = []
      | Some w \<Rightarrow> w < fresh m \<and> (\<exists>u mid before. windows ts = [(w, u)] \<and> tr = mid @ Opened w u # before
            \<and> (\<forall>e \<in> set mid. (\<exists>n. e = ScanStarted n) \<or> (\<exists>v. e = Conflict v \<and> w \<in> set (overlapped m)))))"

definition sys_inv :: "system \<Rightarrow> bool" where
  "sys_inv s \<longleftrightarrow>
     scanning (tasks s) = (if camera_lock (memory s) then 1 else 0)
     \<and> window_inv (memory s) (tasks s) (trace s)
     \<and> (\<forall>w \<in> set (overlapped (memory s)). w < fresh (memory s))
     \<and> good_trace (trace s)"

lemma window_invI:
  assumes "confirm_window m = Some w" "w < fresh m" "windows ts = [(w, u)]" "tr = mid @ Opened w u # before"
    and "\<forall>e \<in> set mid. (\<exists>n. e = ScanStarted n) \<or> (\<exists>v. e = Conflict v \<and> w \<in> set (overlapped m))"
  shows "window_inv m ts tr"
  unfolding window_inv_def using assms by auto

lemma sys_invD:
  assumes "sys_inv s"
  shows "scanning (tasks s) = (if camera_lock (memory s) then 1 else 0)"
    and "window_inv (memory s) (tasks s) (trace s)"
    and "\<And>w. w \<in> set (overlapped (memory s)) \<Longrightarrow> w < fresh (memory s)"
    and "good_trace (trace s)"
  using assms unfolding sys_inv_def by blast+

lemma window_inv_frame:
  assumes "window_inv m ts tr" and "confirm_window m' = confirm_window m" and "overlapped m' = overlapped m"
    and "fresh m \<le> fresh m'" and "windows ts' = windows ts"
    and "tr' = mid @ tr" and "quiet mid"
  shows "window_inv m' ts' tr'"
proof (cases "confirm_window m")
  case None
  then show ?thesis
    using assms by (simp add: window_inv_def)
next
  case (Some w)
  then obtain u mid1 before where w: "w < fresh m" "windows ts = [(w, u)]" "tr = mid1 @ Opened w u # before"
    "\<forall>e \<in> set mid1. (\<exists>n. e = ScanStarted n) \<or> (\<exists>v. e = Conflict v \<and> w \<in> set (overlapped m))"
    using assms(1) by (auto simp: window_inv_def)
  have "tr' = (mid @ mid1) @ Opened w u # before"
    "\<forall>e \<in> set (mid @ mid1). (\<exists>n. e = ScanStarted n) \<or> (\<exists>v. e = Conflict v \<and> w \<in> set (overlapped m))"
    using assms(6,7) w by (auto simp: quiet_def)
  then show ?thesis
    using Some w(1,2) assms(2-5) by (intro window_invI [of m' w ts' u tr' "mid @ mid1" before]) simp_all
qed

lemma is_scanning_iff [simp]: "is_scanning \<lparr>t_caller = c, t_pc = p\<rparr> \<longleftrightarrow> (\<exists>e k. p = Scanning e k)"
  by (cases p) (auto simp: is_scanning_def)

lemma window_of_simps [simp]:
  "window_of (Window w e u) = [(w, u)]" "window_of (Activity e u) = []" "window_of (Queued e k) = []"
  "window_of (Scanning e k) = []" "window_of (Done a) = []"
  by (simp_all add: window_of_def)

lemma sys_inv_task_update:
  assumes inv: "sys_inv s" and i: "i < length (tasks s)" and was: "tasks s ! i = \<lparr>t_caller = c, t_pc = q\<rparr>"
    and no: "window_of q = []" "window_of p = []"
    and m: "confirm_window m' = confirm_window (memory s)" "overlapped m' = overlapped (memory s)"
      "fresh (memory s) \<le> fresh m'"
    and lock: "scanning (tasks s) + (if \<exists>e k. p = Scanning e k then 1 else 0)
        = (if camera_lock m' then 1 else 0) + (if \<exists>e k. q = Scanning e k then 1 else (0::nat))"
    and tr: "tr' = mid @ trace s" "quiet mid"
  shows "sys_inv (s\<lparr>memory := m', tasks := (tasks s)[i := \<lparr>t_caller = c, t_pc = p\<rparr>], trace := tr'\<rparr>)"
proof -
  let ?ts = "(tasks s)[i := \<lparr>t_caller = c, t_pc = p\<rparr>]"
  have w: "windows ?ts = windows (tasks s)"
    using i was no by (intro windows_same) simp_all
  have "scanning ?ts = (if camera_lock m' then 1 else 0)"
    using scanning_update [OF i, of "\<lparr>t_caller = c, t_pc = p\<rparr>"] lock was by (simp split: if_splits)
  moreover have "window_inv m' ?ts tr'"
    by (rule window_inv_frame [OF sys_invD(2) [OF inv] m w tr])
  moreover have "good_trace (mid @ trace s)"
    using tr(2) sys_invD(4) [OF inv] by (induction mid) (auto simp: quiet_def good_trace_Cons)
  moreover have "\<forall>w \<in> set (overlapped m'). w < fresh m'"
    using sys_invD(3) [OF inv] m(2,3) by (metis less_le_trans)
  ultimately show ?thesis
    using tr(1) by (simp add: sys_inv_def)
qed

lemma sys_inv_new_task:
  assumes inv: "sys_inv s" and no: "window_of p = []" "\<forall>e k. p \<noteq> Scanning e k"
    and m: "confirm_window m' = confirm_window (memory s)" "overlapped m' = overlapped (memory s)"
      "fresh (memory s) \<le> fresh m'" "camera_lock m' = camera_lock (memory s)"
  shows "sys_inv (s\<lparr>memory := m', tasks := tasks s @ [\<lparr>t_caller = c, t_pc = p\<rparr>]\<rparr>)"
proof -
  let ?ts = "tasks s @ [\<lparr>t_caller = c, t_pc = p\<rparr>]"
  have "windows ?ts = windows (tasks s)"
    using no by simp
  then have "window_inv m' ?ts (trace s)"
    by (rule window_inv_frame [OF sys_invD(2) [OF inv] m(1-3), where mid = "[]"]) (simp_all add: quiet_def)
  moreover have "\<forall>w \<in> set (overlapped m'). w < fresh m'"
    using sys_invD(3) [OF inv] m(2,3) by (metis less_le_trans)
  moreover have "scanning ?ts = (if camera_lock m' then 1 else 0)"
    using sys_invD(1) [OF inv] m(4) no by simp
  ultimately show ?thesis
    using sys_invD(4) [OF inv] by (simp add: sys_inv_def)
qed

lemma sys_inv_confirm_request:
  assumes inv: "sys_inv s"
    and start: "confirm_start b real_uid c user requester enrolled (clock s) (memory s) = (p, m')"
  shows "sys_inv (s\<lparr>memory := m', tasks := tasks s @ [\<lparr>t_caller = c, t_pc = p\<rparr>],
      trace := confirm_events user p @ trace s\<rparr>)"
  using confirm_start_cases [OF start]
proof (elim disjE conjE exE)
  fix a
  assume "m' = memory s" and p: "p = Done a" and e: "confirm_events user p = []"
  then have "sys_inv (s\<lparr>memory := m', tasks := tasks s @ [\<lparr>t_caller = c, t_pc = p\<rparr>]\<rparr>)"
    by (intro sys_inv_new_task [OF inv]) simp_all
  then show ?thesis
    by (simp add: e sys_inv_def)
next
  fix w
  assume w: "confirm_window (memory s) = Some w"
    and m': "m' = confirm_missed user (clock s) (memory s\<lparr>overlapped := w # overlapped (memory s)\<rparr>)"
    and p: "p = Done (Answer CONFIRM_CONFLICT (-1))"
  obtain u mid before where o: "w < fresh (memory s)" "windows (tasks s) = [(w, u)]"
    "trace s = mid @ Opened w u # before"
    "\<forall>e \<in> set mid. (\<exists>n. e = ScanStarted n) \<or> (\<exists>v. e = Conflict v \<and> w \<in> set (overlapped (memory s)))"
    using sys_invD(2) [OF inv] w by (auto simp: window_inv_def)
  have "window_inv m' (tasks s @ [\<lparr>t_caller = c, t_pc = p\<rparr>]) (Conflict user # trace s)"
    using w o by (intro window_invI [of m' w _ u _ "Conflict user # mid" before]) (auto simp: m' p)
  then show ?thesis
    using sys_invD(1,3,4) [OF inv] o(1) by (auto simp: sys_inv_def confirm_events_def p good_trace_Cons m')
next
  assume w: "confirm_window (memory s) = None" and p: "p = Window (fresh (memory s)) (fresh (memory s) + 1) user"
    and m': "m' = register (sender c) (memory s\<lparr>confirm_window := Some (fresh (memory s)), fresh := fresh (memory s) + 1\<rparr>)"
  have "windows (tasks s) = []"
    using sys_invD(2) [OF inv] w by (simp add: window_inv_def)
  then have "window_inv m' (tasks s @ [\<lparr>t_caller = c, t_pc = p\<rparr>]) (Opened (fresh (memory s)) user # trace s)"
    by (intro window_invI [of m' "fresh (memory s)" _ user _ "[]" "trace s"]) (simp_all add: m' p)
  then show ?thesis
    using sys_invD(1,4) [OF inv] sys_invD(3) [OF inv]
    by (auto simp: sys_inv_def confirm_events_def p good_trace_Cons m' less_SucI)
qed

lemma sys_inv_enter_wait_over:
  assumes inv: "sys_inv s" and i: "i < length (tasks s)"
    and was: "tasks s ! i = \<lparr>t_caller = c, t_pc = Window w e user\<rparr>"
    and ended: "confirm_end b c w e user pressed encoded (clock s) (memory s) = (p, m')"
  shows "sys_inv (s\<lparr>memory := m', tasks := (tasks s)[i := \<lparr>t_caller = c, t_pc = p\<rparr>],
      trace := end_events w user p @ trace s\<rparr>)"
proof -
  let ?ts = "(tasks s)[i := \<lparr>t_caller = c, t_pc = p\<rparr>]"
  note f = confirm_end_frame [OF ended]
  obtain xs ys where ws: "windows (tasks s) = xs @ [(w, user)] @ ys" "windows ?ts = xs @ window_of p @ ys"
    using windows_update [OF i, of "\<lparr>t_caller = c, t_pc = p\<rparr>"] was by auto
  then obtain mid before where opened: "confirm_window (memory s) = Some w" "xs = []" "ys = []"
    "trace s = mid @ Opened w user # before"
    "\<forall>e \<in> set mid. (\<exists>n. e = ScanStarted n) \<or> (\<exists>v. e = Conflict v \<and> w \<in> set (overlapped (memory s)))"
    using sys_invD(2) [OF inv] by (auto simp: window_inv_def Cons_eq_append_conv append_eq_Cons_conv split: option.splits)
  have "good_trace (end_events w user p @ trace s)"
  proof (cases "\<exists>e k. p = Queued e k")
    case True
    then have "w \<notin> set (overlapped (memory s))"
      using confirm_end_queued ended by blast
    then have "quiet mid"
      using opened(5) by (auto simp: quiet_def)
    with True show ?thesis
      using good_trace_Approved [OF sys_invD(4) [OF inv] opened(4)] by (auto simp: end_events_def)
  next
    case False
    then have "end_events w user p = [Closed w]"
      by (cases p) (auto simp: end_events_def)
    then show ?thesis
      using sys_invD(4) [OF inv] by (simp add: good_trace_Cons)
  qed
  moreover have "scanning ?ts = (if camera_lock m' then 1 else 0)"
    using scanning_update [OF i, of "\<lparr>t_caller = c, t_pc = p\<rparr>"] was f sys_invD(1) [OF inv] by auto
  moreover have "window_inv m' ?ts tr" for tr
    using f ws opened by (simp add: window_inv_def)
  moreover have "\<forall>w \<in> set (overlapped m'). w < fresh m'"
    using sys_invD(3) [OF inv] f by (metis less_le_trans)
  ultimately show ?thesis
    by (simp add: sys_inv_def)
qed

lemma sys_step_inv: "sys_step b real_uid s s' \<Longrightarrow> sys_inv s \<Longrightarrow> sys_inv s'"
proof (induction rule: sys_step.induct)
  case (verify_request c user pausable encoded s p m')
  note f = verify_start_frame [OF verify_request(1)]
  show ?case
    by (rule sys_inv_new_task [OF verify_request(2)]) (use f in auto)
next
  case (confirm_request c user requester enrolled s p m')
  then show ?case
    by (blast intro: sys_inv_confirm_request)
next
  case (camera_request k user c s p m')
  then show ?case
    by (intro sys_inv_new_task) (auto simp: camera_queue_def)
next
  case (enter_wait_over i s c w e user pressed encoded p m')
  then show ?case
    by (blast intro: sys_inv_enter_wait_over)
next
  case (activity_wait_over i s c e user resumed p m')
  note f = activity_end_frame [OF activity_wait_over(3)]
  have "sys_inv (s\<lparr>memory := m', tasks := (tasks s)[i := \<lparr>t_caller = c, t_pc = p\<rparr>], trace := trace s\<rparr>)"
    by (rule sys_inv_task_update [OF activity_wait_over(4,1,2), where mid = "[]"])
      (use f sys_invD(1) [OF activity_wait_over(4)] in \<open>auto simp: quiet_def\<close>)
  then show ?case
    by simp
next
  case (camera_free i s c e k p m')
  note f = camera_enter_frame [OF camera_free(4)]
  have "quiet (scan_events_of p)"
    by (cases p) (auto simp: quiet_def scan_events_of_def)
  then show ?case
    by (intro sys_inv_task_update [OF camera_free(5,1,2)])
      (use f camera_free(3) sys_invD(1) [OF camera_free(5)] in auto)
next
  case (scan_over i s c e k result certainty p m')
  note f = scan_end_frame [OF scan_over(3)]
  have "is_scanning (tasks s ! i)" and "tasks s ! i \<in> set (tasks s)"
    using scan_over(2) nth_mem [OF scan_over(1)] by simp_all
  then have "scanning (tasks s) \<noteq> 0"
    by (auto simp: scanning_def filter_empty_conv)
  then have "scanning (tasks s) = 1"
    using sys_invD(1) [OF scan_over(4)] by (simp split: if_splits)
  then have "sys_inv (s\<lparr>memory := m', tasks := (tasks s)[i := \<lparr>t_caller = c, t_pc = p\<rparr>], trace := trace s\<rparr>)"
    by (intro sys_inv_task_update [OF scan_over(4,1,2), where mid = "[]"]) (use f in \<open>auto simp: quiet_def\<close>)
  then show ?case
    by simp
next
  case (cancelled_or_gone s name)
  have "window_inv (cancel_sender name m) ts tr = window_inv m ts tr" for m ts tr
    unfolding window_inv_def cancel_sender_fields ..
  then show ?case
    using cancelled_or_gone by (simp add: sys_inv_def)
next
  case (time_passes s t)
  then show ?case
    by (simp add: sys_inv_def)
qed

lemma reachable_inv: "reachable b real_uid s \<Longrightarrow> sys_inv s"
proof -
  assume "reachable b real_uid s"
  then obtain t where "(sys_step b real_uid)\<^sup>*\<^sup>* (idle_system t) s"
    by (auto simp: reachable_def)
  then show ?thesis
  proof (induction rule: rtranclp_induct)
    case base
    show ?case
      by (simp add: sys_inv_def window_inv_def idle_system_def new_manager_def scanning_def windows_def)
  qed (blast intro: sys_step_inv)
qed

section \<open>Properties of the requests\<close>

text \<open>
  C2. One Enter approves one request: in every run of the service, whenever a scan is
  approved for a user, that user's window was open alone. Between its opening and its end
  no other window opened or ended, no other scan was approved, and no request that had come as far as a window was turned away because
  of this one. A request that is refused before that, for its session, its model, a pause or its permission, leaves no event and stops nothing.
\<close>

theorem one_enter_one_request:
  assumes "reachable b real_uid s" and "trace s = post @ Approved w u # rest"
  shows "\<exists>mid before. rest = Closed w # mid @ Opened w u # before
    \<and> (\<forall>e \<in> set mid. \<exists>n. e = ScanStarted n)"
  using sys_invD(4) [OF reachable_inv [OF assms(1)]] assms(2) unfolding good_trace_def quiet_def by blast

definition root_caller :: caller where "root_caller = \<lparr>sender = '':1.1'', uid = 0\<rparr>"

lemma sample_check_user: "check_user sample_bus ''alice'' = Inr ()"
  by (simp add: check_user_def sample_bus_def)

lemma sample_session: "has_local_session sample_bus 1000 0" and sample_uid: "getpwnam sample_bus ''alice'' = Some 1000"
  by (simp_all add: has_local_session_def sample_bus_def local_and_active_def)

theorem one_enter_one_request_witness:
  "\<exists>s. reachable sample_bus (\<lambda>_. None) s \<and> trace s = [Approved 0 ''alice'', Closed 0, Opened 0 ''alice'']
     \<and> (\<exists>mid before. [Closed 0, Opened 0 ''alice''] = Closed 0 # mid @ Opened 0 ''alice'' # before
          \<and> (\<forall>e \<in> set mid. \<exists>n. e = ScanStarted n))"
proof -
  let ?s0 = "idle_system 0" and ?step = "sys_step sample_bus (\<lambda>_. None)"
  define m1 where "m1 = register '':1.1'' (new_manager\<lparr>confirm_window := Some 0, fresh := 1\<rparr>)"
  have c: "confirm_start sample_bus (\<lambda>_. None) root_caller ''alice'' 0 True (clock ?s0) (memory ?s0) = (Window 0 1 ''alice'', m1)"
    by (simp add: confirm_start_def root_caller_def sample_check_user sample_session sample_uid
        idle_system_def new_manager_def m1_def)
  define s1 where "s1 = ?s0\<lparr>memory := m1, tasks := [\<lparr>t_caller = root_caller, t_pc = Window 0 1 ''alice''\<rparr>],
    trace := [Opened 0 ''alice'']\<rparr>"
  have s1: "?step ?s0 s1"
    using confirm_request [OF c] by (simp add: s1_def idle_system_def confirm_events_def)
  obtain m2 e k where c2: "confirm_end sample_bus root_caller 0 1 ''alice'' ENTER True (clock s1) (memory s1) = (Queued e k, m2)"
    by (simp add: confirm_end_def root_caller_def s1_def m1_def new_manager_def register_def unregister_def is_set_def
        verify_start_def sample_check_user camera_queue_def)
  define s2 where "s2 = s1\<lparr>memory := m2, tasks := [\<lparr>t_caller = root_caller, t_pc = Queued e k\<rparr>],
    trace := [Approved 0 ''alice'', Closed 0, Opened 0 ''alice'']\<rparr>"
  have "tasks s1 ! 0 = \<lparr>t_caller = root_caller, t_pc = Window 0 1 ''alice''\<rparr>" and "0 < length (tasks s1)"
    by (simp_all add: s1_def)
  from enter_wait_over [OF this(2,1) c2] have s2: "?step s1 s2"
    by (simp add: s2_def s1_def end_events_def)
  have r: "reachable sample_bus (\<lambda>_. None) s2"
    using s1 s2 unfolding reachable_def by (meson converse_rtranclp_into_rtranclp rtranclp.rtrancl_refl)
  have t: "trace s2 = [] @ Approved 0 ''alice'' # [Closed 0, Opened 0 ''alice'']"
    by (simp add: s2_def)
  show ?thesis
    using one_enter_one_request [OF r t] r t by (metis append_Nil)
qed

text \<open>
  C10. What an elevation has to pass: a window opens only for a root caller, for an account
  that is not root's, when the asking process, if known, is the user's own, someone can sit at
  the keyboard, face is not paused and no window is open; and only Enter, in a window nobody
  overlapped and nobody cancelled, leads on to the camera.
\<close>

theorem elevation_gate:
  "(confirm_start b real_uid c user requester enrolled now m = (Window w e u, m') \<longrightarrow>
      uid c = 0 \<and> u = user \<and> user \<noteq> ''root'' \<and> enrolled \<and> confirm_window m = None
      \<and> (\<exists>n. getpwnam b user = Some n \<and> has_local_session b n requester
              \<and> (requester \<noteq> 0 \<longrightarrow> real_uid requester = Some n))
      \<and> (\<forall>t. map_of (confirm_paused m) user = Some t \<longrightarrow> t \<le> now))
   \<and> (\<forall>e k. fst (confirm_start b real_uid c user requester enrolled now m) \<noteq> Queued e k)
   \<and> (fst (confirm_end b c w e user pressed encoded now m) = Queued e' k \<longrightarrow>
      pressed = ENTER \<and> w \<notin> set (overlapped m) \<and> \<not> is_set e m \<and> encoded)"
proof (intro conjI impI allI)
  assume "confirm_start b real_uid c user requester enrolled now m = (Window w e u, m')"
  then show "uid c = 0" "u = user" "user \<noteq> ''root''" "enrolled" "confirm_window m = None"
    "\<exists>n. getpwnam b user = Some n \<and> has_local_session b n requester
              \<and> (requester \<noteq> 0 \<longrightarrow> real_uid requester = Some n)"
    "\<And>t. map_of (confirm_paused m) user = Some t \<Longrightarrow> t \<le> now"
    by (auto simp: confirm_start_def check_user_def Let_def split: if_splits option.splits sum.splits)
next
  fix e k
  show "fst (confirm_start b real_uid c user requester enrolled now m) \<noteq> Queued e k"
    by (auto simp: confirm_start_def Let_def split: sum.splits option.splits)
next
  assume a: "fst (confirm_end b c w e user pressed encoded now m) = Queued e' k"
  then show "pressed = ENTER" "w \<notin> set (overlapped m)" "\<not> is_set e m"
    using confirm_end_queued by (metis prod.collapse)+
  show encoded
    using a by (auto simp: confirm_end_def verify_start_def Let_def split: if_splits sum.splits)
qed

theorem elevation_gate_witness:
  "\<exists>m'. confirm_start sample_bus (\<lambda>_. None) root_caller ''alice'' 0 True 5 new_manager = (Window 0 1 ''alice'', m')
     \<and> uid root_caller = 0 \<and> confirm_window new_manager = None"
proof -
  obtain m' where c: "confirm_start sample_bus (\<lambda>_. None) root_caller ''alice'' 0 True 5 new_manager = (Window 0 1 ''alice'', m')"
    by (simp add: confirm_start_def root_caller_def sample_check_user sample_session sample_uid new_manager_def)
  show ?thesis
    using elevation_gate [of sample_bus "\<lambda>_. None" root_caller "''alice''" 0 True 5 new_manager 0 1 "''alice''" m'] c
    by auto
qed

text \<open>
  C18. The camera is used by at most one request at a time, whatever requests queue for it, are cancelled or lose their caller, and the lock says whether it is used: in
  every reachable state it is taken exactly when a request is at its scan.
\<close>

theorem camera_exclusive:
  assumes "reachable b real_uid s"
  shows "length (filter is_scanning (tasks s)) = (if camera_lock (memory s) then 1 else 0)"
  using sys_invD(1) [OF reachable_inv [OF assms]] by (simp add: scanning_def)

text \<open>An instance: two requests queue for the camera, and the second gets it.\<close>

theorem camera_exclusive_witness:
  "\<exists>s. reachable sample_bus (\<lambda>_. None) s \<and> length (tasks s) = 2 \<and> camera_lock (memory s) \<and> length (filter is_scanning (tasks s)) = 1"
proof -
  let ?s0 = "idle_system 0" and ?step = "sys_step sample_bus (\<lambda>_. None)"
  define m1 where "m1 = register (sender root_caller) new_manager"
  define s1 where "s1 = ?s0\<lparr>memory := m1, tasks := [\<lparr>t_caller = root_caller, t_pc = Queued 0 ProbeWork\<rparr>]\<rparr>"
  have "camera_queue root_caller ProbeWork (memory ?s0) = (Queued 0 ProbeWork, m1)"
    by (simp add: camera_queue_def idle_system_def m1_def new_manager_def)
  from camera_request [OF disjI2 [OF refl] this] have s1: "?step ?s0 s1"
    by (simp add: s1_def idle_system_def)
  define m2 where "m2 = register (sender root_caller) m1"
  define s2 where "s2 = s1\<lparr>memory := m2, tasks := tasks s1 @ [\<lparr>t_caller = root_caller, t_pc = Queued 1 ProbeWork\<rparr>]\<rparr>"
  have "camera_queue root_caller ProbeWork (memory s1) = (Queued 1 ProbeWork, m2)"
    by (simp add: camera_queue_def s1_def m2_def m1_def new_manager_def)
  from camera_request [OF disjI2 [OF refl] this] have s2: "?step s1 s2"
    by (simp add: s2_def)
  obtain s3 where s3: "?step s2 s3" "length (tasks s3) = 2" "camera_lock (memory s3)"
  proof -
    have "camera_enter root_caller 1 ProbeWork (memory s2) = (Scanning 1 ProbeWork, m2\<lparr>camera_lock := True\<rparr>)"
      by (simp add: camera_enter_def is_set_def s2_def m2_def m1_def new_manager_def)
    moreover have "1 < length (tasks s2)" "tasks s2 ! 1 = \<lparr>t_caller = root_caller, t_pc = Queued 1 ProbeWork\<rparr>" "\<not> camera_lock (memory s2)"
      by (simp_all add: s2_def s1_def m2_def m1_def new_manager_def)
    ultimately show thesis
      using that camera_free [of 1 s2 root_caller 1 ProbeWork] by (fastforce simp: s2_def s1_def)
  qed
  have "reachable sample_bus (\<lambda>_. None) s3"
    using s1 s2 s3(1) unfolding reachable_def by (meson converse_rtranclp_into_rtranclp rtranclp.rtrancl_refl)
  with camera_exclusive [OF this] s3 show ?thesis
    by auto
qed

lemma set_events_step:
  assumes "sys_step b real_uid s s'" and "is_set e (memory s)"
  shows "is_set e (memory s') \<and> (ScanStarted e \<in> set (trace s') \<longrightarrow> ScanStarted e \<in> set (trace s))"
  using assms
proof (induction rule: sys_step.induct)
  case (confirm_request c user requester enrolled s p m')
  have "set_events m' = set_events (memory s)"
    using confirm_start_cases [OF confirm_request(1)] by auto
  moreover have "ScanStarted e \<notin> set (confirm_events user p)"
    by (auto simp: confirm_events_def split: pc.splits answer.splits)
  ultimately show ?case
    using confirm_request by (simp add: is_set_def)
next
  case (enter_wait_over i s c w e1 user pressed encoded p m')
  have "set_events m' = set_events (memory s)"
    using enter_wait_over(3)
    by (auto simp: confirm_end_def verify_start_def camera_queue_def Let_def split: if_splits sum.splits)
  moreover have "ScanStarted e \<notin> set (end_events w user p)"
    by (auto simp: end_events_def split: pc.splits)
  ultimately show ?case
    using enter_wait_over by (simp add: is_set_def)
next
  case (camera_free i s c e1 k p m')
  then show ?case
    by (auto simp: camera_enter_def is_set_def scan_events_of_def split: if_splits)
qed (auto simp: is_set_def verify_start_def camera_queue_def activity_end_def scan_end_def cancel_sender_def Let_def
    split: if_splits sum.splits option.splits work.splits prod.splits)

text \<open>
  Only the newest request of a sender can be cancelled: where one connection has two
  requests waiting, cancelling (or leaving the bus) reaches the second and not the first.
\<close>

theorem cancel_reaches_newest_only:
  assumes "camera_queue c k1 m = (Queued e1 k1, m1)" and "camera_queue c k2 m1 = (Queued e2 k2, m2)"
    and "\<forall>e \<in> set (set_events m). e < fresh m"
  shows "is_set e2 (cancel_sender (sender c) m2) \<and> \<not> is_set e1 (cancel_sender (sender c) m2)"
  using assms by (auto simp: camera_queue_def register_def cancel_sender_def is_set_def)

theorem cancel_reaches_newest_only_witness:
  "\<exists>e1 e2 m1 m2. camera_queue root_caller (EnrollWork ''alice'') new_manager = (Queued e1 (EnrollWork ''alice''), m1)
     \<and> camera_queue root_caller ProbeWork m1 = (Queued e2 ProbeWork, m2)
     \<and> \<not> is_set e1 (cancel_sender (sender root_caller) m2)"
proof -
  obtain e1 m1 where 1: "camera_queue root_caller (EnrollWork ''alice'') new_manager = (Queued e1 (EnrollWork ''alice''), m1)"
    by (simp add: camera_queue_def)
  obtain e2 m2 where 2: "camera_queue root_caller ProbeWork m1 = (Queued e2 ProbeWork, m2)"
    by (simp add: camera_queue_def)
  show ?thesis
    using cancel_reaches_newest_only [OF 1 2] 1 2 by (auto simp: new_manager_def)
qed

section \<open>Pauses\<close>

definition misses_of :: "mgr \<Rightarrow> string \<Rightarrow> real list" where
  "misses_of m user = (case map_of (confirm_misses m) user of None \<Rightarrow> [] | Some ts \<Rightarrow> ts)"

definition pauses_of :: "mgr \<Rightarrow> string \<Rightarrow> nat" where
  "pauses_of m user = (case map_of (confirm_pauses m) user of None \<Rightarrow> 0 | Some n \<Rightarrow> n)"

lemma confirm_missed_few:
  assumes "length (filter (\<lambda>t. now - t < CONFIRM_PAUSE_SECONDS) (misses_of m user)) < 2"
  shows "misses_of (confirm_missed user now m) user = filter (\<lambda>t. now - t < CONFIRM_PAUSE_SECONDS) (misses_of m user) @ [now]"
    "confirm_paused (confirm_missed user now m) = confirm_paused m"
    "confirm_pauses (confirm_missed user now m) = confirm_pauses m"
  using assms by (simp_all add: confirm_missed_def misses_of_def Let_def CONFIRM_MISSES_def)

lemma confirm_missed_many:
  assumes "length (filter (\<lambda>t. now - t < CONFIRM_PAUSE_SECONDS) (misses_of m user)) \<ge> 2"
  shows "map_of (confirm_paused (confirm_missed user now m)) user
       = Some (now + min (CONFIRM_PAUSE_SECONDS * 2 ^ pauses_of m user) CONFIRM_PAUSE_MAX_SECONDS)"
    "pauses_of (confirm_missed user now m) user = pauses_of m user + 1"
    "misses_of (confirm_missed user now m) user = []"
  using assms
  by (simp_all add: confirm_missed_def misses_of_def pauses_of_def Let_def CONFIRM_MISSES_def)

lemma confirm_start_paused:
  assumes "map_of (confirm_paused m) user = Some t" and "now < t"
  shows "snd (confirm_start b real_uid c user requester enrolled now m) = m
    \<and> (\<exists>a. fst (confirm_start b real_uid c user requester enrolled now m) = Done a)"
  using assms by (auto simp: confirm_start_def Let_def split: sum.splits)

text \<open>
  Three misses within a minute pause face for elevations: each pause is twice as long as
  the one before, up to an hour, and until it is over no request opens a window, whoever
  asks, nor changes the count.
\<close>

theorem three_misses_pause:
  assumes "t1 \<le> t2" "t2 \<le> t3" "t3 - t1 < CONFIRM_PAUSE_SECONDS" and "map_of (confirm_misses m) user = None"
    and "m3 = confirm_missed user t3 (confirm_missed user t2 (confirm_missed user t1 m))"
    and "until = t3 + min (CONFIRM_PAUSE_SECONDS * 2 ^ pauses_of m user) CONFIRM_PAUSE_MAX_SECONDS"
  shows "map_of (confirm_paused m3) user = Some until
    \<and> pauses_of m3 user = pauses_of m user + 1
    \<and> t3 + CONFIRM_PAUSE_SECONDS \<le> until \<and> (pauses_of m user \<ge> 6 \<longrightarrow> until = t3 + CONFIRM_PAUSE_MAX_SECONDS)
    \<and> (\<forall>now < until. snd (confirm_start b real_uid c user requester enrolled now m3) = m3
         \<and> (\<exists>a. fst (confirm_start b real_uid c user requester enrolled now m3) = Done a))"
proof -
  let ?m1 = "confirm_missed user t1 m" and ?m2 = "confirm_missed user t2 (confirm_missed user t1 m)"
  have "misses_of m user = []"
    using assms(4) by (simp add: misses_of_def)
  then have 1: "misses_of ?m1 user = [t1]" "confirm_pauses ?m1 = confirm_pauses m"
    using confirm_missed_few [of t1 m user] by simp_all
  have "t2 - t1 < CONFIRM_PAUSE_SECONDS" "t3 - t2 < CONFIRM_PAUSE_SECONDS"
    using assms(1-3) by linarith+
  then have 2: "misses_of ?m2 user = [t1, t2]" "confirm_pauses ?m2 = confirm_pauses m"
    using confirm_missed_few [of t2 ?m1 user] 1 by simp_all
  then have "length (filter (\<lambda>t. t3 - t < CONFIRM_PAUSE_SECONDS) (misses_of ?m2 user)) \<ge> 2"
    using assms(3) \<open>t3 - t2 < CONFIRM_PAUSE_SECONDS\<close> by simp
  note many = confirm_missed_many [OF this]
  have p: "pauses_of ?m2 user = pauses_of m user"
    using 2 by (simp add: pauses_of_def)
  have paused: "map_of (confirm_paused m3) user = Some until"
    using many(1) assms(5,6) p by simp
  have "(1::real) \<le> 2 ^ pauses_of m user"
    by (rule one_le_power) simp
  then have "t3 + CONFIRM_PAUSE_SECONDS \<le> until"
    using assms(6) by (simp add: CONFIRM_PAUSE_SECONDS_def CONFIRM_PAUSE_MAX_SECONDS_def)
  moreover have "until = t3 + CONFIRM_PAUSE_MAX_SECONDS" if "pauses_of m user \<ge> 6"
  proof -
    have "(2::real) ^ 6 \<le> 2 ^ pauses_of m user"
      using that by (intro power_increasing) simp_all
    then show ?thesis
      using assms(6) by (simp add: CONFIRM_PAUSE_SECONDS_def CONFIRM_PAUSE_MAX_SECONDS_def)
  qed
  ultimately show ?thesis
    using paused many(2) p assms(5) confirm_start_paused [OF paused] by auto
qed

theorem three_misses_pause_witness:
  "map_of (confirm_paused (confirm_missed ''alice'' 20 (confirm_missed ''alice'' 10 (confirm_missed ''alice'' 0 new_manager))))
     ''alice'' = Some 80"
proof -
  have "map_of (confirm_misses new_manager) ''alice'' = None" and "pauses_of new_manager ''alice'' = 0"
    by (simp_all add: new_manager_def pauses_of_def)
  then show ?thesis
    using three_misses_pause [of 0 10 20 new_manager "''alice''" _ 80]
    by (simp add: CONFIRM_PAUSE_SECONDS_def CONFIRM_PAUSE_MAX_SECONDS_def)
qed

text \<open>
  A program that leaves half a minute between its attempts is never paused, however
  often it tries: no number of misses at least thirty seconds apart leads to a pause.
\<close>

theorem slow_misses_never_pause:
  assumes "d \<ge> 30"
  shows "confirm_paused (fold (\<lambda>i. confirm_missed user (t + d * real i)) [0..<n] new_manager) = []"
proof -
  define m where "m k = fold (\<lambda>i. confirm_missed user (t + d * real i)) [0..<k] new_manager" for k
  have step_eq: "m (Suc k) = confirm_missed user (t + d * real k) (m k)" for k
    by (simp add: m_def)
  have "confirm_paused (m k) = [] \<and> length (misses_of (m k) user) \<le> 2
      \<and> (\<forall>x \<in> set (butlast (misses_of (m k) user)). x \<le> t + d * real k - 2 * d)
      \<and> (\<forall>x \<in> set (misses_of (m k) user). x \<le> t + d * real k - d)" for k
  proof (induction k)
    case 0
    show ?case
      by (simp add: m_def new_manager_def misses_of_def)
  next
    case (Suc k)
    let ?now = "t + d * real k" and ?old = "misses_of (m k) user"
    let ?kept = "filter (\<lambda>x. ?now - x < CONFIRM_PAUSE_SECONDS) ?old"
    have "?kept = filter (\<lambda>x. ?now - x < CONFIRM_PAUSE_SECONDS) (if ?old = [] then [] else [last ?old])"
    proof (cases ?old rule: rev_cases)
      case (snoc ys y)
      have "x \<le> ?now - 2 * d" if "x \<in> set ys" for x
        using Suc.IH that snoc by (simp add: algebra_simps)
      then have "filter (\<lambda>x. ?now - x < CONFIRM_PAUSE_SECONDS) ys = []"
        using assms unfolding filter_empty_conv CONFIRM_PAUSE_SECONDS_def by fastforce
      then show ?thesis
        using snoc by simp
    qed simp
    then have len: "length ?kept < 2" and sub: "set ?kept \<subseteq> set ?old"
      by (auto split: if_splits)
    note few = confirm_missed_few [OF len]
    have ms: "misses_of (m (Suc k)) user = ?kept @ [?now]" "confirm_paused (m (Suc k)) = []"
      using few Suc.IH unfolding step_eq by simp_all
    have "x \<le> ?now - d" if "x \<in> set ?kept" for x
      using that sub Suc.IH by auto
    moreover have now: "t + d * real (Suc k) - d = ?now" "t + d * real (Suc k) - 2 * d = ?now - d"
      by (simp_all add: algebra_simps)
    ultimately show ?case
      using len assms unfolding ms now by fastforce
  qed
  then show ?thesis
    by (simp add: m_def)
qed

theorem slow_misses_never_pause_witness:
  "confirm_paused (fold (\<lambda>i. confirm_missed ''alice'' (5 + 30 * real i)) [0..<120] new_manager) = []"
  by (rule slow_misses_never_pause) simp

lemma scan_end_failed:
  assumes "r = TIMEOUT_REACHED \<or> r = TOO_DARK"
  shows "map_of (failures (snd (scan_end c (VerifyWork user True) r x now m))) user = Some (streak user now m + 1, now)"
  using assms by (auto simp: scan_end_def streak_def)

lemma streak_Some: "map_of (failures m) user = Some (n, t) \<Longrightarrow> now - t \<le> STREAK_SECONDS \<Longrightarrow> streak user now m = n"
  by (simp add: streak_def)

text \<open>
  Nobody in front of the lock screen: after three failed scans in a row the next request
  of the lock screen waits for input with the camera off, while a request by root, or one the
  user started, goes to the camera at once.
\<close>

theorem lock_screen_pauses:
  assumes r: "\<forall>r \<in> {r1, r2, r3}. r = TIMEOUT_REACHED \<or> r = TOO_DARK"
    and t: "t2 - t1 \<le> STREAK_SECONDS" "t3 - t2 \<le> STREAK_SECONDS" "now - t3 \<le> STREAK_SECONDS"
    and m: "map_of (failures m) user = None"
    and m3: "m3 = snd (scan_end c3 (VerifyWork user True) r3 x3 t3
        (snd (scan_end c2 (VerifyWork user True) r2 x2 t2 (snd (scan_end c1 (VerifyWork user True) r1 x1 t1 m)))))"
    and user: "check_user b user = Inr ()"
  shows "(is_self b c user \<longrightarrow> fst (verify_start b c user True True now m3) = Activity (fresh m3) user)
    \<and> (uid c = 0 \<longrightarrow> fst (verify_start b c user pausable True now m3) = Queued (fresh m3) (VerifyWork user False))
    \<and> (is_self b c user \<longrightarrow> fst (verify_start b c user False True now m3) = Queued (fresh m3) (VerifyWork user False))"
proof -
  let ?m1 = "snd (scan_end c1 (VerifyWork user True) r1 x1 t1 m)"
  let ?m2 = "snd (scan_end c2 (VerifyWork user True) r2 x2 t2 ?m1)"
  have "streak user t1 m = 0"
    using m by (simp add: streak_def)
  then have "map_of (failures ?m1) user = Some (1, t1)"
    using r scan_end_failed [of r1 c1 user x1 t1 m] by simp
  then have "streak user t2 ?m1 = 1"
    using t(1) by (rule streak_Some)
  then have "map_of (failures ?m2) user = Some (2, t2)"
    using r scan_end_failed [of r2 c2 user x2 t2 ?m1] by simp
  then have "streak user t3 ?m2 = 2"
    using t(2) by (rule streak_Some)
  then have "map_of (failures m3) user = Some (3, t3)"
    using r scan_end_failed [of r3 c3 user x3 t3 ?m2] m3 by simp
  then have "streak user now m3 = 3"
    using t(3) by (rule streak_Some)
  then show ?thesis
    using user by (auto simp: verify_start_def PAUSE_AFTER_def camera_queue_def is_self_def)
qed

theorem lock_screen_pauses_witness:
  "\<exists>m3. fst (verify_start sample_bus \<lparr>sender = '':1.5'', uid = 1000\<rparr> ''alice'' True True 25 m3) = Activity (fresh m3) ''alice''"
proof -
  let ?c = "\<lparr>sender = '':1.5'', uid = 1000\<rparr>"
  define m3 where "m3 = snd (scan_end ?c (VerifyWork ''alice'' True) TOO_DARK 0 20
        (snd (scan_end ?c (VerifyWork ''alice'' True) TIMEOUT_REACHED 0 10
          (snd (scan_end ?c (VerifyWork ''alice'' True) TIMEOUT_REACHED 0 0 new_manager)))))"
  have self: "is_self sample_bus ?c ''alice''"
    by (simp add: is_self_def sample_bus_def)
  have none: "map_of (failures new_manager) ''alice'' = None"
    by (simp add: new_manager_def)
  have r: "\<forall>r \<in> {TIMEOUT_REACHED, TIMEOUT_REACHED, TOO_DARK}. r = TIMEOUT_REACHED \<or> r = TOO_DARK"
    by simp
  have t: "(10::real) - 0 \<le> STREAK_SECONDS" "(20::real) - 10 \<le> STREAK_SECONDS" "(25::real) - 20 \<le> STREAK_SECONDS"
    by (simp_all add: STREAK_SECONDS_def)
  from lock_screen_pauses [OF r t none m3_def sample_check_user, THEN conjunct1] self
  have "fst (verify_start sample_bus ?c ''alice'' True True 25 m3) = Activity (fresh m3) ''alice''"
    by blast
  then show ?thesis
    by (rule exI [of _ m3])
qed

end
