(* ===== verification/Models_Store.thy ===== *)
theory Models_Store
  imports Complex_Main LH_Prelude
begin

text \<open>
  \<^verbatim>\<open>models.py\<close>: the face models of each user, one file per user in the models
  directory, and the move from the directory older versions used.

  A file is taken at its JSON value: a list of models, another JSON value, or something
  that does not parse; the model entries are those the code itself writes (all four keys
  present). Whether the process is root and whether the models directory can be written
  are part of the world; an \<open>OSError\<close> and a \<open>ModelError\<close> are values.
\<close>

record model =
  m_id :: int
  m_label :: string
  m_time :: int
  m_data :: "real list list"

datatype model_file = Models "model list" | OtherJson | NotJson

record store =
  model_files :: "(string \<times> model_file) list"
  legacy_files :: "(string \<times> model_file) list option"
  euid_root :: bool
  models_writable :: bool

datatype store_error = ModelError | StoreOSError

section \<open>User names\<close>

definition name_first :: "char \<Rightarrow> bool" where
  "name_first c \<longleftrightarrow> (CHR ''a'' \<le> c \<and> c \<le> CHR ''z'') \<or> (CHR ''A'' \<le> c \<and> c \<le> CHR ''Z'') \<or> c = CHR ''_''"

definition name_rest :: "char \<Rightarrow> bool" where
  "name_rest c \<longleftrightarrow> name_first c \<or> (CHR ''0'' \<le> c \<and> c \<le> CHR ''9'') \<or> c = CHR ''.'' \<or> c = CHR ''-''"

text \<open>
  \<open>_USER_PATTERN.match\<close>. The final \<open>$\<close> of the pattern also matches in front of a line
  feed that ends the string.
\<close>

definition user_pattern :: "string \<Rightarrow> bool" where
  "user_pattern s =
     (case s of
        [] \<Rightarrow> False
      | c # cs \<Rightarrow> name_first c \<and> dropWhile name_rest cs \<in> set [[], ''$'', [LF], ''$'' @ [LF]])"

definition DAT :: string where "DAT = ''.dat''"

text \<open>\<open>_path\<close>, as a file name in the models directory.\<close>

definition model_path :: "string \<Rightarrow> store_error + string" where
  "model_path user = (if \<not> user_pattern user \<or> length user > 256 then Inl ModelError else Inr (user @ DAT))"

section \<open>The old directory\<close>

definition move_legacy :: "string \<Rightarrow> store \<Rightarrow> string list \<times> store" where
  "move_legacy name w =
     (case legacy_files w of
        None \<Rightarrow> ([], w)
      | Some old \<Rightarrow>
          (case map_of old name of
             None \<Rightarrow> ([], w)
           | Some content \<Rightarrow>
               if \<not> ends_with name DAT \<or> map_of (model_files w) name \<noteq> None then ([], w)
               else ([take (length name - 4) name],
                     w\<lparr>model_files := AList.update name content (model_files w),
                       legacy_files := Some (AList.delete name old)\<rparr>)))"

fun move_all :: "string list \<Rightarrow> store \<Rightarrow> string list \<times> store" where
  "move_all [] w = ([], w)"
| "move_all (name # names) w =
     (let (m1, w1) = move_legacy name w; (m2, w2) = move_all names w1 in (m1 @ m2, w2))"

text \<open>The old directory goes once it is empty.\<close>

definition drop_empty_legacy :: "store \<Rightarrow> store" where
  "drop_empty_legacy w = (if legacy_files w = Some [] then w\<lparr>legacy_files := None\<rparr> else w)"

text \<open>Where the models directory cannot be written, the first move raises and nothing moves.\<close>

definition migrate_legacy :: "store \<Rightarrow> string list \<times> store" where
  "migrate_legacy w =
     (case legacy_files w of
        None \<Rightarrow> ([], w)
      | Some old \<Rightarrow>
          if \<not> euid_root w \<or> \<not> models_writable w then ([], w)
          else
            let (moved, w') = move_all (sort (map fst old)) w
            in (moved, drop_empty_legacy w'))"

section \<open>Operations\<close>

definition load_models :: "string \<Rightarrow> (store, store_error, model list) block" where
  "load_models user w0 =
     (let w = snd (migrate_legacy w0) in
      case model_path user of
        Inl e \<Rightarrow> (Inl e, w)
      | Inr path \<Rightarrow>
          (case map_of (model_files w) path of
             None \<Rightarrow> (Inr [], w)
           | Some (Models ms) \<Rightarrow> (Inr ms, w)
           | Some _ \<Rightarrow> (Inl ModelError, w)))"

definition delete_models :: "string \<Rightarrow> (store, store_error, unit) block" where
  "delete_models user w =
     (case model_path user of
        Inl e \<Rightarrow> (Inl e, w)
      | Inr path \<Rightarrow>
          if map_of (model_files w) path = None then (Inr (), w)
          else if \<not> models_writable w then (Inl StoreOSError, w)
          else (Inr (), w\<lparr>model_files := AList.delete path (model_files w)\<rparr>))"

definition save_models :: "string \<Rightarrow> model list \<Rightarrow> (store, store_error, unit) block" where
  "save_models user ms w =
     (case model_path user of
        Inl e \<Rightarrow> (Inl e, w)
      | Inr path \<Rightarrow>
          if ms = [] then delete_models user w
          else if \<not> models_writable w then (Inl StoreOSError, w)
          else (Inr (), w\<lparr>model_files := AList.update path (Models ms) (model_files w)\<rparr>))"

text \<open>\<open>label.replace(",", "")[:24] or ...\<close>\<close>

definition clean_label :: "string \<Rightarrow> string \<Rightarrow> string" where
  "clean_label label fallback =
     (let l = take 24 (filter (\<lambda>c. c \<noteq> CHR '','') label) in if l = [] then fallback else l)"

definition next_id :: "model list \<Rightarrow> int" where
  "next_id ms = (if ms = [] then 0 else Max (set (map m_id ms)) + 1)"

definition summary :: "model \<Rightarrow> int \<times> string \<times> int" where
  "summary m = (m_id m, m_label m, m_time m)"

text \<open>\<open>int(now)\<close>\<close>

definition int_of_float :: "real \<Rightarrow> int" where
  "int_of_float x = (if x \<ge> 0 then \<lfloor>x\<rfloor> else \<lceil>x\<rceil>)"

definition add_model :: "string \<Rightarrow> string \<Rightarrow> real list list \<Rightarrow> real \<Rightarrow> (store, store_error, int \<times> string \<times> int) block" where
  "add_model user label encodings now =
     pbind (load_models user) (\<lambda>existing.
       let m = \<lparr>m_id = next_id existing, m_label = clean_label label ''Model'',
                m_time = int_of_float now, m_data = encodings\<rparr>
       in pbind (save_models user (existing @ [m])) (\<lambda>_. pret (summary m)))"

definition remove_model :: "string \<Rightarrow> int \<Rightarrow> (store, store_error, bool) block" where
  "remove_model user i =
     pbind (load_models user) (\<lambda>existing.
       let kept = filter (\<lambda>m. m_id m \<noteq> i) existing
       in if length kept = length existing then pret False
          else pbind (save_models user kept) (\<lambda>_. pret True))"

text \<open>The first model with the id gets the label; \<open>None\<close> when there is none.\<close>

fun relabel :: "int \<Rightarrow> string \<Rightarrow> model list \<Rightarrow> model list option" where
  "relabel i label [] = None"
| "relabel i label (m # ms) =
     (if m_id m = i then Some (m\<lparr>m_label := clean_label label (m_label m)\<rparr> # ms)
      else map_option (Cons m) (relabel i label ms))"

definition rename_model :: "string \<Rightarrow> int \<Rightarrow> string \<Rightarrow> (store, store_error, bool) block" where
  "rename_model user i label =
     pbind (load_models user) (\<lambda>existing.
       case relabel i label existing of
         None \<Rightarrow> pret False
       | Some ms \<Rightarrow> pbind (save_models user ms) (\<lambda>_. pret True))"

fun users_scan :: "string list \<Rightarrow> (store, store_error, string list) block" where
  "users_scan [] w = (Inr [], w)"
| "users_scan (name # names) w =
     (let user = take (length name - 4) name in
      if ends_with name DAT \<and> user_pattern user then
        (case load_models user w of
           (Inl ModelError, w1) \<Rightarrow> users_scan names w1
         | (Inl e, w1) \<Rightarrow> (Inl e, w1)
         | (Inr ms, w1) \<Rightarrow>
             (case users_scan names w1 of
                (Inl e, w2) \<Rightarrow> (Inl e, w2)
              | (Inr us, w2) \<Rightarrow> (Inr (if ms = [] then us else user # us), w2)))
      else users_scan names w)"

definition users :: "(store, store_error, string list) block" where
  "users w0 = (let w = snd (migrate_legacy w0) in users_scan (sort (map fst (model_files w))) w)"

section \<open>Files as a store\<close>

definition put_file :: "string \<Rightarrow> model_file \<Rightarrow> store \<Rightarrow> store" where
  "put_file name f w = w\<lparr>model_files := AList.update name f (model_files w)\<rparr>"

definition drop_file :: "string \<Rightarrow> store \<Rightarrow> store" where
  "drop_file name w = w\<lparr>model_files := AList.delete name (model_files w)\<rparr>"

interpretation model_store: file_store "\<lambda>w. map_of (model_files w)" put_file drop_file
  by unfold_locales (simp_all add: put_file_def drop_file_def)

lemma put_file_fields [simp]:
  "legacy_files (put_file name f w) = legacy_files w"
  "euid_root (put_file name f w) = euid_root w"
  "models_writable (put_file name f w) = models_writable w"
  by (simp_all add: put_file_def)

lemma save_models_ok:
  assumes "save_models user ms w = (Inr (), w')" and "ms \<noteq> []"
  shows "w' = put_file (user @ DAT) (Models ms) w \<and> models_writable w \<and> model_path user = Inr (user @ DAT)"
  using assms by (auto simp: save_models_def put_file_def model_path_def split: if_splits)

section \<open>User names stay inside the directory\<close>

lemma name_rest_plain: "name_rest c \<Longrightarrow> c \<noteq> SLASH"
  by (auto simp: name_rest_def name_first_def)

lemma user_pattern_chars:
  assumes "user_pattern s"
  shows "SLASH \<notin> set s \<and> s \<noteq> [] \<and> hd s \<noteq> CHR ''.''"
proof -
  obtain c cs where s: "s = c # cs" and c: "name_first c"
    and d: "dropWhile name_rest cs \<in> set [[], ''$'', [LF], ''$'' @ [LF]]"
    using assms by (auto simp: user_pattern_def split: list.splits)
  have "SLASH \<notin> set (takeWhile name_rest cs)"
    using name_rest_plain by (auto dest: set_takeWhileD)
  moreover have "SLASH \<notin> set (dropWhile name_rest cs)"
    using d by (auto simp del: dropWhile_eq_Nil_conv)
  ultimately have "SLASH \<notin> set cs"
    by (metis Un_iff set_append takeWhile_dropWhile_id)
  moreover have "c \<noteq> SLASH" "c \<noteq> CHR ''.''"
    using c by (auto simp: name_first_def)
  ultimately show ?thesis
    by (simp add: s)
qed

text \<open>
  A user name never leads out of the models directory: where the file of a user is
  given at all, its name has no slash, is neither hidden nor a parent directory, and two
  users never share one.
\<close>

theorem model_path_inside:
  assumes "model_path user = Inr path"
  shows "basename (path_join dir path) = path \<and> hd path \<noteq> CHR ''.''
    \<and> (\<forall>other. model_path other = Inr path \<longrightarrow> other = user)"
proof -
  have path: "path = user @ DAT" and pat: "user_pattern user"
    using assms by (auto simp: model_path_def split: if_splits)
  have sl: "SLASH \<notin> set path" and ne: "path \<noteq> []" "hd path \<noteq> CHR ''.''"
    using user_pattern_chars [OF pat] by (auto simp: path DAT_def)
  have "basename (path_join dir path) = path"
    by (rule basename_join [OF sl])
  then show ?thesis
    using ne path by (auto simp: model_path_def split: if_splits)
qed

theorem model_path_inside_witness:
  "model_path ''alice'' = Inr ''alice.dat'' \<and> basename (path_join ''/var/lib/linux-hello/models'' ''alice.dat'') = ''alice.dat''"
proof -
  have p: "model_path ''alice'' = Inr ''alice.dat''"
    by code_simp
  show ?thesis
    using model_path_inside [OF p] p by blast
qed

section \<open>Migration\<close>

definition blocked :: "string \<Rightarrow> store \<Rightarrow> bool" where
  "blocked name w \<longleftrightarrow>
     (case legacy_files w of
        None \<Rightarrow> True
      | Some old \<Rightarrow> map_of old name = None \<or> \<not> ends_with name DAT \<or> map_of (model_files w) name \<noteq> None)"

lemma move_legacy_blocked: "blocked name w \<Longrightarrow> move_legacy name w = ([], w)"
  by (auto simp: blocked_def move_legacy_def split: option.splits)

lemma move_all_blocked: "\<forall>n \<in> set names. blocked n w \<Longrightarrow> move_all names w = ([], w)"
  by (induction names) (simp_all add: move_legacy_blocked)

text \<open>Where the content of a name is, counting both directories; the new one comes first.\<close>

definition legacy_of :: "store \<Rightarrow> string \<Rightarrow> model_file option" where
  "legacy_of w name = (case legacy_files w of None \<Rightarrow> None | Some old \<Rightarrow> map_of old name)"

lemma move_legacy_effect:
  assumes "move_legacy name w = (moved, w')"
  shows "euid_root w' = euid_root w" "models_writable w' = models_writable w"
    "map_of (model_files w') n = (if n = name \<and> ends_with n DAT \<and> map_of (model_files w) n = None
                                  then legacy_of w n else map_of (model_files w) n)"
    "legacy_of w' n = (if n = name \<and> ends_with n DAT \<and> map_of (model_files w) n = None then None else legacy_of w n)"
    "(legacy_files w' = None) = (legacy_files w = None)"
  using assms by (auto simp: move_legacy_def legacy_of_def split: option.splits if_splits)

lemma move_all_effect:
  assumes "move_all names w = (moved, w')"
  shows "euid_root w' = euid_root w \<and> models_writable w' = models_writable w
    \<and> map_of (model_files w') n = (if n \<in> set names \<and> ends_with n DAT \<and> map_of (model_files w) n = None
                                  then legacy_of w n else map_of (model_files w) n)
    \<and> legacy_of w' n = (if n \<in> set names \<and> ends_with n DAT \<and> map_of (model_files w) n = None
                        then None else legacy_of w n)"
  using assms
proof (induction names arbitrary: w moved)
  case (Cons name names)
  obtain m1 w1 m2 where step: "move_legacy name w = (m1, w1)" "move_all names w1 = (m2, w')"
    using Cons.prems by (auto split: prod.splits)
  note e = move_legacy_effect [OF step(1)] and r = Cons.IH [OF step(2)]
  show ?case
    using r e(1,2) e(3,4) [of n] by (cases "n = name"; cases "n \<in> set names") (auto simp: legacy_of_def)
qed auto

lemma legacy_of_names: "legacy_files w = Some old \<Longrightarrow> n \<notin> fst ` set old \<Longrightarrow> legacy_of w n = None"
  by (simp add: legacy_of_def map_of_eq_None_iff)

lemma drop_empty_legacy_effect [simp]:
  "model_files (drop_empty_legacy w) = model_files w" "legacy_of (drop_empty_legacy w) = legacy_of w"
  "euid_root (drop_empty_legacy w) = euid_root w" "models_writable (drop_empty_legacy w) = models_writable w"
  by (auto simp: drop_empty_legacy_def legacy_of_def fun_eq_iff)

definition migrates :: "store \<Rightarrow> bool" where
  "migrates w \<longleftrightarrow> euid_root w \<and> models_writable w"

lemma migrate_effect:
  assumes "migrate_legacy w = (moved, w')"
  shows "euid_root w' = euid_root w \<and> models_writable w' = models_writable w
    \<and> map_of (model_files w') n = (if migrates w \<and> ends_with n DAT \<and> map_of (model_files w) n = None
                                  then legacy_of w n else map_of (model_files w) n)
    \<and> legacy_of w' n = (if migrates w \<and> ends_with n DAT \<and> map_of (model_files w) n = None then None else legacy_of w n)"
proof (cases "legacy_files w")
  case None
  then show ?thesis
    using assms by (auto simp: migrate_legacy_def legacy_of_def)
next
  case (Some old)
  show ?thesis
  proof (cases "migrates w")
    case True
    then obtain w1 where m: "move_all (sort (map fst old)) w = (moved, w1)" and w': "w' = drop_empty_legacy w1"
      using assms Some by (auto simp: migrate_legacy_def migrates_def split: prod.splits)
    show ?thesis
      using move_all_effect [OF m, of n] True legacy_of_names [OF Some, of n] by (auto simp: w')
  next
    case False
    then show ?thesis
      using assms Some by (auto simp: migrate_legacy_def migrates_def)
  qed
qed

text \<open>
  Moving the models out of the old directory never overwrites and never loses one:
  afterwards a name has the content it had in the models directory, or else the one of the
  old directory, and an old file that was not moved is still there.
\<close>

theorem migration_keeps_models:
  assumes "migrate_legacy w = (moved, w')"
  shows "(map_of (model_files w) name = Some f \<longrightarrow> map_of (model_files w') name = Some f)
    \<and> (map_of (model_files w) name = None \<and> legacy_of w name = Some f
         \<longrightarrow> map_of (model_files w') name = Some f \<or> legacy_of w' name = Some f)
    \<and> (map_of (model_files w') name = Some f
         \<longrightarrow> map_of (model_files w) name = Some f \<or> legacy_of w name = Some f)"
  using migrate_effect [OF assms, of name] by (auto split: if_splits)

definition sample_store :: store where
  "sample_store =
     \<lparr>model_files = [(''bob.dat'', Models [])],
      legacy_files = Some [(''alice.dat'', Models [\<lparr>m_id = 0, m_label = ''Face'', m_time = 7, m_data = []\<rparr>])],
      euid_root = True, models_writable = True\<rparr>"

theorem migration_keeps_models_witness:
  "\<exists>moved w'. migrate_legacy sample_store = (moved, w') \<and> map_of (model_files w') ''bob.dat'' = Some (Models [])"
proof -
  obtain moved w' where m: "migrate_legacy sample_store = (moved, w')"
    by (cases "migrate_legacy sample_store")
  then show ?thesis
    using migration_keeps_models [OF m, of "''bob.dat''" "Models []"] by (auto simp: sample_store_def)
qed

text \<open>After a migration another one finds nothing to do.\<close>

definition settled :: "store \<Rightarrow> bool" where
  "settled w \<longleftrightarrow> migrate_legacy w = ([], w)"

lemma settledI:
  assumes "migrates w \<Longrightarrow> legacy_files w \<noteq> Some [] \<and> (\<forall>n. blocked n w)"
  shows "settled w"
proof (cases "migrates w \<and> legacy_files w \<noteq> None")
  case True
  then show ?thesis
    using assms by (auto simp: settled_def migrate_legacy_def migrates_def move_all_blocked drop_empty_legacy_def)
qed (auto simp: settled_def migrate_legacy_def migrates_def split: option.splits)

lemma blocked_legacy_of: "blocked n w \<longleftrightarrow> legacy_of w n = None \<or> \<not> ends_with n DAT \<or> map_of (model_files w) n \<noteq> None"
  by (auto simp: blocked_def legacy_of_def split: option.splits)

lemma settled_migrate: "migrate_legacy w = (moved, w') \<Longrightarrow> settled w'"
proof (rule settledI, intro conjI allI)
  fix n
  assume m: "migrate_legacy w = (moved, w')" and g: "migrates w'"
  show "legacy_files w' \<noteq> Some []"
    using m g by (auto simp: migrate_legacy_def migrates_def drop_empty_legacy_def
        split: option.splits if_splits prod.splits)
  show "blocked n w'"
    using migrate_effect [OF m, of n] g by (auto simp: blocked_legacy_of migrates_def)
qed

lemma settled_iff: "settled w \<longleftrightarrow> (migrates w \<longrightarrow> legacy_files w \<noteq> Some [] \<and> (\<forall>n. blocked n w))"
proof
  assume s: "settled w"
  then have "migrate_legacy w = ([], w)"
    by (simp add: settled_def)
  note effect = migrate_effect [OF this]
  show "migrates w \<longrightarrow> legacy_files w \<noteq> Some [] \<and> (\<forall>n. blocked n w)"
  proof (intro impI conjI allI notI)
    fix n
    assume "migrates w"
    then show "blocked n w"
      using effect [of n] by (auto simp: blocked_legacy_of split: if_splits)
  next
    assume "migrates w" and "legacy_files w = Some []"
    then have "w\<lparr>legacy_files := None\<rparr> = w"
      using s by (simp add: settled_def migrate_legacy_def migrates_def drop_empty_legacy_def)
    then have "legacy_files w = None"
      by (metis store.select_convs(2) store.surjective store.update_convs(2))
    then show False
      using \<open>legacy_files w = Some []\<close> by simp
  qed
qed (blast intro: settledI)

lemma settled_put: "settled w \<Longrightarrow> settled (put_file name f w)"
  unfolding settled_iff
  by (auto simp: migrates_def blocked_legacy_of legacy_of_def model_store.read_put)

section \<open>What the operations do\<close>

definition lookup_models :: "store \<Rightarrow> string \<Rightarrow> store_error + model list" where
  "lookup_models w user =
     (case model_path user of
        Inl e \<Rightarrow> Inl e
      | Inr path \<Rightarrow>
          (case map_of (model_files w) path of
             None \<Rightarrow> Inr [] | Some (Models ms) \<Rightarrow> Inr ms | Some _ \<Rightarrow> Inl ModelError))"

lemma load_models_lookup:
  "load_models user w = (lookup_models (snd (migrate_legacy w)) user, snd (migrate_legacy w))"
  by (simp add: load_models_def lookup_models_def Let_def split: sum.splits option.splits model_file.splits)

lemma load_models_settled: "settled w \<Longrightarrow> load_models user w = (lookup_models w user, w)"
  by (simp add: load_models_lookup settled_def)

lemma load_models_InrD:
  assumes "load_models user w = (r, w1)"
  shows "settled w1 \<and> lookup_models w1 user = r \<and> (\<forall>v. fst (load_models v w) = lookup_models w1 v)"
  using assms settled_migrate [OF prod.collapse [symmetric]] by (auto simp: load_models_lookup)

lemma lookup_put:
  "model_path user = Inr (user @ DAT) \<Longrightarrow>
   lookup_models (put_file (user @ DAT) (Models ms) w) v = (if v = user then Inr ms else lookup_models w v)"
  by (auto simp: lookup_models_def model_store.read_put model_path_def)

lemma clean_label_length: "length (clean_label l f) \<le> max 24 (length f)"
  by (auto simp: clean_label_def Let_def)

lemma next_id_fresh: "i \<in> set (map m_id ms) \<Longrightarrow> i < next_id ms"
  using Max_ge [of "set (map m_id ms)" i] by (auto simp: next_id_def)

lemma add_model_ok:
  assumes before: "load_models user w = (Inr ms, w1)" and "models_writable w1"
  shows "\<exists>i l t w2. add_model user label encodings now w = (Inr (i, l, t), w2)"
proof -
  have "lookup_models w1 user = Inr ms"
    using load_models_InrD [OF before] by simp
  then obtain p where "model_path user = Inr p"
    by (cases "model_path user") (simp_all add: lookup_models_def)
  then have saved: "save_models user (ms @ [m]) w1 = (Inr (), put_file p (Models (ms @ [m])) w1)" for m
    using assms(2) by (simp add: save_models_def put_file_def)
  show ?thesis
    unfolding add_model_def pbind_def before prod.case sum.case Let_def saved summary_def pret_def
    by (intro exI) (rule refl)
qed

text \<open>
  C32. A face model that was added is there: the user's models are those from before
  followed by the new one, with the label shortened and an id none of them has, and nobody
  else's models change.
\<close>

theorem add_model_load:
  assumes add: "add_model user label encodings now w = (Inr (i, l, t), w2)"
    and before: "load_models user w = (Inr ms, w1)"
  shows "load_models user w2 = (Inr (ms @ [\<lparr>m_id = i, m_label = l, m_time = t, m_data = encodings\<rparr>]), w2)
    \<and> i \<notin> set (map m_id ms) \<and> l \<noteq> [] \<and> length l \<le> 24 \<and> CHR '','' \<notin> set l
    \<and> (\<forall>v. v \<noteq> user \<longrightarrow> fst (load_models v w2) = fst (load_models v w))"
proof -
  let ?m = "\<lparr>m_id = next_id ms, m_label = clean_label label ''Model'', m_time = int_of_float now, m_data = encodings\<rparr>"
  obtain u where saved: "save_models user (ms @ [?m]) w1 = (Inr u, w2)"
    and s: "(i, l, t) = summary ?m"
    using add before by (auto simp: add_model_def pbind_def Let_def split: prod.splits sum.splits)
  have w2: "w2 = put_file (user @ DAT) (Models (ms @ [?m])) w1" and path: "model_path user = Inr (user @ DAT)"
    using save_models_ok [of user "ms @ [?m]" w1 w2] saved by auto
  have settled: "settled w1" and look: "\<forall>v. fst (load_models v w) = lookup_models w1 v"
    using load_models_InrD [OF before] by auto
  have load: "load_models v w2 = (if v = user then Inr (ms @ [?m]) else lookup_models w1 v, w2)" for v
    using load_models_settled [OF settled_put [OF settled]] lookup_put [OF path] by (simp add: w2)
  have "i \<notin> set (map m_id ms)"
    using next_id_fresh [of i ms] s by (auto simp: summary_def)
  moreover have "l \<noteq> []" "CHR '','' \<notin> set l" "length l \<le> 24"
    using s clean_label_length [of label "''Model''"] by (auto simp: summary_def clean_label_def Let_def
        split: if_splits dest: in_set_takeD)
  ultimately show ?thesis
    using load look s by (simp add: summary_def)
qed

definition sample_saved :: store where
  "sample_saved =
     \<lparr>model_files = [(''alice.dat'', Models [\<lparr>m_id = 3, m_label = ''New'', m_time = 9, m_data = []\<rparr>])],
      legacy_files = None, euid_root = True, models_writable = True\<rparr>"

lemma load_sample_saved:
  "load_models ''alice'' sample_saved
   = (Inr [\<lparr>m_id = 3, m_label = ''New'', m_time = 9, m_data = []\<rparr>], sample_saved)"
  by (simp add: load_models_def sample_saved_def migrate_legacy_def model_path_def user_pattern_def
      name_first_def name_rest_def DAT_def)

theorem add_model_load_witness:
  "\<exists>i l t w2. add_model ''alice'' ''My face, daylight'' [[1, 2]] 0 sample_saved = (Inr (i, l, t), w2)
     \<and> i \<noteq> 3 \<and> fst (load_models ''bob'' w2) = fst (load_models ''bob'' sample_saved)"
proof -
  have "models_writable sample_saved"
    by (simp add: sample_saved_def)
  from add_model_ok [OF load_sample_saved this] obtain i l t w2
    where add: "add_model ''alice'' ''My face, daylight'' [[1, 2]] 0 sample_saved = (Inr (i, l, t), w2)"
    by metis
  from add_model_load [OF this load_sample_saved]
  have "i \<noteq> 3" and "fst (load_models ''bob'' w2) = fst (load_models ''bob'' sample_saved)"
    by auto
  then show ?thesis
    using add by blast
qed

text \<open>
  Removing a model takes out the models with that id and nothing else, and says
  whether there was one. Where none is left, the old directory must not hold a file of the
  user (see \<open>removal_revives_legacy\<close>).
\<close>

theorem remove_model_load:
  assumes remove: "remove_model user i w = (Inr found, w2)"
    and before: "load_models user w = (Inr ms, w1)"
    and rest: "(\<exists>m \<in> set ms. m_id m \<noteq> i) \<or> legacy_files w1 = None"
  shows "found = (i \<in> set (map m_id ms))
    \<and> load_models user w2 = (Inr (filter (\<lambda>m. m_id m \<noteq> i) ms), w2)"
proof -
  let ?kept = "filter (\<lambda>m. m_id m \<noteq> i) ms"
  have settled: "settled w1" and look: "lookup_models w1 user = Inr ms"
    using load_models_InrD [OF before] by auto
  have len: "length ?kept = length ms \<longleftrightarrow> i \<notin> set (map m_id ms)"
    by (metis (mono_tags, lifting) filter_True image_iff length_filter_less less_irrefl list.set_map)
  show ?thesis
  proof (cases "i \<in> set (map m_id ms)")
    case False
    then have "?kept = ms" "found = False" "w2 = w1"
      using remove before len by (auto simp: remove_model_def pbind_def Let_def filter_id_conv)
    then show ?thesis
      using False settled look by (simp add: load_models_settled)
  next
    case True
    then obtain u where saved: "save_models user ?kept w1 = (Inr u, w2)" and "found"
      using remove before len by (auto simp: remove_model_def pbind_def Let_def split: sum.splits prod.splits)
    have path: "model_path user = Inr (user @ DAT)"
      using saved by (auto simp: save_models_def model_path_def split: if_splits)
    show ?thesis
    proof (cases "?kept = []")
      case False
      have "w2 = put_file (user @ DAT) (Models ?kept) w1"
        using save_models_ok [of user ?kept w1 w2] saved False by auto
      then show ?thesis
        using load_models_settled [OF settled_put [OF settled]] lookup_put [OF path] True \<open>found\<close> by simp
    next
      case none: True
      then have leg: "legacy_files w1 = None"
        using rest by (auto simp: filter_empty_conv)
      have "map_of (model_files w1) (user @ DAT) \<noteq> None"
        using look True path by (auto simp: lookup_models_def split: option.splits)
      then have "w2 = drop_file (user @ DAT) w1"
        using saved none path by (auto simp: save_models_def delete_models_def drop_file_def split: if_splits)
      moreover from this leg have "settled w2"
        by (simp add: settled_def migrate_legacy_def drop_file_def)
      ultimately show ?thesis
        using none True \<open>found\<close> path
        by (simp add: load_models_settled lookup_models_def model_store.read_drop)
    qed
  qed
qed

theorem remove_model_load_witness:
  "\<exists>w2. remove_model ''alice'' 3 sample_saved = (Inr True, w2) \<and> load_models ''alice'' w2 = (Inr [], w2)"
proof -
  let ?m = "\<lparr>m_id = 3, m_label = ''New'', m_time = 9, m_data = []\<rparr>"
  note before = load_sample_saved
  have leg: "(\<exists>m \<in> set [?m]. m_id m \<noteq> 3) \<or> legacy_files sample_saved = None"
    by (simp add: sample_saved_def)
  have "remove_model ''alice'' 3 sample_saved = (Inr True, sample_saved\<lparr>model_files := []\<rparr>)"
    unfolding remove_model_def pbind_def before
    by (simp add: save_models_def delete_models_def sample_saved_def
        model_path_def user_pattern_def name_first_def name_rest_def DAT_def)
  then obtain found w2 where r: "remove_model ''alice'' 3 sample_saved = (Inr found, w2)"
    by blast
  show ?thesis
    using remove_model_load [OF r before leg] r by auto
qed

text \<open>
  A model file left in the old directory comes back: while a user has models of their
  own it is ignored, and removing the last of those makes the next request move the old
  file in, so the removed user is recognised again by the old models.
\<close>

theorem removal_revives_legacy:
  assumes own: "model_files w = [(user @ DAT, Models [m])]"
    and old: "legacy_files w = Some [(user @ DAT, Models olds)]"
    and user: "user_pattern user" "length user \<le> 256"
    and root: "euid_root w" "models_writable w"
  shows "\<exists>w2. remove_model user (m_id m) w = (Inr True, w2) \<and> fst (load_models user w2) = Inr olds"
proof -
  have path: "model_path user = Inr (user @ DAT)"
    using user by (simp add: model_path_def)
  have "migrate_legacy w = ([], w)"
    using own old root by (simp add: migrate_legacy_def move_legacy_def drop_empty_legacy_def)
  then have "load_models user w = (Inr [m], w)"
    using own path by (simp add: load_models_def)
  then have r: "remove_model user (m_id m) w = (Inr True, w\<lparr>model_files := []\<rparr>)"
    using own path root by (simp add: remove_model_def pbind_def save_models_def delete_models_def)
  have "snd (migrate_legacy (w\<lparr>model_files := []\<rparr>)) = w\<lparr>model_files := [(user @ DAT, Models olds)], legacy_files := None\<rparr>"
    using own old root by (simp add: migrate_legacy_def move_legacy_def drop_empty_legacy_def suffix_def)
  then show ?thesis
    using r path by (simp add: load_models_def)
qed

theorem removal_revives_legacy_witness:
  "\<exists>w2. remove_model ''alice'' 3
      \<lparr>model_files = [(''alice'' @ DAT, Models [\<lparr>m_id = 3, m_label = ''New'', m_time = 9, m_data = []\<rparr>])],
       legacy_files = Some [(''alice'' @ DAT, Models [\<lparr>m_id = 0, m_label = ''Old'', m_time = 1, m_data = []\<rparr>])],
       euid_root = True, models_writable = True\<rparr> = (Inr True, w2)
    \<and> fst (load_models ''alice'' w2) = Inr [\<lparr>m_id = 0, m_label = ''Old'', m_time = 1, m_data = []\<rparr>]"
  using removal_revives_legacy
    [of "\<lparr>model_files = [(''alice'' @ DAT, Models [\<lparr>m_id = 3, m_label = ''New'', m_time = 9, m_data = []\<rparr>])],
       legacy_files = Some [(''alice'' @ DAT, Models [\<lparr>m_id = 0, m_label = ''Old'', m_time = 1, m_data = []\<rparr>])],
       euid_root = True, models_writable = True\<rparr>" "''alice''" "\<lparr>m_id = 3, m_label = ''New'', m_time = 9, m_data = []\<rparr>"]
  by (simp add: user_pattern_def name_first_def name_rest_def)

section \<open>What a load sees\<close>

text \<open>The content a load finds under a name, counting what it would move in first.\<close>

definition effective :: "store \<Rightarrow> string \<Rightarrow> model_file option" where
  "effective w name =
     (case map_of (model_files w) name of
        Some f \<Rightarrow> Some f
      | None \<Rightarrow> if migrates w \<and> ends_with name DAT then legacy_of w name else None)"

lemma effective_migrate: "migrate_legacy w = (moved, w') \<Longrightarrow> effective w' = effective w"
  using migrate_effect [of w moved w'] by (auto simp: effective_def fun_eq_iff migrates_def split: option.splits)

lemma lookup_migrated:
  "map_of (model_files (snd (migrate_legacy w))) name
     = (if ends_with name DAT then effective w name else map_of (model_files w) name)"
  using migrate_effect [OF prod.collapse [symmetric], of w name]
  by (auto simp: effective_def split: option.splits)

lemma load_models_effective:
  "load_models user w =
     ((case model_path user of
         Inl e \<Rightarrow> Inl e
       | Inr path \<Rightarrow> (case effective w path of
           None \<Rightarrow> Inr [] | Some (Models ms) \<Rightarrow> Inr ms | Some _ \<Rightarrow> Inl ModelError)),
      snd (migrate_legacy w))"
  by (auto simp: load_models_lookup lookup_models_def lookup_migrated model_path_def suffix_def split: sum.splits)

lemma load_models_same: "effective w' = effective w \<Longrightarrow> fst (load_models v w') = fst (load_models v w)"
  by (cases "model_path v") (simp_all add: load_models_effective)

lemma save_models_effective:
  assumes "save_models user ms w = (r, w')" and "name \<noteq> user @ DAT"
  shows "effective w' name = effective w name"
  using assms
  by (auto simp: save_models_def delete_models_def effective_def migrates_def legacy_of_def model_path_def
      split: if_splits option.splits)

lemma save_models_others:
  assumes "save_models user ms w = (r, w')" and "v \<noteq> user"
  shows "fst (load_models v w') = fst (load_models v w)"
  using save_models_effective [OF assms(1), of "v @ DAT"] assms(2)
  by (auto simp: load_models_effective model_path_def)

lemma load_then_save_others:
  assumes "load_models user w = (r1, w1)" and "save_models user ms w1 = (r, w')" and "v \<noteq> user"
  shows "fst (load_models v w') = fst (load_models v w)"
proof -
  have "effective w1 = effective w"
    using assms(1) effective_migrate [OF prod.collapse [symmetric]] by (auto simp: load_models_lookup)
  then show ?thesis
    using save_models_others [OF assms(2,3)] load_models_same by metis
qed

text \<open>No operation on one user's models shows in another's, and one that fails in nobody's.\<close>

lemma load_models_nothing: "fst (load_models v (snd (load_models user w))) = fst (load_models v w)"
proof (rule load_models_same)
  show "effective (snd (load_models user w)) = effective w"
    using effective_migrate [OF prod.collapse [symmetric], of w] by (simp add: load_models_lookup)
qed

lemma model_operation_others:
  assumes "v \<noteq> user"
  shows "fst (load_models v (snd (add_model user label encodings now w))) = fst (load_models v w)"
    "fst (load_models v (snd (remove_model user i w))) = fst (load_models v w)"
    "fst (load_models v (snd (rename_model user i label w))) = fst (load_models v w)"
proof -
  obtain r w1 where l: "load_models user w = (r, w1)"
    by (cases "load_models user w")
  have 1: "fst (load_models v w1) = fst (load_models v w)"
    using load_models_nothing [of v user w] l by simp
  have 2: "fst (load_models v (snd (save_models user ms w1))) = fst (load_models v w)" for ms
    by (rule load_then_save_others [OF l prod.collapse [symmetric] assms])
  show "fst (load_models v (snd (add_model user label encodings now w))) = fst (load_models v w)"
    "fst (load_models v (snd (remove_model user i w))) = fst (load_models v w)"
    "fst (load_models v (snd (rename_model user i label w))) = fst (load_models v w)"
    using 1 2 l
    by (auto simp: add_model_def remove_model_def rename_model_def pbind_def Let_def
        split: sum.splits prod.splits option.splits) (metis snd_conv)+
qed

end
