(* ===== verification/Settings_Layers.thy ===== *)
theory Settings_Layers
  imports LH_Prelude
begin

text \<open>
  \<^verbatim>\<open>settings.py\<close>: the shipped defaults and the local overrides, merged.

  A configuration is the value \<open>ConfigParser\<close> holds: sections in order, each with its
  options in order. Option names are in lower case, as \<open>optionxform\<close> makes them; the
  files have no \<open>DEFAULT\<close> section. The override file is taken at that value too, \<open>None\<close>
  while it does not exist.
\<close>

type_synonym config = "(string \<times> (string \<times> string) list) list"

record settings_files =
  vendor :: config
  override :: "config option"

datatype settings_error = Ambiguous | UnknownOption

definition sections :: "config \<Rightarrow> string list" where
  "sections cfg = map fst cfg"

definition get_option :: "config \<Rightarrow> string \<Rightarrow> string \<Rightarrow> string option" where
  "get_option cfg sec key =
     (case map_of cfg sec of None \<Rightarrow> None | Some opts \<Rightarrow> map_of opts (lower key))"

definition has_option :: "config \<Rightarrow> string \<Rightarrow> string \<Rightarrow> bool" where
  "has_option cfg sec key = (get_option cfg sec key \<noteq> None)"

definition set_option :: "string \<Rightarrow> string \<Rightarrow> string \<Rightarrow> config \<Rightarrow> config" where
  "set_option sec key value cfg =
     (let opts = (case map_of cfg sec of None \<Rightarrow> [] | Some opts \<Rightarrow> opts)
      in AList.update sec (AList.update (lower key) value opts) cfg)"

text \<open>\<open>config.read\<close> of a second file: its options are set over the first's.\<close>

definition merge_section :: "string \<times> (string \<times> string) list \<Rightarrow> config \<Rightarrow> config" where
  "merge_section s cfg =
     (let opts = (case map_of cfg (fst s) of None \<Rightarrow> [] | Some opts \<Rightarrow> opts)
      in AList.update (fst s) (fold (\<lambda>(k, v). AList.update k v) (snd s) opts) cfg)"

definition merge :: "config \<Rightarrow> config \<Rightarrow> config" where
  "merge base over = fold merge_section over base"

definition overrides :: "settings_files \<Rightarrow> config" where
  "overrides w = (case override w of None \<Rightarrow> [] | Some cfg \<Rightarrow> cfg)"

definition load_settings :: "settings_files \<Rightarrow> config" where
  "load_settings w = merge (vendor w) (overrides w)"

definition find_section :: "settings_files \<Rightarrow> string \<Rightarrow> settings_error + string option" where
  "find_section w key =
     (case filter (\<lambda>s. has_option (vendor w) s key) (sections (vendor w)) of
        [] \<Rightarrow> Inr None
      | [s] \<Rightarrow> Inr (Some s)
      | _ \<Rightarrow> Inl Ambiguous)"

definition set_value :: "string \<Rightarrow> string \<Rightarrow> string option \<Rightarrow> settings_files \<Rightarrow> (settings_error + string) \<times> settings_files" where
  "set_value key value section0 w =
     (case (case section0 of None \<Rightarrow> find_section w key | Some s \<Rightarrow> Inr (Some s)) of
        Inl e \<Rightarrow> (Inl e, w)
      | Inr None \<Rightarrow> (Inl UnknownOption, w)
      | Inr (Some s) \<Rightarrow>
          if \<not> has_option (vendor w) s key then (Inl UnknownOption, w)
          else (Inr s, w\<lparr>override := Some (set_option s key value (overrides w))\<rparr>))"

definition remove_option :: "string \<Rightarrow> string \<Rightarrow> config \<Rightarrow> config" where
  "remove_option sec key cfg =
     (case map_of cfg sec of
        None \<Rightarrow> cfg
      | Some opts \<Rightarrow>
          (let opts' = AList.delete (lower key) opts
           in if opts' = [] then AList.delete sec cfg else AList.update sec opts' cfg))"

definition reset_value :: "string \<Rightarrow> string option \<Rightarrow> settings_files \<Rightarrow> (settings_error + unit) \<times> settings_files" where
  "reset_value key section0 w =
     (case (case section0 of None \<Rightarrow> find_section w key | Some s \<Rightarrow> Inr (Some s)) of
        Inl e \<Rightarrow> (Inl e, w)
      | Inr None \<Rightarrow> (Inr (), w)
      | Inr (Some s) \<Rightarrow>
          if s \<noteq> [] \<and> has_option (overrides w) s key
          then (Inr (), w\<lparr>override := Some (remove_option s key (overrides w))\<rparr>)
          else (Inr (), w))"

definition ensure_override_file :: "settings_files \<Rightarrow> settings_files" where
  "ensure_override_file w = (if override w = None then w\<lparr>override := Some []\<rparr> else w)"

text \<open>\<open>getboolean\<close>: \<open>None\<close> is the \<open>ValueError\<close> of a value that is no boolean.\<close>

definition get_boolean :: "config \<Rightarrow> string \<Rightarrow> string \<Rightarrow> bool \<Rightarrow> bool option" where
  "get_boolean cfg sec key fallback =
     (case get_option cfg sec key of
        None \<Rightarrow> Some fallback
      | Some v \<Rightarrow>
          if lower v \<in> set [''1'', ''yes'', ''true'', ''on''] then Some True
          else if lower v \<in> set [''0'', ''no'', ''false'', ''off''] then Some False
          else None)"

section \<open>The layers\<close>

lemma get_set_option:
  "get_option (set_option sec key value cfg) sec' key' =
     (if sec' = sec \<and> lower key' = lower key then Some value else get_option cfg sec' key')"
  by (auto simp: get_option_def set_option_def Let_def split: option.splits)

lemma fold_update_map_of:
  "map_of (fold (\<lambda>(k, v). AList.update k v) kvs opts) k = (case map_of (rev kvs) k of None \<Rightarrow> map_of opts k | Some v \<Rightarrow> Some v)"
  by (induction kvs arbitrary: opts) (auto simp: map_add_def split: option.splits)

lemma get_merge_section:
  "get_option (merge_section (s, kvs) cfg) sec key =
     (if sec = s \<and> map_of (rev kvs) (lower key) \<noteq> None then map_of (rev kvs) (lower key) else get_option cfg sec key)"
  by (auto simp: get_option_def merge_section_def Let_def fold_update_map_of split: option.splits)

text \<open>A file as \<open>ConfigParser\<close> holds it: no section and no option twice.\<close>

definition config_ok :: "config \<Rightarrow> bool" where
  "config_ok cfg \<longleftrightarrow> dict_ok cfg \<and> (\<forall>s opts. map_of cfg s = Some opts \<longrightarrow> dict_ok opts)"

lemma map_of_rev_dict: "dict_ok kvs \<Longrightarrow> map_of (rev kvs) = map_of kvs"
proof (rule ext)
  fix k
  assume d: "dict_ok kvs"
  then have r: "dict_ok (rev kvs)"
    by (simp add: rev_map [symmetric])
  show "map_of (rev kvs) k = map_of kvs k"
  proof (cases "map_of kvs k")
    case None
    then have "map_of (rev kvs) k = None"
      by (simp add: map_of_eq_None_iff)
    then show ?thesis
      using None by simp
  next
    case (Some v)
    then have "(k, v) \<in> set (rev kvs)"
      by (auto dest: map_of_SomeD)
    then show ?thesis
      using Some r by (simp add: map_of_is_SomeI)
  qed
qed

lemma get_merge:
  "config_ok over \<Longrightarrow> get_option (merge base over) sec key =
     (case get_option over sec key of None \<Rightarrow> get_option base sec key | Some v \<Rightarrow> Some v)"
proof (induction over arbitrary: base)
  case (Cons s over)
  obtain name kvs where s: "s = (name, kvs)"
    by (cases s)
  have d: "dict_ok over" and new: "name \<notin> fst ` set over"
    and opts: "\<And>t ts. map_of (s # over) t = Some ts \<Longrightarrow> dict_ok ts"
    using Cons.prems s unfolding config_ok_def by auto
  have none: "map_of over name = None"
    using new by (simp add: map_of_eq_None_iff)
  have "dict_ok ts" if "map_of over t = Some ts" for t ts
    using opts [of t ts] that none s by (cases "t = name") auto
  then have "config_ok over"
    using d unfolding config_ok_def by blast
  note IH = Cons.IH [OF this, of "merge_section s base"]
  have "map_of (rev kvs) = map_of kvs"
    using opts [of name kvs] s by (intro map_of_rev_dict) simp
  note rev = get_merge_section [of name kvs base sec key, unfolded this]
  have "merge base (s # over) = merge (merge_section s base) over"
    by (simp add: merge_def)
  then show ?case
    using IH rev none by (cases "sec = name") (auto simp: s get_option_def split: option.splits)
qed (simp add: merge_def get_option_def)

lemma get_remove_option:
  "get_option (remove_option sec key cfg) sec' key' =
     (if sec' = sec \<and> lower key' = lower key then None else get_option cfg sec' key')"
  by (auto simp: get_option_def remove_option_def Let_def split: option.splits)
    (metis fun_upd_apply map_of.simps(1) map_of_delete)+

lemma config_ok_set: "config_ok cfg \<Longrightarrow> config_ok (set_option sec key value cfg)"
  by (auto simp: config_ok_def set_option_def Let_def split: option.splits if_splits)

lemma config_ok_remove: "config_ok cfg \<Longrightarrow> config_ok (remove_option sec key cfg)"
  by (auto simp: config_ok_def remove_option_def Let_def simp del: map_of_eq_Some_iff
      split: option.splits if_splits)

lemma get_load_settings:
  "config_ok (overrides w) \<Longrightarrow> get_option (load_settings w) sec key =
     (case get_option (overrides w) sec key of None \<Rightarrow> get_option (vendor w) sec key | Some v \<Rightarrow> Some v)"
  by (simp add: load_settings_def get_merge)

text \<open>
  Setting an option takes effect and nothing else does: it is refused unless the
  defaults know it, afterwards the merged settings give the new value for it and the old
  ones for everything else, and resetting it brings the default back.
\<close>

theorem set_value_takes_effect:
  assumes ok: "config_ok (overrides w)" and set: "set_value key value sec0 w = (r, w')"
  shows "(r = Inr sec \<longrightarrow>
        get_option (load_settings w') sec' key' =
          (if sec' = sec \<and> lower key' = lower key then Some value else get_option (load_settings w) sec' key')
        \<and> has_option (vendor w) sec key
        \<and> (sec \<noteq> [] \<longrightarrow> get_option (load_settings (snd (reset_value key (Some sec) w'))) sec key = get_option (vendor w) sec key))
    \<and> (\<not> (\<exists>s. has_option (vendor w) s key) \<longrightarrow> r = Inl UnknownOption \<and> w' = w)
    \<and> config_ok (overrides w')"
proof (intro conjI impI)
  have ok': "config_ok (overrides w')"
    using set ok by (auto simp: set_value_def overrides_def config_ok_set [unfolded overrides_def]
        split: sum.splits option.splits if_splits intro!: config_ok_set)
  then show "config_ok (overrides w')" .
  {
    assume "r = Inr sec"
    then have known: "has_option (vendor w) sec key"
      and w': "w' = w\<lparr>override := Some (set_option sec key value (overrides w))\<rparr>"
      using set by (auto simp: set_value_def split: sum.splits option.splits if_splits)
    show "get_option (load_settings w') sec' key' =
          (if sec' = sec \<and> lower key' = lower key then Some value else get_option (load_settings w) sec' key')"
      using ok config_ok_set [OF ok]
      by (simp add: w' get_load_settings overrides_def get_set_option split: option.splits)
    show "has_option (vendor w) sec key"
      by (rule known)
    assume "sec \<noteq> []"
    then have "snd (reset_value key (Some sec) w') = w'\<lparr>override := Some (remove_option sec key (overrides w'))\<rparr>"
      by (simp add: reset_value_def has_option_def w' overrides_def get_set_option)
    then show "get_option (load_settings (snd (reset_value key (Some sec) w'))) sec key = get_option (vendor w) sec key"
      using config_ok_remove [OF ok', of sec key]
      by (simp add: get_load_settings overrides_def get_remove_option) (simp add: w')
  }
  assume none: "\<not> (\<exists>s. has_option (vendor w) s key)"
  then have "filter (\<lambda>s. has_option (vendor w) s key) (sections (vendor w)) = []"
    by simp
  then show "r = Inl UnknownOption" "w' = w"
    using set none by (auto simp: set_value_def find_section_def split: option.splits)
qed

definition sample_settings :: settings_files where
  "sample_settings = \<lparr>vendor = [(''core'', [(''disabled'', ''false'')]), (''video'', [(''timeout'', ''4'')])], override = None\<rparr>"

theorem set_value_takes_effect_witness:
  "\<exists>w'. set_value ''Timeout'' ''9'' None sample_settings = (Inr ''video'', w')
     \<and> get_option (load_settings w') ''video'' ''timeout'' = Some ''9''"
proof -
  have ok: "config_ok (overrides sample_settings)"
    by (simp add: config_ok_def overrides_def sample_settings_def)
  have "fst (set_value ''Timeout'' ''9'' None sample_settings) = Inr ''video''"
    by code_simp
  then obtain w' where set: "set_value ''Timeout'' ''9'' None sample_settings = (Inr ''video'', w')"
    by (metis prod.collapse)
  have "lower ''timeout'' = lower ''Timeout''"
    by code_simp
  then show ?thesis
    using set_value_takes_effect [OF ok set, of "''video''" "''video''" "''timeout''"] set by simp
qed

end
