(* ===== verification/Login_Secrets.thy ===== *)
theory Login_Secrets
  imports Byte_Struct
begin

text \<open>
  \<^verbatim>\<open>daemon/secrets.py\<close>: the login password kept for KWallet, one file per user. The
  program systemd-creds is a parameter: whether it can seal to a TPM and be found at all,
  and what sealing and unsealing under a user's credential name give (\<open>None\<close> for a
  failure or a timeout). Whether the directory can be written is part of the state.
\<close>

record creds =
  can_seal :: bool
  creds_found :: bool
  seal :: "string \<Rightarrow> byte list \<Rightarrow> byte list option"
  unseal :: "string \<Rightarrow> byte list \<Rightarrow> byte list option"

record vault =
  secret_files :: "(string \<times> byte list) list"
  vault_writable :: bool

datatype secret_error = SecretError | SecretOSError

definition MAX_SIZE :: nat where "MAX_SIZE = 4096"

text \<open>\<open>b"plain\n"\<close>\<close>

definition PLAIN :: "byte list" where "PLAIN = [112, 108, 97, 105, 110, 10]"

definition credential_name :: "string \<Rightarrow> string" where
  "credential_name user = ''linux-hello-login-'' @ user"

definition put_secret :: "string \<Rightarrow> byte list \<Rightarrow> vault \<Rightarrow> vault" where
  "put_secret user data v = v\<lparr>secret_files := AList.update user data (secret_files v)\<rparr>"

definition drop_secret :: "string \<Rightarrow> vault \<Rightarrow> vault" where
  "drop_secret user v = v\<lparr>secret_files := AList.delete user (secret_files v)\<rparr>"

definition secret_data :: "creds \<Rightarrow> string \<Rightarrow> byte list \<Rightarrow> byte list" where
  "secret_data c user secret =
     (case (if can_seal c then seal c (credential_name user) secret else None) of
        Some sealed \<Rightarrow> sealed
      | None \<Rightarrow> PLAIN @ secret)"

definition store_secret :: "creds \<Rightarrow> string \<Rightarrow> byte list \<Rightarrow> vault \<Rightarrow> (secret_error + unit) \<times> vault" where
  "store_secret c user secret v =
     (if secret = [] \<or> length secret > MAX_SIZE then (Inl SecretError, v)
      else if \<not> vault_writable v then (Inl SecretOSError, v)
      else (Inr (), put_secret user (secret_data c user secret) v))"

definition load_secret :: "creds \<Rightarrow> string \<Rightarrow> vault \<Rightarrow> byte list option" where
  "load_secret c user v =
     (case map_of (secret_files v) user of
        None \<Rightarrow> None
      | Some contents \<Rightarrow>
          (let data = take (MAX_SIZE * 4) contents in
           if prefix PLAIN data then Some (drop (length PLAIN) data)
           else if \<not> creds_found c then None
           else unseal c (credential_name user) data))"

definition secret_exists :: "string \<Rightarrow> vault \<Rightarrow> bool" where
  "secret_exists user v = (map_of (secret_files v) user \<noteq> None)"

definition forget_secret :: "string \<Rightarrow> vault \<Rightarrow> vault" where
  "forget_secret user v = (if secret_exists user v then drop_secret user v else v)"

interpretation secret_store: file_store "\<lambda>v. map_of (secret_files v)" put_secret drop_secret
  by unfold_locales (simp_all add: put_secret_def drop_secret_def)

lemma forget_secret_read: "map_of (secret_files (forget_secret user v)) = (map_of (secret_files v))(user := None)"
  by (auto simp: forget_secret_def secret_exists_def secret_store.read_drop fun_eq_iff)

text \<open>What the code relies on: sealing can be undone, a sealed blob fits and is no plain copy.\<close>

definition creds_sound :: "creds \<Rightarrow> bool" where
  "creds_sound c \<longleftrightarrow>
     (can_seal c \<longrightarrow> creds_found c)
     \<and> (\<forall>name secret sealed. seal c name secret = Some sealed \<longrightarrow>
          unseal c name sealed = Some secret \<and> \<not> prefix PLAIN sealed \<and> length sealed \<le> MAX_SIZE * 4)"

text \<open>
  The password that was kept is the one handed back, sealed or not, until it is
  forgotten; other users' copies are not touched; and nothing empty or longer than a
  password is ever kept.
\<close>

theorem secret_roundtrip:
  assumes "creds_sound c" and "store_secret c user secret v = (r, v')"
  shows "(r = Inr () \<longrightarrow> load_secret c user v' = Some secret \<and> load_secret c user (forget_secret user v') = None)
    \<and> (r \<noteq> Inr () \<longrightarrow> v' = v) \<and> (secret = [] \<or> length secret > MAX_SIZE \<longrightarrow> r = Inl SecretError)
    \<and> (\<forall>other. other \<noteq> user \<longrightarrow> load_secret c other v' = load_secret c other v)"
proof -
  have data: "secret \<noteq> [] \<Longrightarrow> length secret \<le> MAX_SIZE \<Longrightarrow>
      v' = put_secret user (secret_data c user secret) v \<Longrightarrow> load_secret c user v' = Some secret"
  proof (cases "if can_seal c then seal c (credential_name user) secret else None")
    case None
    then show "length secret \<le> MAX_SIZE \<Longrightarrow> v' = put_secret user (secret_data c user secret) v \<Longrightarrow> ?thesis"
      by (simp add: load_secret_def secret_store.read_put secret_data_def MAX_SIZE_def PLAIN_def Let_def)
  next
    case (Some sealed)
    then show "v' = put_secret user (secret_data c user secret) v \<Longrightarrow> ?thesis"
      using assms(1)
      by (auto simp: load_secret_def secret_store.read_put secret_data_def creds_sound_def Let_def split: if_splits)
  qed
  have "load_secret c user (forget_secret user v') = None"
    by (simp add: load_secret_def forget_secret_read)
  moreover have "map_of (secret_files v') other = map_of (secret_files v) other" if "other \<noteq> user" for other
    using assms(2) that by (auto simp: store_secret_def secret_store.read_put split: if_splits)
  ultimately show ?thesis
    using assms(2) data by (auto simp: store_secret_def load_secret_def split: if_splits)
qed

definition sample_creds :: creds where
  "sample_creds = \<lparr>can_seal = True, creds_found = True,
     seal = (\<lambda>name s. if length s \<le> 4096 then Some (0 # s) else None), unseal = (\<lambda>name s. Some (tl s))\<rparr>"

theorem secret_roundtrip_witness:
  "creds_sound sample_creds
   \<and> load_secret sample_creds ''alice''
        (snd (store_secret sample_creds ''alice'' [104, 105] \<lparr>secret_files = [], vault_writable = True\<rparr>)) = Some [104, 105]"
proof -
  have s: "creds_sound sample_creds"
    by (auto simp: creds_sound_def sample_creds_def PLAIN_def MAX_SIZE_def split: if_splits)
  show ?thesis
    using secret_roundtrip [OF s, of "''alice''" "[104, 105]" "\<lparr>secret_files = [], vault_writable = True\<rparr>"] s
    by (auto simp: store_secret_def MAX_SIZE_def)
qed

end
