(* ===== verification/Host_Checks.thy ===== *)
theory Host_Checks
  imports LH_Prelude
begin

text \<open>
  What the service reads of the computer it runs on: whether a folder is on an encrypted
  disk (\<^verbatim>\<open>integration/encryption.py\<close>), Secure Boot and the TPM
  (\<^verbatim>\<open>integration/security.py\<close>), and which sign-in option the Plasma lock screen
  starts with (\<^verbatim>\<open>integration/kscreenlocker.py\<close>, with the function that changes it).

  The files of \<open>/proc\<close>, \<open>/sys\<close> and the users' homes are a record: their text or bytes,
  \<open>None\<close> where reading raises \<open>OSError\<close>.
\<close>

record host =
  host_text :: "string \<Rightarrow> string option"
  host_bytes :: "string \<Rightarrow> nat list option"
  host_link :: "string \<Rightarrow> string"
  host_dir :: "string \<Rightarrow> string list option"
  host_isdir :: "string \<Rightarrow> bool"
  host_exists :: "string \<Rightarrow> bool"
  host_rdev :: "string \<Rightarrow> (nat \<times> nat) option"

section \<open>encryption.py: the mount a path is on\<close>

text \<open>\<open>s.replace(code, new)\<close> for a code that is not empty.\<close>

function replace_all :: "string \<Rightarrow> string \<Rightarrow> string \<Rightarrow> string" where
  "replace_all code new [] = []"
| "replace_all code new (c # cs) =
     (if code \<noteq> [] \<and> starts_with (c # cs) code then new @ replace_all code new (drop (length code) (c # cs))
      else c # replace_all code new cs)"
  by pat_completeness auto
termination
  by (relation "measure (\<lambda>(code, new, s). length s)") auto

abbreviation BACKSLASH :: char where "BACKSLASH \<equiv> CHR 0x5C"

text \<open>The codes of \<open>_unescape\<close>, in its order.\<close>

definition ESCAPES :: "(char \<times> string) list" where
  "ESCAPES = [(CHR '' '', BACKSLASH # ''040''), (TAB, BACKSLASH # ''011''),
              (LF, BACKSLASH # ''012''), (BACKSLASH, BACKSLASH # ''134'')]"

definition unescape :: "string \<Rightarrow> string" where
  "unescape field = fold (\<lambda>(c, code) s. replace_all code [c] s) ESCAPES field"

definition rstrip_char :: "char \<Rightarrow> string \<Rightarrow> string" where
  "rstrip_char c s = rev (dropWhile (\<lambda>d. d = c) (rev s))"

text \<open>What follows the first \<open> - \<close> of a line, \<open>None\<close> without one.\<close>

fun after_dash :: "string \<Rightarrow> string option" where
  "after_dash [] = None"
| "after_dash (c # cs) = (if starts_with (c # cs) '' - '' then Some (drop 3 (c # cs)) else after_dash cs)"

text \<open>A line of mountinfo that counts: its mount point and the source, if it has one.\<close>

definition mount_entry :: "string \<Rightarrow> (string \<times> string option) option" where
  "mount_entry line =
     (case after_dash line of
        None \<Rightarrow> None
      | Some rest \<Rightarrow>
          (let fields = split_ws line; after = split_ws rest in
           if length fields < 5 then None
           else Some (unescape (fields ! 4), if length after > 1 then Some (unescape (after ! 1)) else None)))"

definition inside :: "string \<Rightarrow> string \<Rightarrow> bool" where
  "inside path point \<longleftrightarrow> path = point \<or> starts_with path (rstrip_char SLASH point @ [SLASH])"

fun mount_scan :: "string \<Rightarrow> string \<times> string option \<Rightarrow> string list \<Rightarrow> string \<times> string option" where
  "mount_scan path best [] = best"
| "mount_scan path best (line # ls) =
     (case mount_entry line of
        None \<Rightarrow> mount_scan path best ls
      | Some (point, source) \<Rightarrow>
          mount_scan path (if inside path point \<and> length point \<ge> length (fst best) then (point, source) else best) ls)"

definition mount_source :: "host \<Rightarrow> string \<Rightarrow> string \<Rightarrow> string option" where
  "mount_source h path mountinfo =
     (case host_text h mountinfo of
        None \<Rightarrow> None
      | Some t \<Rightarrow> snd (mount_scan (host_link h path) ('''', None) (splitlines t)))"

section \<open>encryption.py: block devices\<close>

definition MAX_DEPTH :: nat where "MAX_DEPTH = 8"

definition is_crypt :: "host \<Rightarrow> string \<Rightarrow> bool" where
  "is_crypt h device =
     (case host_text h (path_join (path_join device ''dm'') ''uuid'') of
        None \<Rightarrow> False | Some t \<Rightarrow> starts_with t ''CRYPT-'')"

definition slaves :: "host \<Rightarrow> string \<Rightarrow> string list" where
  "slaves h device =
     (case host_dir h (path_join device ''slaves'') of
        None \<Rightarrow> []
      | Some names \<Rightarrow> map (\<lambda>name. host_link h (path_join (path_join device ''slaves'') name)) names)"

text \<open>\<open>left\<close> is \<open>MAX_DEPTH + 1 - depth\<close>: 0 where the depth is more than allowed.\<close>

fun encrypted_block :: "host \<Rightarrow> nat \<Rightarrow> string \<Rightarrow> bool" where
  "encrypted_block h 0 device = False"
| "encrypted_block h (Suc left) device =
     (if is_crypt h device then True
      else slaves h device \<noteq> [] \<and> list_all (encrypted_block h left) (slaves h device))"

definition is_encrypted :: "host \<Rightarrow> string \<Rightarrow> string \<Rightarrow> string \<Rightarrow> bool" where
  "is_encrypted h path mountinfo sys_block =
     (case mount_source h path mountinfo of
        None \<Rightarrow> False
      | Some source \<Rightarrow>
          if source = [] \<or> \<not> starts_with source ''/dev/'' then False
          else (case host_rdev h source of
                  None \<Rightarrow> False
                | Some (major, minor) \<Rightarrow>
                    encrypted_block h (MAX_DEPTH + 1)
                      (host_link h (path_join sys_block (nat_digits major @ '':'' @ nat_digits minor)))))"

section \<open>security.py\<close>

definition GLOBAL :: string where "GLOBAL = ''8be4df61-93ca-11d2-aa0d-00e098032b8c''"

definition efi_flag :: "host \<Rightarrow> string \<Rightarrow> string \<Rightarrow> nat option" where
  "efi_flag h name efivars =
     (case host_bytes h (path_join efivars (name @ ''-'' @ GLOBAL)) of
        None \<Rightarrow> None
      | Some bytes \<Rightarrow> (let data = take 8 bytes in if length data \<ge> 5 then Some (data ! 4) else None))"

definition secure_boot :: "host \<Rightarrow> string \<Rightarrow> string" where
  "secure_boot h efivars =
     (if \<not> host_isdir h efivars then ''legacy''
      else if efi_flag h ''SecureBoot'' efivars = Some 1 then ''on''
      else if efi_flag h ''SetupMode'' efivars = Some 1 then ''setup''
      else if efi_flag h ''SecureBoot'' efivars = Some 0 then ''off''
      else ''unknown'')"

definition is_digit :: "char \<Rightarrow> bool" where
  "is_digit c \<longleftrightarrow> CHR ''0'' \<le> c \<and> c \<le> CHR ''9''"

text \<open>
  \<open>int(s)\<close> of a stripped string: a sign and single underscores between digits are
  accepted, \<open>None\<close> is \<open>ValueError\<close>.
\<close>

fun dec_scan :: "bool \<Rightarrow> int \<Rightarrow> string \<Rightarrow> int option" where
  "dec_scan ok v [] = (if ok then Some v else None)"
| "dec_scan ok v (c # cs) =
     (if c = CHR ''_'' then (if ok then dec_scan False v cs else None)
      else if is_digit c then dec_scan True (10 * v + (of_char c - 48)) cs
      else None)"

definition int_of_dec :: "string \<Rightarrow> int option" where
  "int_of_dec s =
     (if starts_with s ''-'' then map_option uminus (dec_scan False 0 (drop 1 s))
      else if starts_with s ''+'' then dec_scan False 0 (drop 1 s)
      else dec_scan False 0 s)"

definition tpm_version :: "host \<Rightarrow> string \<Rightarrow> int" where
  "tpm_version h sys_tpm =
     (case host_dir h sys_tpm of
        None \<Rightarrow> 0
      | Some names \<Rightarrow>
          (case sort names of
             [] \<Rightarrow> 0
           | name # _ \<Rightarrow>
               (case Option.bind (host_text h (path_join (path_join sys_tpm name) ''tpm_version_major''))
                       (\<lambda>t. int_of_dec (strip t)) of
                  Some v \<Rightarrow> v
                | None \<Rightarrow>
                    if host_exists h (path_join ''/dev'' (replace_all ''tpm'' ''tpmrm'' name)) then 2 else 1)))"

definition tpm_unlock :: "host \<Rightarrow> string \<Rightarrow> string list \<Rightarrow> bool" where
  "tpm_unlock h cmdline crypttabs =
     list_ex (\<lambda>path. case host_text h path of
                       None \<Rightarrow> False
                     | Some t \<Rightarrow> list_ex (\<lambda>line. \<not> starts_with (lstrip line) ''#'' \<and> contains line ''tpm2-device='')
                                  (splitlines t))
       (cmdline # crypttabs)"

section \<open>kscreenlocker.py\<close>

definition GROUP :: string where "GROUP = ''[Greeter]''"
definition KEY :: string where "KEY = ''Authenticator''"
definition FACE :: string where "FACE = ''Face''"
definition PASSWORD :: string where "PASSWORD = ''Regular''"

text \<open>\<open>re.match(re.escape(key) + r"\s*=", s)\<close>\<close>

definition key_line :: "string \<Rightarrow> string \<Rightarrow> bool" where
  "key_line key s \<longleftrightarrow> starts_with s key \<and> starts_with (dropWhile is_space (drop (length key) s)) ''=''"

definition value_of :: "string \<Rightarrow> string" where
  "value_of s = strip (snd (split1 (CHR ''='') s))"

fun choice_scan :: "string option \<Rightarrow> string list \<Rightarrow> string option" where
  "choice_scan grp [] = None"
| "choice_scan grp (l # ls) =
     (let s = strip l in
      if starts_with s ''['' then choice_scan (Some s) ls
      else if grp = Some GROUP \<and> key_line KEY s then Some (value_of s)
      else choice_scan grp ls)"

definition read_choice :: "string list \<Rightarrow> string option" where
  "read_choice ls = choice_scan None ls"

definition choice_line :: "string \<Rightarrow> string" where
  "choice_line v = KEY @ ''='' @ v"

text \<open>
  \<open>set_choice\<close> on the lines of the file: the loop leaves at the first matching line or at
  the group that follows ours; at the end of the file the line, or the whole group, is added.
\<close>

fun set_scan :: "string \<Rightarrow> string option \<Rightarrow> string list \<Rightarrow> string list option" where
  "set_scan v grp [] = (if grp = Some GROUP then Some [choice_line v] else None)"
| "set_scan v grp (l # ls) =
     (let s = strip l in
      if starts_with s ''['' then
        (if grp = Some GROUP then Some (choice_line v # l # ls)
         else map_option (Cons l) (set_scan v (Some s) ls))
      else if grp = Some GROUP \<and> key_line KEY s then Some (choice_line v # ls)
      else map_option (Cons l) (set_scan v grp ls))"

definition set_choice :: "string list \<Rightarrow> string \<Rightarrow> string list" where
  "set_choice ls v =
     (case set_scan v None ls of
        Some out \<Rightarrow> out
      | None \<Rightarrow> ls @ (if ls \<noteq> [] \<and> strip (last ls) \<noteq> [] then [''''] else []) @ [GROUP, choice_line v])"

definition prefer_face :: "string list \<Rightarrow> string list" where
  "prefer_face ls = set_choice ls FACE"

definition stop_preferring_face :: "string list \<Rightarrow> string list" where
  "stop_preferring_face ls = (if read_choice ls = Some FACE then set_choice ls PASSWORD else ls)"

fun key_scan :: "string \<Rightarrow> string \<Rightarrow> string option \<Rightarrow> string option \<Rightarrow> string list \<Rightarrow> string option" where
  "key_scan wanted key grp v [] = v"
| "key_scan wanted key grp v (l # ls) =
     (let s = strip l in
      if starts_with s ''['' then key_scan wanted key (Some s) v ls
      else if grp = Some wanted \<and> key_line key s then key_scan wanted key grp (Some (value_of s)) ls
      else key_scan wanted key grp v ls)"

definition read_key :: "host \<Rightarrow> string \<Rightarrow> string \<Rightarrow> string \<Rightarrow> string option" where
  "read_key h path wanted key =
     (case host_text h path of None \<Rightarrow> None | Some t \<Rightarrow> key_scan wanted key None None (splitlines t))"

text \<open>Whether the Face option is in effect: the user's value wins.\<close>

definition face_enabled :: "host \<Rightarrow> string \<Rightarrow> string \<Rightarrow> bool" where
  "face_enabled h user_config system_config =
     (case List.find (\<lambda>v. v \<noteq> None)
             (map (\<lambda>path. read_key h path ''[Authenticators]'' ''Face'') [user_config, system_config]) of
        Some (Some v) \<Rightarrow> lower v \<in> set [''true'', ''1'', ''yes'', ''on'']
      | _ \<Rightarrow> False)"

text \<open>
  Accounts as \<open>(name, uid, home)\<close>; the lines of a user's state file, or \<open>None\<close> where it is
  not a small regular file.
\<close>

definition user_state_paths :: "host \<Rightarrow> (string \<times> nat \<times> string) list \<Rightarrow> (string \<times> string) list" where
  "user_state_paths h accounts =
     map (\<lambda>(name, _, home). (name, path_join home ''.local/state/kscreenlockerrc''))
       (filter (\<lambda>(_, u, home). u \<ge> 1000 \<and> u \<noteq> 65534 \<and> host_isdir h home) accounts)"

definition users_preferring_face :: "host \<Rightarrow> (string \<Rightarrow> string list option) \<Rightarrow> (string \<times> nat \<times> string) list \<Rightarrow> string list" where
  "users_preferring_face h read_lines accounts =
     map fst (filter (\<lambda>(_, path). Option.bind (read_lines path) read_choice = Some FACE) (user_state_paths h accounts))"

section \<open>Encrypted means no way around\<close>

text \<open>
  A device lets data reach a disk in the clear: it is not a dm-crypt device, and it is a
  disk itself or stands on a device that does.
\<close>

inductive exposed :: "host \<Rightarrow> string \<Rightarrow> bool" for h where
  leaf: "\<not> is_crypt h device \<Longrightarrow> slaves h device = [] \<Longrightarrow> exposed h device"
| below: "\<not> is_crypt h device \<Longrightarrow> s \<in> set (slaves h device) \<Longrightarrow> exposed h s \<Longrightarrow> exposed h device"

inductive_cases exposedE: "exposed h device"

lemma encrypted_block_safe: "exposed h device \<Longrightarrow> \<not> encrypted_block h left device"
proof (induction arbitrary: left rule: exposed.induct)
  case (leaf device)
  then show ?case
    by (cases left) auto
next
  case (below device s)
  then show ?case
    by (cases left) (auto simp: list_all_iff)
qed

text \<open>The mount a path is on is the innermost one: no other mount point with it is longer.\<close>

lemma mount_scan_innermost:
  "length (fst best) \<le> length (fst (mount_scan path best lines))
   \<and> (mount_scan path best lines = best
      \<or> (\<exists>line \<in> set lines. mount_entry line = Some (mount_scan path best lines)
           \<and> inside path (fst (mount_scan path best lines))))
   \<and> (\<forall>line \<in> set lines. \<forall>point source. mount_entry line = Some (point, source) \<longrightarrow> inside path point
        \<longrightarrow> length point \<le> length (fst (mount_scan path best lines)))"
proof (induction lines arbitrary: best)
  case (Cons l ls)
  show ?case
  proof (cases "mount_entry l")
    case None
    then show ?thesis
      using Cons.IH [of best] by auto
  next
    case (Some e)
    obtain point source where e: "e = (point, source)"
      by (cases e)
    let ?best = "if inside path point \<and> length point \<ge> length (fst best) then (point, source) else best"
    show ?thesis
      using Cons.IH [of ?best] Some e by (auto split: if_splits)
  qed
qed simp

text \<open>
  C33. A folder counts as encrypted only when its file system is the innermost mount the path
  is in, mounted from a device file, and nothing of it reaches a disk except through dm-crypt.
\<close>

theorem is_encrypted_safe:
  assumes "is_encrypted h path mountinfo sys_block"
  shows "\<exists>t line point source major minor.
      host_text h mountinfo = Some t \<and> line \<in> set (splitlines t)
      \<and> mount_entry line = Some (point, Some source) \<and> inside (host_link h path) point
      \<and> (\<forall>l \<in> set (splitlines t). \<forall>p s. mount_entry l = Some (p, s) \<longrightarrow> inside (host_link h path) p \<longrightarrow> length p \<le> length point)
      \<and> starts_with source ''/dev/'' \<and> host_rdev h source = Some (major, minor)
      \<and> \<not> exposed h (host_link h (path_join sys_block (nat_digits major @ '':'' @ nat_digits minor)))"
proof -
  obtain source major minor where s: "mount_source h path mountinfo = Some source"
    "starts_with source ''/dev/''" "host_rdev h source = Some (major, minor)"
    "encrypted_block h (MAX_DEPTH + 1) (host_link h (path_join sys_block (nat_digits major @ '':'' @ nat_digits minor)))"
    using assms by (auto simp: is_encrypted_def split: option.splits if_splits)
  obtain t where t: "host_text h mountinfo = Some t"
    "snd (mount_scan (host_link h path) ('''', None) (splitlines t)) = Some source"
    using s(1) by (auto simp: mount_source_def split: option.splits)
  let ?r = "mount_scan (host_link h path) ('''', None) (splitlines t)"
  obtain point where r: "?r = (point, Some source)"
    using t(2) by (metis prod.collapse)
  from mount_scan_innermost [of "('''', None)" "host_link h path" "splitlines t"]
  obtain line where "line \<in> set (splitlines t)" "mount_entry line = Some (point, Some source)"
    "inside (host_link h path) point"
    "\<forall>l \<in> set (splitlines t). \<forall>p s. mount_entry l = Some (p, s) \<longrightarrow> inside (host_link h path) p \<longrightarrow> length p \<le> length point"
    unfolding r by auto
  then show ?thesis
    using t(1) s(2,3) encrypted_block_safe s(4) by blast
qed

definition sample_host :: host where
  "sample_host =
     \<lparr>host_text = map_of
        [(''/proc/self/mountinfo'', ''22 1 0:20 / / rw - btrfs /dev/vda2 rw'' @ [LF]
            @ ''30 22 0:30 / /home rw - ext4 /dev/mapper/home rw'' @ [LF]),
         (''/dev/dm-0/dm/uuid'', ''CRYPT-LUKS2-1'')],
      host_bytes = (\<lambda>_. None),
      host_link = (\<lambda>p. if p = ''/sys/dev/block/254:0'' then ''/dev/dm-0'' else p),
      host_dir = (\<lambda>_. None), host_isdir = (\<lambda>_. True), host_exists = (\<lambda>_. True),
      host_rdev = (\<lambda>p. if p = ''/dev/mapper/home'' then Some (254, 0) else None)\<rparr>"

theorem is_encrypted_safe_witness:
  "is_encrypted sample_host ''/home/alice'' ''/proc/self/mountinfo'' ''/sys/dev/block''
   \<and> (\<exists>t. host_text sample_host ''/proc/self/mountinfo'' = Some t)"
proof -
  have e: "is_encrypted sample_host ''/home/alice'' ''/proc/self/mountinfo'' ''/sys/dev/block''"
    by code_simp
  show ?thesis
    using is_encrypted_safe [OF e] e by blast
qed

section \<open>Mount points survive their escapes\<close>

text \<open>How the kernel writes a name: each character that has a code by its code.\<close>

definition escape_char :: "(char \<times> string) list \<Rightarrow> char \<Rightarrow> string" where
  "escape_char codes c = (case map_of codes c of None \<Rightarrow> [c] | Some code \<Rightarrow> code)"

definition escape :: "(char \<times> string) list \<Rightarrow> string \<Rightarrow> string" where
  "escape codes s = concat (map (escape_char codes) s)"

text \<open>A code: a backslash and three characters that are none.\<close>

definition is_code :: "string \<Rightarrow> bool" where
  "is_code code \<longleftrightarrow> length code = 4 \<and> hd code = BACKSLASH \<and> BACKSLASH \<notin> set (tl code)"

lemma replace_skip: "BACKSLASH \<notin> set xs \<Longrightarrow> is_code code \<Longrightarrow> replace_all code new (xs @ s) = xs @ replace_all code new s"
proof (induction xs)
  case (Cons x xs)
  have "\<not> starts_with (x # xs @ s) code"
    using Cons.prems by (cases code) (auto simp: is_code_def prefix_def)
  then show ?case
    using Cons by simp
qed simp

lemma replace_hit: "is_code code \<Longrightarrow> replace_all code new (code @ s) = new @ replace_all code new s"
  by (cases code) (auto simp: is_code_def prefix_def)

lemma replace_other_code:
  assumes "is_code code" and "is_code other" and "other \<noteq> code"
  shows "replace_all code new (other @ s) = other @ replace_all code new s"
proof -
  obtain d where other: "other = BACKSLASH # d" and d: "BACKSLASH \<notin> set d"
    using assms(2) by (cases other) (auto simp: is_code_def)
  have "\<not> starts_with (other @ s) code"
  proof
    assume "starts_with (other @ s) code"
    moreover have "length other = length code"
      using assms(1,2) by (simp add: is_code_def)
    ultimately show False
      using assms(3) by (auto simp: prefix_def append_eq_append_conv2)
  qed
  then show ?thesis
    using replace_skip [OF d assms(1)] other by simp
qed

text \<open>One pass takes one code out, as long as the backslash itself still has its own.\<close>

lemma replace_escape:
  assumes codes: "\<forall>(c, code) \<in> set ((c0, code0) # codes). is_code code"
    and inj: "dict_ok ((c0, code0) # codes)" "distinct (map snd ((c0, code0) # codes))"
    and bs: "BACKSLASH \<in> fst ` set ((c0, code0) # codes)"
  shows "replace_all code0 [c0] (escape ((c0, code0) # codes) s) = escape codes s"
proof (induction s)
  case (Cons d s)
  have c0: "is_code code0"
    using codes by simp
  consider (hit) "d = c0" | (other) code where "d \<noteq> c0" "map_of codes d = Some code"
    | (plain) "d \<noteq> c0" "map_of codes d = None"
    by (cases "map_of codes d") auto
  then show ?case
  proof cases
    case hit
    have "map_of codes d = None"
      using inj(1) hit by (simp add: map_of_eq_None_iff)
    then show ?thesis
      using Cons.IH c0 hit by (simp add: escape_def escape_char_def replace_hit)
  next
    case other
    then have m: "(d, code) \<in> set codes"
      by (simp add: map_of_SomeD)
    then have "is_code code" "code \<noteq> code0"
      using codes inj(2) by (auto simp: rev_image_eqI)
    then show ?thesis
      using Cons.IH c0 other by (simp add: escape_def escape_char_def replace_other_code)
  next
    case plain
    then have "d \<noteq> BACKSLASH"
      using bs by (auto simp: map_of_eq_None_iff)
    then have "replace_all code0 [c0] ([d] @ escape ((c0, code0) # codes) s) = [d] @ escape codes s"
      using replace_skip [of "[d]" code0] c0 Cons.IH by simp
    then show ?thesis
      using plain by (simp add: escape_def escape_char_def)
  qed
qed (simp add: escape_def)

text \<open>
  The names in the mount table are read back as they are: whatever spaces, tabs, line
  feeds and backslashes a mount point has, undoing the kernel's escapes gives it back.
\<close>

theorem unescape_escape: "unescape (escape ESCAPES s) = s"
proof -
  let ?a = "(CHR '' '', BACKSLASH # ''040'')" and ?b = "(TAB, BACKSLASH # ''011'')"
    and ?c = "(LF, BACKSLASH # ''012'')" and ?d = "(BACKSLASH, BACKSLASH # ''134'')"
  have pass: "replace_all (snd e) [fst e] (escape (e # codes) s) = escape codes s"
    if "e # codes \<in> {[?a, ?b, ?c, ?d], [?b, ?c, ?d], [?c, ?d], [?d]}" for e codes
    using that by (cases e) (auto intro!: replace_escape simp: is_code_def)
  have "escape [] s = s"
    by (induction s) (simp_all add: escape_def escape_char_def)
  then show ?thesis
    using pass [of ?a "[?b, ?c, ?d]"] pass [of ?b "[?c, ?d]"] pass [of ?c "[?d]"] pass [of ?d "[]"]
    by (simp add: unescape_def ESCAPES_def)
qed

section \<open>The lock screen's starting option\<close>

lemma rstrip_append_solid: "a \<noteq> [] \<Longrightarrow> \<not> is_space (last a) \<Longrightarrow> rstrip (a @ b) = a @ rstrip b"
proof -
  assume "a \<noteq> []" "\<not> is_space (last a)"
  then obtain a' c where a: "a = a' @ [c]" "\<not> is_space c"
    by (metis append_butlast_last_id)
  have "dropWhile is_space (rev b @ rev a) = dropWhile is_space (rev b) @ rev a"
    using a by (cases "\<forall>x \<in> set (rev b). is_space x") (auto simp: dropWhile_append)
  then show ?thesis
    by (simp add: rstrip_def)
qed

lemma strip_rstrip: "strip (rstrip v) = strip v"
proof (cases "\<forall>c \<in> set v. is_space c")
  case True
  then show ?thesis
    by (simp add: strip_def rstrip_def lstrip_def dropWhile_eq_Nil_conv [THEN iffD2])
next
  case False
  have idem: "rstrip (rstrip s) = rstrip s" for s
    by (simp add: rstrip_def dropWhile_idem)
  have "lstrip (rstrip v) = rstrip (lstrip v)"
  proof -
    obtain sp c r where v: "v = sp @ c # r" "\<forall>x \<in> set sp. is_space x" "\<not> is_space c"
      using False split_list_first_prop [of v "\<lambda>c. \<not> is_space c"] by auto
    have "lstrip v = c # r"
      using v by (simp add: lstrip_def)
    moreover have "rstrip v = sp @ c # rstrip r" "rstrip (c # r) = c # rstrip r"
      using rstrip_append_solid [of "sp @ [c]" r] rstrip_append_solid [of "[c]" r] v by simp_all
    ultimately show ?thesis
      using v by (simp add: lstrip_def)
  qed
  then show ?thesis
    by (simp add: strip_def idem)
qed

lemma strip_choice_line: "strip (choice_line v) = KEY @ ''='' @ rstrip v"
proof -
  have "lstrip (choice_line v) = choice_line v"
    by (rule lstrip_id) (simp add: choice_line_def KEY_def is_space_def)
  moreover have "rstrip ((KEY @ ''='') @ v) = (KEY @ ''='') @ rstrip v"
    by (rule rstrip_append_solid) (simp_all add: KEY_def is_space_def)
  ultimately show ?thesis
    by (simp add: strip_def choice_line_def)
qed

lemma choice_line_read [simp]:
  "\<not> starts_with (strip (choice_line v)) ''[''" "key_line KEY (strip (choice_line v))"
  "value_of (strip (choice_line v)) = strip v"
proof -
  show "\<not> starts_with (strip (choice_line v)) ''[''"
    by (simp add: strip_choice_line KEY_def prefix_def)
  show "key_line KEY (strip (choice_line v))"
    by (simp add: strip_choice_line key_line_def is_space_def)
  have "CHR ''='' \<notin> set KEY"
    by (simp add: KEY_def)
  then have "takeWhile (\<lambda>c. c \<noteq> CHR ''='') (KEY @ CHR ''='' # rstrip v) = KEY"
    "dropWhile (\<lambda>c. c \<noteq> CHR ''='') (KEY @ CHR ''='' # rstrip v) = CHR ''='' # rstrip v"
    by (subst takeWhile_append2 dropWhile_append2; auto)+
  then show "value_of (strip (choice_line v)) = strip v"
    by (simp add: strip_choice_line value_of_def split1_def strip_rstrip)
qed

lemma set_scan_read: "set_scan v grp ls = Some out \<Longrightarrow> choice_scan grp out = Some (strip v)"
  by (induction ls arbitrary: grp out) (auto simp: Let_def split: if_splits)

lemma set_scan_shape:
  "set_scan v grp ls = Some out \<Longrightarrow>
   \<exists>a b. out = a @ choice_line v # b \<and> (ls = a @ b \<or> (\<exists>l. ls = a @ l # b \<and> key_line KEY (strip l)))"
proof (induction ls arbitrary: grp out)
  case (Cons l ls)
  show ?case
  proof (cases "\<exists>grp' out'. set_scan v grp' ls = Some out' \<and> out = l # out'")
    case True
    then obtain grp' out' where o: "set_scan v grp' ls = Some out'" "out = l # out'"
      by blast
    from Cons.IH [OF o(1)] obtain a b where
      "out' = a @ choice_line v # b" "ls = a @ b \<or> (\<exists>l. ls = a @ l # b \<and> key_line KEY (strip l))"
      by blast
    then show ?thesis
      using o(2) by (intro exI [of _ "l # a"] exI [of _ b]) auto
  next
    case False
    then have "out = choice_line v # l # ls \<or> (out = choice_line v # ls \<and> key_line KEY (strip l))"
      using Cons.prems by (auto simp: Let_def split: if_splits)
    then show ?thesis
      by (metis append_Nil)
  qed
qed (auto split: if_splits)

lemma set_scan_None_read: "set_scan v grp ls = None \<Longrightarrow> choice_scan grp (ls @ sp @ [GROUP, choice_line v]) = Some (strip v)"
  if "\<forall>l \<in> set sp. l = []"
proof (induction ls arbitrary: grp)
  case Nil
  have g: "starts_with (strip GROUP) ''[''" "strip GROUP = GROUP"
    by (code_simp, code_simp)
  have "choice_scan grp (sp @ [GROUP, choice_line v]) = Some (strip v)"
    using that
  proof (induction sp)
    case Nil
    then show ?case
      using g by (simp add: Let_def)
  next
    case (Cons x sp)
    then show ?case
      by (simp add: key_line_def KEY_def)
  qed
  then show ?case
    by simp
next
  case (Cons l ls)
  then show ?case
    by (auto simp: Let_def split: if_splits)
qed

text \<open>
  Choosing the option the lock screen starts with: afterwards the file gives that
  choice, and every other line of the file is still there, in its place.
\<close>

theorem choice_roundtrip:
  "read_choice (set_choice ls v) = Some (strip v)
   \<and> (\<exists>a b. set_choice ls v = a @ choice_line v # b
        \<and> (ls = a @ b \<or> (\<exists>l. ls = a @ l # b \<and> key_line KEY (strip l))
            \<or> (b = [] \<and> (a = ls @ [GROUP] \<or> a = ls @ ['''', GROUP]))))"
proof (cases "set_scan v None ls")
  case None
  have r: "read_choice (set_choice ls v) = Some (strip v)"
    using set_scan_None_read [OF _ None, of "if ls \<noteq> [] \<and> strip (last ls) \<noteq> [] then [''''] else []"] None
    by (simp add: read_choice_def set_choice_def split: if_splits)
  have "set_choice ls v = (ls @ (if ls \<noteq> [] \<and> strip (last ls) \<noteq> [] then [''''] else []) @ [GROUP]) @ choice_line v # []"
    using None by (simp add: set_choice_def)
  then have "set_choice ls v = (ls @ [GROUP]) @ choice_line v # [] \<or> set_choice ls v = (ls @ ['''', GROUP]) @ choice_line v # []"
    by (simp split: if_splits)
  with r show ?thesis
    by blast
next
  case (Some out)
  then show ?thesis
    using set_scan_read [OF Some] set_scan_shape [OF Some] by (auto simp: read_choice_def set_choice_def)
qed

end
