(* ===== verification/Pam_Text.thy ===== *)
theory Pam_Text
  imports LH_Prelude
begin

text \<open>
  The text level of \<^verbatim>\<open>integration/pam.py\<close>: recognising PAM lines, the marked blocks
  Linux Hello writes into service files, and taking them out again.
\<close>

section \<open>Constants\<close>

definition MODULE :: string where
  "MODULE = ''pam_linux_hello.so''"

definition BEGIN_MARK :: string where
  "BEGIN_MARK = ''# BEGIN linux-hello (managed by linux-hello, do not edit)''"

definition END_MARK :: string where
  "END_MARK = ''# END linux-hello''"

definition WALLET_BEGIN :: string where
  "WALLET_BEGIN = ''# BEGIN linux-hello kwallet (managed by linux-hello, do not edit)''"

definition WALLET_HOLD_LINE :: string where
  "WALLET_HOLD_LINE = ''-auth'' @ [TAB] @ ''optional'' @ [TAB] @ MODULE @ '' remember_password''"

definition WALLET_REMEMBER_LINE :: string where
  "WALLET_REMEMBER_LINE = ''-session'' @ [TAB] @ ''optional'' @ [TAB] @ MODULE @ '' remember_password''"

definition WALLET_RELEASE_LINE :: string where
  "WALLET_RELEASE_LINE = ''-auth'' @ [TAB] @ ''optional'' @ [TAB] @ MODULE @ '' kwallet''"

definition BEGINS :: "string list" where
  "BEGINS = [BEGIN_MARK, WALLET_BEGIN]"

definition INSERT_LINE :: string where
  "INSERT_LINE = ''auth'' @ [TAB] @ ''[success=done default=ignore]'' @ [TAB] @ MODULE"

definition PASSWORD_FIRST_SERVICES :: "string list" where
  "PASSWORD_FIRST_SERVICES = [''plasmalogin'', ''sddm'']"

definition LOGIN_INSERT_LINE :: string where
  "LOGIN_INSERT_LINE =
     ''auth'' @ [TAB] @ ''[success=done ignore=ignore auth_err=die default=ignore]'' @ [TAB] @ MODULE"

definition OWN_STACK_LINE :: string where
  "OWN_STACK_LINE = ''auth'' @ [TAB] @ ''[success=ok default=die]'' @ [TAB] @ MODULE @ '' no_password''"

definition OWN_HEADER :: string where
  "OWN_HEADER = ''#%PAM-1.0'' @ [LF] @ ''# Created by linux-hello''"

text \<open>The argument a gate line needs, \<open>None\<close> for any.\<close>

definition GATES :: "(string \<times> string option) list" where
  "GATES =
     [(''pam_faillock.so'', Some ''preauth''),
      (''pam_nologin.so'', None),
      (''pam_access.so'', None),
      (''pam_shells.so'', None),
      (''pam_securetty.so'', None),
      (''pam_listfile.so'', None),
      (''pam_time.so'', None)]"

definition OWN_STACK_DROP :: "string list" where
  "OWN_STACK_DROP = [''pam_fprintd.so'', ''pam_permit.so'']"

datatype pam_error =
    PamError string    \<comment> \<open>the module's own exception\<close>
  | OSError            \<comment> \<open>reading, writing or removing a file failed\<close>
  | UnicodeDecodeError \<comment> \<open>a file is not UTF-8\<close>
  | TypeError          \<comment> \<open>opening a path that is None\<close>

lemmas pam_consts =
  MODULE_def BEGIN_MARK_def END_MARK_def WALLET_BEGIN_def WALLET_HOLD_LINE_def
  WALLET_REMEMBER_LINE_def WALLET_RELEASE_LINE_def BEGINS_def INSERT_LINE_def
  PASSWORD_FIRST_SERVICES_def LOGIN_INSERT_LINE_def OWN_STACK_LINE_def OWN_HEADER_def
  GATES_def OWN_STACK_DROP_def

section \<open>Lines\<close>

text \<open>Skip the control field, one word or a bracketed group.\<close>

definition skip_control :: "string list \<Rightarrow> string list" where
  "skip_control rest =
     tl (if rest \<noteq> [] \<and> starts_with (hd rest) ''[''
         then dropWhile (\<lambda>w. \<not> ends_with w '']'') rest else rest)"

definition module_of :: "string \<Rightarrow> string option \<times> string option" where
  "module_of line =
     (let stripped = strip line; parts = split_ws stripped in
      if stripped = [] \<or> starts_with stripped ''#'' then (None, None)
      else if starts_with stripped ''@include'' then
        (Some ''@include'', if length parts > 1 then Some (parts ! 1) else None)
      else
        (let rest = skip_control (tl parts) in
         (Some (lstrip_char (CHR ''-'') (hd parts)), if rest \<noteq> [] then Some (hd rest) else None)))"

definition is_auth_line :: "string \<Rightarrow> bool" where
  "is_auth_line line =
     (let (kind, module) = module_of line in
      if kind = Some ''auth'' then True
      else kind = Some ''@include'' \<and> module = Some ''common-auth'')"

definition has_block :: "string \<Rightarrow> string \<Rightarrow> bool" where
  "has_block text begin_mark = contains text begin_mark"

definition ours :: "string \<Rightarrow> bool" where
  "ours line =
     (case snd (module_of line) of
        None \<Rightarrow> False
      | Some module \<Rightarrow> module \<noteq> [] \<and> basename module = MODULE)"

text \<open>Our copy of a check line, \<open>None\<close> when the line is not one.\<close>

definition gate_line :: "string \<Rightarrow> string option" where
  "gate_line line =
     (let parts = split_ws line in
      if length parts < 3 \<or> lstrip_char (CHR ''-'') (hd parts) \<noteq> ''auth''
         \<or> parts ! 1 \<notin> {''required'', ''requisite''} then None
      else (case map_of GATES (basename (parts ! 2)) of
              None \<Rightarrow> None
            | Some need \<Rightarrow>
                if need \<noteq> None \<and> the need \<notin> set (drop 3 parts) then None
                else Some (''-auth'' @ [TAB] @ parts ! 1 @ [TAB] @ join '' '' (drop 2 parts))))"

section \<open>Inserting and removing blocks\<close>

text \<open>The lines before and from the first auth line on, \<open>None\<close> when there is none.\<close>

fun split_auth :: "string list \<Rightarrow> (string list \<times> string list) option" where
  "split_auth [] = None"
| "split_auth (l # ls) =
     (if is_auth_line l then Some ([], l # ls)
      else map_option (\<lambda>(a, b). (l # a, b)) (split_auth ls))"

text \<open>Give the last line a line feed when it has none.\<close>

definition end_last_line :: "string list \<Rightarrow> string list" where
  "end_last_line ls =
     (if ls \<noteq> [] \<and> \<not> ends_with (last ls) [LF] then butlast ls @ [last ls @ [LF]] else ls)"

definition insert_block :: "string \<Rightarrow> string list \<Rightarrow> string \<Rightarrow> pam_error + string" where
  "insert_block text gates line =
     (if has_block text BEGIN_MARK then Inr text
      else
        let lines = end_last_line (splitlines_keep text);
            block = [BEGIN_MARK @ [LF]] @ map (\<lambda>g. g @ [LF]) gates @ [line @ [LF], END_MARK @ [LF]]
        in case split_auth lines of
             None \<Rightarrow> Inl (PamError ''no auth line found'')
           | Some (before, after) \<Rightarrow> Inr (concat (before @ block @ after)))"

text \<open>
  The loop of \<open>remove_block\<close>: the second argument is the open block's lines. A block
  whose end line is gone keeps what is not ours.
\<close>

fun remove_scan :: "string list \<Rightarrow> string list option \<Rightarrow> string list \<Rightarrow> string list" where
  "remove_scan begins None [] = []"
| "remove_scan begins (Some block) [] = filter (\<lambda>l. \<not> ours l) block"
| "remove_scan begins None (l # ls) =
     (if strip l \<in> set begins then remove_scan begins (Some []) ls
      else l # remove_scan begins None ls)"
| "remove_scan begins (Some block) (l # ls) =
     (if strip l = END_MARK then remove_scan begins None ls
      else remove_scan begins (Some (block @ [l])) ls)"

definition remove_block :: "string \<Rightarrow> string list \<Rightarrow> string" where
  "remove_block text begins = concat (remove_scan begins None (splitlines_keep text))"

definition wallet_block :: "string \<Rightarrow> string" where
  "wallet_block line = WALLET_BEGIN @ [LF] @ line @ [LF] @ END_MARK @ [LF]"

definition insert_wallet_release :: "string \<Rightarrow> pam_error + string" where
  "insert_wallet_release text =
     (if has_block text WALLET_BEGIN then Inr text
      else case split_auth (splitlines_keep text) of
             None \<Rightarrow> Inl (PamError ''no auth line found'')
           | Some (before, after) \<Rightarrow>
               Inr (concat before @ wallet_block WALLET_RELEASE_LINE @ concat after))"

text \<open>The lines up to and behind the last auth line.\<close>

fun split_last_auth :: "string list \<Rightarrow> (string list \<times> string list) option" where
  "split_last_auth [] = None"
| "split_last_auth (l # ls) =
     (case split_last_auth ls of
        Some (a, b) \<Rightarrow> Some (l # a, b)
      | None \<Rightarrow> if is_auth_line l then Some ([l], ls) else None)"

definition insert_wallet_remember :: "string \<Rightarrow> pam_error + string" where
  "insert_wallet_remember text0 =
     (if has_block text0 WALLET_BEGIN then Inr text0
      else
        let text = (if text0 \<noteq> [] \<and> \<not> ends_with text0 [LF] then text0 @ [LF] else text0)
        in case split_last_auth (splitlines_keep text) of
             None \<Rightarrow> Inl (PamError ''no auth line found'')
           | Some (before, after) \<Rightarrow>
               Inr (concat (before @ [wallet_block WALLET_HOLD_LINE] @ after)
                    @ wallet_block WALLET_REMEMBER_LINE))"

definition remove_legacy_lines :: "string \<Rightarrow> string" where
  "remove_legacy_lines text = concat (filter (\<lambda>l. \<not> ours l) (splitlines_keep text))"

section \<open>The own stack\<close>

definition own_stack_header :: "string list" where
  "own_stack_header =
     [''#%PAM-1.0'' @ [LF],
      ''# Created by linux-hello: face unlock on the Plasma lock screen.'' @ [LF],
      ''# Removed again by '' @ [CHR 0x27] @ ''linux-hello-cli reset-system'' @ [CHR 0x27] @ ''.'' @ [LF]]"

definition keeps_auth :: "bool \<Rightarrow> string \<Rightarrow> bool" where
  "keeps_auth from_fingerprint line =
     (let (kind, module) = module_of line in
      from_fingerprint \<and> kind = Some ''auth'' \<and> module \<noteq> None
      \<and> ends_with (the module) ''.so'' \<and> basename (the module) \<notin> set OWN_STACK_DROP)"

text \<open>The loop of \<open>build_own_stack\<close>: the body, and whether our line was placed.\<close>

fun own_stack_scan :: "bool \<Rightarrow> bool \<Rightarrow> string list \<Rightarrow> string list \<times> bool" where
  "own_stack_scan fp placed [] = ([], placed)"
| "own_stack_scan fp placed (l0 # ls) =
     (let l = (if ends_with l0 [LF] then l0 else l0 @ [LF]) in
      if starts_with l ''#%PAM'' then own_stack_scan fp placed ls
      else if \<not> is_auth_line l then
        (let (body, p) = own_stack_scan fp placed ls in (l # body, p))
      else if \<not> placed \<and> \<not> keeps_auth fp l then
        (let (body, p) = own_stack_scan fp True ls in ((OWN_STACK_LINE @ [LF]) # body, p))
      else if keeps_auth fp l then
        (let (body, p) = own_stack_scan fp placed ls in (l # body, p))
      else own_stack_scan fp placed ls)"

definition build_own_stack :: "string \<Rightarrow> bool \<Rightarrow> pam_error + string" where
  "build_own_stack source_text from_fingerprint =
     (let (body, placed) = own_stack_scan from_fingerprint False (splitlines_keep source_text) in
      if \<not> placed then Inl (PamError ''source stack has no auth section'')
      else Inr (concat (own_stack_header @ body)))"

section \<open>INI groups\<close>

text \<open>\<open>group\<close> is the current group, \<open>values\<close> the keys found so far.\<close>

fun ini_scan :: "string \<Rightarrow> string option \<Rightarrow> (string \<times> string) list \<Rightarrow> string list
    \<Rightarrow> (string \<times> string) list" where
  "ini_scan wanted current values [] = values"
| "ini_scan wanted current values (l # ls) =
     (let line = strip l in
      if starts_with line ''['' \<and> ends_with line '']'' then
        ini_scan wanted (Some (take (length line - 2) (drop 1 line))) values ls
      else if current = Some wanted \<and> contains line ''='' \<and> \<not> starts_with line ''#'' then
        (let (key, value) = split1 (CHR ''='') line in
         ini_scan wanted current (AList.update (strip key) (strip value) values) ls)
      else ini_scan wanted current values ls)"

definition ini_group :: "string \<Rightarrow> string \<Rightarrow> (string \<times> string) list" where
  "ini_group text grp = ini_scan grp None [] (splitlines text)"

section \<open>Lemmas: marks and lines\<close>

lemma strip_hd:
  assumes "s \<noteq> []" and "\<not> is_space (hd s)"
  shows "strip s \<noteq> [] \<and> hd (strip s) = hd s"
proof -
  obtain c cs where s: "s = c # cs" and c: "\<not> is_space c"
    using assms by (cases s) auto
  have "\<exists>ds. dropWhile is_space (rev cs @ [c]) = ds @ [c]"
    using c by (simp add: dropWhile_append)
  then show ?thesis
    using s c by (auto simp: strip_def lstrip_def rstrip_def)
qed

lemma sublist_snoc:
  assumes "sublist x (s @ [c])" and "x \<noteq> []" and "last x \<noteq> c"
  shows "sublist x s"
proof -
  obtain ps ss where eq: "s @ [c] = ps @ x @ ss"
    using assms(1) by (auto simp: sublist_def)
  have "ss \<noteq> []"
    using eq assms(2,3) by (metis append.right_neutral append_is_Nil_conv last_appendR last_snoc)
  then obtain ss' d where "ss = ss' @ [d]"
    by (cases ss rule: rev_cases) auto
  then have "s = ps @ x @ ss'"
    using eq by simp
  then show ?thesis
    by (auto simp: sublist_def)
qed

lemma mark_chars:
  "BEGIN_MARK \<noteq> []" "WALLET_BEGIN \<noteq> []" "END_MARK \<noteq> []"
  "last BEGIN_MARK \<noteq> LF" "last WALLET_BEGIN \<noteq> LF"
  "hd BEGIN_MARK = CHR ''#''" "hd WALLET_BEGIN = CHR ''#''" "hd END_MARK = CHR ''#''"
  by (simp_all add: pam_consts)

lemma mark_strip [simp]:
  "strip BEGIN_MARK = BEGIN_MARK" "strip WALLET_BEGIN = WALLET_BEGIN" "strip END_MARK = END_MARK"
  by (rule strip_id; simp add: pam_consts is_space_def)+

lemma mark_strip_LF [simp]:
  "strip (BEGIN_MARK @ [LF]) = BEGIN_MARK" "strip (WALLET_BEGIN @ [LF]) = WALLET_BEGIN"
  "strip (END_MARK @ [LF]) = END_MARK"
  by (subst strip_append_LF; simp add: pam_consts is_space_def mark_strip [unfolded pam_consts])+

text \<open>A line that can stand inside a block: no break in it, and not taken for its end.\<close>

definition block_line :: "string \<Rightarrow> bool" where
  "block_line l \<longleftrightarrow> l \<noteq> [] \<and> \<not> is_space (hd l) \<and> hd l \<noteq> CHR ''#'' \<and> (\<forall>c \<in> set l. \<not> is_break c)"

lemma block_line_strip:
  assumes "block_line l"
  shows "strip (l @ [LF]) \<noteq> END_MARK"
proof -
  have "hd (strip (l @ [LF])) \<noteq> CHR ''#''"
    using assms strip_hd [of "l @ [LF]"] by (auto simp: block_line_def)
  then show ?thesis
    by (auto simp: mark_chars)
qed

lemma block_line_consts [simp]:
  "block_line INSERT_LINE" "block_line LOGIN_INSERT_LINE" "block_line WALLET_HOLD_LINE"
  "block_line WALLET_REMEMBER_LINE" "block_line WALLET_RELEASE_LINE"
  by (simp_all add: block_line_def pam_consts is_space_def is_break_def)

lemma mark_no_break: "\<forall>c \<in> set BEGIN_MARK \<union> set WALLET_BEGIN \<union> set END_MARK. \<not> is_break c"
  by (simp add: pam_consts is_break_def)

section \<open>Lemmas: removing what was inserted\<close>

lemma remove_scan_id:
  "\<forall>l \<in> set ls. strip l \<notin> set begins \<Longrightarrow>
   remove_scan begins None (ls @ ms) = ls @ remove_scan begins None ms"
  by (induction ls) auto

lemma remove_scan_block:
  "\<forall>l \<in> set ls. strip l \<noteq> END_MARK \<Longrightarrow>
   remove_scan begins (Some blk) (ls @ (END_MARK @ [LF]) # ms) = remove_scan begins None ms"
  by (induction ls arbitrary: blk) auto

lemma no_mark_lines:
  assumes "\<not> contains text m" and "m \<noteq> []" and "l \<in> set (splitlines_keep text)"
  shows "strip l \<noteq> m"
proof
  assume "strip l = m"
  then have "contains l m"
    using sublist_strip [of l] by simp
  moreover have "contains text l"
    using assms(3) concat_splitlines_keep [of "text"] split_list [of l "splitlines_keep text"]
    by (metis concat.simps(2) concat_append sublist_appendI)
  ultimately show False
    using assms(1) sublist_order.order_trans by blast
qed

lemma remove_block_id:
  assumes "\<forall>m \<in> set begins. m \<noteq> [] \<and> \<not> contains text m"
  shows "remove_block text begins = text"
proof -
  have "\<forall>l \<in> set (splitlines_keep text). strip l \<notin> set begins"
    using assms no_mark_lines by blast
  then have "remove_scan begins None (splitlines_keep text @ []) = splitlines_keep text @ []"
    by (subst remove_scan_id) auto
  then show ?thesis
    by (simp add: remove_block_def)
qed

text \<open>
  The heart of the round trip: a block between two texts that do not carry its mark
  goes without a trace.
\<close>

lemma remove_block_middle:
  assumes m: "m \<noteq> []" "hd m = CHR ''#''" "\<forall>c \<in> set m. \<not> is_break c" "strip (m @ [LF]) = m"
    and a: "\<not> contains a m" "a = [] \<or> is_break (last a)"
    and b: "\<not> contains b m"
    and ls: "\<forall>l \<in> set ls. block_line l"
  shows "remove_block (a @ concat (map (\<lambda>l. l @ [LF]) (m # ls @ [END_MARK])) @ b) [m] = a @ b"
proof -
  let ?block = "map (\<lambda>l. l @ [LF]) (m # ls @ [END_MARK])"
  have nobreak: "\<forall>l \<in> set (m # ls @ [END_MARK]). \<forall>c \<in> set l. \<not> is_break c"
    using m(3) ls mark_no_break by (auto simp: block_line_def)
  have "line_end a (concat ?block @ b)"
    using a(2) m(1,2) by (cases m) (auto simp: line_end_def)
  then have "splitlines_keep (a @ concat ?block @ b) = splitlines_keep a @ ?block @ splitlines_keep b"
    by (simp only: splitlines_keep_append splitlines_keep_concat_lines [OF nobreak])
  moreover have "remove_scan [m] None (splitlines_keep a @ ?block @ splitlines_keep b)
      = splitlines_keep a @ splitlines_keep b"
  proof -
    have A: "\<forall>l \<in> set (splitlines_keep a). strip l \<notin> set [m]"
      and B: "\<forall>l \<in> set (splitlines_keep b). strip l \<notin> set [m]"
      using no_mark_lines [OF a(1) m(1)] no_mark_lines [OF b m(1)] by auto
    have L: "\<forall>l \<in> set (map (\<lambda>l. l @ [LF]) ls). strip l \<noteq> END_MARK"
      using ls block_line_strip by auto
    show ?thesis
      using remove_scan_id [OF A] remove_scan_id [OF B, of "[]"] m(4) remove_scan_block [OF L]
      by (simp del: set_map)
  qed
  ultimately show ?thesis
    by (simp add: remove_block_def)
qed

lemmas remove_begin_middle = remove_block_middle [of BEGIN_MARK]
lemmas remove_wallet_middle = remove_block_middle [of WALLET_BEGIN]

lemma split_auth_Some:
  "split_auth ls = Some (a, b) \<Longrightarrow> ls = a @ b \<and> b \<noteq> [] \<and> is_auth_line (hd b)
     \<and> (\<forall>l \<in> set a. \<not> is_auth_line l)"
  by (induction ls arbitrary: a) (auto split: if_splits)

lemma split_auth_None: "split_auth ls = None \<longleftrightarrow> (\<forall>l \<in> set ls. \<not> is_auth_line l)"
  by (induction ls) auto

lemma split_last_auth_None: "split_last_auth ls = None \<longleftrightarrow> (\<forall>l \<in> set ls. \<not> is_auth_line l)"
  by (induction ls) (auto split: option.splits)

lemma split_last_auth_Some:
  "split_last_auth ls = Some (a, b) \<Longrightarrow> ls = a @ b \<and> a \<noteq> [] \<and> is_auth_line (last a)
     \<and> (\<forall>l \<in> set b. \<not> is_auth_line l)"
proof (induction ls arbitrary: a)
  case (Cons l ls)
  then show ?case
    by (cases "split_last_auth ls") (auto split: if_splits simp: split_last_auth_None)
qed simp

definition with_final_LF :: "string \<Rightarrow> string" where
  "with_final_LF text = (if text = [] \<or> ends_with text [LF] then text else text @ [LF])"

lemma ends_with_LF_iff: "ends_with s [LF] \<longleftrightarrow> s \<noteq> [] \<and> last s = LF"
  by (cases s rule: rev_cases) auto

lemma concat_end_last_line: "concat (end_last_line (splitlines_keep text)) = with_final_LF text"
proof (cases "splitlines_keep text" rule: rev_cases)
  case Nil
  then show ?thesis
    by (simp add: end_last_line_def with_final_LF_def)
next
  case (snoc ls l)
  have l: "l \<noteq> []"
    using snoc by (intro splitlines_keep_nonempty [of l "text"]) simp
  have t: "text = concat ls @ l"
    using arg_cong [OF snoc, of concat] by simp
  show ?thesis
    using snoc l unfolding end_last_line_def with_final_LF_def
    by (auto simp: ends_with_LF_iff t)
qed

lemma contains_with_final_LF:
  "\<not> contains text m \<Longrightarrow> m \<noteq> [] \<Longrightarrow> last m \<noteq> LF \<Longrightarrow> \<not> contains (with_final_LF text) m"
  by (auto simp: with_final_LF_def dest: sublist_snoc)

lemma contains_appendD:
  "\<not> contains (a @ b) m \<Longrightarrow> \<not> contains a m \<and> \<not> contains b m"
  by (meson sublist_append_leftI sublist_append_rightI sublist_order.order_trans)

lemma proper_prefix_line_end:
  assumes "splitlines_keep text = a @ b" and "b \<noteq> []"
  shows "concat a = [] \<or> is_break (last (concat a))"
  using splitlines_keep_take_drop [OF assms(1)] assms(2) by (auto simp: line_end_def)

lemma end_last_line_prefix:
  assumes "end_last_line ls = a @ b" and "b \<noteq> []"
  shows "\<exists>b'. ls = a @ b' \<and> b' \<noteq> []"
proof (cases "ls \<noteq> [] \<and> \<not> ends_with (last ls) [LF]")
  case True
  then have eq: "butlast ls @ [last ls @ [LF]] = a @ b"
    using assms(1) by (simp add: end_last_line_def)
  obtain b0 l where b: "b = b0 @ [l]"
    using assms(2) by (cases b rule: rev_cases) auto
  with eq have "butlast ls = a @ b0"
    by simp
  with True have "ls = a @ b0 @ [last ls]"
    by (metis append.assoc append_butlast_last_id)
  then show ?thesis
    by blast
next
  case False
  then show ?thesis
    using assms by (auto simp: end_last_line_def)
qed

section \<open>Round trips of the blocks\<close>

lemma insert_block_Inr:
  assumes "insert_block text gates line = Inr new" and "\<not> has_block text BEGIN_MARK"
  obtains a b where "with_final_LF text = a @ b" and "a = [] \<or> is_break (last a)"
    and "new = a @ concat (map (\<lambda>l. l @ [LF]) (BEGIN_MARK # (gates @ [line]) @ [END_MARK])) @ b"
proof -
  obtain xs ys where split: "split_auth (end_last_line (splitlines_keep text)) = Some (xs, ys)"
    and new: "new = concat xs @ (BEGIN_MARK @ [LF]) @ concat (map (\<lambda>g. g @ [LF]) gates)
                @ (line @ [LF]) @ (END_MARK @ [LF]) @ concat ys"
    using assms by (auto simp: insert_block_def Let_def split: option.splits)
  note parts = split_auth_Some [OF split]
  obtain ys' where "splitlines_keep text = xs @ ys'" and "ys' \<noteq> []"
    using end_last_line_prefix parts by blast
  then have "concat xs = [] \<or> is_break (last (concat xs))"
    by (rule proper_prefix_line_end)
  moreover have "with_final_LF text = concat xs @ concat ys"
    using parts by (metis concat_append concat_end_last_line)
  ultimately show ?thesis
    using that [of "concat xs" "concat ys"] new by simp
qed

lemma remove_insert_block:
  assumes ins: "insert_block text gates line = Inr new" and new: "\<not> has_block text BEGIN_MARK"
    and gates: "\<forall>g \<in> set gates. block_line g" and line: "block_line line"
  shows "remove_block new [BEGIN_MARK] = with_final_LF text"
proof -
  obtain a b where ab: "with_final_LF text = a @ b" "a = [] \<or> is_break (last a)"
    and n: "new = a @ concat (map (\<lambda>l. l @ [LF]) (BEGIN_MARK # (gates @ [line]) @ [END_MARK])) @ b"
    using insert_block_Inr [OF ins new] .
  have "\<not> contains (a @ b) BEGIN_MARK"
    using new contains_with_final_LF [of BEGIN_MARK "text"] ab(1)
    by (simp add: has_block_def mark_chars)
  then have free: "\<not> contains a BEGIN_MARK" "\<not> contains b BEGIN_MARK"
    by (auto dest: contains_appendD)
  have "remove_block (a @ concat (map (\<lambda>l. l @ [LF]) (BEGIN_MARK # (gates @ [line]) @ [END_MARK])) @ b)
      [BEGIN_MARK] = a @ b"
    using free ab(2) gates line mark_no_break
    by (intro remove_begin_middle) (auto simp: mark_chars)
  then show ?thesis
    by (simp only: n ab(1))
qed

lemma insert_block_has_block:
  assumes "insert_block text gates line = Inr new"
  shows "has_block new BEGIN_MARK"
proof (cases "has_block text BEGIN_MARK")
  case True
  then show ?thesis
    using assms by (simp add: insert_block_def)
next
  case False
  then obtain a b where
    n: "new = a @ concat (map (\<lambda>l. l @ [LF]) (BEGIN_MARK # (gates @ [line]) @ [END_MARK])) @ b"
    using insert_block_Inr [OF assms] by blast
  have "new = a @ BEGIN_MARK @ ([LF] @ concat (map (\<lambda>l. l @ [LF]) ((gates @ [line]) @ [END_MARK])) @ b)"
    by (simp add: n)
  then show ?thesis
    unfolding has_block_def by (metis sublist_appendI)
qed

lemma remove_wallet_release:
  assumes ins: "insert_wallet_release text = Inr new" and new: "\<not> has_block text WALLET_BEGIN"
  shows "remove_block new [WALLET_BEGIN] = text"
proof -
  obtain xs ys where split: "split_auth (splitlines_keep text) = Some (xs, ys)"
    and n: "new = concat xs @ wallet_block WALLET_RELEASE_LINE @ concat ys"
    using ins new by (auto simp: insert_wallet_release_def split: option.splits)
  note parts = split_auth_Some [OF split]
  then have end_xs: "concat xs = [] \<or> is_break (last (concat xs))"
    by (intro proper_prefix_line_end) auto
  have t: "text = concat xs @ concat ys"
    using parts by (metis concat_append concat_splitlines_keep)
  then have free: "\<not> contains (concat xs) WALLET_BEGIN" "\<not> contains (concat ys) WALLET_BEGIN"
    using new by (auto simp: has_block_def dest: contains_appendD)
  have "remove_block (concat xs @ concat (map (\<lambda>l. l @ [LF]) (WALLET_BEGIN # [WALLET_RELEASE_LINE] @ [END_MARK]))
      @ concat ys) [WALLET_BEGIN] = concat xs @ concat ys"
    using free end_xs mark_no_break by (intro remove_wallet_middle) (auto simp: mark_chars)
  then show ?thesis
    by (simp add: n t wallet_block_def)
qed

text \<open>The remember block is written twice: each removal step drops one.\<close>

lemma remove_two_wallet_blocks:
  assumes a: "\<not> contains a WALLET_BEGIN" "a = [] \<or> is_break (last a)"
    and b: "\<not> contains b WALLET_BEGIN" "b = [] \<or> is_break (last b)"
    and l: "block_line l1" "block_line l2"
  shows "remove_block (a @ wallet_block l1 @ b @ wallet_block l2) [WALLET_BEGIN] = a @ b"
proof -
  let ?b1 = "map (\<lambda>l. l @ [LF]) [WALLET_BEGIN, l1, END_MARK]"
  let ?b2 = "map (\<lambda>l. l @ [LF]) [WALLET_BEGIN, l2, END_MARK]"
  have nb1: "\<forall>l \<in> set [WALLET_BEGIN, l1, END_MARK]. \<forall>c \<in> set l. \<not> is_break c"
    and nb2: "\<forall>l \<in> set [WALLET_BEGIN, l2, END_MARK]. \<forall>c \<in> set l. \<not> is_break c"
    using l mark_no_break by (auto simp: block_line_def)
  have e1: "line_end a (concat ?b1 @ b @ concat ?b2)"
    using a(2) mark_chars by (auto simp: line_end_def prefix_def WALLET_BEGIN_def)
  have e2: "line_end b (concat ?b2)"
    using b(2) by (auto simp: line_end_def prefix_def WALLET_BEGIN_def)
  have s2: "splitlines_keep (concat ?b2) = ?b2"
    using splitlines_keep_concat_lines [OF nb2, of "[]"] by simp
  have "splitlines_keep (a @ concat ?b1 @ b @ concat ?b2)
      = splitlines_keep a @ ?b1 @ splitlines_keep b @ ?b2"
    using splitlines_keep_append [OF e1] splitlines_keep_concat_lines [OF nb1, of "b @ concat ?b2"]
      splitlines_keep_append [OF e2] s2 by simp
  moreover have "remove_scan [WALLET_BEGIN] None (splitlines_keep a @ ?b1 @ splitlines_keep b @ ?b2)
      = splitlines_keep a @ splitlines_keep b"
  proof -
    have A: "\<forall>l \<in> set (splitlines_keep a). strip l \<notin> set [WALLET_BEGIN]"
      and B: "\<forall>l \<in> set (splitlines_keep b). strip l \<notin> set [WALLET_BEGIN]"
      using no_mark_lines [OF a(1)] no_mark_lines [OF b(1)] by (auto simp: mark_chars)
    show ?thesis
      using remove_scan_id [OF A] remove_scan_id [OF B] l by (simp add: block_line_strip)
  qed
  ultimately show ?thesis
    by (simp add: remove_block_def wallet_block_def)
qed

lemma remove_wallet_remember:
  assumes ins: "insert_wallet_remember text = Inr new" and new: "\<not> has_block text WALLET_BEGIN"
  shows "remove_block new [WALLET_BEGIN] = with_final_LF text"
proof -
  define t where "t = with_final_LF text"
  have t_eq: "(if text \<noteq> [] \<and> \<not> ends_with text [LF] then text @ [LF] else text) = t"
    by (auto simp: t_def with_final_LF_def)
  obtain xs ys where split: "split_last_auth (splitlines_keep t) = Some (xs, ys)"
    and n: "new = concat xs @ wallet_block WALLET_HOLD_LINE @ concat ys @ wallet_block WALLET_REMEMBER_LINE"
    using ins new by (auto simp: insert_wallet_remember_def Let_def t_eq split: option.splits)
  note parts = split_last_auth_Some [OF split]
  have t: "t = concat xs @ concat ys"
    using parts by (metis concat_append concat_splitlines_keep)
  have free: "\<not> contains (concat xs @ concat ys) WALLET_BEGIN"
    using new contains_with_final_LF [of WALLET_BEGIN "text"] t
    by (simp add: t_def has_block_def mark_chars)
  have t_end: "t = [] \<or> is_break (last t)"
    by (auto simp: t_def with_final_LF_def ends_with_LF_iff)
  have "concat xs = [] \<or> is_break (last (concat xs))"
  proof (cases "ys = []")
    case True
    then show ?thesis
      using t_end t by simp
  next
    case False
    then show ?thesis
      using proper_prefix_line_end parts by blast
  qed
  moreover have "concat ys = [] \<or> is_break (last (concat ys))"
    using t_end t by (cases "concat ys = []") auto
  ultimately have "remove_block new [WALLET_BEGIN] = concat xs @ concat ys"
    using free by (simp add: n) (intro remove_two_wallet_blocks; auto dest: contains_appendD)
  then show ?thesis
    by (simp add: t [symmetric] t_def)
qed

section \<open>Gate lines\<close>

lemma split_ws_props:
  "w \<in> set (split_ws s) \<Longrightarrow> w \<noteq> [] \<and> set w \<subseteq> set s \<and> (\<forall>c \<in> set w. \<not> is_space c)"
proof (induction s rule: split_ws.induct)
  case (1 s)
  show ?case
  proof (cases "dropWhile is_space s")
    case Nil
    then have "split_ws s = []"
      by (subst split_ws.simps) (simp only: list.case)
    then show ?thesis
      using "1.prems" by simp
  next
    case (Cons c cs)
    have c: "\<not> is_space c"
      using Cons by (simp add: dropWhile_eq_Cons_conv)
    have sub: "set (c # cs) \<subseteq> set s"
      unfolding Cons [symmetric] by (auto dest: set_dropWhileD)
    have rest: "set (dropWhile (\<lambda>d. \<not> is_space d) cs) \<subseteq> set s"
      using sub by (auto dest: set_dropWhileD)
    have "split_ws s = (c # takeWhile (\<lambda>d. \<not> is_space d) cs)
        # split_ws (dropWhile (\<lambda>d. \<not> is_space d) cs)"
      using Cons by (subst split_ws.simps) (simp only: list.case)
    then have "w = c # takeWhile (\<lambda>d. \<not> is_space d) cs
        \<or> w \<in> set (split_ws (dropWhile (\<lambda>d. \<not> is_space d) cs))"
      using "1.prems" by simp
    then show ?thesis
    proof
      assume w: "w = c # takeWhile (\<lambda>d. \<not> is_space d) cs"
      have "set w \<subseteq> set (c # cs)"
        by (auto simp: w dest: set_takeWhileD)
      moreover have "\<forall>d \<in> set w. \<not> is_space d"
        using c by (auto simp: w dest: set_takeWhileD)
      moreover have "w \<noteq> []"
        by (simp add: w)
      ultimately show ?thesis
        using sub by blast
    next
      assume "w \<in> set (split_ws (dropWhile (\<lambda>d. \<not> is_space d) cs))"
      from "1.IH" [OF Cons this] rest show ?thesis
        by blast
    qed
  qed
qed

lemma set_join: "set (join sep ws) \<subseteq> set sep \<union> \<Union> (set ` set ws)"
  by (induction sep ws rule: join.induct) auto

lemma gate_line_Some:
  assumes "gate_line l = Some g"
  obtains ctl module args where
    "g = ''-auth'' @ [TAB] @ ctl @ [TAB] @ join '' '' (module # args)"
    "ctl \<in> {''required'', ''requisite''}" "basename module \<in> fst ` set GATES"
    "set (module # args) \<subseteq> set (split_ws l)"
proof -
  let ?p = "split_ws l"
  have len: "\<not> length ?p < 3" and ctl: "?p ! 1 \<in> {''required'', ''requisite''}"
    and name: "map_of GATES (basename (?p ! 2)) \<noteq> None"
    and g: "g = ''-auth'' @ [TAB] @ ?p ! 1 @ [TAB] @ join '' '' (drop 2 ?p)"
    using assms by (auto simp: gate_line_def Let_def split: if_splits option.splits)
  have d: "drop 2 ?p = ?p ! 2 # drop 3 ?p"
    using len by (metis Cons_nth_drop_Suc Suc_1 eval_nat_numeral(3) not_less not_less_eq_eq)
  have "basename (?p ! 2) \<in> fst ` set GATES"
    using name by (metis map_of_eq_None_iff)
  moreover have "set (?p ! 2 # drop 3 ?p) \<subseteq> set ?p"
    using d by (metis set_drop_subset)
  ultimately show ?thesis
    using that [of "?p ! 1" "?p ! 2" "drop 3 ?p"] g d ctl by simp
qed

lemma gate_line_block_line:
  assumes "gate_line l = Some g"
  shows "block_line g"
proof -
  obtain ctl module args where g: "g = ''-auth'' @ [TAB] @ ctl @ [TAB] @ join '' '' (module # args)"
    and ctl: "ctl \<in> {''required'', ''requisite''}" and ws: "set (module # args) \<subseteq> set (split_ws l)"
    using gate_line_Some [OF assms] by blast
  have "\<forall>w \<in> set (module # args). \<forall>c \<in> set w. \<not> is_break c"
    using ws split_ws_props break_is_space by blast
  moreover have "\<not> is_break (CHR '' '')"
    by (simp add: is_break_def)
  ultimately have j: "\<forall>c \<in> set (join '' '' (module # args)). \<not> is_break c"
    using set_join [of "'' ''" "module # args"] by force
  have ctl_nb: "\<forall>c \<in> set ctl. \<not> is_break c"
    using ctl by (auto simp: is_break_def)
  have pre: "\<forall>c \<in> set (''-auth'' @ [TAB]). \<not> is_break c" "\<not> is_break TAB"
    by (simp_all add: is_break_def)
  have "\<forall>c \<in> set g. \<not> is_break c"
    unfolding g using j ctl_nb pre by (simp add: ball_Un del: join.simps)
  moreover have "g \<noteq> []" and "hd g = CHR ''-''"
    by (simp_all add: g)
  moreover have "\<not> is_space (CHR ''-'')"
    by (simp add: is_space_def)
  ultimately show ?thesis
    by (simp add: block_line_def)
qed

section \<open>The stack of our own\<close>

lemma strip_snoc_space:
  assumes "is_space c"
  shows "strip (s @ [c]) = strip s"
proof (cases "\<forall>d \<in> set s. is_space d")
  case True
  then have "lstrip s = []" and "lstrip (s @ [c]) = []"
    using assms by (auto simp: lstrip_def)
  then show ?thesis
    by (simp add: strip_def)
next
  case False
  then have "lstrip (s @ [c]) = lstrip s @ [c]"
    by (auto simp: lstrip_def dropWhile_append)
  then show ?thesis
    using assms by (simp add: strip_def rstrip_append_space)
qed

lemma module_of_strip: "strip p = strip q \<Longrightarrow> module_of p = module_of q"
  by (simp add: module_of_def)

lemma is_auth_line_strip: "strip p = strip q \<Longrightarrow> is_auth_line p = is_auth_line q"
  by (simp add: is_auth_line_def module_of_strip [of p q])

lemma keeps_auth_strip: "strip p = strip q \<Longrightarrow> keeps_auth fp p = keeps_auth fp q"
  by (simp add: keeps_auth_def module_of_strip [of p q])

lemma is_auth_line_blank: "strip p = [] \<Longrightarrow> \<not> is_auth_line p"
  by (simp add: is_auth_line_def module_of_def)

lemma is_auth_line_comment: "starts_with (strip p) ''#'' \<Longrightarrow> \<not> is_auth_line p"
  by (auto simp: is_auth_line_def module_of_def)

text \<open>A line as \<open>splitlines\<close> gives it: no break but the one it ends with.\<close>

definition line_shape :: "string \<Rightarrow> bool" where
  "line_shape l \<longleftrightarrow> (\<exists>x brk. l = x @ brk \<and> (\<forall>c \<in> set x. \<not> is_break c)
     \<and> (brk = [] \<or> brk = [CR, LF] \<or> (\<exists>c. brk = [c] \<and> is_break c)))"

lemma line_shape_Cons: "line_shape l \<Longrightarrow> \<not> is_break c \<Longrightarrow> line_shape (c # l)"
  unfolding line_shape_def by (metis append_Cons set_ConsD)

lemma splitlines_keep_shape: "l \<in> set (splitlines_keep s) \<Longrightarrow> line_shape l"
proof (induction s arbitrary: l rule: splitlines_keep.induct)
  case (2 c cs)
  have unit_shape: "is_break c \<Longrightarrow> line_shape [c]" "\<not> is_break c \<Longrightarrow> line_shape [c]" "line_shape [CR, LF]"
    unfolding line_shape_def
    by (rule exI [of _ "[]"], simp, rule exI [of _ "[c]"], simp, rule exI [of _ "[]"], simp)
  show ?case
    using 2 unit_shape line_shape_Cons by (fastforce split: if_splits list.splits)
qed simp

lemma splitlines_keep_no_break_prefix:
  "\<forall>c \<in> set x. \<not> is_break c \<Longrightarrow>
   splitlines_keep (x @ y) =
     (case splitlines_keep y of [] \<Rightarrow> if x = [] then [] else [x] | m # ms \<Rightarrow> (x @ m) # ms)"
proof (induction x)
  case (Cons c x)
  then have "c \<noteq> CR" and "\<not> is_break c"
    by (auto simp: is_break_def)
  then show ?case
    using Cons by (auto split: list.splits)
qed (auto split: list.splits)

text \<open>A line given a line feed, split again: pieces that read the same, or blank ones.\<close>

definition ended :: "string \<Rightarrow> string" where
  "ended l = (if ends_with l [LF] then l else l @ [LF])"

lemma ended_pieces:
  assumes "line_shape l" and "p \<in> set (splitlines_keep (ended l))"
  shows "strip p = strip l \<or> strip p = []"
proof -
  obtain x brk where l: "l = x @ brk" and x: "\<forall>c \<in> set x. \<not> is_break c"
    and brk: "brk = [] \<or> brk = [CR, LF] \<or> (\<exists>c. brk = [c] \<and> is_break c)"
    using assms(1) by (auto simp: line_shape_def)
  have LFs: "strip [LF] = []"
    using strip_snoc_space [of LF "[]"] by simp
  consider "brk = []" | "brk = [CR, LF]" | "brk = [LF]"
    | c where "brk = [c]" "is_break c" "c \<noteq> LF"
    using brk by auto
  then show ?thesis
  proof cases
    case 1
    then have "\<not> ends_with l [LF]"
      using l x by (metis append.right_neutral ends_with_LF_iff is_break_LF last_in_set)
    then have "ended l = x @ [LF]"
      using 1 l by (simp add: ended_def)
    then have "p = x @ [LF]"
      using assms(2) x by (simp add: splitlines_keep_line)
    then show ?thesis
      using 1 l by (simp add: strip_snoc_space)
  next
    case 2
    then have "ended l = x @ [CR, LF]"
      using l by (simp add: ended_def ends_with_LF_iff)
    then show ?thesis
      using assms(2) l x 2 by (simp add: splitlines_keep_no_break_prefix)
  next
    case 3
    then have "ended l = x @ [LF]"
      using l by (simp add: ended_def ends_with_LF_iff)
    then show ?thesis
      using assms(2) l x 3 by (simp add: splitlines_keep_line)
  next
    case (4 c)
    have e: "ended l = (x @ [c]) @ [LF]"
      using l 4 by (simp add: ended_def ends_with_LF_iff)
    have "splitlines_keep [c, LF] = (if c = CR then [[c, LF]] else [[c], [LF]])"
      using 4 by simp
    then have "p \<in> {x @ [c, LF], x @ [c], [LF]}"
      using assms(2) splitlines_keep_no_break_prefix [OF x, of "[c, LF]"]
      by (cases "c = CR") (simp_all add: e del: splitlines_keep.simps)
    moreover have "strip ((x @ [c]) @ [LF]) = strip (x @ [c])"
      by (rule strip_snoc_space) simp
    ultimately show ?thesis
      using LFs l 4 by auto
  qed
qed

lemma ended_strip: "strip (ended l) = strip l"
  by (simp add: ended_def strip_snoc_space)

lemma splitlines_keep_concat_ended:
  "\<forall>l \<in> set ls. ends_with l [LF] \<Longrightarrow> splitlines_keep (concat ls) = concat (map splitlines_keep ls)"
proof (induction ls)
  case (Cons l ls)
  then obtain m where "l = m @ [LF]"
    by (auto simp: suffix_def)
  then have "line_end l (concat ls)"
    by simp
  then show ?case
    using Cons by (simp add: splitlines_keep_append)
qed simp

lemma own_line_props:
  "ends_with (OWN_STACK_LINE @ [LF]) [LF]" "strip (OWN_STACK_LINE @ [LF]) = OWN_STACK_LINE"
  "splitlines_keep (OWN_STACK_LINE @ [LF]) = [OWN_STACK_LINE @ [LF]]"
proof -
  show "ends_with (OWN_STACK_LINE @ [LF]) [LF]"
    by simp
  have "strip OWN_STACK_LINE = OWN_STACK_LINE"
    by (rule strip_id) (simp add: pam_consts is_space_def)
  then show "strip (OWN_STACK_LINE @ [LF]) = OWN_STACK_LINE"
    by (simp add: strip_snoc_space)
  show "splitlines_keep (OWN_STACK_LINE @ [LF]) = [OWN_STACK_LINE @ [LF]]"
    by (rule splitlines_keep_line) (simp add: pam_consts is_break_def)
qed

text \<open>What the body of our stack holds, line by line.\<close>

definition own_body_ok :: "bool \<Rightarrow> string \<Rightarrow> bool" where
  "own_body_ok fp b \<longleftrightarrow> ends_with b [LF]
     \<and> (\<forall>p \<in> set (splitlines_keep b). is_auth_line p \<longrightarrow> strip p = OWN_STACK_LINE \<or> keeps_auth fp p)"

lemma own_body_ok_ended:
  assumes "line_shape l" and "\<not> is_auth_line (ended l) \<or> keeps_auth fp (ended l)"
  shows "own_body_ok fp (ended l)"
  unfolding own_body_ok_def
proof (intro conjI ballI impI)
  show "ends_with (ended l) [LF]"
    by (simp add: ended_def)
  fix p assume p: "p \<in> set (splitlines_keep (ended l))" and auth: "is_auth_line p"
  then have "strip p = strip (ended l)"
    using ended_pieces [OF assms(1) p] is_auth_line_blank by (auto simp: ended_strip)
  then show "strip p = OWN_STACK_LINE \<or> keeps_auth fp p"
    using assms(2) auth is_auth_line_strip keeps_auth_strip by blast
qed

lemma own_stack_scan_body:
  assumes "own_stack_scan fp placed ls = (body, p)" and "\<forall>l \<in> set ls. line_shape l"
  shows "(\<forall>b \<in> set body. own_body_ok fp b) \<and> (p \<longrightarrow> placed \<or> OWN_STACK_LINE @ [LF] \<in> set body)"
  using assms
proof (induction fp placed ls arbitrary: body p rule: own_stack_scan.induct)
  case (2 fp placed l ls)
  have own: "own_body_ok fp (OWN_STACK_LINE @ [LF])"
    using own_line_props by (simp add: own_body_ok_def)
  have e: "(if ends_with l [LF] then l else l @ [LF]) = ended l"
    by (simp add: ended_def)
  have l: "line_shape l"
    using "2.prems"(2) by simp
  show ?case
    using 2 own own_body_ok_ended [OF l] unfolding own_stack_scan.simps Let_def e
    by (fastforce split: if_splits prod.splits)
qed simp

section \<open>Properties of the text level\<close>

lemma own_header_pieces:
  assumes "p \<in> set (splitlines_keep (concat own_stack_header))"
  shows "\<not> is_auth_line p"
proof -
  have "splitlines_keep (concat own_stack_header) = own_stack_header"
    by code_simp
  then have "p \<in> set own_stack_header"
    using assms by simp
  moreover have "list_all (\<lambda>p. starts_with (strip p) ''#'') own_stack_header"
    by code_simp
  ultimately show ?thesis
    using is_auth_line_comment by (auto simp: list_all_iff)
qed

text \<open>
  The service file built for the lock screen asks for the face: every auth line in it
  is our module's (which fails the stack on anything but a match) or a line of the
  fingerprint stack naming a module file other than the fingerprint and the permit
  modules; ours is there; and the file opens with the header by which it is recognised
  and deleted as a whole.
\<close>

theorem build_own_stack_auth_lines:
  assumes "build_own_stack source_text fp = Inr text"
  shows "(\<exists>p \<in> set (splitlines_keep text). strip p = OWN_STACK_LINE)
    \<and> (\<forall>p \<in> set (splitlines_keep text). is_auth_line p \<longrightarrow> strip p = OWN_STACK_LINE \<or> keeps_auth fp p)
    \<and> starts_with text OWN_HEADER"
proof -
  obtain body where scan: "own_stack_scan fp False (splitlines_keep source_text) = (body, True)"
    and t: "text = concat own_stack_header @ concat body"
    using assms by (auto simp: build_own_stack_def split: prod.splits if_splits)
  have ok: "\<forall>b \<in> set body. own_body_ok fp b" and own: "OWN_STACK_LINE @ [LF] \<in> set body"
    using own_stack_scan_body [OF scan] splitlines_keep_shape by blast+
  have "line_end (concat own_stack_header) (concat body)"
    by (simp add: own_stack_header_def line_end_def)
  moreover have "splitlines_keep (concat body) = concat (map splitlines_keep body)"
    using ok by (intro splitlines_keep_concat_ended) (auto simp: own_body_ok_def)
  ultimately have lines: "splitlines_keep text
      = splitlines_keep (concat own_stack_header) @ concat (map splitlines_keep body)"
    by (simp add: t splitlines_keep_append)
  have "OWN_STACK_LINE @ [LF] \<in> set (splitlines_keep text)"
    using own own_line_props(3) by (fastforce simp: lines)
  then have "\<exists>p \<in> set (splitlines_keep text). strip p = OWN_STACK_LINE"
    using own_line_props(2) by blast
  moreover have "\<forall>p \<in> set (splitlines_keep text). is_auth_line p \<longrightarrow> strip p = OWN_STACK_LINE \<or> keeps_auth fp p"
    using ok own_header_pieces by (auto simp: lines own_body_ok_def)
  moreover have "starts_with text OWN_HEADER"
    by (simp add: t own_stack_header_def OWN_HEADER_def)
  ultimately show ?thesis
    by blast
qed

theorem build_own_stack_auth_lines_witness:
  "\<exists>text. build_own_stack (''auth required pam_nologin.so'' @ [LF] @ ''auth required pam_fprintd.so'') True
      = Inr text \<and> starts_with text OWN_HEADER"
proof -
  have "isl (build_own_stack (''auth required pam_nologin.so'' @ [LF] @ ''auth required pam_fprintd.so'') True)
      = False"
    by code_simp
  then obtain t where t: "build_own_stack
      (''auth required pam_nologin.so'' @ [LF] @ ''auth required pam_fprintd.so'') True = Inr t"
    by (cases "build_own_stack (''auth required pam_nologin.so'' @ [LF] @ ''auth required pam_fprintd.so'') True") auto
  show ?thesis
    using build_own_stack_auth_lines [OF t] t by blast
qed

text \<open>
  What the own stack keeps of a fingerprint stack is decided by the module's name
  alone, whatever its control says: a \<open>sufficient\<close> line of another module stays in front
  of ours and can grant access without a face match.
\<close>

theorem own_stack_keeps_sufficient:
  "build_own_stack (''auth sufficient pam_u2f.so'' @ [LF] @ ''auth required pam_fprintd.so'' @ [LF]) True
   = Inr (concat own_stack_header @ ''auth sufficient pam_u2f.so'' @ [LF] @ OWN_STACK_LINE @ [LF])"
  by code_simp

text \<open>
  Taking out the marked block gives back the text it was put into, up to a final line
  feed that was missing, whatever checks were copied into the block.
\<close>

theorem insert_remove_block:
  assumes "insert_block text (List.map_filter gate_line checks) line = Inr new"
    and "\<not> has_block text BEGIN_MARK" and "line \<in> {INSERT_LINE, LOGIN_INSERT_LINE}"
  shows "remove_block new [BEGIN_MARK] = with_final_LF text"
proof (rule remove_insert_block [OF assms(1,2)])
  show "\<forall>g \<in> set (List.map_filter gate_line checks). block_line g"
    using gate_line_block_line by (auto simp: List.map_filter_def)
  show "block_line line"
    using assms(3) by auto
qed

theorem insert_remove_block_witness:
  "\<exists>new. insert_block (''#%PAM-1.0'' @ [LF] @ ''auth include system-auth'' @ [LF])
      (List.map_filter gate_line [''auth required pam_faillock.so preauth'']) INSERT_LINE = Inr new
    \<and> remove_block new [BEGIN_MARK] = ''#%PAM-1.0'' @ [LF] @ ''auth include system-auth'' @ [LF]"
proof -
  let ?t = "''#%PAM-1.0'' @ [LF] @ ''auth include system-auth'' @ [LF]"
  let ?i = "insert_block ?t (List.map_filter gate_line [''auth required pam_faillock.so preauth'']) INSERT_LINE"
  have "isl ?i = False"
    by code_simp
  then obtain new where new: "?i = Inr new"
    by (cases ?i) auto
  have "\<not> has_block ?t BEGIN_MARK" and "with_final_LF ?t = ?t"
    by code_simp+
  then show ?thesis
    using insert_remove_block [OF new] new by auto
qed

end
