(* ===== verification/Pam_System.thy ===== *)
theory Pam_System
  imports Pam_Text
begin

text \<open>
  \<^verbatim>\<open>integration/pam.py\<close>, class \<open>PamIntegration\<close>: the files it reads and writes below
  its root, the manifest, and the operations on targets (plan, enable, disable, reset,
  refresh).

  The world holds the regular files by path (a file's content as text before newline
  translation, whether it decodes as UTF-8, and its mode), the paths that cannot be
  written or removed, and the decoded manifest file. JSON is taken at its value: what
  \<open>json.dumps\<close> writes, \<open>json.load\<close> reads back, with sorted keys. The hash function is a
  parameter \<open>sha\<close>.
\<close>

section \<open>The world\<close>

record pfile =
  raw :: string
  utf8 :: bool
  fmode :: nat

record mentry =
  m_action :: "string option"
  m_target :: string
  m_sha :: "string option"
  m_sep :: "string option"

type_synonym manifest = "(string \<times> mentry) list"

datatype state_file = NoState | CorruptState | SavedState manifest

record pworld =
  pfiles :: "(string \<times> pfile) list"
  readonly :: "string \<Rightarrow> bool"
  stored_state :: state_file

definition isfile :: "pworld \<Rightarrow> string \<Rightarrow> bool" where
  "isfile w path = (map_of (pfiles w) path \<noteq> None)"

definition read_text :: "pworld \<Rightarrow> string \<Rightarrow> pam_error + string" where
  "read_text w path =
     (case map_of (pfiles w) path of
        None \<Rightarrow> Inl OSError
      | Some f \<Rightarrow> if utf8 f then Inr (universal_newlines (raw f)) else Inl UnicodeDecodeError)"

definition write_text :: "string \<Rightarrow> string \<Rightarrow> nat \<Rightarrow> pworld \<Rightarrow> (pam_error + unit) \<times> pworld" where
  "write_text path text mode0 w =
     (if readonly w path then (Inl OSError, w)
      else
        let mode = (case map_of (pfiles w) path of Some f \<Rightarrow> fmode f mod 0x1000 | None \<Rightarrow> mode0)
        in (Inr (), w\<lparr>pfiles := AList.update path \<lparr>raw = text, utf8 = True, fmode = mode\<rparr> (pfiles w)\<rparr>))"

definition remove_file :: "string \<Rightarrow> pworld \<Rightarrow> (pam_error + unit) \<times> pworld" where
  "remove_file path w =
     (if readonly w path \<or> \<not> isfile w path then (Inl OSError, w)
      else (Inr (), w\<lparr>pfiles := AList.delete path (pfiles w)\<rparr>))"

section \<open>Paths\<close>

definition ETC_DIR :: string where "ETC_DIR = ''etc/pam.d''"
definition VENDOR_DIRS :: "string list" where "VENDOR_DIRS = [''usr/lib/pam.d'', ''usr/etc/pam.d'']"
definition KSCREENLOCKER_CONFIG :: string where "KSCREENLOCKER_CONFIG = ''etc/xdg/kscreenlockerrc''"
definition KSCREENLOCKER_BLOCK :: "string list" where
  "KSCREENLOCKER_BLOCK = [BEGIN_MARK, ''[Authenticators]'', ''Face=true'', END_MARK]"
definition LOGIN_MANAGER :: string where "LOGIN_MANAGER = ''usr/bin/plasmalogin''"
definition AUTOLOGIN_MAIN :: string where "AUTOLOGIN_MAIN = ''etc/plasmalogin.conf''"
definition AUTOLOGIN_FILE :: string where "AUTOLOGIN_FILE = ''etc/plasmalogin.conf.d/linux-hello.conf''"
definition AUTOLOGIN_HEADER :: string where "AUTOLOGIN_HEADER = ''# Created by linux-hello''"
definition WAYLAND_SESSION :: string where "WAYLAND_SESSION = ''usr/share/wayland-sessions/plasma.desktop''"
definition STATE_FILE :: string where "STATE_FILE = ''var/lib/linux-hello/pam-state.json''"

definition KSCREENLOCKER_GREETERS :: "string list" where
  "KSCREENLOCKER_GREETERS =
     [''usr/lib/kscreenlocker_greet'',
      ''usr/libexec/kscreenlocker_greet'',
      ''usr/lib/x86_64-linux-gnu/libexec/kscreenlocker_greet'',
      ''usr/lib/aarch64-linux-gnu/libexec/kscreenlocker_greet'',
      ''usr/lib64/libexec/kscreenlocker_greet'']"

definition MAX_INCLUDE_DEPTH :: nat where "MAX_INCLUDE_DEPTH = 8"

definition TARGET_IDS :: "string list" where
  "TARGET_IDS = [''lock-screen'', ''admin'', ''sudo'', ''login'', ''auto-login'']"

definition etc_path :: "string \<Rightarrow> string \<Rightarrow> string" where
  "etc_path root service = path_join root (path_join ETC_DIR service)"

definition vendor_path :: "pworld \<Rightarrow> string \<Rightarrow> string \<Rightarrow> string option" where
  "vendor_path w root service =
     List.find (isfile w) (map (\<lambda>d. path_join root (path_join d service)) VENDOR_DIRS)"

text \<open>Path of the file PAM uses for a service.\<close>

definition find_service :: "pworld \<Rightarrow> string \<Rightarrow> string \<Rightarrow> string option" where
  "find_service w root service =
     (if isfile w (etc_path root service) then Some (etc_path root service)
      else vendor_path w root service)"

section \<open>The manifest\<close>

definition load_state :: "pworld \<Rightarrow> pam_error + manifest" where
  "load_state w =
     (case stored_state w of
        NoState \<Rightarrow> Inr []
      | CorruptState \<Rightarrow> Inl (PamError ''corrupt state file'')
      | SavedState m \<Rightarrow> Inr m)"

definition save_state :: "string \<Rightarrow> manifest \<Rightarrow> pworld \<Rightarrow> (pam_error + unit) \<times> pworld" where
  "save_state root m w =
     (if readonly w (path_join root STATE_FILE) then (Inl OSError, w)
      else (Inr (), w\<lparr>stored_state := SavedState (sort_key fst m)\<rparr>))"

section \<open>Which files a target means\<close>

datatype kind = Own | KdeConfig | Autologin | WalletRelease | WalletRemember | Insert

definition is_wallet :: "kind \<Rightarrow> bool" where
  "is_wallet k = (k = WalletRelease \<or> k = WalletRemember)"

definition kde_face_supported :: "pworld \<Rightarrow> string \<Rightarrow> bool" where
  "kde_face_supported w root =
     list_ex (\<lambda>g. case map_of (pfiles w) (path_join root g) of
                    None \<Rightarrow> False
                  | Some f \<Rightarrow> contains (raw f) (''kde-face'' @ [CHR 0x00])) KSCREENLOCKER_GREETERS"

definition includes_line :: "string \<Rightarrow> string \<Rightarrow> bool" where
  "includes_line other line =
     (let parts = split_ws line in
      length parts \<ge> 3 \<and> lstrip_char (CHR ''-'') (hd parts) = ''auth''
      \<and> parts ! 1 \<in> {''include'', ''substack''} \<and> parts ! 2 = other)"

definition includes_service :: "pworld \<Rightarrow> string \<Rightarrow> string \<Rightarrow> string \<Rightarrow> pam_error + bool" where
  "includes_service w root service other =
     (case find_service w root service of
        None \<Rightarrow> Inr False
      | Some path \<Rightarrow>
          (case read_text w path of
             Inl OSError \<Rightarrow> Inr False
           | Inl e \<Rightarrow> Inl e
           | Inr text \<Rightarrow> Inr (list_ex (includes_line other) (splitlines text))))"

definition plan :: "pworld \<Rightarrow> string \<Rightarrow> string \<Rightarrow> pam_error + (string \<times> kind) list" where
  "plan w root target =
     (let found = (\<lambda>s. find_service w root s \<noteq> None) in
      if target = ''lock-screen'' then
        Inr (if kde_face_supported w root \<and> (found ''kde-fingerprint'' \<or> found ''kde'')
             then [(''kde-face'', Own), (''kscreenlockerrc'', KdeConfig)]
             else if found ''kde'' then [(''kde'', Insert)] else [])
      else if target = ''admin'' then
        Inr (if found ''polkit-1'' then [(''polkit-1'', Insert)] else [])
      else if target = ''sudo'' then
        (let base = (if found ''sudo'' then [(''sudo'', Insert)] else []) in
         if \<not> found ''sudo-i'' then Inr base
         else if base = [] then Inr [(''sudo-i'', Insert)]
         else rbind (includes_service w root ''sudo-i'' ''sudo'')
                (\<lambda>inc. Inr (if inc then base else base @ [(''sudo-i'', Insert)])))
      else if target = ''login'' then
        Inr (if found ''plasmalogin'' then [(''plasmalogin'', Insert)]
             else if found ''sddm'' then [(''sddm'', Insert)] else [])
      else if target = ''auto-login'' then
        Inr (if isfile w (path_join root LOGIN_MANAGER) \<and> found ''plasmalogin'' \<and> found ''plasmalogin-autologin''
             then [(''plasmalogin-autologin'', WalletRelease), (''plasmalogin'', WalletRemember),
                   (''plasmalogin.conf.d'', Autologin)]
             else [])
      else Inl (PamError (''unknown target '' @ target)))"

definition kind_path :: "string \<Rightarrow> string \<Rightarrow> kind \<Rightarrow> string" where
  "kind_path root service k =
     (case k of
        KdeConfig \<Rightarrow> path_join root KSCREENLOCKER_CONFIG
      | Autologin \<Rightarrow> path_join root AUTOLOGIN_FILE
      | _ \<Rightarrow> etc_path root service)"

section \<open>Checks of a service's whole auth stack\<close>

definition included_service :: "string list \<Rightarrow> string option" where
  "included_service parts =
     (if hd parts = ''@include'' \<and> length parts > 1 then Some (parts ! 1)
      else if length parts \<ge> 3 \<and> lstrip_char (CHR ''-'') (hd parts) = ''auth''
              \<and> parts ! 1 \<in> {''include'', ''substack''} then Some (parts ! 2)
      else None)"

text \<open>
  The generator \<open>_auth_lines\<close> as a list with the paths seen so far; \<open>n\<close> is how much
  deeper includes may go.
\<close>

function auth_scan :: "pworld \<Rightarrow> string \<Rightarrow> nat \<Rightarrow> string list \<Rightarrow> string list \<Rightarrow> string list \<times> string list" where
  "auth_scan w root n seen [] = ([], seen)"
| "auth_scan w root n seen (l # ls) =
     (let parts = split_ws l in
      if parts = [] \<or> starts_with (hd parts) ''#'' then auth_scan w root n seen ls
      else (case included_service parts of
              None \<Rightarrow>
                if lstrip_char (CHR ''-'') (hd parts) = ''auth'' then
                  (let (ys, seen') = auth_scan w root n seen ls in (l # ys, seen'))
                else auth_scan w root n seen ls
            | Some inc \<Rightarrow>
                (case find_service w root inc of
                   None \<Rightarrow> auth_scan w root n seen ls
                 | Some path \<Rightarrow>
                     if path \<in> set seen \<or> n = 0 then auth_scan w root n seen ls
                     else (case read_text w path of
                             Inl _ \<Rightarrow> auth_scan w root n (path # seen) ls
                           | Inr text \<Rightarrow>
                               (let (xs, seen1) = auth_scan w root (n - 1) (path # seen) (splitlines text);
                                    (ys, seen2) = auth_scan w root n seen1 ls
                                in (xs @ ys, seen2))))))"
  by pat_completeness auto
termination
  by (relation "measures [\<lambda>(w, root, n, seen, ls). n, \<lambda>(w, root, n, seen, ls). length ls]") auto

definition auth_lines :: "pworld \<Rightarrow> string \<Rightarrow> string \<Rightarrow> string list" where
  "auth_lines w root text = fst (auth_scan w root MAX_INCLUDE_DEPTH [] (splitlines text))"

definition gates :: "pworld \<Rightarrow> string \<Rightarrow> string \<Rightarrow> string list" where
  "gates w root text =
     fold (\<lambda>l gs. case gate_line l of
                    None \<Rightarrow> gs
                  | Some g \<Rightarrow> if g \<in> set gs then gs else gs @ [g])
       (auth_lines w root (remove_block text BEGINS)) []"

section \<open>Logging in automatically\<close>

definition autologin_user :: "pworld \<Rightarrow> string \<Rightarrow> pam_error + string option" where
  "autologin_user w root =
     (let path = path_join root AUTOLOGIN_FILE in
      if \<not> isfile w path then Inr None
      else rbind (read_text w path)
             (\<lambda>text. Inr (case map_of (ini_group text ''Autologin'') ''User'' of
                            None \<Rightarrow> None
                          | Some u \<Rightarrow> if u = [] then None else Some u)))"

definition name_start :: "char \<Rightarrow> bool" where
  "name_start c \<longleftrightarrow> (CHR ''A'' \<le> c \<and> c \<le> CHR ''Z'') \<or> (CHR ''a'' \<le> c \<and> c \<le> CHR ''z'') \<or> c = CHR ''_''"

definition name_char :: "char \<Rightarrow> bool" where
  "name_char c \<longleftrightarrow> name_start c \<or> (CHR ''0'' \<le> c \<and> c \<le> CHR ''9'') \<or> c \<in> set ''.@-''"

text \<open>\<open>USER_NAME.fullmatch\<close>.\<close>

definition user_name_ok :: "string \<Rightarrow> bool" where
  "user_name_ok u = (case u of [] \<Rightarrow> False | c # cs \<Rightarrow> name_start c \<and> list_all name_char cs)"

fun forget_scan :: "string \<Rightarrow> string option \<Rightarrow> string list \<Rightarrow> string list" where
  "forget_scan user grp [] = []"
| "forget_scan user grp (l # ls) =
     (let s = strip l in
      if starts_with s ''['' \<and> ends_with s '']'' then
        l # forget_scan user (Some (take (length s - 2) (drop 1 s))) ls
      else if grp = Some ''Autologin'' \<and> contains s ''='' \<and> \<not> starts_with s ''#''
              \<and> strip (fst (split1 (CHR ''='') s)) = ''User'' \<and> strip (snd (split1 (CHR ''='') s)) = user
      then forget_scan user grp ls
      else l # forget_scan user grp ls)"

definition forget_main_autologin :: "string \<Rightarrow> string option \<Rightarrow> pworld \<Rightarrow> (pam_error + unit) \<times> pworld" where
  "forget_main_autologin root user w =
     (let main = path_join root AUTOLOGIN_MAIN in
      case user of
        None \<Rightarrow> (Inr (), w)
      | Some u \<Rightarrow>
          if u = [] \<or> \<not> isfile w main then (Inr (), w)
          else (case read_text w main of
                  Inl e \<Rightarrow> (Inl e, w)
                | Inr text \<Rightarrow>
                    let out = concat (forget_scan u None (splitlines_keep text))
                    in if out \<noteq> text then write_text main out 420 w else (Inr (), w)))"

section \<open>Enabling\<close>

definition has_any_block :: "string \<Rightarrow> bool" where
  "has_any_block text = list_ex (has_block text) BEGINS"

text \<open>How the file came to be: from the manifest while one of our blocks is in it.\<close>

definition file_action :: "string \<Rightarrow> string \<Rightarrow> string \<Rightarrow> manifest \<Rightarrow> string" where
  "file_action path text action m =
     (case map_of m path of
        Some e \<Rightarrow> if has_any_block text then (case m_action e of Some a \<Rightarrow> a | None \<Rightarrow> action) else action
      | None \<Rightarrow> action)"

text \<open>The text a service has now, and whether it is the administrator's file or the vendor's.\<close>

definition service_source :: "pworld \<Rightarrow> string \<Rightarrow> string \<Rightarrow> pam_error + (string \<times> string)" where
  "service_source w root service =
     (if isfile w (etc_path root service)
      then rbind (read_text w (etc_path root service)) (\<lambda>text. Inr (text, ''inserted''))
      else case vendor_path w root service of
             None \<Rightarrow> Inl (PamError (''PAM service '' @ service @ '' not found''))
           | Some v \<Rightarrow> rbind (read_text w v) (\<lambda>text. Inr (text, ''copied'')))"

type_synonym pstate = "pworld \<times> manifest"

text \<open>Write a file and record it.\<close>

definition write_recorded ::
  "(string \<Rightarrow> string) \<Rightarrow> string \<Rightarrow> string \<Rightarrow> string \<Rightarrow> string \<Rightarrow> string option \<Rightarrow> pstate
    \<Rightarrow> (pam_error + unit) \<times> pstate" where
  "write_recorded sha path text action target sep s =
     (case write_text path text 420 (fst s) of
        (Inl e, w) \<Rightarrow> (Inl e, w, snd s)
      | (Inr _, w) \<Rightarrow>
          (Inr (), w, AList.update path
             \<lparr>m_action = Some action, m_target = target, m_sha = Some (sha text), m_sep = sep\<rparr> (snd s)))"

definition enable_insert ::
  "(string \<Rightarrow> string) \<Rightarrow> string \<Rightarrow> string \<Rightarrow> string \<Rightarrow> pstate \<Rightarrow> (pam_error + unit) \<times> pstate" where
  "enable_insert sha root service target s =
     (let w = fst s; path = etc_path root service;
          line = (if service \<in> set PASSWORD_FIRST_SERVICES then LOGIN_INSERT_LINE else INSERT_LINE) in
      case service_source w root service of
        Inl e \<Rightarrow> (Inl e, s)
      | Inr (text, action) \<Rightarrow>
          (case insert_block (remove_block text [BEGIN_MARK]) (gates w root text) line of
             Inl e \<Rightarrow> (Inl e, s)
           | Inr new_text \<Rightarrow>
               if new_text = text then (Inr (), s)
               else write_recorded sha path new_text (file_action path text action (snd s)) target None s))"

definition enable_wallet ::
  "(string \<Rightarrow> string) \<Rightarrow> string \<Rightarrow> string \<Rightarrow> kind \<Rightarrow> string \<Rightarrow> pstate \<Rightarrow> (pam_error + unit) \<times> pstate" where
  "enable_wallet sha root service k target s =
     (let w = fst s; path = etc_path root service in
      case service_source w root service of
        Inl e \<Rightarrow> (Inl e, s)
      | Inr (text, action) \<Rightarrow>
          (let clean = remove_block text [WALLET_BEGIN] in
           case (if k = WalletRelease then insert_wallet_release clean else insert_wallet_remember clean) of
             Inl e \<Rightarrow> (Inl e, s)
           | Inr new_text \<Rightarrow>
               if new_text = text then (Inr (), s)
               else write_recorded sha path new_text (file_action path text action (snd s)) target None s))"

text \<open>Write a whole file of ours unless it has that text already, and record it either way.\<close>

definition write_own_file ::
  "(string \<Rightarrow> string) \<Rightarrow> string \<Rightarrow> string \<Rightarrow> string \<Rightarrow> pstate \<Rightarrow> (pam_error + unit) \<times> pstate" where
  "write_own_file sha path text target s =
     (let entry = \<lparr>m_action = Some ''created'', m_target = target, m_sha = Some (sha text), m_sep = None\<rparr> in
      if isfile (fst s) path then
        (case read_text (fst s) path of
           Inl e \<Rightarrow> (Inl e, s)
         | Inr old \<Rightarrow>
             if old = text then (Inr (), fst s, AList.update path entry (snd s))
             else write_recorded sha path text ''created'' target None s)
      else write_recorded sha path text ''created'' target None s)"

definition enable_own ::
  "(string \<Rightarrow> string) \<Rightarrow> string \<Rightarrow> string \<Rightarrow> string \<Rightarrow> pstate \<Rightarrow> (pam_error + unit) \<times> pstate" where
  "enable_own sha root service target s =
     (let w = fst s; path = etc_path root service;
          mine = (if isfile w path then rbind (read_text w path) (\<lambda>t. Inr (starts_with t OWN_HEADER)) else Inr True) in
      case mine of
        Inl e \<Rightarrow> (Inl e, s)
      | Inr False \<Rightarrow> (Inl (PamError (path @ '' exists and was not created by linux-hello'')), s)
      | Inr True \<Rightarrow>
          (let fp = find_service w root ''kde-fingerprint'';
               source = (case fp of Some p \<Rightarrow> Some p | None \<Rightarrow> find_service w root ''kde'') in
           case source of
             None \<Rightarrow> (Inl TypeError, s)
           | Some p \<Rightarrow>
               (case rbind (read_text w p) (\<lambda>t. build_own_stack t (fp \<noteq> None)) of
                  Inl e \<Rightarrow> (Inl e, s)
                | Inr text \<Rightarrow> write_own_file sha path text target s)))"

definition enable_kde_config ::
  "(string \<Rightarrow> string) \<Rightarrow> string \<Rightarrow> string \<Rightarrow> pstate \<Rightarrow> (pam_error + unit) \<times> pstate" where
  "enable_kde_config sha root target s =
     (let w = fst s; path = path_join root KSCREENLOCKER_CONFIG;
          block = join [LF] KSCREENLOCKER_BLOCK @ [LF] in
      if isfile w path then
        (case read_text w path of
           Inl e \<Rightarrow> (Inl e, s)
         | Inr text \<Rightarrow>
             if has_block text BEGIN_MARK then (Inr (), s)
             else
               let sep = (if text = [] \<or> ends_with text [LF, LF] then []
                          else if ends_with text [LF] then [LF] else [LF, LF])
               in write_recorded sha path (text @ sep @ block) ''inserted'' target (Some sep) s)
      else write_recorded sha path block ''created'' target None s)"

definition autologin_text :: "string \<Rightarrow> bool \<Rightarrow> string" where
  "autologin_text user wayland =
     join [LF]
       ([AUTOLOGIN_HEADER @ '': log in automatically, then lock the screen.'',
         ''# Removed again by '' @ [CHR 0x27] @ ''linux-hello-cli disable auto-login'' @ [CHR 0x27] @ ''.'',
         ''[Autologin]'',
         ''User='' @ user]
        @ (if wayland then [''Session=plasma''] else [])) @ [LF]"

definition enable_autologin ::
  "(string \<Rightarrow> string) \<Rightarrow> string \<Rightarrow> string \<Rightarrow> string option \<Rightarrow> pstate \<Rightarrow> (pam_error + unit) \<times> pstate" where
  "enable_autologin sha root target user0 s =
     (let w = fst s; main = path_join root AUTOLOGIN_MAIN;
          who = (if user0 \<noteq> None \<and> user0 \<noteq> Some [] then Inr user0 else autologin_user w root) in
      case who of
        Inl e \<Rightarrow> (Inl e, s)
      | Inr None \<Rightarrow> (Inl (PamError ''auto-login needs a regular user''), s)
      | Inr (Some user) \<Rightarrow>
          if user = [] \<or> user = ''root'' \<or> \<not> user_name_ok user then
            (Inl (PamError ''auto-login needs a regular user''), s)
          else
            (let named = (if isfile w main
                          then rbind (read_text w main) (\<lambda>t. Inr (map_of (ini_group t ''Autologin'') ''User''))
                          else Inr None) in
             case named of
               Inl e \<Rightarrow> (Inl e, s)
             | Inr n \<Rightarrow>
                 if n \<noteq> None \<and> n \<noteq> Some user then
                   (Inl (PamError (main @ '' sets the user to log in automatically; change it in the Login Screen settings'')), s)
                 else write_own_file sha (path_join root AUTOLOGIN_FILE)
                        (autologin_text user (isfile w (path_join root WAYLAND_SESSION))) target s))"

definition enable_step ::
  "(string \<Rightarrow> string) \<Rightarrow> string \<Rightarrow> string \<Rightarrow> string option \<Rightarrow> string \<times> kind \<Rightarrow> pstate
    \<Rightarrow> (pam_error + unit) \<times> pstate" where
  "enable_step sha root target user sk s =
     (case snd sk of
        Own \<Rightarrow> enable_own sha root (fst sk) target s
      | KdeConfig \<Rightarrow> enable_kde_config sha root target s
      | Autologin \<Rightarrow> enable_autologin sha root target user s
      | WalletRelease \<Rightarrow> enable_wallet sha root (fst sk) WalletRelease target s
      | WalletRemember \<Rightarrow> enable_wallet sha root (fst sk) WalletRemember target s
      | Insert \<Rightarrow> enable_insert sha root (fst sk) target s)"

fun enable_steps ::
  "(string \<Rightarrow> string) \<Rightarrow> string \<Rightarrow> string \<Rightarrow> string option \<Rightarrow> (string \<times> kind) list \<Rightarrow> pstate
    \<Rightarrow> (pam_error + unit) \<times> pstate" where
  "enable_steps sha root target user [] s = (Inr (), s)"
| "enable_steps sha root target user (sk # sks) s =
     (case enable_step sha root target user sk s of
        (Inl e, s') \<Rightarrow> (Inl e, s')
      | (Inr _, s') \<Rightarrow> enable_steps sha root target user sks s')"

text \<open>The texts to put back when a step fails.\<close>

fun snapshot_files :: "pworld \<Rightarrow> string list \<Rightarrow> pam_error + (string \<times> string option) list" where
  "snapshot_files w [] = Inr []"
| "snapshot_files w (p # ps) =
     rbind (if isfile w p then rbind (read_text w p) (\<lambda>t. Inr (Some t)) else Inr None)
       (\<lambda>t. rbind (snapshot_files w ps) (\<lambda>rest. Inr ((p, t) # rest)))"

fun restore_files :: "(string \<times> string option) list \<Rightarrow> pworld \<Rightarrow> (pam_error + unit) \<times> pworld" where
  "restore_files [] w = (Inr (), w)"
| "restore_files ((path, before) # rest) w =
     (let (r, w') =
        (case before of
           None \<Rightarrow> if isfile w path then remove_file path w else (Inr (), w)
         | Some text \<Rightarrow>
             if \<not> isfile w path then write_text path text 420 w
             else (case read_text w path of
                     Inl e \<Rightarrow> (Inl e, w)
                   | Inr now \<Rightarrow> if now \<noteq> text then write_text path text 420 w else (Inr (), w)))
      in case r of Inl e \<Rightarrow> (Inl e, w') | Inr _ \<Rightarrow> restore_files rest w')"

text \<open>The guarded part: run the steps, put back what was there when one fails.\<close>

definition enable_run ::
  "(string \<Rightarrow> string) \<Rightarrow> string \<Rightarrow> string \<Rightarrow> string option \<Rightarrow> (string \<times> kind) list \<Rightarrow> manifest \<Rightarrow> pworld
    \<Rightarrow> (pam_error + unit) \<times> pworld" where
  "enable_run sha root target user p m w =
     (case snapshot_files w (map (\<lambda>(service, k). kind_path root service k) p) of
        Inl e \<Rightarrow> (Inl e, w)
      | Inr before \<Rightarrow>
          (case enable_steps sha root target user p (w, m) of
             (Inr _, w1, m1) \<Rightarrow> save_state root m1 w1
           | (Inl e, w1, m1) \<Rightarrow>
               (case restore_files before w1 of
                  (Inl e', w2) \<Rightarrow> (Inl e', w2)
                | (Inr _, w2) \<Rightarrow>
                    (case save_state root m w2 of
                       (Inl e', w3) \<Rightarrow> (Inl e', w3)
                     | (Inr _, w3) \<Rightarrow> (Inl e, w3)))))"

definition enable ::
  "(string \<Rightarrow> string) \<Rightarrow> string \<Rightarrow> string \<Rightarrow> string option \<Rightarrow> pworld \<Rightarrow> (pam_error + unit) \<times> pworld" where
  "enable sha root target user w =
     (case plan w root target of
        Inl e \<Rightarrow> (Inl e, w)
      | Inr p \<Rightarrow>
          if p = [] then (Inl (PamError (''target '' @ target @ '' is not available on this system'')), w)
          else (case load_state w of
                  Inl e \<Rightarrow> (Inl e, w)
                | Inr m \<Rightarrow> enable_run sha root target user p m w))"

section \<open>Disabling\<close>

text \<open>Undo our change to one file: whether it changed, and the state.\<close>

definition revert ::
  "(string \<Rightarrow> string) \<Rightarrow> string \<Rightarrow> string \<Rightarrow> string list \<Rightarrow> pstate \<Rightarrow> (pam_error + bool) \<times> pstate" where
  "revert sha root path begins s =
     (let w0 = fst s; m = snd s; dropped = AList.delete path m;
          entry = map_of m path; autologin = (path = path_join root AUTOLOGIN_FILE) in
      if \<not> isfile w0 path then (Inr False, w0, dropped)
      else case read_text w0 path of
        Inl e \<Rightarrow> (Inl e, s)
      | Inr text \<Rightarrow>
         (case (if autologin then forget_main_autologin root (map_of (ini_group text ''Autologin'') ''User'') w0
                else (Inr (), w0)) of
            (Inl e, w) \<Rightarrow> (Inl e, w, m)
          | (Inr _, w) \<Rightarrow>
             (let whole = (autologin \<or> starts_with text OWN_HEADER);
                  partly = remove_block text begins;
                  put = (\<lambda>t m'. case write_text path t 420 w of
                           (Inl e, w') \<Rightarrow> (Inl e, w', m') | (Inr _, w') \<Rightarrow> (Inr True, w', m'));
                  gone = (case remove_file path w of
                           (Inl e, w') \<Rightarrow> (Inl e, w', dropped) | (Inr _, w') \<Rightarrow> (Inr True, w', dropped)) in
              if \<not> whole \<and> has_any_block partly then
                (if partly = text then (Inr False, w, m)
                 else case write_text path partly 420 w of
                        (Inl e, w') \<Rightarrow> (Inl e, w', m)
                      | (Inr _, w') \<Rightarrow>
                          (Inr True, w', (case entry of
                             None \<Rightarrow> m
                           | Some en \<Rightarrow> AList.update path (en\<lparr>m_sha := Some (sha partly)\<rparr>) m)))
              else if whole then gone
              else
                (let untouched = (entry \<noteq> None \<and> m_sha (the entry) = Some (sha text));
                     created = (entry \<noteq> None \<and> m_action (the entry) = Some ''created'');
                     copied = (entry \<noteq> None \<and> m_action (the entry) = Some ''copied'');
                     sep = (case entry of None \<Rightarrow> [] | Some en \<Rightarrow> (case m_sep en of None \<Rightarrow> [] | Some x \<Rightarrow> x));
                     cleaned = partly in
                 if created then
                   (if untouched \<or> strip cleaned = [] then gone
                    else if cleaned \<noteq> text then put cleaned dropped
                    else (Inr False, w, dropped))
                 else if cleaned = text then (Inr False, w, dropped)
                 else if copied \<and> untouched then gone
                 else put (if sep \<noteq> [] \<and> ends_with cleaned sep
                           then take (length cleaned - length sep) cleaned else cleaned) dropped))))"

fun revert_all ::
  "(string \<Rightarrow> string) \<Rightarrow> string \<Rightarrow> (string \<times> string list) list \<Rightarrow> pstate \<Rightarrow> (pam_error + string list) \<times> pstate" where
  "revert_all sha root [] s = (Inr [], s)"
| "revert_all sha root ((path, begins) # rest) s =
     (case revert sha root path begins s of
        (Inl e, s') \<Rightarrow> (Inl e, s')
      | (Inr changed, s') \<Rightarrow>
          (case revert_all sha root rest s' of
             (Inl e, s'') \<Rightarrow> (Inl e, s'')
           | (Inr rest', s'') \<Rightarrow> (Inr (if changed then path # rest' else rest'), s'')))"

definition disable_plan :: "string \<Rightarrow> (string \<times> kind) list \<Rightarrow> (string \<times> kind) list" where
  "disable_plan target p =
     (if target = ''auto-login'' then
        [(''plasmalogin.conf.d'', Autologin), (''plasmalogin-autologin'', WalletRelease),
         (''plasmalogin'', WalletRemember)]
      else p)"

definition disable ::
  "(string \<Rightarrow> string) \<Rightarrow> string \<Rightarrow> string \<Rightarrow> bool \<Rightarrow> pworld \<Rightarrow> (pam_error + unit) \<times> pworld" where
  "disable sha root target keep_kde_config w =
     (case load_state w of
        Inl e \<Rightarrow> (Inl e, w)
      | Inr m \<Rightarrow>
          (case plan w root target of
             Inl e \<Rightarrow> (Inl e, w)
           | Inr p \<Rightarrow>
               (let todo = filter (\<lambda>(service, k). \<not> (k = KdeConfig \<and> keep_kde_config)) (disable_plan target p) in
                case revert_all sha root
                       (map (\<lambda>(service, k). (kind_path root service k,
                                if is_wallet k then [WALLET_BEGIN] else [BEGIN_MARK])) todo) (w, m) of
                  (Inl e, w1, m1) \<Rightarrow> (Inl e, w1)
                | (Inr _, w1, m1) \<Rightarrow> save_state root m1 w1)))"

section \<open>Reset\<close>

definition dir_names :: "pworld \<Rightarrow> string \<Rightarrow> string list" where
  "dir_names w dir =
     sort (map basename (filter (\<lambda>p. p = path_join dir (basename p)) (map fst (pfiles w))))"

text \<open>What older versions and lost manifest entries left in a service file.\<close>

definition clean_service :: "string \<Rightarrow> pworld \<Rightarrow> (pam_error + bool) \<times> pworld" where
  "clean_service path w =
     (let done = (\<lambda>(r, w'). (case r of Inl e \<Rightarrow> Inl e | Inr _ \<Rightarrow> Inr True, w')) in
      if ends_with (basename path) ''.linux-hello-backup'' then done (remove_file path w)
      else if \<not> isfile w path then (Inr False, w)
      else case read_text w path of
             Inl _ \<Rightarrow> (Inr False, w)
           | Inr text \<Rightarrow>
               if starts_with text OWN_HEADER then done (remove_file path w)
               else if \<not> contains text MODULE then (Inr False, w)
               else
                 let cleaned = remove_legacy_lines (remove_block text BEGINS)
                 in if cleaned \<noteq> text then done (write_text path cleaned 420 w) else (Inr False, w))"

fun clean_services :: "string list \<Rightarrow> pworld \<Rightarrow> (pam_error + string list) \<times> pworld" where
  "clean_services [] w = (Inr [], w)"
| "clean_services (p # ps) w =
     (case clean_service p w of
        (Inl e, w') \<Rightarrow> (Inl e, w')
      | (Inr changed, w') \<Rightarrow>
          (case clean_services ps w' of
             (Inl e, w'') \<Rightarrow> (Inl e, w'')
           | (Inr rest, w'') \<Rightarrow> (Inr (if changed then p # rest else rest), w'')))"

definition reset_autologin :: "string \<Rightarrow> pworld \<Rightarrow> (pam_error + string list) \<times> pworld" where
  "reset_autologin root w =
     (let path = path_join root AUTOLOGIN_FILE in
      if \<not> isfile w path then (Inr [], w)
      else case autologin_user w root of
             Inl e \<Rightarrow> (Inl e, w)
           | Inr user \<Rightarrow>
               (case forget_main_autologin root user w of
                  (Inl e, w1) \<Rightarrow> (Inl e, w1)
                | (Inr _, w1) \<Rightarrow>
                    (case remove_file path w1 of
                       (Inl e, w2) \<Rightarrow> (Inl e, w2)
                     | (Inr _, w2) \<Rightarrow> (Inr [path], w2))))"

definition reset_kde_config :: "string \<Rightarrow> pworld \<Rightarrow> (pam_error + string list) \<times> pworld" where
  "reset_kde_config root w =
     (let path = path_join root KSCREENLOCKER_CONFIG in
      if \<not> isfile w path then (Inr [], w)
      else case read_text w path of
             Inl e \<Rightarrow> (Inl e, w)
           | Inr text \<Rightarrow>
               if \<not> has_block text BEGIN_MARK then (Inr [], w)
               else
                 let cleaned = remove_block text BEGINS
                 in (case (if strip cleaned \<noteq> [] then write_text path cleaned 420 w else remove_file path w) of
                       (Inl e, w') \<Rightarrow> (Inl e, w')
                     | (Inr _, w') \<Rightarrow> (Inr [path], w')))"

definition reset :: "(string \<Rightarrow> string) \<Rightarrow> string \<Rightarrow> pworld \<Rightarrow> (pam_error + string list) \<times> pworld" where
  "reset sha root w =
     (case reset_autologin root w of
        (Inl e, w1) \<Rightarrow> (Inl e, w1)
      | (Inr c1, w1) \<Rightarrow>
          (let m = (case load_state w1 of Inl _ \<Rightarrow> [] | Inr m \<Rightarrow> m) in
           case revert_all sha root (map (\<lambda>p. (p, BEGINS)) (map fst m)) (w1, m) of
             (Inl e, w2, m2) \<Rightarrow> (Inl e, w2)
           | (Inr c2, w2, m2) \<Rightarrow>
               (let etc = path_join root ETC_DIR in
                case clean_services (map (path_join etc) (dir_names w2 etc)) w2 of
                  (Inl e, w3) \<Rightarrow> (Inl e, w3)
                | (Inr c3, w3) \<Rightarrow>
                    (case reset_kde_config root w3 of
                       (Inl e, w4) \<Rightarrow> (Inl e, w4)
                     | (Inr c4, w4) \<Rightarrow>
                         (case save_state root m2 w4 of
                            (Inl e, w5) \<Rightarrow> (Inl e, w5)
                          | (Inr _, w5) \<Rightarrow> (Inr (c1 @ c2 @ c3 @ c4), w5))))))"

section \<open>State of the targets, refresh\<close>

definition service_enabled :: "pworld \<Rightarrow> string \<Rightarrow> string \<times> kind \<Rightarrow> pam_error + bool" where
  "service_enabled w root sk =
     (let holds = (\<lambda>path f. if isfile w path then rbind (read_text w path) (\<lambda>t. Inr (f t)) else Inr False) in
      case snd sk of
        KdeConfig \<Rightarrow> holds (path_join root KSCREENLOCKER_CONFIG) (\<lambda>t. has_block t BEGIN_MARK)
      | Autologin \<Rightarrow> rbind (autologin_user w root) (\<lambda>u. Inr (u \<noteq> None))
      | Own \<Rightarrow> holds (etc_path root (fst sk)) (\<lambda>t. starts_with t OWN_HEADER)
      | Insert \<Rightarrow> holds (etc_path root (fst sk)) (\<lambda>t. has_block t BEGIN_MARK)
      | _ \<Rightarrow> holds (etc_path root (fst sk)) (\<lambda>t. has_block t WALLET_BEGIN))"

text \<open>\<open>all(...)\<close> over the plan stops at the first service that is off.\<close>

fun all_enabled :: "pworld \<Rightarrow> string \<Rightarrow> (string \<times> kind) list \<Rightarrow> pam_error + bool" where
  "all_enabled w root [] = Inr True"
| "all_enabled w root (sk # sks) =
     rbind (service_enabled w root sk) (\<lambda>on. if on then all_enabled w root sks else Inr False)"

record target_entry =
  te_id :: string
  te_available :: bool
  te_services :: "string list"
  te_enabled :: bool

definition target_state :: "pworld \<Rightarrow> string \<Rightarrow> string \<Rightarrow> pam_error + target_entry" where
  "target_state w root target =
     rbind (plan w root target) (\<lambda>p.
     rbind (if p = [] then Inr False else all_enabled w root p) (\<lambda>on.
     rbind (if target = ''auto-login'' then autologin_user w root else Inr None) (\<lambda>user.
       Inr \<lparr>te_id = target, te_available = (p \<noteq> []),
            te_services = map fst (filter (\<lambda>(_, k). k \<noteq> KdeConfig \<and> k \<noteq> Autologin) p),
            te_enabled = (on \<or> user \<noteq> None)\<rparr>)))"

fun target_states :: "pworld \<Rightarrow> string \<Rightarrow> string list \<Rightarrow> pam_error + target_entry list" where
  "target_states w root [] = Inr []"
| "target_states w root (t # ts) =
     rbind (target_state w root t) (\<lambda>e. rbind (target_states w root ts) (\<lambda>es. Inr (e # es)))"

definition targets :: "pworld \<Rightarrow> string \<Rightarrow> pam_error + target_entry list" where
  "targets w root = target_states w root TARGET_IDS"

fun enable_all :: "(string \<Rightarrow> string) \<Rightarrow> string \<Rightarrow> string list \<Rightarrow> pworld \<Rightarrow> (pam_error + unit) \<times> pworld" where
  "enable_all sha root [] w = (Inr (), w)"
| "enable_all sha root (t # ts) w =
     (case enable sha root t None w of
        (Inl e, w') \<Rightarrow> (Inl e, w')
      | (Inr _, w') \<Rightarrow> enable_all sha root ts w')"

definition refresh :: "(string \<Rightarrow> string) \<Rightarrow> string \<Rightarrow> pworld \<Rightarrow> (pam_error + unit) \<times> pworld" where
  "refresh sha root w =
     (case targets w root of
        Inl e \<Rightarrow> (Inl e, w)
      | Inr es \<Rightarrow> enable_all sha root (map te_id (filter te_enabled es)) w)"

section \<open>Frames: what an operation may have changed\<close>

text \<open>
  From one world to the next only the paths of \<open>P\<close> changed, none of them read-only, and a
  file that changed is readable text or gone.
\<close>

definition only_writes :: "string set \<Rightarrow> pworld \<Rightarrow> pworld \<Rightarrow> bool" where
  "only_writes P w w' \<longleftrightarrow>
     readonly w' = readonly w \<and> stored_state w' = stored_state w
     \<and> (\<forall>p. map_of (pfiles w') p = map_of (pfiles w) p
            \<or> (p \<in> P \<and> \<not> readonly w p \<and> (case map_of (pfiles w') p of None \<Rightarrow> True | Some f \<Rightarrow> utf8 f)))"

lemma only_writes_refl [simp]: "only_writes P w w"
  by (simp add: only_writes_def)

lemma only_writes_trans:
  "only_writes P w1 w2 \<Longrightarrow> only_writes Q w2 w3 \<Longrightarrow> only_writes (P \<union> Q) w1 w3"
  unfolding only_writes_def by (metis UnCI)

lemma only_writes_mono: "only_writes P w w' \<Longrightarrow> P \<subseteq> Q \<Longrightarrow> only_writes Q w w'"
  unfolding only_writes_def by blast

lemma write_text_only_writes: "write_text path t mode0 w = (r, w') \<Longrightarrow> only_writes {path} w w'"
  by (auto simp: write_text_def only_writes_def Let_def split: if_splits)

lemma remove_file_only_writes: "remove_file path w = (r, w') \<Longrightarrow> only_writes {path} w w'"
  by (auto simp: remove_file_def only_writes_def split: if_splits)

lemma write_recorded_only_writes:
  "write_recorded sha path t action target sep s = (r, s') \<Longrightarrow> only_writes {path} (fst s) (fst s')"
  by (auto simp: write_recorded_def split: prod.splits sum.splits dest: write_text_only_writes)

lemma write_own_file_only_writes:
  "write_own_file sha path t target s = (r, s') \<Longrightarrow> only_writes {path} (fst s) (fst s')"
  by (auto simp: write_own_file_def Let_def split: sum.splits if_splits dest: write_recorded_only_writes)

lemma enable_insert_only_writes:
  "enable_insert sha root service target s = (r, s') \<Longrightarrow> only_writes {etc_path root service} (fst s) (fst s')"
  by (auto simp: enable_insert_def Let_def split: sum.splits prod.splits if_splits
      dest: write_recorded_only_writes)

lemma enable_wallet_only_writes:
  "enable_wallet sha root service k target s = (r, s') \<Longrightarrow> only_writes {etc_path root service} (fst s) (fst s')"
  unfolding enable_wallet_def Let_def
  by (cases "service_source (fst s) root service")
    (auto split: sum.splits prod.splits if_splits dest: write_recorded_only_writes)

lemma enable_own_only_writes:
  "enable_own sha root service target s = (r, s') \<Longrightarrow> only_writes {etc_path root service} (fst s) (fst s')"
  unfolding enable_own_def Let_def
  by (auto split: sum.splits option.splits bool.splits dest: write_own_file_only_writes)

lemma enable_kde_config_only_writes:
  "enable_kde_config sha root target s = (r, s') \<Longrightarrow>
   only_writes {path_join root KSCREENLOCKER_CONFIG} (fst s) (fst s')"
  unfolding enable_kde_config_def Let_def
  by (cases "read_text (fst s) (path_join root KSCREENLOCKER_CONFIG)")
    (auto split: if_splits dest: write_recorded_only_writes)

lemma enable_autologin_only_writes:
  "enable_autologin sha root target user s = (r, s') \<Longrightarrow>
   only_writes {path_join root AUTOLOGIN_FILE} (fst s) (fst s')"
  unfolding enable_autologin_def Let_def
  by (auto split: sum.splits option.splits if_splits dest: write_own_file_only_writes)

lemma enable_step_only_writes:
  assumes "enable_step sha root target user sk s = (r, s')"
  shows "only_writes {kind_path root (fst sk) (snd sk)} (fst s) (fst s')"
  using assms
  by (cases "snd sk")
    (auto simp: enable_step_def kind_path_def
      dest: enable_own_only_writes enable_kde_config_only_writes enable_autologin_only_writes
        enable_wallet_only_writes enable_insert_only_writes)

lemma enable_steps_only_writes:
  "enable_steps sha root target user sks s = (r, s') \<Longrightarrow>
   only_writes (set (map (\<lambda>(service, k). kind_path root service k) sks)) (fst s) (fst s')"
proof (induction sks arbitrary: s)
  case (Cons sk sks)
  obtain r1 s1 where step: "enable_step sha root target user sk s = (r1, s1)"
    by (cases "enable_step sha root target user sk s")
  have w1: "only_writes {kind_path root (fst sk) (snd sk)} (fst s) (fst s1)"
    by (rule enable_step_only_writes [OF step])
  show ?case
  proof (cases r1)
    case (Inl e)
    then have "s' = s1"
      using Cons.prems step by simp
    then show ?thesis
      using w1 by (auto intro: only_writes_mono simp: case_prod_beta)
  next
    case (Inr u)
    then have "only_writes (set (map (\<lambda>(service, k). kind_path root service k) sks)) (fst s1) (fst s')"
      using Cons.prems step by (intro Cons.IH) simp
    from only_writes_trans [OF w1 this] show ?thesis
      by (simp add: case_prod_beta)
  qed
qed simp

section \<open>Enabling is all or nothing\<close>

lemma read_text_OSError: "read_text w p = Inl OSError \<longleftrightarrow> \<not> isfile w p"
  by (auto simp: read_text_def isfile_def split: option.splits)

lemma read_text_cong: "map_of (pfiles w') p = map_of (pfiles w) p \<Longrightarrow> read_text w' p = read_text w p"
  by (simp add: read_text_def)

lemma write_text_ok:
  assumes "\<not> readonly w path" and "CR \<notin> set t"
  shows "\<exists>w'. write_text path t mode0 w = (Inr (), w') \<and> readonly w' = readonly w
    \<and> stored_state w' = stored_state w \<and> read_text w' = (read_text w)(path := Inr t)"
  using assms
  by (auto simp: write_text_def Let_def read_text_def fun_eq_iff universal_newlines_id)

lemma remove_file_ok:
  assumes "\<not> readonly w path" and "isfile w path"
  shows "\<exists>w'. remove_file path w = (Inr (), w') \<and> readonly w' = readonly w
    \<and> stored_state w' = stored_state w \<and> read_text w' = (read_text w)(path := Inl OSError)"
  using assms by (auto simp: remove_file_def read_text_def fun_eq_iff)

lemma read_text_no_CR: "read_text w p = Inr t \<Longrightarrow> CR \<notin> set t"
  by (auto simp: read_text_def universal_newlines_no_CR split: option.splits if_splits)

text \<open>What differs from the start can be put back: it is not read-only, and it is text or gone.\<close>

definition restorable :: "string set \<Rightarrow> pworld \<Rightarrow> pworld \<Rightarrow> bool" where
  "restorable P w0 w \<longleftrightarrow> readonly w = readonly w0 \<and>
     (\<forall>p. read_text w p = read_text w0 p
        \<or> (p \<in> P \<and> \<not> readonly w0 p \<and> read_text w p \<noteq> Inl UnicodeDecodeError))"

lemma only_writes_restorable: "only_writes P w0 w \<Longrightarrow> restorable P w0 w"
  unfolding restorable_def
proof (intro conjI allI)
  assume o: "only_writes P w0 w"
  then show "readonly w = readonly w0"
    by (simp add: only_writes_def)
  fix p
  show "read_text w p = read_text w0 p
      \<or> (p \<in> P \<and> \<not> readonly w0 p \<and> read_text w p \<noteq> Inl UnicodeDecodeError)"
  proof (cases "map_of (pfiles w) p = map_of (pfiles w0) p")
    case True
    then show ?thesis
      by (intro disjI1 read_text_cong)
  next
    case False
    then have P: "p \<in> P" "\<not> readonly w0 p"
      and utf: "case map_of (pfiles w) p of None \<Rightarrow> True | Some f \<Rightarrow> utf8 f"
      using o unfolding only_writes_def by metis+
    from utf have "read_text w p \<noteq> Inl UnicodeDecodeError"
      by (cases "map_of (pfiles w) p") (simp_all add: read_text_def)
    with P show ?thesis
      by simp
  qed
qed

lemma restore_file_step:
  assumes restorable: "restorable (insert p P) w0 w"
    and before: "before = (if isfile w0 p then Some t else None)" "isfile w0 p \<longrightarrow> read_text w0 p = Inr t"
  shows "\<exists>w1. restore_files ((p, before) # rest) w = restore_files rest w1
    \<and> restorable P w0 w1 \<and> stored_state w1 = stored_state w"
proof (cases "read_text w p = read_text w0 p")
  case True
  then have "isfile w p = isfile w0 p"
    by (metis read_text_OSError)
  then have "restore_files ((p, before) # rest) w = restore_files rest w"
    using True before by auto
  moreover have "restorable P w0 w"
    using restorable True unfolding restorable_def by (metis insert_iff)
  ultimately show ?thesis
    by blast
next
  case False
  then have w: "\<not> readonly w p" "read_text w p \<noteq> Inl UnicodeDecodeError" "readonly w = readonly w0"
    using restorable unfolding restorable_def by metis+
  have "\<exists>w1. restore_files ((p, before) # rest) w = restore_files rest w1 \<and> readonly w1 = readonly w
      \<and> stored_state w1 = stored_state w \<and> read_text w1 = (read_text w)(p := read_text w0 p)"
  proof (cases "isfile w0 p")
    case True
    then have t: "read_text w0 p = Inr t" and b: "before = Some t"
      using before by auto
    obtain w1 where w1: "write_text p t 420 w = (Inr (), w1)" "readonly w1 = readonly w"
      "stored_state w1 = stored_state w" "read_text w1 = (read_text w)(p := Inr t)"
      using write_text_ok [OF w(1) read_text_no_CR [OF t], of 420] by blast
    have "restore_files ((p, before) # rest) w = restore_files rest w1"
    proof (cases "isfile w p")
      case True
      then obtain now where "read_text w p = Inr now"
        using w(2) by (auto simp: read_text_def isfile_def split: option.splits if_splits)
      then show ?thesis
        using True False t b w1 by simp
    qed (simp add: b w1)
    then show ?thesis
      using w1 t by auto
  next
    case gone: False
    then have "isfile w p"
      using False by (metis read_text_OSError)
    then obtain w1 where w1: "remove_file p w = (Inr (), w1)" "readonly w1 = readonly w"
      "stored_state w1 = stored_state w" "read_text w1 = (read_text w)(p := Inl OSError)"
      using remove_file_ok [OF w(1)] by blast
    have "restore_files ((p, before) # rest) w = restore_files rest w1"
      using before gone \<open>isfile w p\<close> w1 by simp
    then show ?thesis
      using w1 gone read_text_OSError by metis
  qed
  then obtain w1 where w1: "restore_files ((p, before) # rest) w = restore_files rest w1"
    "readonly w1 = readonly w" "stored_state w1 = stored_state w"
    "read_text w1 = (read_text w)(p := read_text w0 p)"
    by blast
  moreover have "restorable P w0 w1"
    using restorable w1 w(3) by (auto simp: restorable_def)
  ultimately show ?thesis
    by blast
qed

lemma restore_files_ok:
  "snapshot_files w0 ps = Inr before \<Longrightarrow> restorable (set ps) w0 w \<Longrightarrow>
   \<exists>w'. restore_files before w = (Inr (), w') \<and> read_text w' = read_text w0
     \<and> readonly w' = readonly w0 \<and> stored_state w' = stored_state w"
proof (induction ps arbitrary: before w)
  case Nil
  then show ?case
    by (auto simp: restorable_def)
next
  case (Cons p ps)
  obtain b rest where before: "before = (p, b) # rest" and rest: "snapshot_files w0 ps = Inr rest"
    and b: "(if isfile w0 p then rbind (read_text w0 p) (\<lambda>t. Inr (Some t)) else Inr None) = Inr b"
    using Cons.prems(1) by (auto simp: rbind_Inr_iff)
  obtain t where t: "b = (if isfile w0 p then Some t else None)" "isfile w0 p \<longrightarrow> read_text w0 p = Inr t"
    using b by (auto simp: rbind_Inr_iff split: if_splits)
  obtain w1 where w1: "restore_files before w = restore_files rest w1"
    "restorable (set ps) w0 w1" "stored_state w1 = stored_state w"
    using restore_file_step [of p "set ps" w0 w b t rest] t Cons.prems(2) before by auto
  show ?case
    using Cons.IH [OF rest w1(2)] w1 by auto
qed

text \<open>
  C1. Turning a target on is all or nothing: when it fails, whatever the reason and
  whichever step failed, every file reads as before. The manifest's own file must be
  writable, the one write outside the guarded part.
\<close>

theorem enable_all_or_nothing:
  assumes "enable sha root target user w = (Inl e, w')"
    and "\<not> readonly w (path_join root STATE_FILE)"
  shows "read_text w' = read_text w"
proof -
  have save: "save_state root m v = (r, v') \<Longrightarrow> read_text v' = read_text v" for m v r v'
    by (auto simp: save_state_def read_text_def fun_eq_iff split: if_splits)
  show ?thesis
  proof (cases "w' = w")
    case False
    then obtain sks m where run: "enable_run sha root target user sks m w = (Inl e, w')"
      using assms(1) by (auto simp: enable_def split: sum.splits if_splits)
    then obtain before where
      snap: "snapshot_files w (map (\<lambda>(service, k). kind_path root service k) sks) = Inr before"
      using False by (auto simp: enable_run_def split: sum.splits)
    obtain r w1 m1 where steps: "enable_steps sha root target user sks (w, m) = (r, w1, m1)"
      by (cases "enable_steps sha root target user sks (w, m)")
    have only: "only_writes (set (map (\<lambda>(service, k). kind_path root service k) sks)) w w1"
      using enable_steps_only_writes [OF steps] by simp
    show ?thesis
    proof (cases r)
      case (Inl e1)
      obtain w2 where w2: "restore_files before w1 = (Inr (), w2)" "read_text w2 = read_text w"
        using restore_files_ok [OF snap only_writes_restorable [OF only]] by blast
      then show ?thesis
        using run snap steps Inl save by (auto simp: enable_run_def split: prod.splits sum.splits)
    next
      case (Inr u)
      then show ?thesis
        using run snap steps only assms(2) by (auto simp: enable_run_def save_state_def only_writes_def)
    qed
  qed simp
qed

text \<open>
  The witness: logging in automatically is refused for root after the two service files
  were changed already, and both read as before.
\<close>

definition sample_service :: string where
  "sample_service = ''#%PAM-1.0'' @ [LF] @ ''auth include system-login'' @ [LF]"

definition sample_file :: "string \<Rightarrow> pfile" where
  "sample_file t = \<lparr>raw = t, utf8 = True, fmode = 420\<rparr>"

definition sample_world :: pworld where
  "sample_world =
     \<lparr>pfiles =
        [(''/etc/pam.d/plasmalogin'', sample_file sample_service),
         (''/usr/lib/pam.d/plasmalogin-autologin'', sample_file sample_service),
         (''/usr/lib/pam.d/polkit-1'', sample_file sample_service),
         (''/etc/pam.d/system-login'', sample_file (''auth required pam_faillock.so preauth'' @ [LF])),
         (''/usr/bin/plasmalogin'', sample_file [])],
      readonly = (\<lambda>p. False), stored_state = NoState\<rparr>"

theorem enable_all_or_nothing_witness:
  "\<exists>e w'. enable (\<lambda>t. t) ''/'' ''auto-login'' (Some ''root'') sample_world = (Inl e, w')
    \<and> read_text w' = read_text sample_world"
proof -
  obtain r w' where run: "enable (\<lambda>t. t) ''/'' ''auto-login'' (Some ''root'') sample_world = (r, w')"
    by (cases "enable (\<lambda>t. t) ''/'' ''auto-login'' (Some ''root'') sample_world")
  have "isl (fst (enable (\<lambda>t. t) ''/'' ''auto-login'' (Some ''root'') sample_world))"
    by code_simp
  then obtain e where r: "r = Inl e"
    using run by (cases r) auto
  have "\<not> readonly sample_world (path_join ''/'' STATE_FILE)"
    by (simp add: sample_world_def)
  then show ?thesis
    using enable_all_or_nothing [OF run [unfolded r]] run r by blast
qed

section \<open>On and off again\<close>

lemma insert_block_no_CR:
  assumes "insert_block text gs line = Inr new" and "\<not> has_block text BEGIN_MARK"
    and "CR \<notin> set text" and "\<forall>g \<in> set gs. block_line g" and "block_line line"
  shows "CR \<notin> set new"
proof -
  obtain a b where ab: "with_final_LF text = a @ b"
    and n: "new = a @ concat (map (\<lambda>l. l @ [LF]) (BEGIN_MARK # (gs @ [line]) @ [END_MARK])) @ b"
    using insert_block_Inr [OF assms(1,2)] by blast
  have "CR \<notin> set (a @ b)"
    using assms(3) unfolding ab [symmetric] by (simp add: with_final_LF_def)
  moreover have "is_break CR"
    by (simp add: is_break_def)
  ultimately show ?thesis
    using assms(4,5) mark_no_break by (auto simp: n block_line_def)
qed

text \<open>The loop of \<open>_gates\<close>, one line at a time.\<close>

definition add_gate :: "string \<Rightarrow> string list \<Rightarrow> string list" where
  "add_gate l gs = (case gate_line l of None \<Rightarrow> gs | Some g \<Rightarrow> if g \<in> set gs then gs else gs @ [g])"

lemma gates_add_gate: "gates w root text = fold add_gate (auth_lines w root (remove_block text BEGINS)) []"
  by (simp add: gates_def add_gate_def [abs_def])

lemma add_gate_props:
  "set gs \<subseteq> set (add_gate l gs)"
  "gate_line l = Some g \<Longrightarrow> g \<in> set (add_gate l gs)"
  "\<forall>g \<in> set gs. block_line g \<Longrightarrow> \<forall>g \<in> set (add_gate l gs). block_line g"
  by (auto simp: add_gate_def gate_line_block_line split: option.splits)

lemma gates_block_line: "\<forall>g \<in> set (gates w root text). block_line g"
proof -
  have "\<forall>g \<in> set gs. block_line g \<Longrightarrow> \<forall>g \<in> set (fold add_gate ls gs). block_line g" for ls gs
  proof (induction ls arbitrary: gs)
    case (Cons l ls)
    show ?case
      using Cons.IH [OF add_gate_props(3) [OF Cons.prems]] by simp
  qed simp
  from this [of "[]"] show ?thesis
    by (simp add: gates_add_gate)
qed

lemma gates_complete:
  assumes "l \<in> set (auth_lines w root (remove_block text BEGINS))" and "gate_line l = Some g"
  shows "g \<in> set (gates w root text)"
proof -
  have mono: "set gs \<subseteq> set (fold add_gate ls gs)" for ls gs
  proof (induction ls arbitrary: gs)
    case (Cons l ls)
    show ?case
      using add_gate_props(1) [of gs l] Cons.IH [of "add_gate l gs"] by simp
  qed simp
  have "l \<in> set ls \<Longrightarrow> g \<in> set (fold add_gate ls gs)" for ls gs
  proof (induction ls arbitrary: gs)
    case (Cons k ls)
    show ?case
    proof (cases "k = l")
      case True
      then show ?thesis
        using add_gate_props(2) [OF assms(2), of gs] mono by auto
    next
      case False
      then show ?thesis
        using Cons by simp
    qed
  qed simp
  then show ?thesis
    using assms(1) by (simp add: gates_add_gate)
qed

lemma not_own_header:
  assumes "\<not> starts_with (a @ b) OWN_HEADER" and "a = [] \<or> is_break (last a)"
  shows "\<not> starts_with (a @ BEGIN_MARK @ c) OWN_HEADER"
proof
  assume pre: "starts_with (a @ BEGIN_MARK @ c) OWN_HEADER"
  show False
  proof (cases "prefix OWN_HEADER a")
    case True
    then show False
      using assms(1) prefix_order.order_trans by (metis prefixI)
  next
    case False
    then obtain n where a: "a = take n OWN_HEADER" and n: "n < length OWN_HEADER"
      using pre by (metis append_eq_conv_conj prefix_def prefix_same_cases take_all linorder_not_less prefixI prefix_order.order_refl)
    have rest: "prefix (drop n OWN_HEADER) (BEGIN_MARK @ c)"
      using pre a n by (metis append_take_drop_id same_prefix_prefix)
    have len: "length OWN_HEADER = 34"
      by code_simp
    have "list_all (\<lambda>n. (take n OWN_HEADER = [] \<or> is_break (last (take n OWN_HEADER)))
        \<longrightarrow> take 3 (drop n OWN_HEADER) \<noteq> take 3 BEGIN_MARK \<and> length (drop n OWN_HEADER) \<ge> 3) [0..<34]"
      by code_simp
    then have "take 3 (drop n OWN_HEADER) \<noteq> take 3 BEGIN_MARK \<and> length (drop n OWN_HEADER) \<ge> 3"
      using n len assms(2) a by (auto simp: list_all_iff)
    moreover obtain zs where "BEGIN_MARK @ c = drop n OWN_HEADER @ zs"
      using rest by (auto simp: prefix_def)
    then have "take 3 (drop n OWN_HEADER) = take 3 (BEGIN_MARK @ c)"
      using calculation by (simp del: take_append) (simp add: take_append)
    moreover have "take 3 (BEGIN_MARK @ c) = take 3 BEGIN_MARK"
      by (simp add: BEGIN_MARK_def)
    ultimately show False
      by simp
  qed
qed

lemma no_block_text:
  assumes "\<not> has_any_block text"
  shows "\<not> has_block text BEGIN_MARK" "\<not> has_block text WALLET_BEGIN"
    "\<not> has_any_block (with_final_LF text)" "remove_block text [BEGIN_MARK] = text"
proof -
  show b: "\<not> has_block text BEGIN_MARK" and w: "\<not> has_block text WALLET_BEGIN"
    using assms by (simp_all add: has_any_block_def BEGINS_def)
  show "\<not> has_any_block (with_final_LF text)"
    using b w contains_with_final_LF [of _ "text"]
    by (simp add: has_any_block_def BEGINS_def has_block_def mark_chars)
  show "remove_block text [BEGIN_MARK] = text"
    using b by (intro remove_block_id) (simp add: has_block_def mark_chars)
qed

lemma service_source_no_CR: "service_source w root service = Inr (text, action) \<Longrightarrow> CR \<notin> set text"
  by (auto simp: service_source_def rbind_Inr_iff dest: read_text_no_CR split: if_splits option.splits)

lemma service_source_action:
  "service_source w root service = Inr (text, action) \<Longrightarrow>
   (isfile w (etc_path root service) \<and> action = ''inserted''
      \<and> read_text w (etc_path root service) = Inr text)
   \<or> (\<not> isfile w (etc_path root service) \<and> action = ''copied'')"
  by (auto simp: service_source_def rbind_Inr_iff split: if_splits option.splits)

text \<open>What enabling a block target leaves, when no block of ours was there.\<close>

lemma enable_insert_result:
  assumes run: "enable_insert sha root service target (w, m) = (Inr (), w', m')"
    and src: "service_source w root service = Inr (text, action)"
    and clean: "\<not> has_any_block text"
  obtains line new where "line \<in> {INSERT_LINE, LOGIN_INSERT_LINE}"
    "insert_block text (gates w root text) line = Inr new" "CR \<notin> set new"
    "\<not> readonly w (etc_path root service)" "readonly w' = readonly w" "stored_state w' = stored_state w"
    "read_text w' = (read_text w)(etc_path root service := Inr new)"
    "m' = AList.update (etc_path root service)
       \<lparr>m_action = Some action, m_target = target, m_sha = Some (sha new), m_sep = None\<rparr> m"
proof -
  note nb = no_block_text [OF clean]
  define line where "line = (if service \<in> set PASSWORD_FIRST_SERVICES then LOGIN_INSERT_LINE else INSERT_LINE)"
  have line: "line \<in> {INSERT_LINE, LOGIN_INSERT_LINE}" "block_line line"
    by (simp_all add: line_def)
  let ?p = "etc_path root service"
  have act: "file_action ?p text action (snd (w, m)) = action"
    using clean by (simp add: file_action_def split: option.splits)
  obtain new where new: "insert_block text (gates w root text) line = Inr new"
    using run by (auto simp: enable_insert_def Let_def src nb(4) line_def [symmetric] split: sum.splits)
  have cr: "CR \<notin> set new"
    using insert_block_no_CR [OF new nb(1) service_source_no_CR [OF src] gates_block_line line(2)] .
  have "new \<noteq> text"
    using insert_block_has_block [OF new] nb(1) by auto
  then have "write_recorded sha ?p new action target None (w, m) = (Inr (), w', m')"
    using run by (simp add: enable_insert_def Let_def src nb(4) line_def [symmetric] act [simplified] new)
  then have wr: "write_text ?p new 420 w = (Inr (), w')"
    and m': "m' = AList.update ?p
       \<lparr>m_action = Some action, m_target = target, m_sha = Some (sha new), m_sep = None\<rparr> m"
    by (auto simp: write_recorded_def split: prod.splits sum.splits)
  have ro: "\<not> readonly w ?p"
    using wr by (auto simp: write_text_def)
  show ?thesis
    using that [OF line(1) new cr ro _ _ _ m'] write_text_ok [OF ro cr, of 420] wr by auto
qed

text \<open>Reverting such a file: the administrator's text comes back, our copy goes.\<close>

lemma revert_inserted:
  assumes read: "read_text w path = Inr new" and ro: "\<not> readonly w path"
    and na: "path \<noteq> path_join root AUTOLOGIN_FILE"
    and ins: "insert_block text gs line = Inr new" and clean: "\<not> has_any_block text"
    and gs: "\<forall>g \<in> set gs. block_line g" and line: "block_line line" and cr: "CR \<notin> set text"
    and own: "\<not> starts_with text OWN_HEADER"
    and entry: "map_of m path = Some en" "m_action en = Some action" "m_sha en = Some (sha new)" "m_sep en = None"
    and action: "action \<in> {''inserted'', ''copied''}"
  shows "\<exists>w'. revert sha root path [BEGIN_MARK] (w, m) = (Inr True, w', AList.delete path m)
    \<and> readonly w' = readonly w \<and> stored_state w' = stored_state w
    \<and> read_text w' = (read_text w)(path := if action = ''inserted'' then Inr (with_final_LF text) else Inl OSError)"
proof -
  note nb = no_block_text [OF clean]
  have restored: "remove_block new [BEGIN_MARK] = with_final_LF text"
    using remove_insert_block [OF ins nb(1) gs line] .
  have diff: "with_final_LF text \<noteq> new"
    using insert_block_has_block [OF ins] nb(3) by (auto simp: has_any_block_def BEGINS_def)
  obtain a b where ab: "with_final_LF text = a @ b" "a = [] \<or> is_break (last a)"
    and n: "new = a @ concat (map (\<lambda>l. l @ [LF]) (BEGIN_MARK # (gs @ [line]) @ [END_MARK])) @ b"
    using insert_block_Inr [OF ins nb(1)] by blast
  have "text \<noteq> [] \<Longrightarrow> starts_with (with_final_LF text) OWN_HEADER \<Longrightarrow> starts_with text OWN_HEADER"
    using last_snoc [of "text" LF] by (auto simp: with_final_LF_def prefix_snoc OWN_HEADER_def split: if_splits)
  then have "\<not> starts_with (a @ b) OWN_HEADER"
    using own ab(1) by (cases "text = []") (auto simp: with_final_LF_def OWN_HEADER_def)
  from not_own_header [OF this ab(2)] have hdr: "\<not> starts_with new OWN_HEADER"
    by (simp add: n)
  have isf: "isfile w path"
    using read by (auto simp: isfile_def read_text_def split: option.splits)
  have cr': "CR \<notin> set (with_final_LF text)"
    using cr by (simp add: with_final_LF_def)
  show ?thesis
  proof (cases "action = ''inserted''")
    case True
    obtain w' where "write_text path (with_final_LF text) 420 w = (Inr (), w')" "readonly w' = readonly w"
      "stored_state w' = stored_state w" "read_text w' = (read_text w)(path := Inr (with_final_LF text))"
      using write_text_ok [OF ro cr', of 420] by blast
    then show ?thesis
      using True read isf na hdr nb(3) diff entry
      by (simp add: revert_def Let_def restored)
  next
    case False
    then have "action = ''copied''"
      using action by simp
    moreover obtain w' where "remove_file path w = (Inr (), w')" "readonly w' = readonly w"
      "stored_state w' = stored_state w" "read_text w' = (read_text w)(path := Inl OSError)"
      using remove_file_ok [OF ro isf] by blast
    ultimately show ?thesis
      using read isf na hdr nb(3) diff entry by (simp add: revert_def Let_def restored)
  qed
qed

lemma map_of_sort_key_fst: "dict_ok m \<Longrightarrow> map_of (sort_key fst m) = map_of m"
proof -
  assume d: "dict_ok m"
  have "distinct (map fst (sort_key fst m))"
    using d by (metis distinct_map set_sort distinct_sort inj_on_cong)
  then show ?thesis
    using d by (subst map_of_inject_set) auto
qed

lemma path_join_inj: "path_join r a = path_join r b \<Longrightarrow> \<not> starts_with a [SLASH] \<Longrightarrow> \<not> starts_with b [SLASH] \<Longrightarrow> a = b"
  by (auto simp: path_join_def split: if_splits)

lemma etc_polkit_path:
  "etc_path root ''polkit-1'' = path_join root ''etc/pam.d/polkit-1''"
  "etc_path root ''polkit-1'' \<noteq> path_join root AUTOLOGIN_FILE"
proof -
  show e: "etc_path root ''polkit-1'' = path_join root ''etc/pam.d/polkit-1''"
    by (simp add: etc_path_def ETC_DIR_def path_join_def [of "''etc/pam.d''"] ends_with_LF_iff suffix_def)
  show "etc_path root ''polkit-1'' \<noteq> path_join root AUTOLOGIN_FILE"
    using path_join_inj [of root "''etc/pam.d/polkit-1''" AUTOLOGIN_FILE]
    by (auto simp: e AUTOLOGIN_FILE_def)
qed

lemma read_text_isfile: "read_text w = f \<Longrightarrow> isfile w p \<longleftrightarrow> f p \<noteq> Inl OSError"
  using read_text_OSError by blast

lemma plan_admin: "isfile w (etc_path root ''polkit-1'') \<Longrightarrow> plan w root ''admin'' = Inr [(''polkit-1'', Insert)]"
  by (simp add: plan_def Let_def find_service_def)

lemma service_source_found:
  "service_source w root service = Inr (text, action) \<Longrightarrow> find_service w root service \<noteq> None"
  by (auto simp: service_source_def find_service_def split: if_splits option.splits)

text \<open>
  C14. Turning face unlock for admin prompts on and off again gives back the files: the
  administrator's service file reads as before (up to a missing final line feed), a copy
  made from the vendor's file is gone so that the vendor's applies again, and no other
  file was touched.
\<close>

theorem enable_disable_admin:
  assumes src: "service_source w root ''polkit-1'' = Inr (text, action)"
    and clean: "\<not> has_any_block text" "\<not> starts_with text OWN_HEADER"
    and state: "load_state w = Inr m" "dict_ok m"
    and on: "enable sha root ''admin'' user w = (Inr (), w1)"
  shows "\<exists>w2. disable sha root ''admin'' False w1 = (Inr (), w2)
    \<and> read_text w2 = (read_text w)(etc_path root ''polkit-1'' :=
         if action = ''inserted'' then Inr (with_final_LF text) else Inl OSError)"
proof -
  let ?p = "etc_path root ''polkit-1''"
  have "plan w root ''admin'' = Inr [(''polkit-1'', Insert)]"
    using service_source_found [OF src] by (simp add: plan_def Let_def)
  then have "enable_run sha root ''admin'' user [(''polkit-1'', Insert)] m w = (Inr (), w1)"
    using on state by (simp add: enable_def)
  then obtain w' m' where step: "enable_insert sha root ''polkit-1'' ''admin'' (w, m) = (Inr (), w', m')"
    and save: "save_state root m' w' = (Inr (), w1)"
    by (auto simp: enable_run_def enable_step_def split: sum.splits prod.splits)
  obtain line new where line: "line \<in> {INSERT_LINE, LOGIN_INSERT_LINE}"
    and new: "insert_block text (gates w root text) line = Inr new"
    and w': "\<not> readonly w ?p" "readonly w' = readonly w" "read_text w' = (read_text w)(?p := Inr new)"
    and m': "m' = AList.update ?p
       \<lparr>m_action = Some action, m_target = ''admin'', m_sha = Some (sha new), m_sep = None\<rparr> m"
    using enable_insert_result [OF step src clean(1)] by metis
  have w1: "w1 = w'\<lparr>stored_state := SavedState (sort_key fst m')\<rparr>"
    and st: "\<not> readonly w' (path_join root STATE_FILE)"
    using save by (auto simp: save_state_def split: if_splits)
  have r1: "read_text w1 = (read_text w)(?p := Inr new)" and ro1: "readonly w1 = readonly w"
    using w' by (simp_all add: w1 read_text_def fun_eq_iff)
  have dm': "dict_ok m'"
    using state(2) by (simp add: m')
  let ?m1 = "sort_key fst m'"
  obtain w2 where rev: "revert sha root ?p [BEGIN_MARK] (w1, ?m1) = (Inr True, w2, AList.delete ?p ?m1)"
    and r2: "readonly w2 = readonly w1" "read_text w2 = (read_text w1)(?p :=
       if action = ''inserted'' then Inr (with_final_LF text) else Inl OSError)"
    using revert_inserted [of w1 ?p new root "text" "gates w root text" line ?m1 _ action sha]
      r1 ro1 w'(1) etc_polkit_path(2) new clean gates_block_line line service_source_no_CR [OF src]
      service_source_action [OF src] map_of_sort_key_fst [OF dm']
    by (fastforce simp: m')
  have "plan w1 root ''admin'' = Inr [(''polkit-1'', Insert)]"
    using r1 by (intro plan_admin) (simp add: read_text_isfile)
  moreover have "load_state w1 = Inr ?m1"
    by (simp add: w1 load_state_def)
  moreover have "\<not> readonly w2 (path_join root STATE_FILE)"
    using st w' r2 ro1 by simp
  ultimately have "disable sha root ''admin'' False w1
      = (Inr (), w2\<lparr>stored_state := SavedState (sort_key fst (AList.delete ?p ?m1))\<rparr>)"
    using rev by (simp add: disable_def disable_plan_def kind_path_def is_wallet_def save_state_def)
  then show ?thesis
    using r2 r1 by (auto simp: read_text_def fun_eq_iff)
qed

theorem enable_disable_admin_witness:
  "\<exists>w1 w2. enable (\<lambda>t. t) ''/'' ''admin'' None sample_world = (Inr (), w1)
    \<and> disable (\<lambda>t. t) ''/'' ''admin'' False w1 = (Inr (), w2)
    \<and> read_text w2 = (read_text sample_world)(etc_path ''/'' ''polkit-1'' := Inl OSError)"
proof -
  have src: "service_source sample_world ''/'' ''polkit-1'' = Inr (sample_service, ''copied'')"
    by code_simp
  have clean: "\<not> has_any_block sample_service" "\<not> starts_with sample_service OWN_HEADER"
    by code_simp+
  have state: "load_state sample_world = Inr []" "dict_ok ([] :: manifest)"
    by (simp_all add: load_state_def sample_world_def)
  have "fst (enable (\<lambda>t. t) ''/'' ''admin'' None sample_world) = Inr ()"
    by code_simp
  then obtain w1 where on: "enable (\<lambda>t. t) ''/'' ''admin'' None sample_world = (Inr (), w1)"
    by (metis prod.collapse)
  show ?thesis
    using enable_disable_admin [OF src clean state on] on by auto
qed

text \<open>
  What a service's stack is, by the syntax of PAM: the lines of its file, and where a line includes another
  service, the lines of that one's stack.
\<close>

definition pulled_in :: "string \<Rightarrow> string option" where
  "pulled_in l =
     (case split_ws l of
        kind # name # rest \<Rightarrow>
          if kind = ''@include'' then Some name
          else if lstrip_char (CHR ''-'') kind = ''auth'' \<and> name \<in> {''include'', ''substack''}
          then (case rest of service # _ \<Rightarrow> Some service | [] \<Rightarrow> None)
          else None
      | _ \<Rightarrow> None)"

inductive stack_line :: "pworld \<Rightarrow> string \<Rightarrow> string \<Rightarrow> string \<Rightarrow> bool" for w root where
  own: "l \<in> set (splitlines text) \<Longrightarrow> stack_line w root text l"
| included: "k \<in> set (splitlines text) \<Longrightarrow> pulled_in k = Some name \<Longrightarrow> find_service w root name = Some path \<Longrightarrow>
    read_text w path = Inr t \<Longrightarrow> stack_line w root t l \<Longrightarrow> stack_line w root text l"

text \<open>How deep the includes go. A loop has no depth, and PAM refuses it.\<close>

definition included_texts :: "pworld \<Rightarrow> string \<Rightarrow> string list \<Rightarrow> string list" where
  "included_texts w root ls =
     List.map_filter (\<lambda>l. Option.bind (pulled_in l) (\<lambda>name. Option.bind (find_service w root name) (\<lambda>path.
       case read_text w path of Inl _ \<Rightarrow> None | Inr t \<Rightarrow> Some t))) ls"

primrec includes_within :: "nat \<Rightarrow> pworld \<Rightarrow> string \<Rightarrow> string list \<Rightarrow> bool" where
  "includes_within 0 w root ls = (included_texts w root ls = [])"
| "includes_within (Suc n) w root ls = list_all (\<lambda>t. includes_within n w root (splitlines t)) (included_texts w root ls)"

text \<open>
  The checks a match must not skip: a required or requisite line of a module that refuses whom the administrator locked out. \<open>pam_faillock\<close> only
  checks with \<open>preauth\<close>.
\<close>

definition is_check :: "string \<Rightarrow> string \<Rightarrow> string \<Rightarrow> string list \<Rightarrow> bool" where
  "is_check l ctl module args \<longleftrightarrow>
     split_ws l \<in> {''auth'' # ctl # module # args, ''-auth'' # ctl # module # args} \<and> ctl \<in> {''required'', ''requisite''} \<and>
     (basename module \<in> {''pam_nologin.so'', ''pam_access.so'', ''pam_shells.so'', ''pam_securetty.so'', ''pam_listfile.so'', ''pam_time.so''} \<or>
      basename module = ''pam_faillock.so'' \<and> ''preauth'' \<in> set args)"

lemma included_service_pulled: "split_ws l \<noteq> [] \<Longrightarrow> included_service (split_ws l) = pulled_in l"
  by (cases "split_ws l" rule: remdups_adj.cases)
    (auto simp: included_service_def pulled_in_def lstrip_char_def split: list.splits)

lemma comment_pulls_nothing: "split_ws l = [] \<or> starts_with (hd (split_ws l)) ''#'' \<Longrightarrow> pulled_in l = None"
  by (auto simp: pulled_in_def lstrip_char_def prefix_def split: list.splits)

text \<open>The lines the scan hands out, and the files it looks into.\<close>

definition is_auth :: "string \<Rightarrow> bool" where
  "is_auth l \<longleftrightarrow> split_ws l \<noteq> [] \<and> lstrip_char (CHR ''-'') (hd (split_ws l)) = ''auth'' \<and> pulled_in l = None"

definition leads_to :: "pworld \<Rightarrow> string \<Rightarrow> string \<Rightarrow> string \<Rightarrow> string \<Rightarrow> bool" where
  "leads_to w root l path t \<longleftrightarrow>
     (\<exists>name. pulled_in l = Some name \<and> find_service w root name = Some path \<and> read_text w path = Inr t)"

lemma included_texts_iff: "t \<in> set (included_texts w root ls) \<longleftrightarrow> (\<exists>l \<in> set ls. \<exists>path. leads_to w root l path t)"
proof -
  let ?f = "\<lambda>l. Option.bind (pulled_in l) (\<lambda>name. Option.bind (find_service w root name) (\<lambda>path.
      case read_text w path of Inl _ \<Rightarrow> None | Inr t \<Rightarrow> Some t))"
  have "(\<exists>path. leads_to w root l path t) \<longleftrightarrow> ?f l = Some t" for l
    by (cases "pulled_in l"; cases "find_service w root (the (pulled_in l))";
        cases "read_text w (the (find_service w root (the (pulled_in l))))") (auto simp: leads_to_def)
  then show ?thesis
    by (force simp: included_texts_def List.map_filter_def image_iff)
qed

definition scan_found :: "pworld \<Rightarrow> string \<Rightarrow> string list \<Rightarrow> string list \<Rightarrow> string list \<Rightarrow> bool" where
  "scan_found w root xs seen ls \<longleftrightarrow>
     (\<forall>l \<in> set ls. (is_auth l \<longrightarrow> l \<in> set xs) \<and> (\<forall>path t. leads_to w root l path t \<longrightarrow> path \<in> set seen))"

lemma scan_found_mono: "scan_found w root xs seen ls \<Longrightarrow> set xs \<subseteq> set ys \<Longrightarrow> set seen \<subseteq> set seen' \<Longrightarrow> scan_found w root ys seen' ls"
  unfolding scan_found_def by blast

lemma includes_within_iff:
  "includes_within n w root ls \<longleftrightarrow>
     (\<forall>l \<in> set ls. \<forall>path t. leads_to w root l path t \<longrightarrow> n \<noteq> 0 \<and> includes_within (n - 1) w root (splitlines t))"
proof (cases n)
  case 0
  have "included_texts w root ls = [] \<longleftrightarrow> (\<forall>t. t \<notin> set (included_texts w root ls))"
    by (metis list.set_intros(1) neq_Nil_conv empty_iff empty_set)
  then show ?thesis
    using 0 by (auto simp: included_texts_iff)
next
  case (Suc m)
  have "includes_within n w root ls \<longleftrightarrow> (\<forall>t \<in> set (included_texts w root ls). includes_within m w root (splitlines t))"
    by (simp add: Suc list_all_iff)
  also have "\<dots> \<longleftrightarrow> (\<forall>l \<in> set ls. \<forall>path t. leads_to w root l path t \<longrightarrow> includes_within m w root (splitlines t))"
    unfolding Ball_def included_texts_iff by blast
  finally show ?thesis
    by (simp add: Suc)
qed

lemma scan_found_Cons:
  "scan_found w root xs seen (l # ls) \<longleftrightarrow> scan_found w root xs seen ls \<and> (is_auth l \<longrightarrow> l \<in> set xs) \<and>
     (\<forall>path t. leads_to w root l path t \<longrightarrow> path \<in> set seen)"
  by (auto simp: scan_found_def)

text \<open>All files of \<open>seen'\<close> but those of \<open>seen\<close> were scan_found.\<close>

definition scan_opened :: "pworld \<Rightarrow> string \<Rightarrow> string list \<Rightarrow> string list \<Rightarrow> string list \<Rightarrow> bool" where
  "scan_opened w root xs seen seen' \<longleftrightarrow>
     set seen \<subseteq> set seen' \<and>
     (\<forall>p t. p \<in> set seen' - set seen \<longrightarrow> read_text w p = Inr t \<longrightarrow> scan_found w root xs seen' (splitlines t))"

lemma scan_opened_trans:
  assumes "scan_opened w root xs s1 s2" "scan_opened w root ys s2 s3"
  shows "scan_opened w root (xs @ ys) s1 s3"
proof -
  have "scan_found w root (xs @ ys) s3 ls" if "scan_found w root xs s2 ls \<or> scan_found w root ys s3 ls" for ls
    using that assms(2) scan_found_mono [of w root xs s2 ls "xs @ ys" s3] scan_found_mono [of w root ys s3 ls "xs @ ys" s3]
    by (auto simp: scan_opened_def)
  then show ?thesis
    using assms unfolding scan_opened_def by blast
qed

lemma scan_opened_add: "scan_opened w root xs (p # s) s' \<Longrightarrow> read_text w p = Inr t \<Longrightarrow> scan_found w root xs s' (splitlines t) \<Longrightarrow>
    scan_opened w root xs s s'"
  by (auto simp: scan_opened_def)

lemma scan_opened_unreadable: "scan_opened w root xs (p # s) s' \<Longrightarrow> read_text w p = Inl e \<Longrightarrow> scan_opened w root xs s s'"
  by (auto simp: scan_opened_def)

lemma includes_within_Cons:
  "includes_within n w root (l # ls) \<longleftrightarrow> includes_within n w root ls \<and>
     (\<forall>path t. leads_to w root l path t \<longrightarrow> n \<noteq> 0 \<and> includes_within (n - 1) w root (splitlines t))"
  unfolding includes_within_iff [of n w root "l # ls"] includes_within_iff [of n w root ls]
  by (auto simp del: includes_within.simps)

lemma scan_complete:
  assumes "auth_scan w root n seen ls = (xs, seen')" and "includes_within n w root ls"
  shows "scan_found w root xs seen' ls \<and> scan_opened w root xs seen seen'"
  using assms
proof (induction w root n seen ls arbitrary: xs seen' rule: auth_scan.induct)
  case (2 w root n seen l ls)
  let ?parts = "split_ws l"
  have rest: "includes_within n w root ls"
    and deep: "leads_to w root l path t \<Longrightarrow> n \<noteq> 0 \<and> includes_within (n - 1) w root (splitlines t)" for path t
    using "2.prems"(2) includes_within_Cons [of n w root l ls] by blast+
  have skip: ?case if "scan_found w root xs seen' ls \<and> scan_opened w root xs seen seen'" and "\<not> is_auth l"
      and "\<And>path t. leads_to w root l path t \<Longrightarrow> path \<in> set seen"
    using that by (auto simp: scan_found_Cons scan_opened_def)
  show ?case
  proof (cases "?parts = [] \<or> starts_with (hd ?parts) ''#''")
    case True
    then have "auth_scan w root n seen ls = (xs, seen')" "\<not> is_auth l" "\<not> leads_to w root l path t" for path t
      using "2.prems"(1) comment_pulls_nothing [OF True] by (auto simp: is_auth_def leads_to_def lstrip_char_def prefix_def)
    then show ?thesis
      using skip "2.IH"(1) [OF refl True _ rest] by blast
  next
    case comment: False
    then have pulled: "included_service ?parts = pulled_in l"
      using included_service_pulled by blast
    note eq = "2.prems"(1) [unfolded auth_scan.simps Let_def if_not_P [OF comment] pulled]
    show ?thesis
    proof (cases "pulled_in l")
      case None
      have none: "\<not> leads_to w root l path t" for path t
        by (simp add: leads_to_def None)
      show ?thesis
      proof (cases "lstrip_char (CHR ''-'') (hd ?parts) = ''auth''")
        case True
        obtain ys where "auth_scan w root n seen ls = (ys, seen')" "xs = l # ys"
          using eq None True by (auto split: prod.splits)
        then have ih: "scan_found w root ys seen' ls \<and> scan_opened w root ys seen seen'"
          using "2.IH"(2) [OF refl comment _ True _ rest] pulled None by simp
        have wider: "scan_found w root xs seen' ks" if "scan_found w root ys seen' ks" for ks
          using that \<open>xs = l # ys\<close> by (auto intro: scan_found_mono)
        have "scan_found w root xs seen' (l # ls)"
          using ih wider none \<open>xs = l # ys\<close> by (simp add: scan_found_Cons)
        then show ?thesis
          using ih wider unfolding scan_opened_def by blast
      next
        case False
        then have "auth_scan w root n seen ls = (xs, seen')" "\<not> is_auth l"
          using eq None by (simp_all add: is_auth_def)
        then show ?thesis
          using skip "2.IH"(3) [OF refl comment _ False _ rest] pulled None none by simp
      qed
    next
      case (Some name)
      then have na: "\<not> is_auth l"
        by (simp add: is_auth_def)
      show ?thesis
      proof (cases "find_service w root name")
        case None
        then have "auth_scan w root n seen ls = (xs, seen')" "\<not> leads_to w root l path t" for path t
          using eq Some by (simp_all add: leads_to_def)
        then show ?thesis
          using skip na "2.IH"(4) [OF refl comment _ None _ rest] pulled Some by simp
      next
        case path: (Some path)
        have only: "leads_to w root l p t \<longleftrightarrow> p = path \<and> read_text w path = Inr t" for p t
          using Some path by (auto simp: leads_to_def)
        show ?thesis
        proof (cases "path \<in> set seen \<or> n = 0")
          case True
          then have "auth_scan w root n seen ls = (xs, seen')"
            using eq Some path by simp
          then show ?thesis
            using skip na "2.IH"(5) [OF refl comment _ path True _ rest] pulled Some only deep True by metis
        next
          case new: False
          show ?thesis
          proof (cases "read_text w path")
            case (Inl e)
            then have "auth_scan w root n (path # seen) ls = (xs, seen')"
              using eq Some path new by simp
            then have ih: "scan_found w root xs seen' ls \<and> scan_opened w root xs (path # seen) seen'"
              using "2.IH"(6) [OF refl comment _ path new Inl _ rest] pulled Some by simp
            then show ?thesis
              using skip na only Inl scan_opened_unreadable by fastforce
          next
            case (Inr t)
            obtain us s1 vs where run: "auth_scan w root (n - 1) (path # seen) (splitlines t) = (us, s1)"
                "auth_scan w root n s1 ls = (vs, seen')" "xs = us @ vs"
              using eq Some path new Inr by (auto split: prod.splits)
            have "scan_found w root us s1 (splitlines t) \<and> scan_opened w root us (path # seen) s1"
              using "2.IH"(7) [OF refl comment _ path new Inr run(1)] pulled Some deep [of path t] only Inr by simp
            moreover have later: "scan_found w root vs seen' ls \<and> scan_opened w root vs s1 seen'"
              using "2.IH"(8) [OF refl comment _ path new Inr refl _ run(2) rest] run(1) pulled Some by simp
            ultimately have files: "scan_opened w root xs (path # seen) seen'" and t: "scan_found w root xs seen' (splitlines t)"
                and ls: "scan_found w root xs seen' ls"
              using scan_opened_trans [of w root us "path # seen" s1 vs seen'] scan_found_mono [of w root us s1 "splitlines t" xs seen']
                scan_found_mono [of w root vs seen' ls xs seen'] run(3) by (auto simp: scan_opened_def)
            have "scan_opened w root xs seen seen'"
              by (rule scan_opened_add [OF files Inr t])
            moreover have "path \<in> set seen'"
              using files by (simp add: scan_opened_def)
            ultimately show ?thesis
              using ls na only by (simp add: scan_found_Cons)
          qed
        qed
      qed
    qed
  qed
qed (simp add: scan_found_def scan_opened_def)

text \<open>So each check of the stack is handed out, and has its copy.\<close>

lemma is_check_cases:
  assumes "is_check l ctl module args"
  obtains kind where "split_ws l = kind # ctl # module # args" "lstrip_char (CHR ''-'') kind = ''auth''" "kind \<noteq> ''@include''"
    "ctl = ''required'' \<or> ctl = ''requisite''"
    "map_of GATES (basename module) = Some None \<or> map_of GATES (basename module) = Some (Some ''preauth'') \<and> ''preauth'' \<in> set args"
proof -
  from assms obtain kind where l: "split_ws l = kind # ctl # module # args" "kind = ''auth'' \<or> kind = ''-auth''"
    by (auto simp: is_check_def)
  have "map_of GATES (basename module) = Some None \<or> map_of GATES (basename module) = Some (Some ''preauth'') \<and> ''preauth'' \<in> set args"
    using assms unfolding is_check_def GATES_def by (elim conjE disjE insertE) simp_all
  then show thesis
    using that [OF l(1)] l(2) assms by (auto simp: is_check_def lstrip_char_def)
qed

lemma is_check_is_auth: "is_check l ctl module args \<Longrightarrow> is_auth l"
  by (erule is_check_cases) (auto simp: is_auth_def pulled_in_def)

lemma check_gate_line:
  "is_check l ctl module args \<Longrightarrow> gate_line l = Some (''-auth'' @ [TAB] @ ctl @ [TAB] @ join '' '' (module # args))"
  by (erule is_check_cases) (auto simp: gate_line_def Let_def)

lemma stack_line_scanned:
  assumes "stack_line w root text l" and "scan_opened w root xs [] seen" and "scan_found w root xs seen (splitlines text)"
    and "is_auth l"
  shows "l \<in> set xs"
  using assms
proof (induction rule: stack_line.induct)
  case (included k path_text name path t l)
  have "leads_to w root k path t"
    using included.hyps by (simp add: leads_to_def)
  then have "path \<in> set seen"
    using included.hyps(1) included.prems(2) unfolding scan_found_def by blast
  then have "scan_found w root xs seen (splitlines t)"
    using included.prems(1) included.hyps(4) by (simp add: scan_opened_def)
  then show ?case
    using included by blast
qed (simp add: scan_found_def)

lemma stack_check_copied:
  assumes "stack_line w root text l" "is_check l ctl module args" "includes_within MAX_INCLUDE_DEPTH w root (splitlines text)"
    and "\<not> has_any_block text"
  shows "''-auth'' @ [TAB] @ ctl @ [TAB] @ join '' '' (module # args) \<in> set (gates w root text)"
proof -
  obtain xs seen where run: "auth_scan w root MAX_INCLUDE_DEPTH [] (splitlines text) = (xs, seen)"
    by (cases "auth_scan w root MAX_INCLUDE_DEPTH [] (splitlines text)")
  have "remove_block text BEGINS = text"
    using no_block_text [OF assms(4)] by (intro remove_block_id) (simp add: BEGINS_def has_block_def mark_chars)
  moreover have "l \<in> set xs"
    using stack_line_scanned [OF assms(1)] scan_complete [OF run assms(3)] is_check_is_auth [OF assms(2)] by blast
  ultimately have "l \<in> set (auth_lines w root (remove_block text BEGINS))"
    using run by (simp add: auth_lines_def)
  then show ?thesis
    by (rule gates_complete) (rule check_gate_line [OF assms(2)])
qed

text \<open>
  C15. Where face unlock is written into a service file, it comes behind the checks that a match must not skip. The service's auth stack is what PAM
  reads: the lines of its file and, behind each include or substack, those of the included service, at most eight deep. Each line of that
  stack that requires (required or requisite) one of pam_nologin, pam_access, pam_shells, pam_securetty, pam_listfile, pam_time, or pam_faillock
  with preauth has its copy in our block, with its control and all its arguments, in front of our module; and no auth line stands before the
  block. Lines with a bracketed control, and other modules, are not copied.
\<close>

theorem enabled_behind_checks:
  assumes src: "service_source w root service = Inr (text, action)"
    and clean: "\<not> has_any_block text"
    and deep: "includes_within MAX_INCLUDE_DEPTH w root (splitlines text)"
    and run: "enable_insert sha root service target (w, m) = (Inr (), w', m')"
  shows "\<exists>before after line copies.
      read_text w' (etc_path root service)
        = Inr (concat before @ concat (map (\<lambda>l. l @ [LF]) (BEGIN_MARK # copies @ [line, END_MARK])) @ concat after)
      \<and> line \<in> {INSERT_LINE, LOGIN_INSERT_LINE}
      \<and> (\<forall>l \<in> set before. \<not> is_auth_line l)
      \<and> (\<forall>l ctl module args. stack_line w root text l \<longrightarrow> is_check l ctl module args \<longrightarrow>
           ''-auth'' @ [TAB] @ ctl @ [TAB] @ join '' '' (module # args) \<in> set copies)"
proof -
  obtain line new where line: "line \<in> {INSERT_LINE, LOGIN_INSERT_LINE}"
    and new: "insert_block text (gates w root text) line = Inr new"
    and w': "read_text w' = (read_text w)(etc_path root service := Inr new)"
    using enable_insert_result [OF run src clean] by metis
  have nb: "\<not> has_block text BEGIN_MARK"
    using no_block_text [OF clean] by simp
  obtain xs ys where split: "split_auth (end_last_line (splitlines_keep text)) = Some (xs, ys)"
    and n: "new = concat xs @ concat (map (\<lambda>l. l @ [LF]) (BEGIN_MARK # gates w root text @ [line, END_MARK])) @ concat ys"
    using new nb by (auto simp: insert_block_def Let_def split: option.splits)
  have "\<forall>l \<in> set xs. \<not> is_auth_line l"
    using split_auth_Some [OF split] by simp
  moreover have "\<forall>l ctl module args. stack_line w root text l \<longrightarrow> is_check l ctl module args \<longrightarrow>
      ''-auth'' @ [TAB] @ ctl @ [TAB] @ join '' '' (module # args) \<in> set (gates w root text)"
    using stack_check_copied [OF _ _ deep clean] by blast
  moreover have "read_text w' (etc_path root service) = Inr new"
    by (simp add: w')
  ultimately show ?thesis
    using line unfolding n by blast
qed

theorem enabled_behind_checks_witness:
  "\<exists>r. enable_insert (\<lambda>t. t) ''/'' ''polkit-1'' ''admin'' (sample_world, []) = r
    \<and> (\<exists>before after line copies. read_text (fst (snd r)) (etc_path ''/'' ''polkit-1'')
        = Inr (concat before @ concat (map (\<lambda>l. l @ [LF]) (BEGIN_MARK # copies @ [line, END_MARK])) @ concat after)
      \<and> ''-auth'' @ [TAB] @ ''required'' @ [TAB] @ ''pam_faillock.so preauth'' \<in> set copies)"
proof -
  let ?check = "''auth required pam_faillock.so preauth''"
  have src: "service_source sample_world ''/'' ''polkit-1'' = Inr (sample_service, ''copied'')"
    by code_simp
  have clean: "\<not> has_any_block sample_service"
    by code_simp
  have deep: "includes_within MAX_INCLUDE_DEPTH sample_world ''/'' (splitlines sample_service)"
    by code_simp
  have "fst (enable_insert (\<lambda>t. t) ''/'' ''polkit-1'' ''admin'' (sample_world, [])) = Inr ()"
    by code_simp
  then obtain w' m' where run:
    "enable_insert (\<lambda>t. t) ''/'' ''polkit-1'' ''admin'' (sample_world, []) = (Inr (), w', m')"
    by (metis prod.collapse)
  have lines: "splitlines sample_service = [''#%PAM-1.0'', ''auth include system-login'']" "splitlines (?check @ [LF]) = [?check]"
    by code_simp+
  have own: "stack_line sample_world ''/'' (?check @ [LF]) ?check"
    by (rule own, subst lines(2)) simp
  have "pulled_in ''auth include system-login'' = Some ''system-login''"
      "find_service sample_world ''/'' ''system-login'' = Some ''/etc/pam.d/system-login''"
      "read_text sample_world ''/etc/pam.d/system-login'' = Inr (?check @ [LF])"
    by code_simp+
  from included [OF _ this own] have "stack_line sample_world ''/'' sample_service ?check"
    by (simp add: lines(1))
  moreover have "is_check ?check ''required'' ''pam_faillock.so'' [''preauth'']"
    by code_simp
  ultimately show ?thesis
    using enabled_behind_checks [OF src clean deep run] run by fastforce
qed

section \<open>Reset leaves nothing behind\<close>

lemma split_ws_sublist: "w \<in> set (split_ws s) \<Longrightarrow> sublist w s"
proof (induction s rule: split_ws.induct)
  case (1 s)
  have suf: "suffix (dropWhile is_space s) s"
    by (rule suffix_dropWhile)
  show ?case
  proof (cases "dropWhile is_space s")
    case Nil
    then have "split_ws s = []"
      by (subst split_ws.simps) (simp only: list.case)
    then show ?thesis
      using "1.prems" by simp
  next
    case (Cons c cs)
    have split: "split_ws s = (c # takeWhile (\<lambda>d. \<not> is_space d) cs)
        # split_ws (dropWhile (\<lambda>d. \<not> is_space d) cs)"
      using Cons by (subst split_ws.simps) (simp only: list.case)
    have "sublist (c # cs) s"
      using suf Cons by (simp add: suffix_imp_sublist)
    moreover have "sublist (c # takeWhile (\<lambda>d. \<not> is_space d) cs) (c # cs)"
      by (rule prefix_imp_sublist) (simp add: takeWhile_is_prefix)
    moreover have "sublist (dropWhile (\<lambda>d. \<not> is_space d) cs) (c # cs)"
      by (rule suffix_imp_sublist) (simp add: suffix_ConsI suffix_dropWhile)
    ultimately show ?thesis
      using "1.prems" "1.IH" [OF Cons] split sublist_order.order_trans by fastforce
  qed
qed

lemma ours_contains: "ours l \<Longrightarrow> contains l MODULE"
proof -
  assume "ours l"
  then obtain m where m: "snd (module_of l) = Some m" "basename m = MODULE"
    by (auto simp: ours_def split: option.splits)
  have skip: "set (skip_control ws) \<subseteq> set ws" for ws
    unfolding skip_control_def by (auto dest!: set_dropWhileD in_set_tl split: if_splits)
  have "m \<in> set (split_ws (strip l))"
  proof (cases "starts_with (strip l) ''@include''")
    case True
    then show ?thesis
      using m(1) by (auto simp: module_of_def Let_def split: if_splits)
  next
    case False
    then have "m \<in> set (skip_control (tl (split_ws (strip l))))"
      using m(1) by (auto simp: module_of_def Let_def split: if_splits)
    then show ?thesis
      using skip [of "tl (split_ws (strip l))"] by (auto dest: in_set_tl)
  qed
  then have "sublist m l"
    using split_ws_sublist sublist_strip sublist_order.order_trans by blast
  moreover have "sublist (basename m) m"
  proof (rule suffix_imp_sublist)
    have "prefix (takeWhile (\<lambda>c. c \<noteq> SLASH) (rev m)) (rev m)"
      by (rule takeWhile_is_prefix)
    then show "suffix (basename m) m"
      by (simp add: basename_def suffix_to_prefix)
  qed
  ultimately show ?thesis
    using m(2) sublist_order.order_trans by metis
qed

lemma splitlines_keep_filter:
  "splitlines_keep (concat ls) = ls \<Longrightarrow> CR \<notin> set (concat ls) \<Longrightarrow>
   splitlines_keep (concat (filter P ls)) = filter P ls"
proof (induction ls)
  case (Cons l ls)
  have parts: "splitlines_keep l = [l]" "splitlines_keep (concat ls) = ls"
    "ls \<noteq> [] \<longrightarrow> line_end l (concat ls)"
    using splitlines_keep_take_drop [of "concat (l # ls)" "[l]" ls] Cons.prems(1) by auto
  have IH: "splitlines_keep (concat (filter P ls)) = filter P ls"
    using Cons.IH parts Cons.prems by simp
  show ?case
  proof (cases "ls = [] \<or> \<not> P l")
    case True
    then show ?thesis
      using parts IH by auto
  next
    case False
    have "l \<noteq> [] \<longrightarrow> last l \<noteq> CR"
      using Cons.prems(2) last_in_set by fastforce
    then have "line_end l (concat (filter P ls))"
      using False parts by (auto simp: line_end_def)
    then show ?thesis
      using False parts IH by (simp add: splitlines_keep_append)
  qed
qed simp

lemma remove_legacy_clean:
  assumes "CR \<notin> set s" and "l \<in> set (splitlines_keep (remove_legacy_lines s))"
  shows "\<not> ours l"
  using assms splitlines_keep_filter [of "splitlines_keep s"] by (auto simp: remove_legacy_lines_def)

lemma remove_scan_set:
  "set (remove_scan begins blk ls) \<subseteq> set ls \<union> (case blk of None \<Rightarrow> {} | Some b \<Rightarrow> set b)"
  by (induction begins blk ls rule: remove_scan.induct) auto

lemma remove_block_chars: "set (remove_block text begins) \<subseteq> set text"
  using remove_scan_set [of begins None "splitlines_keep text"] splitlines_keep_chars [of _ "text"]
  by (auto simp: remove_block_def)

lemma remove_legacy_chars: "set (remove_legacy_lines text) \<subseteq> set text"
  using splitlines_keep_chars [of _ "text"] by (auto simp: remove_legacy_lines_def)

text \<open>No line of the file at \<open>p\<close> loads our module, if it can be read.\<close>

definition readable_free :: "pworld \<Rightarrow> string \<Rightarrow> bool" where
  "readable_free w p \<longleftrightarrow> (\<forall>t. read_text w p = Inr t \<longrightarrow> (\<forall>l \<in> set (splitlines_keep t). \<not> ours l))"

lemma not_contains_readable_free:
  "read_text w p = Inr t \<Longrightarrow> \<not> contains t MODULE \<Longrightarrow> readable_free w p"
proof -
  assume t: "read_text w p = Inr t" "\<not> contains t MODULE"
  have "\<not> ours l" if "l \<in> set (splitlines_keep t)" for l
  proof
    assume "ours l"
    then have "contains l MODULE"
      by (rule ours_contains)
    moreover have "contains t l"
      using that concat_splitlines_keep [of t] split_list [of l "splitlines_keep t"]
      by (metis concat.simps(2) concat_append sublist_appendI)
    ultimately show False
      using t(2) sublist_order.order_trans by blast
  qed
  then show ?thesis
    using t(1) by (simp add: readable_free_def)
qed

lemma clean_service_only_writes: "clean_service p w = (r, w') \<Longrightarrow> only_writes {p} w w'"
  unfolding clean_service_def Let_def
  by (auto split: if_splits sum.splits prod.splits dest: write_text_only_writes remove_file_only_writes)

lemma clean_service_free:
  assumes "clean_service p w = (Inr c, w')"
  shows "readable_free w' p"
proof -
  have gone: "remove_file p w = (Inr (), w1) \<Longrightarrow> readable_free w1 p" for w1
    by (auto simp: remove_file_def readable_free_def read_text_def split: if_splits)
  have "readable_free w' p" if t: "read_text w p = Inr t"
    and eq: "cleaned = remove_legacy_lines (remove_block t BEGINS)"
    and fin: "(if cleaned \<noteq> t then write_text p cleaned 420 w = (Inr (), w') else w' = w)" for t cleaned
  proof -
    have cr: "CR \<notin> set (remove_block t BEGINS)"
      using read_text_no_CR [OF t] remove_block_chars by blast
    then have "CR \<notin> set cleaned"
      using remove_legacy_chars eq by blast
    then have "read_text w' p = Inr cleaned"
      using fin t write_text_ok [of w p cleaned 420]
      by (auto simp: write_text_def split: if_splits)
    then show ?thesis
      using remove_legacy_clean [OF cr] eq by (auto simp: readable_free_def)
  qed
  moreover have "readable_free w p" if "read_text w p = Inl e" for e
    using that by (simp add: readable_free_def)
  moreover have "\<not> isfile w p \<Longrightarrow> readable_free w p"
    using read_text_OSError [of w p] by (simp add: readable_free_def)
  ultimately show ?thesis
    using assms gone not_contains_readable_free unfolding clean_service_def Let_def
    by (auto split: if_splits sum.splits prod.splits)
qed

lemma readable_free_frame: "only_writes {q} w w' \<Longrightarrow> q \<noteq> p \<Longrightarrow> readable_free w' p = readable_free w p"
proof -
  assume "only_writes {q} w w'" and "q \<noteq> p"
  then have "map_of (pfiles w') p = map_of (pfiles w) p"
    unfolding only_writes_def by (metis singletonD)
  then show ?thesis
    by (simp add: readable_free_def read_text_def)
qed

lemma clean_services_free:
  "clean_services ps w = (Inr cs, w') \<Longrightarrow> p \<in> set ps \<or> readable_free w p \<Longrightarrow> readable_free w' p"
proof (induction ps arbitrary: w cs)
  case (Cons q ps)
  obtain c w1 where step: "clean_service q w = (Inr c, w1)"
    using Cons.prems(1) by (auto split: prod.splits sum.splits)
  obtain cs1 where rest: "clean_services ps w1 = (Inr cs1, w')"
    using Cons.prems(1) step by (auto split: prod.splits sum.splits)
  have "p \<in> set ps \<or> readable_free w1 p"
  proof (cases "q = p")
    case True
    then show ?thesis
      using clean_service_free [OF step] by simp
  next
    case False
    then show ?thesis
      using Cons.prems(2) readable_free_frame [OF clean_service_only_writes [OF step]] by auto
  qed
  then show ?case
    using Cons.IH [OF rest] by simp
qed auto

text \<open>Operations that only change or delete files never bring one into being, and what they write is UTF-8.\<close>

definition no_new_files :: "pworld \<Rightarrow> pworld \<Rightarrow> bool" where
  "no_new_files w w' \<longleftrightarrow> (\<forall>p. isfile w' p \<longrightarrow> isfile w p) \<and>
     (\<forall>p f. map_of (pfiles w') p = Some f \<longrightarrow> \<not> utf8 f \<longrightarrow> map_of (pfiles w) p = Some f)"

lemma no_new_files_refl [simp]: "no_new_files w w"
  by (simp add: no_new_files_def)

lemma no_new_files_trans: "no_new_files w1 w2 \<Longrightarrow> no_new_files w2 w3 \<Longrightarrow> no_new_files w1 w3"
  by (simp add: no_new_files_def)

lemma write_text_no_new: "isfile w p \<Longrightarrow> write_text p t md w = (r, w') \<Longrightarrow> no_new_files w w'"
  by (auto simp: write_text_def no_new_files_def isfile_def Let_def split: if_splits)

lemma remove_file_no_new: "remove_file p w = (r, w') \<Longrightarrow> no_new_files w w'"
  by (auto simp: remove_file_def no_new_files_def isfile_def split: if_splits)

lemma forget_main_no_new: "forget_main_autologin root user w = (r, w') \<Longrightarrow> no_new_files w w'"
  by (auto simp: forget_main_autologin_def Let_def split: option.splits if_splits sum.splits
      dest: write_text_no_new)

lemma isfile_after_forget:
  assumes "forget_main_autologin root user w = (r, w')"
  shows "isfile w' p = isfile w p"
proof (cases "w' = w")
  case False
  then obtain t md where wr: "write_text (path_join root AUTOLOGIN_MAIN) t md w = (r, w')"
    and isf: "isfile w (path_join root AUTOLOGIN_MAIN)"
    using assms by (auto simp: forget_main_autologin_def Let_def split: option.splits if_splits sum.splits)
  then show ?thesis
    by (auto simp: write_text_def isfile_def Let_def split: if_splits)
qed simp

lemma revert_no_new: "revert sha root path begins s = (r, s') \<Longrightarrow> no_new_files (fst s) (fst s')"
proof -
  assume run: "revert sha root path begins s = (r, s')"
  show ?thesis
  proof (cases "isfile (fst s) path \<and> (\<exists>t. read_text (fst s) path = Inr t)")
    case False
    then show ?thesis
      using run by (auto simp: revert_def Let_def split: if_splits sum.splits)
  next
    case True
    then obtain t where isf: "isfile (fst s) path" and t: "read_text (fst s) path = Inr t"
      by blast
    obtain r1 w1 where w1: "(if path = path_join root AUTOLOGIN_FILE
        then forget_main_autologin root (map_of (ini_group t ''Autologin'') ''User'') (fst s)
        else (Inr (), fst s)) = (r1, w1)"
      by fastforce
    then have n1: "no_new_files (fst s) w1" and isf1: "isfile w1 path"
      using isf isfile_after_forget forget_main_no_new by (auto split: if_splits)
    have wr: "write_text path u 420 w1 = (r2, w2) \<Longrightarrow> no_new_files w1 w2" for u r2 w2
      by (rule write_text_no_new [OF isf1])
    have "no_new_files w1 (fst s')"
      using run isf unfolding revert_def Let_def t sum.case w1 if_True
      by (cases r1) (auto split: if_splits prod.splits sum.splits option.splits
          dest: wr remove_file_no_new)
    then show ?thesis
      using n1 no_new_files_trans by blast
  qed
qed

lemma revert_all_no_new: "revert_all sha root ps s = (r, s') \<Longrightarrow> no_new_files (fst s) (fst s')"
proof (induction ps arbitrary: s r)
  case (Cons pb ps)
  obtain path begins where pb: "pb = (path, begins)"
    by (cases pb)
  obtain r1 s1 where step: "revert sha root path begins s = (r1, s1)"
    by (cases "revert sha root path begins s")
  have n1: "no_new_files (fst s) (fst s1)"
    by (rule revert_no_new [OF step])
  show ?case
  proof (cases r1)
    case (Inl e)
    then show ?thesis
      using Cons.prems pb step n1 by simp
  next
    case (Inr c)
    then obtain r2 where "revert_all sha root ps s1 = (r2, s')"
      using Cons.prems pb step by (auto split: prod.splits sum.splits)
    then show ?thesis
      using Cons.IH n1 no_new_files_trans by blast
  qed
qed simp

lemma clean_service_no_new: "clean_service p w = (r, w') \<Longrightarrow> no_new_files w w'"
  unfolding clean_service_def Let_def
  by (auto split: if_splits sum.splits prod.splits dest: write_text_no_new remove_file_no_new)

lemma clean_services_no_new: "clean_services ps w = (r, w') \<Longrightarrow> no_new_files w w'"
  by (induction ps arbitrary: w r)
    (fastforce split: prod.splits sum.splits dest: clean_service_no_new intro: no_new_files_trans)+

lemma reset_kde_config_props:
  assumes "reset_kde_config root w = (r, w')"
  shows "no_new_files w w' \<and> only_writes {path_join root KSCREENLOCKER_CONFIG} w w'"
  using assms unfolding reset_kde_config_def Let_def
  by (auto split: if_splits sum.splits prod.splits
      dest: write_text_no_new remove_file_no_new write_text_only_writes remove_file_only_writes)

lemma in_dir_names:
  assumes "isfile w p" and "p = path_join d (basename p)"
  shows "basename p \<in> set (dir_names w d)"
proof -
  obtain f where "map_of (pfiles w) p = Some f"
    using assms(1) by (auto simp: isfile_def)
  then have "p \<in> fst ` set (pfiles w)"
    by (force dest: map_of_SomeD)
  then show ?thesis
    using assms(2) by (auto simp: dir_names_def)
qed

lemma reset_autologin_gone:
  assumes "reset_autologin root w = (Inr c, w')"
  shows "\<not> isfile w' (path_join root AUTOLOGIN_FILE)"
proof (cases "isfile w (path_join root AUTOLOGIN_FILE)")
  case True
  then obtain w1 r where "remove_file (path_join root AUTOLOGIN_FILE) w1 = (Inr r, w')"
    using assms by (auto simp: reset_autologin_def Let_def split: sum.splits prod.splits)
  then show ?thesis
    by (auto simp: remove_file_def isfile_def split: if_splits)
next
  case False
  then show ?thesis
    using assms by (simp add: reset_autologin_def)
qed

lemma reset_autologin_no_new: "reset_autologin root w = (r, w') \<Longrightarrow> no_new_files w w'"
  unfolding reset_autologin_def Let_def
  by (auto split: if_splits sum.splits prod.splits dest!: forget_main_no_new remove_file_no_new intro: no_new_files_trans)

lemma etc_dir_props: "path_join root ETC_DIR \<noteq> []" "\<not> ends_with (path_join root ETC_DIR) [SLASH]"
  by (auto simp: path_join_def ETC_DIR_def suffix_def append_eq_append_conv2 append_eq_Cons_conv)

lemma kde_config_not_service:
  assumes "SLASH \<notin> set name"
  shows "path_join (path_join root ETC_DIR) name \<noteq> path_join root KSCREENLOCKER_CONFIG"
proof
  assume eq: "path_join (path_join root ETC_DIR) name = path_join root KSCREENLOCKER_CONFIG"
  have n: "\<not> starts_with name [SLASH]"
    using assms by (auto simp: prefix_def)
  have "path_join (path_join root ETC_DIR) name = path_join root (ETC_DIR @ SLASH # name)"
    using n etc_dir_props [of root] by (auto simp: path_join_def ETC_DIR_def)
  then have "ETC_DIR @ SLASH # name = KSCREENLOCKER_CONFIG"
    using eq path_join_inj [of root "ETC_DIR @ SLASH # name" KSCREENLOCKER_CONFIG]
    by (simp add: ETC_DIR_def KSCREENLOCKER_CONFIG_def)
  then show False
    by (simp add: ETC_DIR_def KSCREENLOCKER_CONFIG_def)
qed

text \<open>The file at \<open>p\<close>, if there is one, is text and no line of it loads our module.\<close>

definition module_free :: "pworld \<Rightarrow> string \<Rightarrow> bool" where
  "module_free w p \<longleftrightarrow>
     (\<forall>f. map_of (pfiles w) p = Some f \<longrightarrow> utf8 f \<and> (\<forall>l \<in> set (splitlines_keep (universal_newlines (raw f))). \<not> ours l))"

text \<open>A file that is not UTF-8, which \<open>reset\<close> cannot read: it is the same byte for byte.\<close>

definition foreign_unchanged :: "pworld \<Rightarrow> pworld \<Rightarrow> string \<Rightarrow> bool" where
  "foreign_unchanged w w' p \<longleftrightarrow> (\<exists>f. map_of (pfiles w') p = Some f \<and> \<not> utf8 f \<and> map_of (pfiles w) p = Some f)"

lemma reset_clean:
  assumes run: "reset sha root w = (Inr changed, w')"
    and name: "SLASH \<notin> set name"
  shows "\<not> isfile w' (path_join root AUTOLOGIN_FILE)
    \<and> (module_free w' (path_join (path_join root ETC_DIR) name) \<or> foreign_unchanged w w' (path_join (path_join root ETC_DIR) name))"
proof -
  let ?etc = "path_join root ETC_DIR" and ?auto = "path_join root AUTOLOGIN_FILE"
  obtain c1 w1 where s1: "reset_autologin root w = (Inr c1, w1)"
    using run by (auto simp: reset_def split: prod.splits sum.splits)
  define m where "m = (case load_state w1 of Inl _ \<Rightarrow> [] | Inr m \<Rightarrow> m)"
  note unfold = reset_def s1 prod.case sum.case Let_def m_def [symmetric]
  obtain c2 w2 m2 where
    s2: "revert_all sha root (map (\<lambda>p. (p, BEGINS)) (map fst m)) (w1, m) = (Inr c2, w2, m2)"
    using run unfolding unfold by (auto split: prod.splits sum.splits)
  obtain c3 w3 where
    s3: "clean_services (map (path_join ?etc) (dir_names w2 ?etc)) w2 = (Inr c3, w3)"
    using run unfolding unfold s2 by (auto split: prod.splits sum.splits)
  obtain c4 w4 where s4: "reset_kde_config root w3 = (Inr c4, w4)"
    using run unfolding unfold s2 s3 by (auto split: prod.splits sum.splits)
  have s5: "save_state root m2 w4 = (Inr (), w')"
    using run unfolding unfold s2 s3 s4 by (auto split: prod.splits sum.splits)
  have same: "pfiles w' = pfiles w4"
    using s5 by (auto simp: save_state_def split: if_splits)
  have "\<not> isfile w1 ?auto"
    by (rule reset_autologin_gone [OF s1])
  moreover have "no_new_files w1 w4"
    using revert_all_no_new [OF s2] clean_services_no_new [OF s3] reset_kde_config_props [OF s4]
    by (auto intro: no_new_files_trans)
  ultimately have auto: "\<not> isfile w' ?auto"
    using same by (auto simp: no_new_files_def isfile_def)
  have "no_new_files w w4"
    using reset_autologin_no_new [OF s1] \<open>no_new_files w1 w4\<close> no_new_files_trans by blast
  let ?p = "path_join ?etc name"
  have "readable_free w3 ?p"
  proof (cases "isfile w2 ?p")
    case True
    then have "name \<in> set (dir_names w2 ?etc)"
      using in_dir_names [of w2 ?p ?etc] basename_join [OF name] by simp
    then show ?thesis
      using clean_services_free [OF s3] by auto
  next
    case False
    then have "readable_free w2 ?p"
      using read_text_OSError [of w2 ?p] by (simp add: readable_free_def)
    then show ?thesis
      using clean_services_free [OF s3] by blast
  qed
  then have "readable_free w4 ?p"
    using readable_free_frame reset_kde_config_props [OF s4] kde_config_not_service [OF name] by metis
  then have "module_free w' ?p \<or> (\<exists>f. map_of (pfiles w') ?p = Some f \<and> \<not> utf8 f)"
    using same by (auto simp: readable_free_def module_free_def read_text_def split: option.splits)
  then show ?thesis
    using auto same \<open>no_new_files w w4\<close> by (auto simp: foreign_unchanged_def no_new_files_def)
qed

text \<open>
  C13. After a reset that ends without an error, whatever the manifest says or lacks: the drop-in that logs in at boot is gone, and each file in the
  PAM directory is either text without a line that loads our module, or it is not UTF-8. A file that is not UTF-8 the reset passes over: it is
  byte for byte the one that was there before, with our module in it if it had it.
\<close>

theorem reset_leaves_nothing:
  assumes "reset sha root w = (Inr changed, w')" and "SLASH \<notin> set name"
  shows "\<not> isfile w' (path_join root AUTOLOGIN_FILE)
    \<and> (module_free w' (path_join (path_join root ETC_DIR) name) \<or> foreign_unchanged w w' (path_join (path_join root ETC_DIR) name))"
  using assms by (rule reset_clean)

theorem reset_leaves_nothing_witness:
  "\<exists>changed w'. reset (\<lambda>t. t) ''/'' (snd (enable (\<lambda>t. t) ''/'' ''admin'' None sample_world)) = (Inr changed, w')
    \<and> module_free w' (path_join (path_join ''/'' ETC_DIR) ''polkit-1'')"
proof -
  let ?w = "snd (enable (\<lambda>t. t) ''/'' ''admin'' None sample_world)"
  have "isl (fst (reset (\<lambda>t. t) ''/'' ?w)) = False"
    by code_simp
  then obtain changed w' where run: "reset (\<lambda>t. t) ''/'' ?w = (Inr changed, w')"
    by (cases "reset (\<lambda>t. t) ''/'' ?w"; cases "fst (reset (\<lambda>t. t) ''/'' ?w)") auto
  have "SLASH \<notin> set ''polkit-1''"
    by simp
  moreover have "case map_of (pfiles ?w) (path_join (path_join ''/'' ETC_DIR) ''polkit-1'') of Some f \<Rightarrow> utf8 f | None \<Rightarrow> True"
    by code_simp
  then have "\<not> foreign_unchanged ?w w' (path_join (path_join ''/'' ETC_DIR) ''polkit-1'')"
    by (auto simp: foreign_unchanged_def)
  ultimately show ?thesis
    using reset_leaves_nothing [OF run] run by blast
qed

text \<open>
  A service file with one byte that is not UTF-8 keeps loading the module after \<open>reset\<close>, which reports success.
\<close>

theorem reset_passes_over_foreign:
  "\<exists>w'. reset (\<lambda>t. t) ''/'' \<lparr>pfiles = [(''/etc/pam.d/sudo'', \<lparr>raw = INSERT_LINE @ [LF], utf8 = False, fmode = 420\<rparr>)],
      readonly = (\<lambda>_. False), stored_state = NoState\<rparr> = (Inr [], w') \<and>
    (\<exists>f. map_of (pfiles w') ''/etc/pam.d/sudo'' = Some f \<and> ours (concat (splitlines_keep (raw f))))"
proof -
  let ?w = "\<lparr>pfiles = [(''/etc/pam.d/sudo'', \<lparr>raw = INSERT_LINE @ [LF], utf8 = False, fmode = 420\<rparr>)],
      readonly = (\<lambda>_. False), stored_state = NoState\<rparr>"
  have "(case reset (\<lambda>t. t) ''/'' ?w of (Inr [], w') \<Rightarrow>
      (case map_of (pfiles w') ''/etc/pam.d/sudo'' of Some f \<Rightarrow> ours (concat (splitlines_keep (raw f))) | None \<Rightarrow> False) | _ \<Rightarrow> False)"
    by code_simp
  then show ?thesis
    by (auto split: prod.splits sum.splits list.splits option.splits)
qed

section \<open>The drop-in names exactly the user\<close>

lemma name_char_plain: "name_char c \<Longrightarrow> \<not> is_space c \<and> \<not> is_break c \<and> c \<noteq> CHR ''=''"
proof -
  have "list_all (\<lambda>c. name_char c \<longrightarrow> \<not> is_space c \<and> \<not> is_break c \<and> c \<noteq> CHR ''='') Enum.enum"
    by code_simp
  then show "name_char c \<Longrightarrow> \<not> is_space c \<and> \<not> is_break c \<and> c \<noteq> CHR ''=''"
    using in_enum [of c] by (auto simp: list_all_iff)
qed

lemma user_name_chars: "user_name_ok u \<Longrightarrow> u \<noteq> [] \<and> (\<forall>c \<in> set u. name_char c)"
  by (auto simp: user_name_ok_def list_all_iff name_char_def split: list.splits)

lemma ini_scan_user:
  assumes "user_name_ok u"
  shows "ini_scan ''Autologin'' (Some ''Autologin'') values ((''User='' @ u) # ls)
    = ini_scan ''Autologin'' (Some ''Autologin'') (AList.update ''User'' u values) ls"
proof -
  have u: "u \<noteq> []" "\<forall>c \<in> set u. \<not> is_space c \<and> c \<noteq> CHR ''=''"
    using user_name_chars [OF assms] name_char_plain by auto
  have "strip u = u"
    using u by (intro strip_id) auto
  moreover have "strip (''User='' @ u) = ''User='' @ u"
    using u by (intro strip_id) (auto simp: is_space_def)
  moreover have "split1 (CHR ''='') (''User='' @ u) = (''User'', u)"
    by (simp add: split1_def)
  moreover have "strip ''User'' = ''User''"
    by (intro strip_id) (simp add: is_space_def)
  moreover have "contains (''User='' @ u) ''=''"
    using sublist_appendI [of "''=''" "''User''" u] by simp
  ultimately show ?thesis
    by (simp add: Let_def)
qed

lemma autologin_text_lines:
  assumes "user_name_ok u"
  shows "splitlines (autologin_text u b) =
    [AUTOLOGIN_HEADER @ '': log in automatically, then lock the screen.'',
     ''# Removed again by '' @ [CHR 0x27] @ ''linux-hello-cli disable auto-login'' @ [CHR 0x27] @ ''.'',
     ''[Autologin]'', ''User='' @ u] @ (if b then [''Session=plasma''] else [])"
proof -
  let ?ls = "[AUTOLOGIN_HEADER @ '': log in automatically, then lock the screen.'',
     ''# Removed again by '' @ [CHR 0x27] @ ''linux-hello-cli disable auto-login'' @ [CHR 0x27] @ ''.'',
     ''[Autologin]'', ''User='' @ u] @ (if b then [''Session=plasma''] else [])"
  have const: "list_all (list_all (\<lambda>c. \<not> is_break c))
     [AUTOLOGIN_HEADER @ '': log in automatically, then lock the screen.'',
      ''# Removed again by '' @ [CHR 0x27] @ ''linux-hello-cli disable auto-login'' @ [CHR 0x27] @ ''.'',
      ''[Autologin]'', ''User='', ''Session=plasma'']"
    by code_simp
  have "list_all (\<lambda>c. \<not> is_break c) u"
    using user_name_chars [OF assms] name_char_plain by (auto simp: list_all_iff)
  then have "list_all (list_all (\<lambda>c. \<not> is_break c)) ?ls"
    using const by (cases b) (simp_all only: list_all_append list.pred_inject append.simps if_True if_False simp_thms)
  then have nb: "\<forall>l \<in> set ?ls. \<forall>c \<in> set l. \<not> is_break c"
    unfolding list_all_iff .
  have "autologin_text u b = concat (map (\<lambda>l. l @ [LF]) ?ls)"
    by (simp add: autologin_text_def)
  then show ?thesis
    using splitlines_lines [OF nb] by (simp only:)
qed

lemma autologin_text_user:
  assumes "user_name_ok u"
  shows "map_of (ini_group (autologin_text u b) ''Autologin'') ''User'' = Some u"
proof -
  let ?c1 = "AUTOLOGIN_HEADER @ '': log in automatically, then lock the screen.''"
  let ?c2 = "''# Removed again by '' @ [CHR 0x27] @ ''linux-hello-cli disable auto-login'' @ [CHR 0x27] @ ''.''"
  have head: "ini_scan ''Autologin'' None [] (?c1 # ?c2 # ''[Autologin]'' # ls)
      = ini_scan ''Autologin'' (Some ''Autologin'') [] ls" for ls
  proof -
    have "strip ?c1 = ?c1" "strip ?c2 = ?c2" "strip ''[Autologin]'' = ''[Autologin]''"
      by code_simp+
    then show ?thesis
      by (simp add: Let_def AUTOLOGIN_HEADER_def suffix_def)
  qed
  have tail: "ini_scan ''Autologin'' (Some ''Autologin'') values [''Session=plasma'']
      = AList.update ''Session'' ''plasma'' values" for "values"
  proof -
    have "strip ''Session=plasma'' = ''Session=plasma''" "strip ''Session'' = ''Session''" "strip ''plasma'' = ''plasma''"
      by code_simp+
    moreover have "contains ''Session=plasma'' ''=''"
      by code_simp
    ultimately show ?thesis
      by (simp add: Let_def split1_def)
  qed
  show ?thesis
    unfolding ini_group_def autologin_text_lines [OF assms]
    using head [of "(''User='' @ u) # (if b then [''Session=plasma''] else [])"] ini_scan_user [OF assms] tail
    by (auto simp del: ini_scan.simps) (simp_all add: ini_scan.simps(1))
qed

lemma autologin_text_no_CR: "user_name_ok u \<Longrightarrow> CR \<notin> set (autologin_text u b)"
proof -
  assume "user_name_ok u"
  then have "CR \<notin> set u"
    using user_name_chars name_char_plain is_break_def by fastforce
  then show ?thesis
    by (simp add: autologin_text_def AUTOLOGIN_HEADER_def)
qed

lemma enable_autologin_user:
  assumes run: "enable_autologin sha root target (Some u) (w, m) = (Inr (), w', m')" and "u \<noteq> []"
  shows "autologin_user w' root = Inr (Some u) \<and> u \<noteq> ''root'' \<and> user_name_ok u"
proof -
  have u: "u \<noteq> ''root''" "user_name_ok u"
    using run assms(2) by (auto simp: enable_autologin_def Let_def split: if_splits)
  let ?p = "path_join root AUTOLOGIN_FILE" and ?b = "isfile w (path_join root WAYLAND_SESSION)"
  have wr: "write_own_file sha ?p (autologin_text u ?b) target (w, m) = (Inr (), w', m')"
    using run u assms(2) by (auto simp: enable_autologin_def Let_def split: sum.splits if_splits)
  have read: "read_text w' ?p = Inr (autologin_text u ?b)"
  proof (cases "read_text w ?p = Inr (autologin_text u ?b)")
    case True
    then have "isfile w ?p"
      using read_text_OSError [of w ?p] by auto
    then show ?thesis
      using wr True by (simp add: write_own_file_def Let_def)
  next
    case False
    then have rec: "write_recorded sha ?p (autologin_text u ?b) ''created'' target None (w, m) = (Inr (), w', m')"
      using wr by (auto simp: write_own_file_def Let_def split: if_splits sum.splits)
    then have "write_text ?p (autologin_text u ?b) 420 w = (Inr (), w')"
      by (auto simp: write_recorded_def split: prod.splits sum.splits)
    then show ?thesis
      using write_text_ok [of w ?p "autologin_text u ?b" 420] autologin_text_no_CR [OF u(2)]
      by (auto simp: write_text_def split: if_splits)
  qed
  then have "isfile w' ?p"
    using read_text_OSError [of w' ?p] by auto
  then show ?thesis
    using read u autologin_text_user [OF u(2)] assms(2) by (simp add: autologin_user_def)
qed

text \<open>
  Logging in automatically is turned on for the named user and nobody else: the
  drop-in written reads back as that user, who is never root and whose name cannot add
  lines to it.
\<close>

theorem autologin_names_user:
  assumes "enable_autologin sha root target (Some u) (w, m) = (Inr (), w', m')" and "u \<noteq> []"
  shows "autologin_user w' root = Inr (Some u) \<and> u \<noteq> ''root'' \<and> user_name_ok u"
  by (rule enable_autologin_user [OF assms])

theorem autologin_names_user_witness:
  "\<exists>w' m'. enable_autologin (\<lambda>t. t) ''/'' ''auto-login'' (Some ''ann'') (sample_world, []) = (Inr (), w', m')
    \<and> autologin_user w' ''/'' = Inr (Some ''ann'')"
proof -
  have "fst (enable_autologin (\<lambda>t. t) ''/'' ''auto-login'' (Some ''ann'') (sample_world, [])) = Inr ()"
    by code_simp
  then obtain w' m' where run:
    "enable_autologin (\<lambda>t. t) ''/'' ''auto-login'' (Some ''ann'') (sample_world, []) = (Inr (), w', m')"
    by (metis prod.collapse)
  show ?thesis
    using autologin_names_user [OF run] run by simp
qed

text \<open>The last step of turning it on is the drop-in; the manifest is saved beside it.\<close>

lemma enable_auto_login_user:
  assumes on: "enable sha root ''auto-login'' (Some u) w = (Inr (), w')" and u: "u \<noteq> []"
  shows "autologin_user w' root = Inr (Some u) \<and> u \<noteq> ''root'' \<and> user_name_ok u"
proof -
  let ?plan = "[(''plasmalogin-autologin'', WalletRelease), (''plasmalogin'', WalletRemember), (''plasmalogin.conf.d'', Autologin)]"
  have plan: "plan w root ''auto-login'' = Inr ?plan"
    using on by (auto simp: enable_def plan_def Let_def split: if_splits)
  then obtain m where "enable_run sha root ''auto-login'' (Some u) ?plan m w = (Inr (), w')"
    using on by (auto simp: enable_def split: sum.splits)
  then obtain r w1 m1 where steps: "enable_steps sha root ''auto-login'' (Some u) ?plan (w, m) = (Inr r, w1, m1)"
    and save: "save_state root m1 w1 = (Inr (), w')"
    by (auto simp: enable_run_def split: sum.splits prod.splits)
  from steps obtain s2 where last: "enable_autologin sha root ''auto-login'' (Some u) s2 = (Inr (), w1, m1)"
    by (auto simp: enable_step_def split: prod.splits sum.splits)
  have "autologin_user w1 root = Inr (Some u) \<and> u \<noteq> ''root'' \<and> user_name_ok u"
    using enable_autologin_user [of sha root "''auto-login''" u "fst s2" "snd s2" w1 m1] last u by simp
  moreover have same: "isfile w' = isfile w1" "read_text w' = read_text w1"
    using save by (auto simp: save_state_def isfile_def read_text_def fun_eq_iff split: if_splits)
  have "autologin_user w' root = autologin_user w1 root"
    unfolding autologin_user_def same ..
  ultimately show ?thesis
    by simp
qed

end
