(* ===== verification/Manager_Requests.thy ===== *)
theory Manager_Requests
  imports Manager_Tasks Models_Store Settings_Layers Login_Secrets Host_Checks Pam_System
begin

text \<open>
  \<^verbatim>\<open>daemon/manager.py\<close>, the requests that read and change files: models, targets,
  settings, the kept password, and the two ends of an enrolment.

  The files are the components' own worlds side by side; the signals sent are a list. What
  the handlers ask of other services is an environment record. An exception that is not a
  D-Bus error reaches the caller as \<open>Internal\<close>, as the dispatcher reports it.
\<close>

record files =
  f_store :: store
  f_vault :: vault
  f_pam :: pworld
  f_settings :: settings_files
  f_signals :: "string list"

record env =
  e_bus :: bus
  e_creds :: creds
  e_sha :: "string \<Rightarrow> string"
  e_root :: string
  e_home_encrypted :: "string \<Rightarrow> bool"
  e_prefer_face :: "string list"

type_synonym 'a request = "(files, failure, 'a) block"

definition INTERNAL :: failure where "INTERNAL = Failed ''Internal''"

definition lift_result :: "failure + 'a \<Rightarrow> 'a request" where
  "lift_result r w = (r, w)"

text \<open>Running a block of a component; its exceptions are internal errors.\<close>

definition on_store :: "(store, store_error, 'a) block \<Rightarrow> 'a request" where
  "on_store f w =
     (case f (f_store w) of
        (Inl _, s) \<Rightarrow> (Inl INTERNAL, w\<lparr>f_store := s\<rparr>)
      | (Inr a, s) \<Rightarrow> (Inr a, w\<lparr>f_store := s\<rparr>))"

definition send_signal :: "string \<Rightarrow> unit request" where
  "send_signal name w = (Inr (), w\<lparr>f_signals := f_signals w @ [name]\<rparr>)"

section \<open>Enrolment\<close>

text \<open>Up to the camera: the models there are, for the label and the encodings' dimensions.\<close>

definition enroll_start :: "env \<Rightarrow> caller \<Rightarrow> string \<Rightarrow> model list request" where
  "enroll_start env c user =
     pbind (lift_result (check_user (e_bus env) user)) (\<lambda>_.
     pbind (lift_result (require_self_or_admin (e_bus env) c user (Some ACTION_ENROLL_SELF))) (\<lambda>_.
     on_store (load_models user)))"

definition enrolled_dims :: "model list \<Rightarrow> nat set" where
  "enrolled_dims ms = {length e | m e. m \<in> set ms \<and> e \<in> set (m_data m)}"

definition enroll_end ::
    "string \<Rightarrow> string \<Rightarrow> model list \<Rightarrow> vresult \<Rightarrow> real list list \<Rightarrow> real \<Rightarrow> (vresult \<times> int) request" where
  "enroll_end user label existing result encodings now =
     (if result \<noteq> SUCCESS then pret (result, 0)
      else
        let name = (if strip label = [] then ''Face '' @ nat_digits (length existing + 1) else label)
        in pbind (on_store (add_model user name encodings now)) (\<lambda>(i, _, _).
           pbind (send_signal ''ModelsChanged'') (\<lambda>_. pret (result, i))))"

section \<open>Models\<close>

definition mgr_list_models :: "env \<Rightarrow> caller \<Rightarrow> string \<Rightarrow> (int \<times> int \<times> string) list request" where
  "mgr_list_models env c user =
     pbind (lift_result (check_user (e_bus env) user)) (\<lambda>_.
     pbind (lift_result (require_self_or_admin (e_bus env) c user None)) (\<lambda>_.
     pbind (on_store (load_models user)) (\<lambda>ms. pret (map (\<lambda>m. (m_id m, m_time m, m_label m)) ms))))"

definition mgr_rename_model :: "env \<Rightarrow> caller \<Rightarrow> string \<Rightarrow> int \<Rightarrow> string \<Rightarrow> unit request" where
  "mgr_rename_model env c user i label =
     pbind (lift_result (check_user (e_bus env) user)) (\<lambda>_.
     pbind (lift_result (require_self_or_admin (e_bus env) c user (Some ACTION_ENROLL_SELF))) (\<lambda>_.
     pbind (on_store (rename_model user i label)) (\<lambda>found.
       if \<not> found then praise (Failed ''NotFound'') else send_signal ''ModelsChanged'')))"

definition mgr_delete_model :: "env \<Rightarrow> caller \<Rightarrow> string \<Rightarrow> int \<Rightarrow> unit request" where
  "mgr_delete_model env c user i =
     pbind (lift_result (check_user (e_bus env) user)) (\<lambda>_.
     pbind (lift_result (require_self_or_admin (e_bus env) c user (Some ACTION_ENROLL_SELF))) (\<lambda>_.
     pbind (on_store (remove_model user i)) (\<lambda>found.
       if \<not> found then praise (Failed ''NotFound'') else send_signal ''ModelsChanged'')))"

definition mgr_list_users :: "env \<Rightarrow> caller \<Rightarrow> string list request" where
  "mgr_list_users env c =
     pbind (lift_result (require (e_bus env) c ACTION_MANAGE_USERS)) (\<lambda>_. on_store users)"

section \<open>Targets\<close>

text \<open>A \<open>PamError\<close> is reported as such, any other exception is internal.\<close>

definition pam_failure :: "pam_error \<Rightarrow> failure" where
  "pam_failure e = (case e of PamError _ \<Rightarrow> Failed ''Failed'' | _ \<Rightarrow> INTERNAL)"

definition on_pam :: "(pworld \<Rightarrow> (pam_error + 'a) \<times> pworld) \<Rightarrow> 'a request" where
  "on_pam f w =
     (case f (f_pam w) of
        (Inl e, p) \<Rightarrow> (Inl (pam_failure e), w\<lparr>f_pam := p\<rparr>)
      | (Inr a, p) \<Rightarrow> (Inr a, w\<lparr>f_pam := p\<rparr>))"

definition read_pam :: "(pworld \<Rightarrow> pam_error + 'a) \<Rightarrow> 'a request" where
  "read_pam f w = (case f (f_pam w) of Inl e \<Rightarrow> (Inl (pam_failure e), w) | Inr a \<Rightarrow> (Inr a, w))"

definition auto_login_allowed :: "env \<Rightarrow> string option \<Rightarrow> bool request" where
  "auto_login_allowed env user w =
     (if (case user of None \<Rightarrow> False | Some u \<Rightarrow> u \<noteq> [] \<and> e_home_encrypted env u) then (Inr True, w)
      else (case get_boolean (load_settings (f_settings w)) ''core'' ''insecure_auto_login'' False of
              None \<Rightarrow> (Inl INTERNAL, w)
            | Some yes \<Rightarrow> (Inr yes, w)))"

definition forget_login_secret :: "string option \<Rightarrow> unit request" where
  "forget_login_secret user w =
     (case user of
        None \<Rightarrow> (Inr (), w)
      | Some u \<Rightarrow> (Inr (), w\<lparr>f_vault := forget_secret u (f_vault w)\<rparr>))"

definition mgr_set_target :: "env \<Rightarrow> caller \<Rightarrow> string \<Rightarrow> bool \<Rightarrow> unit request" where
  "mgr_set_target env c target enabled =
     pbind (lift_result (require (e_bus env) c ACTION_CONFIGURE)) (\<lambda>_.
     pbind
       (if enabled then
          (if target = ''auto-login'' then
             (let user = getpwuid (e_bus env) (uid c) in
              pbind (auto_login_allowed env user) (\<lambda>yes.
                if yes then on_pam (enable (e_sha env) (e_root env) target user)
                else praise (Failed ''Failed'')))
           else on_pam (enable (e_sha env) (e_root env) target None))
        else
          pbind (if target = ''auto-login'' then
                   pbind (read_pam (\<lambda>p. autologin_user p (e_root env))) forget_login_secret
                 else pret ()) (\<lambda>_.
          on_pam (disable (e_sha env) (e_root env) target
                    (target = ''lock-screen'' \<and> e_prefer_face env \<noteq> []))))
       (\<lambda>_. send_signal ''TargetsChanged''))"

definition mgr_list_targets :: "env \<Rightarrow> target_entry list request" where
  "mgr_list_targets env = read_pam (\<lambda>p. targets p (e_root env))"

section \<open>The kept password\<close>

definition keeps_login_secret :: "env \<Rightarrow> string \<Rightarrow> bool request" where
  "keeps_login_secret env user =
     pbind (read_pam (\<lambda>p. autologin_user p (e_root env))) (\<lambda>auto.
       if auto = Some user then auto_login_allowed env (Some user) else pret False)"

definition mgr_remember_login_secret :: "env \<Rightarrow> caller \<Rightarrow> string \<Rightarrow> byte list \<Rightarrow> unit request" where
  "mgr_remember_login_secret env c user secret =
     (if uid c \<noteq> 0 then praise (Failed ''PermissionDenied'')
      else
        pbind (lift_result (check_user (e_bus env) user)) (\<lambda>_.
        pbind (keeps_login_secret env user) (\<lambda>keeps.
          if \<not> keeps then pret ()
          else (\<lambda>w. (Inr (), w\<lparr>f_vault := snd (store_secret (e_creds env) user secret (f_vault w))\<rparr>)))))"

definition mgr_login_secret :: "env \<Rightarrow> caller \<Rightarrow> string \<Rightarrow> byte list request" where
  "mgr_login_secret env c user =
     (if uid c \<noteq> 0 then praise (Failed ''PermissionDenied'')
      else
        pbind (lift_result (check_user (e_bus env) user)) (\<lambda>_.
        pbind (keeps_login_secret env user) (\<lambda>keeps.
          if \<not> keeps then pret []
          else (\<lambda>w. (Inr (case load_secret (e_creds env) user (f_vault w) of None \<Rightarrow> [] | Some s \<Rightarrow> s), w)))))"

section \<open>Settings\<close>

definition mgr_get_settings :: "(string \<times> string) list request" where
  "mgr_get_settings w =
     (let cfg = load_settings (f_settings w) in
      (Inr (concat (map (\<lambda>(sec, opts).
             map (\<lambda>(key, _). (sec @ ''.'' @ key, case get_option cfg sec key of None \<Rightarrow> [] | Some v \<Rightarrow> v)) opts)
           (vendor (f_settings w)))), w))"

definition mgr_set_setting :: "env \<Rightarrow> caller \<Rightarrow> string \<Rightarrow> string \<Rightarrow> string \<Rightarrow> unit request" where
  "mgr_set_setting env c sec key value =
     pbind (lift_result (require (e_bus env) c ACTION_CONFIGURE)) (\<lambda>_.
     pbind (\<lambda>w. (case set_value key value (Some sec) (f_settings w) of
                    (Inl _, s) \<Rightarrow> (Inl (Failed ''InvalidArgs''), w\<lparr>f_settings := s\<rparr>)
                  | (Inr _, s) \<Rightarrow> (Inr (), w\<lparr>f_settings := s\<rparr>))) (\<lambda>_.
     send_signal ''SettingsChanged''))"

section \<open>Status\<close>

record status =
  st_disabled :: bool
  st_user :: string
  st_has_models :: bool
  st_busy :: bool
  st_home_encrypted :: bool
  st_secret_missing :: bool

definition mgr_get_status :: "env \<Rightarrow> caller \<Rightarrow> mgr \<Rightarrow> status request" where
  "mgr_get_status env c m w0 =
     (let user = getpwuid (e_bus env) (uid c);
          (has_models, w) =
            (case user of
               Some u \<Rightarrow> if u \<noteq> [] \<and> u \<noteq> ''root''
                 then (case load_models u (f_store w0) of
                         (Inl _, s) \<Rightarrow> (False, w0\<lparr>f_store := s\<rparr>)
                       | (Inr ms, s) \<Rightarrow> (ms \<noteq> [], w0\<lparr>f_store := s\<rparr>))
                 else (False, w0)
             | None \<Rightarrow> (False, w0)) in
      case get_boolean (load_settings (f_settings w)) ''core'' ''disabled'' False of
        None \<Rightarrow> (Inl INTERNAL, w)
      | Some off \<Rightarrow>
          (case (if user \<noteq> None \<and> user \<noteq> Some [] then autologin_user (f_pam w) (e_root env) else Inr None) of
             Inl e \<Rightarrow> (Inl (pam_failure e), w)
           | Inr auto \<Rightarrow>
               let u = (case user of None \<Rightarrow> [] | Some u \<Rightarrow> u)
               in (Inr \<lparr>st_disabled = off, st_user = u, st_has_models = has_models, st_busy = camera_lock m,
                        st_home_encrypted = (u \<noteq> [] \<and> e_home_encrypted env u),
                        st_secret_missing = (u \<noteq> [] \<and> auto = Some u \<and> \<not> secret_exists u (f_vault w))\<rparr>, w)))"

section \<open>Who may change what\<close>

text \<open>The quick requests as one type; an enrolment is its two ends around a scan's result.\<close>

datatype call =
    ListModels string | RenameModel string int string | DeleteModel string int | ListUsers
  | Enroll string string vresult "real list list" real
  | ListTargets | SetTarget string bool | GetSettings | SetSetting string string string
  | RememberLoginSecret string "byte list" | LoginSecret string | GetStatus

definition ignore_result :: "'a request \<Rightarrow> unit request" where
  "ignore_result f = pbind f (\<lambda>_. pret ())"

fun serve :: "env \<Rightarrow> mgr \<Rightarrow> caller \<Rightarrow> call \<Rightarrow> unit request" where
  "serve env m c (ListModels u) = ignore_result (mgr_list_models env c u)"
| "serve env m c (RenameModel u i l) = mgr_rename_model env c u i l"
| "serve env m c (DeleteModel u i) = mgr_delete_model env c u i"
| "serve env m c ListUsers = ignore_result (mgr_list_users env c)"
| "serve env m c (Enroll u l result encodings now) =
     ignore_result (pbind (enroll_start env c u) (\<lambda>existing. enroll_end u l existing result encodings now))"
| "serve env m c ListTargets = ignore_result (mgr_list_targets env)"
| "serve env m c (SetTarget t on) = mgr_set_target env c t on"
| "serve env m c GetSettings = ignore_result mgr_get_settings"
| "serve env m c (SetSetting s k v) = mgr_set_setting env c s k v"
| "serve env m c (RememberLoginSecret u s) = mgr_remember_login_secret env c u s"
| "serve env m c (LoginSecret u) = ignore_result (mgr_login_secret env c u)"
| "serve env m c GetStatus = ignore_result (mgr_get_status env c m)"

definition may_configure :: "bus \<Rightarrow> caller \<Rightarrow> bool" where
  "may_configure b c \<longleftrightarrow> uid c = 0 \<or> polkit b (sender c) ACTION_CONFIGURE = Some True"

definition may_manage :: "bus \<Rightarrow> caller \<Rightarrow> string \<Rightarrow> bool" where
  "may_manage b c user \<longleftrightarrow>
     uid c = 0
     \<or> polkit b (sender c) (if getpwuid b (uid c) = Some user then ACTION_ENROLL_SELF else ACTION_MANAGE_USERS) = Some True"

lemma require_self_or_admin_manage:
  "require_self_or_admin b c user (Some ACTION_ENROLL_SELF) = Inr u \<longleftrightarrow> may_manage b c user"
  using require_self_or_admin_Inr [of b c user "Some ACTION_ENROLL_SELF"] by (auto simp: may_manage_def)

lemma require_configure: "require b c ACTION_CONFIGURE = Inr u \<longleftrightarrow> may_configure b c"
  using require_Inr [of b c ACTION_CONFIGURE] by (simp add: may_configure_def)

text \<open>
  From one world to the next, for a caller: the models of whom, the PAM files, the settings
  and the kept passwords changed only where the caller may change them.
\<close>

definition allowed_change :: "bus \<Rightarrow> caller \<Rightarrow> files \<Rightarrow> files \<Rightarrow> bool" where
  "allowed_change b c w w' \<longleftrightarrow>
     (\<forall>v. fst (load_models v (f_store w')) = fst (load_models v (f_store w)) \<or> may_manage b c v)
     \<and> (f_pam w' = f_pam w \<or> may_configure b c) \<and> (f_settings w' = f_settings w \<or> may_configure b c)
     \<and> (f_vault w' = f_vault w \<or> uid c = 0 \<or> may_configure b c)"

definition safe :: "bus \<Rightarrow> caller \<Rightarrow> 'a request \<Rightarrow> bool" where
  "safe b c f \<longleftrightarrow> (\<forall>w. allowed_change b c w (snd (f w)))"

lemma allowed_change_refl [simp]: "allowed_change b c w w"
  by (simp add: allowed_change_def)

lemma allowed_change_trans: "allowed_change b c w w1 \<Longrightarrow> allowed_change b c w1 w2 \<Longrightarrow> allowed_change b c w w2"
  unfolding allowed_change_def by metis

lemma safe_pret [simp, intro]: "safe b c (pret a)" and safe_praise [simp, intro]: "safe b c (praise e)"
  by (simp_all add: safe_def)

lemma safe_pbind: "safe b c f \<Longrightarrow> (\<And>a. safe b c (g a)) \<Longrightarrow> safe b c (pbind f g)"
  unfolding safe_def pbind_def
  by (auto split: sum.splits prod.splits) (metis allowed_change_trans snd_conv)+

lemma safe_lift: "(\<And>a. r = Inr a \<Longrightarrow> safe b c (g a)) \<Longrightarrow> safe b c (pbind (lift_result r) g)"
  by (cases r) (auto simp: safe_def pbind_def lift_result_def)

lemma safe_ignore: "safe b c f \<Longrightarrow> safe b c (ignore_result f)"
  unfolding ignore_result_def by (rule safe_pbind) auto

lemma safe_signal [simp, intro]: "safe b c (send_signal s)"
  by (simp add: safe_def send_signal_def allowed_change_def)

lemma safe_on_store:
  assumes "\<And>s v. fst (load_models v (snd (f s))) = fst (load_models v s) \<or> may_manage b c v"
  shows "safe b c (on_store f)"
  using assms by (auto simp: safe_def on_store_def allowed_change_def split: sum.splits prod.splits) (metis snd_conv)+

lemma safe_load [simp, intro]: "safe b c (on_store (load_models user))"
  by (rule safe_on_store) (simp add: load_models_nothing)

lemma safe_read_pam [simp, intro]: "safe b c (read_pam f)"
  by (auto simp: safe_def read_pam_def split: sum.splits)

lemma safe_on_pam: "may_configure b c \<Longrightarrow> safe b c (on_pam f)"
  by (auto simp: safe_def on_pam_def allowed_change_def split: sum.splits prod.splits)

lemma safe_auto_login_allowed [simp, intro]: "safe b c (auto_login_allowed env user)"
  by (auto simp: safe_def auto_login_allowed_def split: option.splits if_splits)

lemma safe_users: "safe b c (on_store users)"
proof (rule safe_on_store)
  fix s v
  have "fst (load_models v (snd (users_scan names s))) = fst (load_models v s)" for names s
  proof (induction names s rule: users_scan.induct)
    case (2 name names w)
    let ?u = "take (length name - 4) name"
    have same: "fst (load_models v w1) = fst (load_models v w)" if "load_models ?u w = (r, w1)" for r w1
      using load_models_nothing [of v ?u w] that by simp
    show ?case
      using 2 same by (fastforce simp: Let_def split: sum.splits prod.splits store_error.splits)
  qed simp
  moreover have "fst (load_models v (snd (migrate_legacy s))) = fst (load_models v s)"
    by (rule load_models_same) (rule effective_migrate [OF prod.collapse [symmetric]])
  ultimately show "fst (load_models v (snd (users s))) = fst (load_models v s) \<or> may_manage b c v"
    by (simp add: users_def Let_def)
qed

lemma safe_model_operations:
  assumes "may_manage b c user"
  shows "safe b c (on_store (add_model user label encodings now))" "safe b c (on_store (remove_model user i))"
    "safe b c (on_store (rename_model user i label))"
  using assms model_operation_others by (metis safe_on_store)+

lemma safe_set_target: "safe (e_bus env) c (mgr_set_target env c target enabled)"
proof -
  have "safe (e_bus env) c (forget_login_secret u)" if "may_configure (e_bus env) c" for u
    using that by (auto simp: safe_def forget_login_secret_def allowed_change_def split: option.splits)
  then show ?thesis
    unfolding mgr_set_target_def
    by (intro safe_lift safe_pbind) (auto simp: require_configure Let_def intro!: safe_pbind safe_on_pam)
qed

lemma safe_secrets:
  "safe (e_bus env) c (mgr_remember_login_secret env c user secret)" "safe (e_bus env) c (mgr_login_secret env c user)"
proof -
  have keeps: "safe (e_bus env) c (keeps_login_secret env user)"
    unfolding keeps_login_secret_def by (intro safe_pbind) auto
  have "safe (e_bus env) c (\<lambda>w. (Inr (), w\<lparr>f_vault := g w\<rparr>))" if "uid c = 0" for g
    using that by (simp add: safe_def allowed_change_def)
  then show "safe (e_bus env) c (mgr_remember_login_secret env c user secret)"
    using keeps unfolding mgr_remember_login_secret_def by (auto intro!: safe_lift safe_pbind)
  have "safe (e_bus env) c (\<lambda>w. (Inr (g w), w))" for g :: "files \<Rightarrow> byte list"
    by (simp add: safe_def)
  then show "safe (e_bus env) c (mgr_login_secret env c user)"
    using keeps unfolding mgr_login_secret_def by (auto intro!: safe_lift safe_pbind)
qed

lemma safe_set_setting: "safe (e_bus env) c (mgr_set_setting env c s k v)"
proof -
  have "safe (e_bus env) c (\<lambda>w. case set_value k v (Some s) (f_settings w) of
        (Inl _, x) \<Rightarrow> (Inl (Failed ''InvalidArgs''), w\<lparr>f_settings := x\<rparr>) | (Inr _, x) \<Rightarrow> (Inr (), w\<lparr>f_settings := x\<rparr>))"
    if "may_configure (e_bus env) c"
    using that by (auto simp: safe_def allowed_change_def split: sum.splits prod.splits)
  then show ?thesis
    unfolding mgr_set_setting_def by (auto simp: require_configure intro!: safe_lift safe_pbind)
qed

lemma safe_models:
  "safe (e_bus env) c (mgr_rename_model env c user i label)" "safe (e_bus env) c (mgr_delete_model env c user i)"
  "safe (e_bus env) c (pbind (enroll_start env c user) (\<lambda>existing. enroll_end user l existing result encodings now))"
proof -
  show "safe (e_bus env) c (mgr_rename_model env c user i label)"
    unfolding mgr_rename_model_def
    by (intro safe_lift safe_pbind) (auto simp: require_self_or_admin_manage intro: safe_model_operations)
  show "safe (e_bus env) c (mgr_delete_model env c user i)"
    unfolding mgr_delete_model_def
    by (intro safe_lift safe_pbind) (auto simp: require_self_or_admin_manage intro: safe_model_operations)
  have "safe (e_bus env) c (enroll_end user l existing result encodings now)" if "may_manage (e_bus env) c user" for existing
    unfolding enroll_end_def Let_def
    using safe_model_operations(1) [OF that] by (auto intro!: safe_pbind split: prod.splits)
  moreover have "safe (e_bus env) c (enroll_start env c user)"
    unfolding enroll_start_def by (intro safe_lift) auto
  ultimately show "safe (e_bus env) c (pbind (enroll_start env c user) (\<lambda>existing. enroll_end user l existing result encodings now))"
  proof (cases "may_manage (e_bus env) c user")
    case False
    then have "\<exists>e. enroll_start env c user = (\<lambda>w. (Inl e, w))"
      by (cases "check_user (e_bus env) user";
          cases "require_self_or_admin (e_bus env) c user (Some ACTION_ENROLL_SELF)")
        (auto simp: enroll_start_def pbind_def lift_result_def fun_eq_iff require_self_or_admin_manage)
    then show ?thesis
      by (auto simp: safe_def pbind_def)
  qed (auto intro: safe_pbind)
qed

lemma safe_status: "safe (e_bus env) c (mgr_get_status env c m)"
proof -
  have same: "fst (load_models v s) = fst (load_models v (f_store w))" if "load_models u (f_store w) = (r, s)" for v u r s w
    using load_models_nothing [of v u "f_store w"] that by simp
  show ?thesis
    by (auto simp: safe_def mgr_get_status_def allowed_change_def Let_def same
        split: option.splits sum.splits prod.splits if_splits)
qed

text \<open>
  C3. Who may change what, over every request that touches files: a user's face models change
  only for root, for the user whom polkit lets enrol, or for someone polkit lets manage other
  users; PAM files and settings only for root or someone polkit lets configure; the kept
  passwords only for those or root. Anyone else's request leaves them as they were.
\<close>

theorem who_may_change_what:
  assumes "serve env m c call w = (r, w')"
  shows "(\<forall>v. fst (load_models v (f_store w')) = fst (load_models v (f_store w)) \<or> may_manage (e_bus env) c v)
    \<and> (f_pam w' = f_pam w \<or> may_configure (e_bus env) c) \<and> (f_settings w' = f_settings w \<or> may_configure (e_bus env) c)
    \<and> (f_vault w' = f_vault w \<or> uid c = 0 \<or> may_configure (e_bus env) c)"
proof -
  have settings: "safe (e_bus env) c mgr_get_settings"
    by (simp add: safe_def mgr_get_settings_def Let_def)
  have "safe (e_bus env) c (mgr_list_models env c u)" for u
    unfolding mgr_list_models_def by (auto intro!: safe_lift safe_pbind)
  moreover have "safe (e_bus env) c (mgr_list_users env c)"
    unfolding mgr_list_users_def by (auto intro!: safe_lift safe_users)
  ultimately have "safe (e_bus env) c (serve env m c call)"
    using settings safe_models safe_set_target safe_secrets safe_set_setting safe_status
    by (cases call) (auto simp: mgr_list_targets_def intro!: safe_ignore)
  then show ?thesis
    using assms by (metis allowed_change_def safe_def snd_conv)
qed

definition sample_env :: env where
  "sample_env = \<lparr>e_bus = sample_bus, e_creds = sample_creds, e_sha = (\<lambda>t. t), e_root = ''/'',
     e_home_encrypted = (\<lambda>u. u = ''alice''), e_prefer_face = []\<rparr>"

definition sample_files :: files where
  "sample_files = \<lparr>f_store = sample_saved, f_vault = \<lparr>secret_files = [], vault_writable = True\<rparr>,
     f_pam = sample_world, f_settings = sample_settings, f_signals = []\<rparr>"

theorem who_may_change_what_witness:
  "f_settings (snd (serve sample_env new_manager \<lparr>sender = '':1.5'', uid = 1000\<rparr>
      (SetSetting ''core'' ''disabled'' ''true'') sample_files)) = sample_settings"
proof -
  let ?c = "\<lparr>sender = '':1.5'', uid = 1000\<rparr>"
  have "\<not> may_configure (e_bus sample_env) ?c"
    by (simp add: may_configure_def sample_env_def sample_bus_def ACTION_CONFIGURE_def ACTION_ENROLL_SELF_def)
  then show ?thesis
    using who_may_change_what [OF prod.collapse [symmetric], of sample_env new_manager ?c
        "SetSetting ''core'' ''disabled'' ''true''" sample_files]
    by (simp add: sample_files_def)
qed

section \<open>The kept password and auto-login\<close>

text \<open>
  C30. The kept password is handed out to root only, for the user who logs in automatically
  and is not root, and only while that user's home is encrypted or the administrator turned the
  safeguard off; asking changes nothing.
\<close>

theorem login_secret_guarded:
  assumes "mgr_login_secret env c user w = (Inr secret, w')" and "secret \<noteq> []"
  shows "uid c = 0 \<and> user \<noteq> ''root'' \<and> autologin_user (f_pam w) (e_root env) = Inr (Some user)
    \<and> (e_home_encrypted env user
        \<or> get_boolean (load_settings (f_settings w)) ''core'' ''insecure_auto_login'' False = Some True)
    \<and> load_secret (e_creds env) user (f_vault w) = Some secret \<and> w' = w"
  using assms
  by (auto simp: mgr_login_secret_def keeps_login_secret_def read_pam_def auto_login_allowed_def lift_result_def
      check_user_def pbind_def split: if_splits sum.splits option.splits prod.splits)

theorem login_secret_guarded_witness:
  "\<exists>w w'. mgr_login_secret sample_env root_caller ''alice'' w = (Inr [104, 105], w') \<and> w' = w"
proof -
  define w where "w = sample_files\<lparr>
    f_vault := \<lparr>secret_files = [(''alice'', PLAIN @ [104, 105])], vault_writable = True\<rparr>,
    f_pam := \<lparr>pfiles = [(path_join ''/'' AUTOLOGIN_FILE, \<lparr>raw = ''[Autologin]'' @ [LF] @ ''User=alice'' @ [LF], utf8 = True, fmode = 420\<rparr>)],
      readonly = (\<lambda>_. False), stored_state = NoState\<rparr>\<rparr>"
  have auto: "autologin_user (f_pam w) ''/'' = Inr (Some ''alice'')"
    unfolding w_def by code_simp
  have load: "load_secret sample_creds ''alice'' (f_vault w) = Some [104, 105]"
    unfolding w_def by code_simp
  have "mgr_login_secret sample_env root_caller ''alice'' w = (Inr [104, 105], w)"
    using auto load
    by (simp add: mgr_login_secret_def keeps_login_secret_def read_pam_def auto_login_allowed_def pbind_def
        lift_result_def sample_env_def root_caller_def sample_check_user)
  then show ?thesis
    using login_secret_guarded [of sample_env root_caller "''alice''" w "[104, 105]"] by blast
qed

text \<open>
  C31. Turning on automatic login logs in whoever turned it on and nobody else: it needs the
  configure permission and an encrypted home or the safeguard off, and afterwards the login
  screen's file names that user, who is not root.
\<close>

theorem auto_login_is_self:
  assumes "mgr_set_target env c ''auto-login'' True w = (Inr (), w')"
    and "getpwuid (e_bus env) (uid c) = Some u" and "u \<noteq> []"
  shows "autologin_user (f_pam w') (e_root env) = Inr (Some u) \<and> u \<noteq> ''root'' \<and> may_configure (e_bus env) c
    \<and> (e_home_encrypted env u
        \<or> get_boolean (load_settings (f_settings w)) ''core'' ''insecure_auto_login'' False = Some True)"
proof -
  have conf: "may_configure (e_bus env) c"
    using assms(1) require_configure [of "e_bus env" c]
    by (auto simp: mgr_set_target_def pbind_def lift_result_def split: sum.splits)
  obtain p where on: "enable (e_sha env) (e_root env) ''auto-login'' (Some u) (f_pam w) = (Inr (), p)"
    and w': "f_pam w' = p"
    and ok: "fst (auto_login_allowed env (Some u) w) = Inr True"
    using assms
    by (auto simp: mgr_set_target_def pbind_def lift_result_def on_pam_def send_signal_def auto_login_allowed_def Let_def
        split: sum.splits prod.splits if_splits option.splits)
  show ?thesis
    using enable_auto_login_user [OF on assms(3)] conf w' ok assms(3)
    by (auto simp: auto_login_allowed_def split: if_splits option.splits)
qed

definition sample_admin_env :: env where
  "sample_admin_env = sample_env\<lparr>e_bus := sample_bus\<lparr>polkit := (\<lambda>_ _. Some True)\<rparr>\<rparr>"

theorem auto_login_is_self_witness:
  "\<exists>w'. mgr_set_target sample_admin_env \<lparr>sender = '':1.5'', uid = 1000\<rparr> ''auto-login'' True sample_files = (Inr (), w')
     \<and> autologin_user (f_pam w') ''/'' = Inr (Some ''alice'')"
proof -
  let ?c = "\<lparr>sender = '':1.5'', uid = 1000\<rparr>"
  have "fst (enable (\<lambda>t. t) ''/'' ''auto-login'' (Some ''alice'') sample_world) = Inr ()"
    by code_simp
  then obtain p where on: "enable (\<lambda>t. t) ''/'' ''auto-login'' (Some ''alice'') sample_world = (Inr (), p)"
    by (metis prod.collapse)
  have user: "getpwuid (e_bus sample_admin_env) (uid ?c) = Some ''alice''"
    by (simp add: sample_admin_env_def sample_env_def sample_bus_def)
  obtain w' where set: "mgr_set_target sample_admin_env ?c ''auto-login'' True sample_files = (Inr (), w')"
    using on
    by (simp add: mgr_set_target_def pbind_def lift_result_def require_def authorized_def on_pam_def send_signal_def Let_def
        auto_login_allowed_def sample_admin_env_def sample_env_def sample_bus_def sample_files_def)
  have "autologin_user (f_pam w') (e_root sample_admin_env) = Inr (Some ''alice'')"
    using auto_login_is_self [OF set user] by blast
  then show ?thesis
    using set by (simp add: sample_admin_env_def sample_env_def)
qed

end
