(* ===== verification/Command_Line.thy ===== *)
theory Command_Line
  imports Manager_Requests
begin

text \<open>
  \<^verbatim>\<open>cli.py\<close> and \<^verbatim>\<open>client.py\<close>: the commands a user types, as the calls they make to the
  service, with what they change of the user's own lock screen choice
  (\<^verbatim>\<open>integration/kscreenlocker.py\<close>, the functions that write in a home).

  A command is a block over the service's files and the state files of the Plasma lock screens. The service
  sees these, too: whom it spares when it disables the lock screen is read from them at each call.
  Output, the polkit agent of the terminal and the argument parser are left out. A command ends with the exit code of the process.
\<close>

section \<open>The world of a command\<close>

datatype cli_exit = Service failure | Exit int | Uncaught

text \<open>
  The state files by path: their lines (none when the file is missing), \<open>None\<close> where reading raises
  \<open>OSError\<close>; and whether their owner can write them.
\<close>

record cli_world =
  cw_files :: files
  cw_states :: "string \<Rightarrow> string list option"
  cw_state_w :: "string \<Rightarrow> bool"

record cli_env =
  ce_env :: env
  ce_mgr :: mgr
  ce_caller :: caller
  ce_up :: bool
  ce_euid :: nat
  ce_answer :: "string option"
  ce_host :: host
  ce_accounts :: "(string \<times> nat \<times> string) list"
  ce_state_path :: string
  ce_user_config :: string

record cli_args =
  a_user :: string
  positional :: "string list"
  assume_yes :: bool
  as_json :: bool
  a_section :: "string option"

type_synonym 'a cli = "(cli_world, cli_exit, 'a) block"

definition fail :: "int \<Rightarrow> 'a cli" where
  "fail code = praise (Exit code)"

text \<open>The service's environment: who prefers face is what the state files say now.\<close>

definition service_env :: "cli_env \<Rightarrow> cli_world \<Rightarrow> env" where
  "service_env ce w = (ce_env ce)\<lparr>e_prefer_face := users_preferring_face (ce_host ce) (cw_states w) (ce_accounts ce)\<rparr>"

text \<open>\<open>Client.call\<close>: the bus may be out of reach, an error reply is raised.\<close>

definition client_call :: "cli_env \<Rightarrow> (env \<Rightarrow> 'a request) \<Rightarrow> 'a cli" where
  "client_call ce request w =
     (if \<not> ce_up ce then (Inl (Service (Failed ''Unavailable'')), w)
      else (case request (service_env ce w) (cw_files w) of
          (Inl e, fs) \<Rightarrow> (Inl (Service e), w\<lparr>cw_files := fs\<rparr>)
        | (Inr a, fs) \<Rightarrow> (Inr a, w\<lparr>cw_files := fs\<rparr>)))"

text \<open>\<open>confirm\<close>; no answer is the end of the input, which raises.\<close>

definition confirm :: "cli_env \<Rightarrow> cli_args \<Rightarrow> bool cli" where
  "confirm ce a =
     (if assume_yes a then pret True
      else (case ce_answer ce of None \<Rightarrow> praise Uncaught | Some s \<Rightarrow> pret (lower (strip s) = ''y'')))"

section \<open>Models\<close>

text \<open>A number is sent as an unsigned integer of 32 bits; one that does not fit raises in the client.\<close>

definition send_uint :: "int \<Rightarrow> unit cli" where
  "send_uint i = (if 0 \<le> i \<and> i < 2 ^ 32 then pret () else praise Uncaught)"

definition cli_model_id :: "cli_args \<Rightarrow> int cli" where
  "cli_model_id a =
     (case positional a of
        [] \<Rightarrow> fail 1
      | s # _ \<Rightarrow> (case int_of_dec (strip s) of None \<Rightarrow> fail 1 | Some i \<Rightarrow> pret i))"

definition delete_call :: "cli_env \<Rightarrow> cli_args \<Rightarrow> int \<Rightarrow> unit cli" where
  "delete_call ce a i =
     pbind (send_uint i) (\<lambda>_. client_call ce (\<lambda>env. mgr_delete_model env (ce_caller ce) (a_user a) i))"

definition cmd_list :: "cli_env \<Rightarrow> cli_args \<Rightarrow> unit cli" where
  "cmd_list ce a =
     pbind (client_call ce (\<lambda>env. mgr_list_models env (ce_caller ce) (a_user a))) (\<lambda>ms.
       if \<not> as_json a \<and> ms = [] then fail 1 else pret ())"

text \<open>\<open>cmd_add\<close> with what the scan gives: result, encodings and the time.\<close>

definition cmd_add :: "cli_env \<Rightarrow> cli_args \<Rightarrow> vresult \<Rightarrow> real list list \<Rightarrow> real \<Rightarrow> unit cli" where
  "cmd_add ce a scanned encodings now =
     (let label = (case positional a of [] \<Rightarrow> [] | l # _ \<Rightarrow> l) in
      pbind (client_call ce (\<lambda>env. pbind (enroll_start env (ce_caller ce) (a_user a))
               (\<lambda>existing. enroll_end (a_user a) label existing scanned encodings now))) (\<lambda>(result, _).
        if \<not> as_json a \<and> result_code result \<noteq> 0 then fail (result_code result) else pret ()))"

definition cmd_remove :: "cli_env \<Rightarrow> cli_args \<Rightarrow> unit cli" where
  "cmd_remove ce a =
     pbind (cli_model_id a) (\<lambda>i. pbind (confirm ce a) (\<lambda>yes.
       if \<not> yes then fail 1 else delete_call ce a i))"

definition cmd_rename :: "cli_env \<Rightarrow> cli_args \<Rightarrow> unit cli" where
  "cmd_rename ce a =
     pbind (cli_model_id a) (\<lambda>i.
       if length (positional a) < 2 then fail 1
       else pbind (send_uint i) (\<lambda>_.
         client_call ce (\<lambda>env. mgr_rename_model env (ce_caller ce) (a_user a) i (join '' '' (tl (positional a))))))"

fun each :: "('a \<Rightarrow> unit cli) \<Rightarrow> 'a list \<Rightarrow> unit cli" where
  "each f [] = pret ()"
| "each f (x # xs) = pbind (f x) (\<lambda>_. each f xs)"

definition cmd_clear :: "cli_env \<Rightarrow> cli_args \<Rightarrow> unit cli" where
  "cmd_clear ce a =
     pbind (client_call ce (\<lambda>env. mgr_list_models env (ce_caller ce) (a_user a))) (\<lambda>ms.
       if ms = [] then fail 1
       else pbind (confirm ce a) (\<lambda>yes.
         if \<not> yes then fail 1 else each (\<lambda>row. delete_call ce a (fst row)) ms))"

section \<open>The lock screen's choice\<close>

text \<open>\<open>set_choice\<close> on a user's file.\<close>

definition write_choice :: "string \<Rightarrow> string \<Rightarrow> cli_world \<Rightarrow> bool \<times> cli_world" where
  "write_choice path v w =
     (case cw_states w path of
        None \<Rightarrow> (False, w)
      | Some ls \<Rightarrow>
          if cw_state_w w path then (True, w\<lparr>cw_states := (cw_states w)(path := Some (set_choice ls v))\<rparr>)
          else (False, w))"

definition choice_at :: "string \<Rightarrow> cli_world \<Rightarrow> string option" where
  "choice_at path w = Option.bind (cw_states w path) read_choice"

definition SYSTEM_CONFIG :: string where "SYSTEM_CONFIG = ''/etc/xdg/kscreenlockerrc''"

text \<open>\<open>kscreenlocker.face_enabled\<close>; the system's file is one the PAM integration writes.\<close>

definition face_in_effect :: "cli_env \<Rightarrow> string \<Rightarrow> cli_world \<Rightarrow> bool" where
  "face_in_effect ce user_config w =
     face_enabled
       ((ce_host ce)\<lparr>host_text := (\<lambda>p.
          if p = SYSTEM_CONFIG
          then (case read_text (f_pam (cw_files w)) (path_join (e_root (ce_env ce)) KSCREENLOCKER_CONFIG) of
                  Inl _ \<Rightarrow> None | Inr t \<Rightarrow> Some t)
          else host_text (ce_host ce) p)\<rparr>)
       user_config SYSTEM_CONFIG"

text \<open>\<open>lock_screen_choice\<close>; an \<open>OSError\<close> is reported and nothing else.\<close>

definition lock_screen_choice :: "cli_env \<Rightarrow> bool \<Rightarrow> unit cli" where
  "lock_screen_choice ce enabled =
     (if ce_euid ce = 0 then pret ()
      else pbind (client_call ce mgr_list_targets) (\<lambda>ts.
        (case List.find (\<lambda>t. te_id t = ''lock-screen'') ts of
           None \<Rightarrow> praise Uncaught
         | Some t \<Rightarrow>
             if ''kde-face'' \<notin> set (te_services t) then pret ()
             else if enabled then
               (\<lambda>w. if \<not> face_in_effect ce (ce_user_config ce) w then (Inr (), w)
                    else (Inr (), snd (write_choice (ce_state_path ce) FACE w)))
             else
               (\<lambda>w. if choice_at (ce_state_path ce) w = Some FACE
                    then (Inr (), snd (write_choice (ce_state_path ce) PASSWORD w)) else (Inr (), w)))))"

section \<open>Targets and settings\<close>

definition set_target_call :: "cli_env \<Rightarrow> bool \<Rightarrow> string \<Rightarrow> unit cli" where
  "set_target_call ce enabled target = client_call ce (\<lambda>env. mgr_set_target env (ce_caller ce) target enabled)"

definition cmd_enable :: "cli_env \<Rightarrow> cli_args \<Rightarrow> bool \<Rightarrow> unit cli" where
  "cmd_enable ce a enabled =
     (if positional a = [] then fail 1
      else
        pbind (if \<not> enabled \<and> ''lock-screen'' \<in> set (positional a) then lock_screen_choice ce False else pret ()) (\<lambda>_.
        pbind (each (set_target_call ce enabled) (positional a)) (\<lambda>_.
          if enabled \<and> ''lock-screen'' \<in> set (positional a) then lock_screen_choice ce True else pret ())))"

definition set_setting :: "cli_env \<Rightarrow> string \<Rightarrow> string \<Rightarrow> string \<Rightarrow> unit cli" where
  "set_setting ce sec key value = client_call ce (\<lambda>env. mgr_set_setting env (ce_caller ce) sec key value)"

definition cmd_disable :: "cli_env \<Rightarrow> cli_args \<Rightarrow> unit cli" where
  "cmd_disable ce a =
     (case positional a of
        x # _ \<Rightarrow>
          if lower x \<in> set [''0'', ''1'', ''true'', ''false'']
          then set_setting ce ''core'' ''disabled'' (if lower x \<in> set [''1'', ''true''] then ''true'' else ''false'')
          else cmd_enable ce a False
      | [] \<Rightarrow> cmd_enable ce a False)"

definition sections_with :: "string \<Rightarrow> (string \<times> string) list \<Rightarrow> string list" where
  "sections_with key known =
     map (\<lambda>(name, _). fst (split1 (CHR ''.'') name)) (filter (\<lambda>(name, _). snd (split1 (CHR ''.'') name) = key) known)"

definition cmd_set :: "cli_env \<Rightarrow> cli_args \<Rightarrow> unit cli" where
  "cmd_set ce a =
     (case positional a of
        key # v # vs \<Rightarrow>
          (case a_section a of
             Some sec \<Rightarrow> set_setting ce sec key (join '' '' (v # vs))
           | None \<Rightarrow>
               pbind (client_call ce (\<lambda>_. mgr_get_settings)) (\<lambda>known.
                 (case sections_with key known of
                    [sec] \<Rightarrow> set_setting ce sec key (join '' '' (v # vs))
                  | _ \<Rightarrow> fail 1)))
      | _ \<Rightarrow> fail 1)"

section \<open>Doctor and reset\<close>

text \<open>
  \<open>cmd_doctor\<close>: a user's choice that outlived the option is handed back. The states of the service's own
  checks are an argument; an error among them is exit code 1. An \<open>OSError\<close> of the write is not caught.
\<close>

definition cmd_doctor :: "cli_env \<Rightarrow> string list \<Rightarrow> unit cli" where
  "cmd_doctor ce states =
     pbind (client_call ce (\<lambda>_. pret ())) (\<lambda>_.
     pbind (\<lambda>w.
         if ce_euid ce \<noteq> 0 \<and> choice_at (ce_state_path ce) w = Some FACE \<and> \<not> face_in_effect ce (ce_user_config ce) w
         then (case write_choice (ce_state_path ce) PASSWORD w of (ok, w') \<Rightarrow> (if ok then Inr () else Inl Uncaught, w'))
         else (Inr (), w)) (\<lambda>_.
       if ''error'' \<in> set states then fail 1 else pret ()))"

text \<open>\<open>reset_all_users\<close>: each write runs as the user; one that fails is left out.\<close>

fun reset_users :: "(string \<times> string) list \<Rightarrow> cli_world \<Rightarrow> string list \<times> cli_world" where
  "reset_users [] w = ([], w)"
| "reset_users ((name, path) # us) w =
     (if choice_at path w \<noteq> Some FACE then reset_users us w
      else
        let (ok, w1) = write_choice path PASSWORD w; (names, w2) = reset_users us w1
        in (if ok then name # names else names, w2))"

definition reset_all_users :: "cli_env \<Rightarrow> cli_world \<Rightarrow> string list \<times> cli_world" where
  "reset_all_users ce w = reset_users (user_state_paths (ce_host ce) (ce_accounts ce)) w"

text \<open>\<open>reset-system\<close>, run as root on the files directly; what \<open>--purge\<close> deletes after that is in \<^verbatim>\<open>Cli_Main\<close>.\<close>

definition cmd_reset_system :: "cli_env \<Rightarrow> unit cli" where
  "cmd_reset_system ce w =
     (if ce_euid ce \<noteq> 0 then (Inl (Exit 1), w)
      else
        let w1 = snd (reset_all_users ce w) in
        (case reset (e_sha (ce_env ce)) (e_root (ce_env ce)) (f_pam (cw_files w1)) of
           (Inl _, p) \<Rightarrow> (Inl Uncaught, w1\<lparr>cw_files := (cw_files w1)\<lparr>f_pam := p\<rparr>\<rparr>)
         | (Inr _, p) \<Rightarrow> (Inr (), w1\<lparr>cw_files := (cw_files w1)\<lparr>f_pam := p\<rparr>\<rparr>)))"

text \<open>The exit code of the process; an exception nothing catches is code 1.\<close>

definition exit_code :: "cli_exit + unit \<Rightarrow> int" where
  "exit_code r =
     (case r of
        Inr _ \<Rightarrow> 0
      | Inl (Exit k) \<Rightarrow> k
      | Inl _ \<Rightarrow> 1)"


section \<open>What disabling a target leaves alone\<close>

definition kde_path :: "string \<Rightarrow> string" where
  "kde_path rt = path_join rt KSCREENLOCKER_CONFIG"

lemma only_writes_other: "only_writes P w w' \<Longrightarrow> q \<notin> P \<Longrightarrow> map_of (pfiles w') q = map_of (pfiles w) q"
  unfolding only_writes_def by metis

lemma write_text_other: "write_text p t md w = (r, w') \<Longrightarrow> q \<noteq> p \<Longrightarrow> map_of (pfiles w') q = map_of (pfiles w) q"
  by (rule only_writes_other [OF write_text_only_writes]) simp_all

lemma remove_file_other: "remove_file p w = (r, w') \<Longrightarrow> q \<noteq> p \<Longrightarrow> map_of (pfiles w') q = map_of (pfiles w) q"
  by (rule only_writes_other [OF remove_file_only_writes]) simp_all

lemma forget_main_other:
  assumes "forget_main_autologin rt user w = (r, w')" and "q \<noteq> path_join rt AUTOLOGIN_MAIN"
  shows "map_of (pfiles w') q = map_of (pfiles w) q"
  using assms by (auto simp: forget_main_autologin_def Let_def split: if_splits option.splits sum.splits dest: write_text_other)

lemma revert_other:
  assumes run: "revert sha rt path begins s = (r, s')" and q: "q \<noteq> path" "q \<noteq> path_join rt AUTOLOGIN_MAIN"
  shows "map_of (pfiles (fst s')) q = map_of (pfiles (fst s)) q"
proof (cases "isfile (fst s) path \<and> (\<exists>t. read_text (fst s) path = Inr t)")
  case False
  then show ?thesis
    using run by (auto simp: revert_def Let_def split: if_splits sum.splits)
next
  case True
  then obtain t where isf: "isfile (fst s) path" and t: "read_text (fst s) path = Inr t"
    by blast
  obtain r1 w1 where w1: "(if path = path_join rt AUTOLOGIN_FILE
      then forget_main_autologin rt (map_of (ini_group t ''Autologin'') ''User'') (fst s)
      else (Inr (), fst s)) = (r1, w1)"
    by fastforce
  then have first: "map_of (pfiles w1) q = map_of (pfiles (fst s)) q"
    using forget_main_other q(2) by (auto split: if_splits)
  have "map_of (pfiles (fst s')) q = map_of (pfiles w1) q"
    using run isf q(1) unfolding revert_def Let_def t sum.case w1 if_True
    by (cases r1) (auto split: if_splits prod.splits sum.splits option.splits dest: write_text_other remove_file_other)
  then show ?thesis
    using first by simp
qed

lemma revert_all_other:
  "revert_all sha rt ps s = (r, s') \<Longrightarrow> q \<notin> fst ` set ps \<Longrightarrow> q \<noteq> path_join rt AUTOLOGIN_MAIN \<Longrightarrow>
    map_of (pfiles (fst s')) q = map_of (pfiles (fst s)) q"
proof (induction ps arbitrary: s r)
  case (Cons pb ps)
  obtain path begins where pb: "pb = (path, begins)"
    by (cases pb)
  obtain r1 s1 where step: "revert sha rt path begins s = (r1, s1)"
    by (cases "revert sha rt path begins s")
  have n1: "map_of (pfiles (fst s1)) q = map_of (pfiles (fst s)) q"
    using revert_other [OF step] Cons.prems(2,3) pb by simp
  show ?case
  proof (cases r1)
    case (Inl e)
    then show ?thesis
      using Cons.prems(1) pb step n1 by simp
  next
    case (Inr c)
    then obtain r2 where "revert_all sha rt ps s1 = (r2, s')"
      using Cons.prems(1) pb step by (auto split: prod.splits sum.splits)
    then show ?thesis
      using Cons.IH n1 Cons.prems(2,3) by simp
  qed
qed simp

lemma other_kind_path:
  assumes "k \<noteq> KdeConfig" and "\<not> starts_with service [SLASH]"
  shows "kind_path rt service k \<noteq> kde_path rt" and "path_join rt AUTOLOGIN_MAIN \<noteq> kde_path rt"
proof -
  have "\<not> ends_with ETC_DIR [SLASH]"
    by (simp add: ETC_DIR_def suffix_to_prefix)
  then have "path_join ETC_DIR service = ETC_DIR @ SLASH # service"
    using assms(2) by (auto simp: path_join_def ETC_DIR_def)
  then have "path_join ETC_DIR service \<noteq> KSCREENLOCKER_CONFIG" "\<not> starts_with (path_join ETC_DIR service) [SLASH]"
    by (simp_all add: ETC_DIR_def KSCREENLOCKER_CONFIG_def)
  then show "kind_path rt service k \<noteq> kde_path rt"
    using assms(1) path_join_inj [of rt "path_join ETC_DIR service" KSCREENLOCKER_CONFIG]
      path_join_inj [of rt AUTOLOGIN_FILE KSCREENLOCKER_CONFIG]
    by (cases k) (auto simp: kind_path_def kde_path_def etc_path_def KSCREENLOCKER_CONFIG_def AUTOLOGIN_FILE_def)
  show "path_join rt AUTOLOGIN_MAIN \<noteq> kde_path rt"
    using path_join_inj [of rt AUTOLOGIN_MAIN KSCREENLOCKER_CONFIG]
    by (auto simp: kde_path_def KSCREENLOCKER_CONFIG_def AUTOLOGIN_MAIN_def)
qed

lemma plan_kinds:
  assumes "plan w rt target = Inr p" and "(service, k) \<in> set p"
  shows "\<not> starts_with service [SLASH]" and "k = KdeConfig \<Longrightarrow> target = ''lock-screen''"
  using assms by (auto simp: plan_def Let_def rbind_def split: if_splits sum.splits)

text \<open>Disabling touches the lock screen's option only for the lock screen, and not while someone starts with it.\<close>

lemma disable_kde_path:
  assumes run: "disable sha rt target keep w = (r, w')" and "target = ''lock-screen'' \<longrightarrow> keep"
  shows "read_text w' (kde_path rt) = read_text w (kde_path rt)"
proof (rule read_text_cong)
  show "map_of (pfiles w') (kde_path rt) = map_of (pfiles w) (kde_path rt)"
  proof (cases "\<exists>m p. load_state w = Inr m \<and> plan w rt target = Inr p")
    case False
    then show ?thesis
      using run by (auto simp: disable_def split: sum.splits)
  next
    case True
    then obtain m p where m: "load_state w = Inr m" and p: "plan w rt target = Inr p"
      by blast
    let ?todo = "filter (\<lambda>(service, k). \<not> (k = KdeConfig \<and> keep)) (disable_plan target p)"
    let ?ps = "map (\<lambda>(service, k). (kind_path rt service k, if is_wallet k then [WALLET_BEGIN] else [BEGIN_MARK])) ?todo"
    have kinds: "k \<noteq> KdeConfig \<and> \<not> starts_with service [SLASH]" if "(service, k) \<in> set ?todo" for service k
      using that plan_kinds [OF p, of service k] assms(2) by (auto simp: disable_plan_def split: if_splits)
    have "kde_path rt \<noteq> kind_path rt (fst x) (snd x)" if "x \<in> set ?todo" for x
      using kinds [of "fst x" "snd x"] that other_kind_path(1) [of "snd x" "fst x" rt] by simp
    moreover have "fst ` set ?ps = (\<lambda>x. kind_path rt (fst x) (snd x)) ` set ?todo"
      by (simp only: set_map image_image case_prod_unfold fst_conv)
    ultimately have "kde_path rt \<notin> fst ` set ?ps"
      by blast
    moreover have "kde_path rt \<noteq> path_join rt AUTOLOGIN_MAIN"
      using other_kind_path(2) [of Own "[]"] by (metis kind.distinct(1) prefix_Nil list.distinct(1))
    moreover obtain r1 s1 where ra: "revert_all sha rt ?ps (w, m) = (r1, s1)"
      by (rule prod.exhaust)
    ultimately have "map_of (pfiles (fst s1)) (kde_path rt) = map_of (pfiles w) (kde_path rt)"
      using revert_all_other [OF ra] by simp
    then show ?thesis
      using run unfolding disable_def m p sum.case Let_def ra
      by (cases s1; cases r1) (auto simp: save_state_def split: if_splits)
  qed
qed


section \<open>The choice never outlives the option\<close>

text \<open>The greeter crashes for a user whose lock screen starts with Face while the option is not in effect.\<close>

definition unlockable :: "cli_env \<Rightarrow> string \<Rightarrow> string \<Rightarrow> cli_world \<Rightarrow> bool" where
  "unlockable ce path cfg w \<longleftrightarrow> (choice_at path w = Some FACE \<longrightarrow> face_in_effect ce cfg w)"

lemma face_in_effect_cong:
  "read_text (f_pam (cw_files w')) (kde_path (e_root (ce_env ce))) = read_text (f_pam (cw_files w)) (kde_path (e_root (ce_env ce))) \<Longrightarrow>
    face_in_effect ce cfg w' = face_in_effect ce cfg w"
  by (simp only: face_in_effect_def kde_path_def)

lemma client_call_states: "client_call ce f w = (r, w') \<Longrightarrow> cw_states w' = cw_states w \<and> cw_state_w w' = cw_state_w w"
  by (auto simp: client_call_def split: if_splits prod.splits sum.splits)

lemma client_call_pam:
  assumes "client_call ce f w = (r, w')" and "\<And>env fs. f_pam (snd (f env fs)) = f_pam fs"
  shows "f_pam (cw_files w') = f_pam (cw_files w)"
  using assms(1) assms(2) [of "service_env ce w" "cw_files w"]
  by (auto simp: client_call_def split: if_splits prod.splits sum.splits)

lemma mgr_list_targets_pam: "f_pam (snd (mgr_list_targets env fs)) = f_pam fs"
  by (simp add: mgr_list_targets_def read_pam_def split: sum.split)

lemma choice_written: "write_choice path v w = (ok, w') \<Longrightarrow>
    choice_at q w' = (if ok \<and> q = path then Some (strip v) else choice_at q w) \<and> cw_files w' = cw_files w \<and> cw_state_w w' = cw_state_w w"
  by (auto simp: write_choice_def choice_at_def choice_roundtrip split: option.splits if_splits)

lemma strip_choices [simp]: "strip FACE = FACE" "strip PASSWORD = PASSWORD" "PASSWORD \<noteq> FACE" "FACE \<noteq> PASSWORD"
  by (simp_all add: FACE_def PASSWORD_def strip_def rstrip_def lstrip_def is_space_def)

text \<open>Handing the choice back: nobody's choice becomes Face, and the service's files stay.\<close>

lemma lock_screen_choice_off:
  assumes "lock_screen_choice ce False w = (r, w')"
  shows "(choice_at q w' = Some FACE \<longrightarrow> choice_at q w = Some FACE) \<and> f_pam (cw_files w') = f_pam (cw_files w)"
proof (cases "ce_euid ce = 0")
  case True
  then show ?thesis
    using assms by (simp add: lock_screen_choice_def)
next
  case False
  obtain r1 w1 where c: "client_call ce mgr_list_targets w = (r1, w1)"
    by fastforce
  have w1: "choice_at q w1 = choice_at q w" "f_pam (cw_files w1) = f_pam (cw_files w)"
    using client_call_states [OF c] client_call_pam [OF c mgr_list_targets_pam] by (simp_all add: choice_at_def)
  obtain ok w2 where w2: "write_choice (ce_state_path ce) PASSWORD w1 = (ok, w2)"
    by fastforce
  have "w' = w1 \<or> w' = w2"
    using assms False c w2
    by (auto simp: lock_screen_choice_def pbind_def pret_def praise_def split: sum.splits option.splits if_splits)
  then show ?thesis
    using w1 choice_written [OF w2, of q] by (auto split: if_splits)
qed

lemma forget_login_secret_pam: "f_pam (snd (forget_login_secret u fs)) = f_pam fs"
  by (simp add: forget_login_secret_def split: option.split)

lemma on_pam_disable:
  "on_pam (disable sha rt target keep) g = (r, g') \<Longrightarrow> (target = ''lock-screen'' \<longrightarrow> keep) \<Longrightarrow>
    read_text (f_pam g') (kde_path rt) = read_text (f_pam g) (kde_path rt)"
  using disable_kde_path [of sha rt target keep] by (auto simp: on_pam_def split: prod.splits sum.splits)

text \<open>One \<open>SetTarget\<close> that disables: the option's file is only touched when nobody starts with Face.\<close>

lemma set_target_off_pam:
  assumes "mgr_set_target env c target False fs = (r, fs')" and "target = ''lock-screen'' \<longrightarrow> e_prefer_face env \<noteq> []"
  shows "read_text (f_pam fs') (kde_path (e_root env)) = read_text (f_pam fs) (kde_path (e_root env))"
  using assms(1,2) unfolding mgr_set_target_def pbind_def lift_result_def pret_def send_signal_def
  by (auto simp: read_pam_def forget_login_secret_def split: sum.splits prod.splits if_splits option.splits dest!: on_pam_disable)


lemma prefers_listed:
  assumes "(name, path) \<in> set (user_state_paths (ce_host ce) (ce_accounts ce))" and "choice_at path w = Some FACE"
  shows "e_prefer_face (service_env ce w) \<noteq> []"
  using assms by (force simp: service_env_def users_preferring_face_def choice_at_def filter_empty_conv)

lemma service_env_root [simp]: "e_root (service_env ce w) = e_root (ce_env ce)"
  by (simp add: service_env_def)

lemma set_target_off_unlockable:
  assumes "(name, path) \<in> set (user_state_paths (ce_host ce) (ce_accounts ce))"
    and "unlockable ce path cfg w" and "set_target_call ce False target w = (r, w')"
  shows "unlockable ce path cfg w'"
proof (cases "choice_at path w = Some FACE")
  case False
  then show ?thesis
    using client_call_states [OF assms(3) [unfolded set_target_call_def]] by (simp add: unlockable_def choice_at_def)
next
  case True
  obtain r1 fs' where m: "mgr_set_target (service_env ce w) (ce_caller ce) target False (cw_files w) = (r1, fs')"
    by fastforce
  have "cw_files w' = fs' \<or> cw_files w' = cw_files w"
    using assms(3) m by (auto simp: set_target_call_def client_call_def split: if_splits sum.splits)
  moreover have "read_text (f_pam fs') (kde_path (e_root (ce_env ce))) = read_text (f_pam (cw_files w)) (kde_path (e_root (ce_env ce)))"
    using set_target_off_pam [OF m] prefers_listed [OF assms(1) True] by simp
  ultimately have "face_in_effect ce cfg w' = face_in_effect ce cfg w"
    by (intro face_in_effect_cong) metis
  then show ?thesis
    using assms(2) True by (simp add: unlockable_def)
qed

lemma each_keeps:
  assumes "\<And>x w r w'. P w \<Longrightarrow> f x w = (r, w') \<Longrightarrow> P w'"
  shows "P w \<Longrightarrow> each f xs w = (r, w') \<Longrightarrow> P w'"
proof (induction xs arbitrary: w)
  case (Cons x xs)
  then show ?case
    using assms by (fastforce simp: pbind_def split: prod.splits sum.splits)
qed simp

text \<open>
  C16. Turning face unlock off never leaves a lock screen that crashes, as far as the service can see: whoever runs the command, as a user or as root, for
  whatever targets, and wherever it fails, every regular account with its state file at the default place, \<^verbatim>\<open>~/.local/state/kscreenlockerrc\<close>,
  whose lock screen did not start with an option that is off before, has none afterwards. These are the files the
  service looks at; the file of someone who has moved theirs with \<^verbatim>\<open>XDG_STATE_HOME\<close> is not one of them.
\<close>

theorem disable_keeps_lock_screens:
  assumes "cmd_disable ce a w = (r, w')"
    and "(name, path) \<in> set (user_state_paths (ce_host ce) (ce_accounts ce))" and "unlockable ce path cfg w"
  shows "unlockable ce path cfg w'"
proof -
  have enable: "unlockable ce path cfg w'" if run: "cmd_enable ce a False w = (r, w')"
  proof -
    obtain r1 w1 where first: "(if ''lock-screen'' \<in> set (positional a) then lock_screen_choice ce False else pret ()) w = (r1, w1)"
      by fastforce
    have u1: "unlockable ce path cfg w1"
      using assms(3) first lock_screen_choice_off [of ce w r1 w1 path] face_in_effect_cong [of w1 ce w]
      by (auto simp: unlockable_def split: if_splits)
    obtain r2 w2 where rest: "each (set_target_call ce False) (positional a) w1 = (r2, w2)"
      by fastforce
    have "unlockable ce path cfg w2"
      using each_keeps [of "unlockable ce path cfg", OF _ u1 rest] set_target_off_unlockable [OF assms(2)] by blast
    then show ?thesis
      using run first rest u1 assms(3)
      by (auto simp: cmd_enable_def fail_def pbind_def split: if_splits sum.splits)
  qed
  have setting: "unlockable ce path cfg w'" if "set_setting ce sec key v w = (r, w')" for sec key v
  proof -
    have "f_pam (snd (mgr_set_setting env c sec key v fs)) = f_pam fs" for env c fs
      by (simp add: mgr_set_setting_def pbind_def lift_result_def send_signal_def split: sum.split prod.split)
    then have "f_pam (cw_files w') = f_pam (cw_files w)"
      using client_call_pam that unfolding set_setting_def by blast
    moreover have "cw_states w' = cw_states w"
      using client_call_states that unfolding set_setting_def by blast
    ultimately show ?thesis
      using assms(3) face_in_effect_cong [of w' ce w] by (simp add: unlockable_def choice_at_def)
  qed
  show ?thesis
    using assms(1) enable setting by (auto simp: cmd_disable_def split: list.splits if_splits)
qed


text \<open>A user whose lock screen starts with Face, with the option in the system's file, and root turning it off.\<close>

definition locked_files :: files where
  "locked_files = sample_files\<lparr>f_pam := sample_world\<lparr>pfiles :=
     (''/etc/xdg/kscreenlockerrc'', sample_file (''[Authenticators]'' @ [LF] @ ''Face=true'' @ [LF])) # pfiles sample_world\<rparr>\<rparr>"

definition locked_world :: cli_world where
  "locked_world = \<lparr>cw_files = locked_files,
     cw_states = (\<lambda>p. Some (if p = ''/home/alice/.local/state/kscreenlockerrc'' then [''[Greeter]'', ''Authenticator=Face''] else [])),
     cw_state_w = (\<lambda>p. True)\<rparr>"

definition root_cli :: cli_env where
  "root_cli = \<lparr>ce_env = sample_env, ce_mgr = new_manager, ce_caller = \<lparr>sender = '':1.5'', uid = 0\<rparr>, ce_up = True, ce_euid = 0,
     ce_answer = None, ce_host = sample_host, ce_accounts = [(''alice'', 1000, ''/home/alice'')],
     ce_state_path = ''/root/.local/state/kscreenlockerrc'', ce_user_config = ''/root/.config/kscreenlockerrc''\<rparr>"

lemma locked_choice: "choice_at ''/home/alice/.local/state/kscreenlockerrc'' locked_world = Some FACE"
  by (simp add: choice_at_def locked_world_def read_choice_def GROUP_def KEY_def FACE_def key_line_def value_of_def split1_def
      strip_def rstrip_def lstrip_def is_space_def Let_def)

lemma locked_option:
  "read_text (f_pam (cw_files locked_world)) (path_join (e_root (ce_env root_cli)) KSCREENLOCKER_CONFIG) =
     Inr (''[Authenticators]'' @ [LF] @ ''Face=true'' @ [LF])"
  by (simp add: read_text_def locked_world_def locked_files_def sample_files_def sample_world_def sample_file_def root_cli_def
      sample_env_def path_join_def KSCREENLOCKER_CONFIG_def)

lemma locked_lines: "splitlines (''[Authenticators]'' @ [LF] @ ''Face=true'' @ [LF]) = [''[Authenticators]'', ''Face=true'']"
  by (simp add: splitlines_def chomp_def is_break_def)

lemma locked_key: "key_scan ''[Authenticators]'' ''Face'' None None [''[Authenticators]'', ''Face=true''] = Some ''true''"
  by (simp add: key_line_def value_of_def split1_def strip_def rstrip_def lstrip_def is_space_def Let_def)

lemma locked_unlockable:
  "unlockable root_cli ''/home/alice/.local/state/kscreenlockerrc'' ''/home/alice/.config/kscreenlockerrc'' locked_world"
proof -
  have "host_text (ce_host root_cli) ''/home/alice/.config/kscreenlockerrc'' = None"
    by (simp add: root_cli_def sample_host_def)
  then show ?thesis
    using locked_option locked_lines locked_key
    by (simp add: unlockable_def face_in_effect_def face_enabled_def read_key_def SYSTEM_CONFIG_def lower_def to_lower_char_def)
qed

theorem disable_keeps_lock_screens_witness:
  "choice_at ''/home/alice/.local/state/kscreenlockerrc'' locked_world = Some FACE \<and>
   unlockable root_cli ''/home/alice/.local/state/kscreenlockerrc'' ''/home/alice/.config/kscreenlockerrc''
     (snd (cmd_disable root_cli \<lparr>a_user = ''alice'', positional = [''lock-screen''], assume_yes = True, as_json = False, a_section = None\<rparr> locked_world))"
proof -
  have "(''alice'', ''/home/alice/.local/state/kscreenlockerrc'') \<in> set (user_state_paths (ce_host root_cli) (ce_accounts root_cli))"
    by (simp add: user_state_paths_def root_cli_def sample_host_def path_join_def suffix_to_prefix)
  then show ?thesis
    using disable_keeps_lock_screens [OF prod.collapse [symmetric], of _ _ root_cli _ locked_world] locked_unlockable locked_choice by blast
qed

section \<open>Choices follow the option\<close>

lemma each_states:
  "each (set_target_call ce on) ts w = (r, w') \<Longrightarrow> cw_states w' = cw_states w \<and> cw_state_w w' = cw_state_w w"
  by (rule each_keeps [where P = "\<lambda>v. cw_states v = cw_states w \<and> cw_state_w v = cw_state_w w"])
    (auto simp: set_target_call_def dest: client_call_states)

lemma lock_screen_choice_on:
  assumes "lock_screen_choice ce True w = (r, w')" and "choice_at q w' = Some FACE"
  shows "choice_at q w = Some FACE \<or> (q = ce_state_path ce \<and> face_in_effect ce (ce_user_config ce) w')"
proof (cases "ce_euid ce = 0")
  case True
  then show ?thesis
    using assms by (simp add: lock_screen_choice_def)
next
  case False
  obtain r1 w1 where c: "client_call ce mgr_list_targets w = (r1, w1)"
    by fastforce
  have w1: "choice_at q w1 = choice_at q w"
    using client_call_states [OF c] by (simp add: choice_at_def)
  obtain ok w2 where w2: "write_choice (ce_state_path ce) FACE w1 = (ok, w2)"
    by fastforce
  have "w' = w1 \<or> (w' = w2 \<and> face_in_effect ce (ce_user_config ce) w1)"
    using assms(1) False c w2
    by (auto simp: lock_screen_choice_def pbind_def pret_def praise_def split: sum.splits option.splits if_splits)
  moreover have "face_in_effect ce (ce_user_config ce) w2 = face_in_effect ce (ce_user_config ce) w1"
    using choice_written [OF w2] by (intro face_in_effect_cong) simp
  ultimately show ?thesis
    using w1 choice_written [OF w2, of q] assms(2) by (auto split: if_splits)
qed

lemma enable_choice:
  assumes "cmd_enable ce a True w = (r, w')" and "choice_at q w' = Some FACE"
  shows "choice_at q w = Some FACE \<or> (q = ce_state_path ce \<and> face_in_effect ce (ce_user_config ce) w')"
proof -
  obtain r1 w1 where e: "each (set_target_call ce True) (positional a) w = (r1, w1)"
    by fastforce
  have same: "choice_at q w1 = choice_at q w"
    using each_states [OF e] by (simp add: choice_at_def)
  have "w' = w \<or> w' = w1 \<or> lock_screen_choice ce True w1 = (r, w')"
    using assms(1) e by (auto simp: cmd_enable_def fail_def praise_def pret_def pbind_def split: if_splits sum.splits)
  then show ?thesis
    using assms(2) same lock_screen_choice_on [of ce w1 r w' q] by auto
qed

lemma doctor_repairs:
  assumes "cmd_doctor ce states w = (r, w')" and "ce_up ce" and "ce_euid ce \<noteq> 0" and "cw_state_w w (ce_state_path ce)"
  shows "unlockable ce (ce_state_path ce) (ce_user_config ce) w'"
proof -
  have call: "client_call ce (\<lambda>_. pret ()) w = (Inr (), w)"
    using assms(2) by (simp add: client_call_def)
  obtain ok w2 where w2: "write_choice (ce_state_path ce) PASSWORD w = (ok, w2)"
    by fastforce
  have "choice_at (ce_state_path ce) w = Some FACE \<Longrightarrow> ok"
    using w2 assms(4) by (auto simp: write_choice_def choice_at_def split: option.splits)
  then show ?thesis
    using assms(1,3) call w2 choice_written [OF w2, of "ce_state_path ce"]
    by (auto simp: cmd_doctor_def pbind_def fail_def praise_def pret_def unlockable_def split: if_splits)
qed

lemma reset_users_choice:
  "reset_users us w = (names, w') \<Longrightarrow> (\<forall>q. choice_at q w' = Some FACE \<longrightarrow> choice_at q w = Some FACE) \<and>
    (\<forall>(name, path) \<in> set us. cw_state_w w path \<longrightarrow> choice_at path w' \<noteq> Some FACE)"
proof (induction us arbitrary: w names)
  case (Cons u us)
  obtain name path where u: "u = (name, path)"
    by (cases u)
  show ?case
  proof (cases "choice_at path w = Some FACE")
    case False
    then show ?thesis
      using Cons.IH [of w names] Cons.prems u by auto
  next
    case True
    obtain ok w1 where w1: "write_choice path PASSWORD w = (ok, w1)"
      by fastforce
    obtain names1 where rest: "reset_users us w1 = (names1, w')"
      using Cons.prems True w1 u by (auto split: prod.splits)
    have ok: "cw_state_w w path \<Longrightarrow> ok"
      using w1 True by (auto simp: write_choice_def choice_at_def split: option.splits)
    have less: "choice_at q w1 = Some FACE \<Longrightarrow> choice_at q w = Some FACE" for q
      using choice_written [OF w1, of q] by (auto split: if_splits)
    have "cw_state_w w path \<Longrightarrow> choice_at path w1 \<noteq> Some FACE" "cw_state_w w1 = cw_state_w w"
      using choice_written [OF w1, of path] ok by simp_all
    then show ?thesis
      using Cons.IH [OF rest] less u by auto
  qed
qed simp

lemma reset_hands_back:
  assumes "cmd_reset_system ce w = (r, w')" and "ce_euid ce = 0"
    and "(name, path) \<in> set (user_state_paths (ce_host ce) (ce_accounts ce))" and "cw_state_w w path"
  shows "choice_at path w' \<noteq> Some FACE"
proof -
  obtain names w1 where r: "reset_users (user_state_paths (ce_host ce) (ce_accounts ce)) w = (names, w1)"
    by fastforce
  have "cw_states w' = cw_states w1"
    using assms(1,2) r by (auto simp: cmd_reset_system_def reset_all_users_def Let_def split: prod.splits sum.splits)
  then show ?thesis
    using reset_users_choice [OF r] assms(3,4) by (auto simp: choice_at_def)
qed



section \<open>Clearing the models\<close>

lemma migrate_no_legacy: "legacy_files s = None \<Longrightarrow> snd (migrate_legacy s) = s"
  by (simp add: migrate_legacy_def)

lemma load_no_legacy: "legacy_files s = None \<Longrightarrow> snd (load_models user s) = s"
  by (simp add: load_models_lookup migrate_no_legacy)

lemma save_no_legacy: "legacy_files s = None \<Longrightarrow> legacy_files (snd (save_models user ms s)) = None"
  by (auto simp: save_models_def delete_models_def put_file_def drop_file_def split: sum.splits if_splits option.splits)

lemma remove_no_legacy:
  assumes "legacy_files s = None" and "remove_model user i s = (r, s')"
  shows "legacy_files s' = None"
proof -
  obtain r1 where "load_models user s = (r1, s)"
    using load_no_legacy [OF assms(1), of user] by (metis prod.collapse)
  then show ?thesis
    using assms save_no_legacy [OF assms(1), of user]
    by (auto simp: remove_model_def pbind_def Let_def split: sum.splits if_splits prod.splits) (metis snd_conv)+
qed

lemma delete_call_run:
  assumes "delete_call ce a i w = (Inr (), w')"
  shows "remove_model (a_user a) i (f_store (cw_files w)) = (Inr True, f_store (cw_files w'))"
  using assms
  by (auto simp: delete_call_def send_uint_def client_call_def mgr_delete_model_def pbind_def lift_result_def on_store_def
      send_signal_def pret_def praise_def split: if_splits prod.splits sum.splits)

lemma deletes_run:
  assumes "each (\<lambda>row. delete_call ce a (fst row)) rows w = (Inr (), w')"
    and "load_models (a_user a) (f_store (cw_files w)) = (Inr ms, s)" and "legacy_files (f_store (cw_files w)) = None"
  shows "fst (load_models (a_user a) (f_store (cw_files w'))) = Inr (filter (\<lambda>m. m_id m \<notin> fst ` set rows) ms)"
  using assms
proof (induction rows arbitrary: w ms s)
  case (Cons row rows)
  obtain i t where row: "row = (i, t)"
    by (cases row)
  obtain w1 where w1: "delete_call ce a i w = (Inr (), w1)" "each (\<lambda>row. delete_call ce a (fst row)) rows w1 = (Inr (), w')"
    using Cons.prems(1) row by (auto simp: pbind_def split: prod.splits sum.splits)
  have s: "s = f_store (cw_files w)"
    using Cons.prems(2,3) load_no_legacy by (metis snd_conv)
  note rm = delete_call_run [OF w1(1)]
  have "load_models (a_user a) (f_store (cw_files w1)) = (Inr (filter (\<lambda>m. m_id m \<noteq> i) ms), f_store (cw_files w1))"
    using remove_model_load [OF rm Cons.prems(2)] Cons.prems(3) s by simp
  then show ?case
    using Cons.IH [OF w1(2) _ remove_no_legacy [OF Cons.prems(3) rm]] row by (simp add: conj_commute)
qed simp

text \<open>
  \<open>clear\<close> leaves no model: when the command succeeds and the directory of older versions is gone, loading the user's
  models gives none, although the service is asked for one model at a time.
\<close>

theorem clear_removes_all:
  assumes "cmd_clear ce a w = (Inr (), w')" and "legacy_files (f_store (cw_files w)) = None"
  shows "fst (load_models (a_user a) (f_store (cw_files w'))) = Inr []"
proof -
  obtain rows w1 where call: "client_call ce (\<lambda>env. mgr_list_models env (ce_caller ce) (a_user a)) w = (Inr rows, w1)"
      and each: "each (\<lambda>row. delete_call ce a (fst row)) rows w1 = (Inr (), w')"
    using assms(1)
    by (auto simp: cmd_clear_def confirm_def fail_def praise_def pret_def pbind_def split: prod.splits sum.splits if_splits option.splits)
  obtain ms s where ms: "load_models (a_user a) (f_store (cw_files w)) = (Inr ms, s)" "f_store (cw_files w1) = s"
      "rows = map (\<lambda>m. (m_id m, m_time m, m_label m)) ms"
    using call by (auto simp: client_call_def mgr_list_models_def pbind_def lift_result_def on_store_def pret_def
        split: if_splits prod.splits sum.splits)
  have s: "s = f_store (cw_files w)"
    using ms(1) assms(2) load_no_legacy by (metis snd_conv)
  have "filter (\<lambda>m. m_id m \<notin> fst ` set rows) ms = []"
    by (auto simp: ms(3) filter_empty_conv image_image)
  then show ?thesis
    using deletes_run [OF each] ms(1,2) s assms(2) by simp
qed


definition clear_args :: cli_args where
  "clear_args = \<lparr>a_user = ''alice'', positional = [], assume_yes = True, as_json = False, a_section = None\<rparr>"

lemma locked_store: "f_store (cw_files locked_world) = sample_saved"
  by (simp add: locked_world_def locked_files_def sample_files_def)

lemma sample_removed: "remove_model ''alice'' 3 sample_saved = (Inr True, sample_saved\<lparr>model_files := []\<rparr>)"
  unfolding remove_model_def pbind_def load_sample_saved
  by (simp add: save_models_def delete_models_def sample_saved_def model_path_def user_pattern_def name_first_def name_rest_def DAT_def)

lemma sample_clears: "\<exists>w'. cmd_clear root_cli clear_args locked_world = (Inr (), w')"
proof -
  have ok: "check_user (e_bus (service_env root_cli w)) ''alice'' = Inr ()" for w
    by (simp add: check_user_def service_env_def root_cli_def sample_env_def sample_bus_def)
  have who: "uid (ce_caller root_cli) = 0" "ce_up root_cli"
    by (simp_all add: root_cli_def)
  show ?thesis
    by (simp add: cmd_clear_def clear_args_def confirm_def delete_call_def send_uint_def client_call_def who ok mgr_list_models_def
        mgr_delete_model_def pbind_def lift_result_def on_store_def require_self_or_admin_def locked_store load_sample_saved
        sample_removed send_signal_def)
qed

theorem clear_removes_all_witness:
  "\<exists>w'. cmd_clear root_cli clear_args locked_world = (Inr (), w') \<and> fst (load_models ''alice'' (f_store (cw_files w'))) = Inr []"
proof -
  obtain w' where "cmd_clear root_cli clear_args locked_world = (Inr (), w')"
    using sample_clears by blast
  then show ?thesis
    using clear_removes_all [of root_cli clear_args locked_world w'] by (auto simp: clear_args_def locked_store sample_saved_def)
qed

end
