(* ===== verification/Ctaphid.thy ===== *)
theory Ctaphid
  imports Byte_Struct
begin

text \<open>
  \<^verbatim>\<open>webauthn/ctaphid.py\<close>: CTAPHID messages over 64-byte reports. \<open>CtapHidDevice\<close> is a
  record: the channels with their reassembly state, the transaction in the worker thread, the
  responses on their way out, and the reports sent so far. A step is one of the device's entry
  points: a report from the host, the worker's end with the authenticator's answer, the framing of
  that answer, and a keepalive. \<open>struct.error\<close> is a value.
\<close>

unbundle bit_operations_syntax

definition CTAPHID_PING :: nat where "CTAPHID_PING = 0x01"
definition CTAPHID_MSG :: nat where "CTAPHID_MSG = 0x03"
definition CTAPHID_LOCK :: nat where "CTAPHID_LOCK = 0x04"
definition CTAPHID_INIT :: nat where "CTAPHID_INIT = 0x06"
definition CTAPHID_WINK :: nat where "CTAPHID_WINK = 0x08"
definition CTAPHID_CBOR :: nat where "CTAPHID_CBOR = 0x10"
definition CTAPHID_CANCEL :: nat where "CTAPHID_CANCEL = 0x11"
definition CTAPHID_KEEPALIVE :: nat where "CTAPHID_KEEPALIVE = 0x3B"
definition CTAPHID_ERROR :: nat where "CTAPHID_ERROR = 0x3F"

definition ERR_INVALID_CMD :: byte where "ERR_INVALID_CMD = 0x01"
definition ERR_INVALID_LEN :: byte where "ERR_INVALID_LEN = 0x03"
definition ERR_INVALID_SEQ :: byte where "ERR_INVALID_SEQ = 0x04"
definition ERR_CHANNEL_BUSY :: byte where "ERR_CHANNEL_BUSY = 0x06"
definition ERR_INVALID_CHANNEL :: byte where "ERR_INVALID_CHANNEL = 0x0B"
definition STATUS_UPNEEDED :: byte where "STATUS_UPNEEDED = 0x02"
definition CAPABILITY_CBOR :: byte where "CAPABILITY_CBOR = 0x04"
definition CAPABILITY_NMSG :: byte where "CAPABILITY_NMSG = 0x08"

definition HID_REPORT_SIZE :: nat where "HID_REPORT_SIZE = 64"
definition CID_BROADCAST :: nat where "CID_BROADCAST = 0xFFFFFFFF"
definition INIT_PAYLOAD :: nat where "INIT_PAYLOAD = HID_REPORT_SIZE - 7"
definition CONT_PAYLOAD :: nat where "CONT_PAYLOAD = HID_REPORT_SIZE - 5"
definition CTAPHID_PROTOCOL_VERSION :: byte where "CTAPHID_PROTOCOL_VERSION = 2"

record channel =
  ch_command :: "nat option"
  ch_expected :: nat
  ch_buffer :: "byte list"
  ch_seq :: nat

text \<open>\<open>Channel(cid)\<close>, and what \<open>reset\<close> makes of a channel.\<close>

definition idle_channel :: channel where
  "idle_channel = \<lparr>ch_command = None, ch_expected = 0, ch_buffer = [], ch_seq = 0\<rparr>"

record hid =
  channels :: "(nat \<times> channel) list"
  next_cid :: nat
  active_cid :: "nat option"
  cancelled :: bool
  cancel_reply :: bool
  worker :: "(nat \<times> byte list) option"
  replies :: "(nat \<times> byte list) list"
  aborts :: nat
  sent :: "byte list list"

definition new_device :: hid where
  "new_device = \<lparr>channels = [], next_cid = 1, active_cid = None, cancelled = False, cancel_reply = True,
     worker = None, replies = [], aborts = 0, sent = []\<rparr>"

datatype hid_error = StructError

type_synonym hid_step = "(hid, hid_error, unit) block"

section \<open>Outbound framing\<close>

text \<open>\<open>frame.ljust(HID_REPORT_SIZE, b"\x00")\<close>\<close>

definition ljust :: "byte list \<Rightarrow> byte list" where
  "ljust f = f @ replicate (HID_REPORT_SIZE - length f) 0"

function cont_frames :: "nat \<Rightarrow> nat \<Rightarrow> byte list \<Rightarrow> byte list list" where
  "cont_frames cid seq data =
     (if data = [] then []
      else ljust (to_be 4 cid @ [of_nat (seq mod 128)] @ take CONT_PAYLOAD data)
           # cont_frames cid (seq + 1) (drop CONT_PAYLOAD data))"
  by pat_completeness auto
termination
  by (relation "measure (\<lambda>(cid, seq, data). length data)") (auto simp: CONT_PAYLOAD_def HID_REPORT_SIZE_def)

declare cont_frames.simps [simp del]

definition frames :: "nat \<Rightarrow> nat \<Rightarrow> byte list \<Rightarrow> byte list list" where
  "frames cid command data =
     ljust (to_be 4 cid @ [0x80 OR of_nat command] @ to_be 2 (length data) @ take INIT_PAYLOAD data)
     # cont_frames cid 0 (drop INIT_PAYLOAD data)"

definition send_message :: "nat \<Rightarrow> nat \<Rightarrow> byte list \<Rightarrow> hid_step" where
  "send_message cid command data h =
     (if length data \<ge> 2 ^ 16 \<or> cid \<ge> 2 ^ 32 then (Inl StructError, h)
      else (Inr (), h\<lparr>sent := sent h @ frames cid command data\<rparr>))"

definition send_error :: "nat \<Rightarrow> byte \<Rightarrow> hid_step" where
  "send_error cid code = send_message cid CTAPHID_ERROR [code]"

section \<open>Commands\<close>

definition reset_channel :: "nat \<Rightarrow> hid \<Rightarrow> hid" where
  "reset_channel cid h = h\<lparr>channels := AList.update cid idle_channel (channels h)\<rparr>"

definition busy_with_other :: "nat \<Rightarrow> hid \<Rightarrow> bool" where
  "busy_with_other cid h \<longleftrightarrow> active_cid h \<noteq> None \<and> active_cid h \<noteq> Some cid"

text \<open>\<open>aborts\<close> counts the calls of the authenticator's \<open>cancel\<close>.\<close>

definition cancel_active :: "nat \<Rightarrow> bool \<Rightarrow> hid \<Rightarrow> hid" where
  "cancel_active cid reply h =
     (if active_cid h \<noteq> Some cid then h
      else h\<lparr>cancelled := True, cancel_reply := reply, aborts := aborts h + 1\<rparr>)"

definition init_response :: "byte list \<Rightarrow> nat \<Rightarrow> byte list" where
  "init_response nonce cid =
     nonce @ to_be 4 cid @ [CTAPHID_PROTOCOL_VERSION, 0, 0, 0, CAPABILITY_CBOR OR CAPABILITY_NMSG]"

definition handle_ctaphid_init :: "nat \<Rightarrow> byte list \<Rightarrow> hid_step" where
  "handle_ctaphid_init cid nonce h =
     (if length nonce \<noteq> 8 then send_error cid ERR_INVALID_LEN h
      else if cid = CID_BROADCAST then
        (let new = next_cid h;
             h1 = h\<lparr>next_cid := new + 1, channels := AList.update new idle_channel (channels h)\<rparr>
         in if new \<ge> 2 ^ 32 then (Inl StructError, h1)
            else send_message cid CTAPHID_INIT (init_response nonce new) h1)
      else
        (let h1 = (if map_of (channels h) cid \<noteq> None then reset_channel cid h else h)
         in send_message cid CTAPHID_INIT (init_response nonce cid) (cancel_active cid False h1)))"

definition start_cbor :: "nat \<Rightarrow> byte list \<Rightarrow> hid_step" where
  "start_cbor cid payload h =
     (if payload = [] then send_error cid ERR_INVALID_LEN h
      else if active_cid h \<noteq> None then send_error cid ERR_CHANNEL_BUSY h
      else (Inr (), h\<lparr>active_cid := Some cid, cancelled := False, worker := Some (cid, payload)\<rparr>))"

text \<open>\<open>_dispatch\<close> of a channel that holds a whole message.\<close>

definition dispatch_message :: "nat \<Rightarrow> nat \<Rightarrow> byte list \<Rightarrow> hid_step" where
  "dispatch_message cid command payload h0 =
     (let h = reset_channel cid h0 in
      if command = CTAPHID_PING then send_message cid CTAPHID_PING payload h
      else if command = CTAPHID_WINK then send_message cid CTAPHID_WINK [] h
      else if command = CTAPHID_MSG then send_error cid ERR_INVALID_CMD h
      else if command = CTAPHID_CBOR then start_cbor cid payload h
      else if command = CTAPHID_LOCK then send_message cid CTAPHID_LOCK [] h
      else send_error cid ERR_INVALID_CMD h)"

section \<open>Inbound reports\<close>

definition handle_init_frame :: "nat \<Rightarrow> byte list \<Rightarrow> hid_step" where
  "handle_init_frame cid report h =
     (if length report < 7 then (Inl StructError, h)
      else
        let command = unat (report ! 4 AND 0x7F); len = from_be (take 2 (drop 5 report)) in
        if command = CTAPHID_INIT then handle_ctaphid_init cid (take len (drop 7 report)) h
        else if cid = CID_BROADCAST then send_error cid ERR_INVALID_CHANNEL h
        else if map_of (channels h) cid = None then send_error cid ERR_INVALID_CHANNEL h
        else if command = CTAPHID_CANCEL then (Inr (), cancel_active cid True h)
        else if busy_with_other cid h then send_error cid ERR_CHANNEL_BUSY h
        else
          let ch = \<lparr>ch_command = Some command, ch_expected = len,
                    ch_buffer = take (min len INIT_PAYLOAD) (drop 7 report), ch_seq = 0\<rparr>;
              h1 = h\<lparr>channels := AList.update cid ch (channels h)\<rparr>
          in if length (ch_buffer ch) \<ge> len then dispatch_message cid command (ch_buffer ch) h1
             else (Inr (), h1))"

definition handle_cont_frame :: "nat \<Rightarrow> byte list \<Rightarrow> hid_step" where
  "handle_cont_frame cid report h =
     (case map_of (channels h) cid of
        None \<Rightarrow> (Inr (), h)
      | Some ch \<Rightarrow>
          (case ch_command ch of
             None \<Rightarrow> (Inr (), h)
           | Some command \<Rightarrow>
               let seq = unat (report ! 4 AND 0x7F) in
               if seq \<noteq> ch_seq ch then send_error cid ERR_INVALID_SEQ (reset_channel cid h)
               else
                 let remaining = ch_expected ch - length (ch_buffer ch);
                     ch' = ch\<lparr>ch_seq := ch_seq ch + 1,
                              ch_buffer := ch_buffer ch @ take (min remaining CONT_PAYLOAD) (drop 5 report)\<rparr>;
                     h1 = h\<lparr>channels := AList.update cid ch' (channels h)\<rparr>
                 in if length (ch_buffer ch') \<ge> ch_expected ch'
                    then dispatch_message cid command (ch_buffer ch') h1
                    else (Inr (), h1)))"

definition feed_report :: "byte list \<Rightarrow> hid_step" where
  "feed_report report h =
     (if length report < 5 then (Inr (), h)
      else
        let cid = from_be (take 4 report) in
        if report ! 4 AND 0x80 \<noteq> 0 then handle_init_frame cid report h
        else handle_cont_frame cid report h)"

text \<open>The pump of the service: one report after another, until one raises.\<close>

fun feed_all :: "byte list list \<Rightarrow> hid_step" where
  "feed_all [] h = (Inr (), h)"
| "feed_all (r # rs) h = pbind (feed_report r) (\<lambda>_. feed_all rs) h"

section \<open>The worker\<close>

text \<open>
  The end of \<open>_run_cbor\<close>, with what the authenticator answered: under the lock the
  transaction ends, then, outside it, the response is framed. Between the two another report
  may be handled, so the responses on their way are part of the state.
\<close>

definition worker_done :: "byte list \<Rightarrow> hid \<Rightarrow> hid" where
  "worker_done response h =
     (case worker h of
        None \<Rightarrow> h
      | Some (cid, _) \<Rightarrow>
          (let h1 = h\<lparr>active_cid := None, worker := None\<rparr> in
           if cancelled h \<and> \<not> cancel_reply h then h1
           else h1\<lparr>replies := replies h @ [(cid, response)]\<rparr>))"

definition worker_reply :: hid_step where
  "worker_reply h =
     (case replies h of
        [] \<Rightarrow> (Inr (), h)
      | (cid, response) # rest \<Rightarrow> send_message cid CTAPHID_CBOR response (h\<lparr>replies := rest\<rparr>))"

definition keepalive :: hid_step where
  "keepalive h =
     (case worker h of
        None \<Rightarrow> (Inr (), h)
      | Some (cid, _) \<Rightarrow> send_message cid CTAPHID_KEEPALIVE [STATUS_UPNEEDED] h)"

section \<open>The header bytes\<close>

lemma and_127: "(n::nat) AND 127 = n mod 128"
proof -
  have "n AND mask 7 = n mod 2 ^ 7"
    unfolding take_bit_eq_mask [symmetric] by (rule take_bit_eq_mod)
  then show ?thesis
    by (simp add: mask_eq_exp_minus_1)
qed

lemma and_or_distrib_nat: "((a::nat) OR b) AND c = (a AND c) OR (b AND c)"
  by (rule bit_eqI) (auto simp: bit_and_iff bit_or_iff)

lemma low_bits_init: "n < 128 \<Longrightarrow> unat (((0x80 :: byte) OR of_nat n) AND 0x7F) = n"
proof -
  assume n: "n < 128"
  have "unat (((0x80 :: byte) OR of_nat n) AND 0x7F) = (128 OR n) AND 127"
    using n by (simp only: unsigned_and_eq unsigned_or_eq) (simp add: unat_of_nat)
  also have "\<dots> = (128 AND 127) OR (n AND 127)"
    by (rule and_or_distrib_nat)
  also have "\<dots> = n"
    using n by (simp add: and_127)
  finally show ?thesis .
qed

lemma low_bits_cont: "unat ((of_nat (n mod 128) :: byte) AND 0x7F) = n mod 128"
proof -
  have "unat ((of_nat (n mod 128) :: byte) AND 0x7F) = (n mod 128) AND 127"
    by (simp only: unsigned_and_eq) (simp add: unat_of_nat)
  then show ?thesis
    by (simp add: and_127)
qed

lemma high_bit_init: "((0x80 :: byte) OR x) AND 0x80 \<noteq> 0"
proof -
  have "((0x80 :: byte) OR x) AND 0x80 = 0x80"
    by (simp add: ac_simps)
  then show ?thesis
    by simp
qed

lemma high_bit_cont: "(of_nat (n mod 128) :: byte) AND 0x80 = 0"
proof -
  have "\<not> bit (n mod 128) 7"
    by (simp add: bit_iff_odd)
  then have "(n mod 128) AND 128 = 0"
    using and_exp_eq_0_iff_not_bit [of "n mod 128" 7] by simp
  moreover have "unat ((of_nat (n mod 128) :: byte) AND 0x80) = (n mod 128) AND 128"
    by (simp only: unsigned_and_eq) (simp add: unat_of_nat)
  ultimately show ?thesis
    by (simp add: unsigned_eq_0_iff)
qed

section \<open>Framing and reassembly\<close>

lemma length_ljust: "length f \<le> HID_REPORT_SIZE \<Longrightarrow> length (ljust f) = HID_REPORT_SIZE"
  by (simp add: ljust_def)

lemma update_update: "AList.update k v (AList.update k v' al) = AList.update k v al"
  by (induction al) auto

text \<open>A message's handling does not depend on the channel's state: it is reset first.\<close>

lemma dispatch_message_channel:
  "dispatch_message cid command payload (h\<lparr>channels := AList.update cid ch (channels h)\<rparr>)
   = dispatch_message cid command payload h"
  by (simp add: dispatch_message_def reset_channel_def update_update)

lemma feed_all_single [simp]: "pbind f (\<lambda>_. feed_all []) h = f h"
  by (auto simp: pbind_def split: prod.splits sum.splits)

text \<open>The fields of a report as \<open>feed_report\<close> reads them back.\<close>

lemma report_fields:
  assumes "r = ljust (to_be 4 cid @ [x] @ rest)" and "length rest \<le> 59" and "cid < 2 ^ 32"
  shows "length r = 64" "from_be (take 4 r) = cid" "r ! 4 = x"
    "n \<le> length rest \<Longrightarrow> take n (drop 5 r) = take n rest"
    "m \<le> length rest \<Longrightarrow> n + m \<le> length rest \<Longrightarrow> take n (drop (5 + m) r) = take n (drop m rest)"
proof -
  show "length r = 64"
    using assms by (simp add: length_ljust HID_REPORT_SIZE_def)
  show "from_be (take 4 r) = cid"
    using assms(3) by (simp add: assms(1) ljust_def from_to_be)
  show "r ! 4 = x"
    by (simp add: assms(1) ljust_def nth_append)
  show "take n (drop 5 r) = take n rest" if "n \<le> length rest"
    using that by (simp add: assms(1) ljust_def)
  show "take n (drop (5 + m) r) = take n (drop m rest)" if "m \<le> length rest" "n + m \<le> length rest"
    using that by (simp add: assms(1) ljust_def)
qed

lemma feed_cont_report:
  assumes "length r = 64" and "from_be (take 4 r) = cid" and "r ! 4 = of_nat (seq mod 128)" and "seq < 128"
    and "map_of (channels h) cid = Some \<lparr>ch_command = Some command, ch_expected = length b + n, ch_buffer = b, ch_seq = seq\<rparr>"
    and "take (min n CONT_PAYLOAD) (drop 5 r) = part"
  shows "feed_report r h =
    (let h1 = h\<lparr>channels := AList.update cid \<lparr>ch_command = Some command, ch_expected = length b + n,
                ch_buffer = b @ part, ch_seq = seq + 1\<rparr> (channels h)\<rparr>
     in if n \<le> length part then dispatch_message cid command (b @ part) h1 else (Inr (), h1))"
proof -
  have "r ! 4 AND 0x80 = 0" and "unat (r ! 4 AND 0x7F) = seq"
    using high_bit_cont [of seq] low_bits_cont [of seq] assms(3,4) by simp_all
  moreover have "\<not> length r < 5"
    using assms(1) by simp
  ultimately show ?thesis
    unfolding feed_report_def handle_cont_frame_def assms(6) [symmetric]
    by (simp add: assms(2,5) Let_def)
qed

lemma feed_cont_frames:
  assumes "map_of (channels h) cid = Some \<lparr>ch_command = Some command, ch_expected = length b + length data,
      ch_buffer = b, ch_seq = seq\<rparr>"
    and "cid < 2 ^ 32" and "data \<noteq> []" and "seq * CONT_PAYLOAD + length data \<le> 128 * CONT_PAYLOAD"
  shows "feed_all (cont_frames cid seq data) h = dispatch_message cid command (b @ data) h"
  using assms
proof (induction cid seq data arbitrary: b h rule: cont_frames.induct)
  case (1 cid seq data)
  let ?part = "take CONT_PAYLOAD data" and ?rest = "drop CONT_PAYLOAD data"
  let ?r = "ljust (to_be 4 cid @ [of_nat (seq mod 128)] @ ?part)"
  let ?ch = "\<lparr>ch_command = Some command, ch_expected = length b + length data, ch_buffer = b @ ?part, ch_seq = seq + 1\<rparr>"
  let ?h = "h\<lparr>channels := AList.update cid ?ch (channels h)\<rparr>"
  have C: "CONT_PAYLOAD = 59"
    by (simp add: CONT_PAYLOAD_def HID_REPORT_SIZE_def)
  have seq: "seq < 128"
    using "1.prems"(3,4) by (cases data) (auto simp: C)
  note f = report_fields [OF refl, where rest = ?part and cid = cid and x = "of_nat (seq mod 128)"]
  have "take (min (length data) CONT_PAYLOAD) (drop 5 ?r) = ?part"
    using f(4) [where n = "min (length data) CONT_PAYLOAD"] "1.prems"(2) C by (cases "length data \<le> 59") (simp_all add: min_def)
  then have step: "feed_report ?r h =
      (if length data \<le> length ?part then dispatch_message cid command (b @ ?part) ?h else (Inr (), ?h))"
    using feed_cont_report [of ?r cid seq h command b "length data" ?part] f(1-3) "1.prems"(1,2) seq C
    unfolding Let_def by simp
  show ?case
  proof (cases "?rest = []")
    case True
    then have "?part = data" and "cont_frames cid seq data = [?r]"
      using "1.prems"(3) by (simp_all add: cont_frames.simps [of cid seq data] cont_frames.simps [of cid "Suc seq" "[]"])
    then show ?thesis
      using step by (simp add: dispatch_message_channel)
  next
    case False
    have fr: "cont_frames cid seq data = ?r # cont_frames cid (seq + 1) ?rest"
      using "1.prems"(3) by (subst cont_frames.simps) simp
    have "feed_report ?r h = (Inr (), ?h)"
      using step False by simp
    then have "feed_all (cont_frames cid seq data) h = feed_all (cont_frames cid (seq + 1) ?rest) ?h"
      by (simp add: fr pbind_def)
    also have "\<dots> = dispatch_message cid command ((b @ ?part) @ ?rest) ?h"
    proof (rule "1.IH" [OF "1.prems"(3)])
      show "map_of (channels ?h) cid = Some \<lparr>ch_command = Some command,
          ch_expected = length (b @ ?part) + length ?rest, ch_buffer = b @ ?part, ch_seq = seq + 1\<rparr>"
        by simp
      show "?rest \<noteq> []"
        by (rule False)
      show "(seq + 1) * CONT_PAYLOAD + length ?rest \<le> 128 * CONT_PAYLOAD"
        using "1.prems"(4) False by simp
      show "cid < 2 ^ 32"
        by (rule "1.prems"(2))
    qed
    finally show ?thesis
      by (simp add: dispatch_message_channel)
  qed
qed

lemma INIT_PAYLOAD_eq: "INIT_PAYLOAD = 57" and CONT_PAYLOAD_eq: "CONT_PAYLOAD = 59"
  by (simp_all add: INIT_PAYLOAD_def CONT_PAYLOAD_def HID_REPORT_SIZE_def)

text \<open>The first report of a message on an open channel, read back.\<close>

lemma feed_first_report:
  assumes "r = ljust (to_be 4 cid @ [0x80 OR of_nat command] @ to_be 2 (length data) @ take INIT_PAYLOAD data)"
    and "cid < 2 ^ 32" and "cid \<noteq> CID_BROADCAST" and "map_of (channels h) cid \<noteq> None" and "\<not> busy_with_other cid h"
    and "command < 128" and "command \<noteq> CTAPHID_INIT" and "command \<noteq> CTAPHID_CANCEL" and "length data < 2 ^ 16"
  shows "feed_report r h =
    (let h1 = h\<lparr>channels := AList.update cid \<lparr>ch_command = Some command, ch_expected = length data,
                ch_buffer = take INIT_PAYLOAD data, ch_seq = 0\<rparr> (channels h)\<rparr>
     in if length data \<le> INIT_PAYLOAD then dispatch_message cid command data h1 else (Inr (), h1))"
proof -
  note f = report_fields [OF assms(1), simplified INIT_PAYLOAD_eq, OF _ assms(2)]
  have len: "length r = 64" and cid: "from_be (take 4 r) = cid" and x: "r ! 4 = 0x80 OR of_nat command"
    using f(1-3) by simp_all
  have "take 2 (drop 5 r) = to_be 2 (length data)"
    using f(4) [where n = 2] by simp
  then have l: "from_be (take 2 (drop 5 r)) = length data"
    using assms(9) by (simp add: from_to_be)
  have p: "take (min (length data) INIT_PAYLOAD) (drop 7 r) = take INIT_PAYLOAD data"
    using f(5) [where m = 2 and n = "min (length data) 57"] by (simp add: min_def INIT_PAYLOAD_eq)
  have "r ! 4 AND 0x80 \<noteq> 0" and c: "unat (r ! 4 AND 0x7F) = command"
    unfolding x using high_bit_init low_bits_init [OF assms(6)] by blast+
  then have "feed_report r h = handle_init_frame cid r h"
    using len cid by (simp add: feed_report_def)
  also have "\<dots> = (let h1 = h\<lparr>channels := AList.update cid \<lparr>ch_command = Some command, ch_expected = length data,
                ch_buffer = take INIT_PAYLOAD data, ch_seq = 0\<rparr> (channels h)\<rparr>
     in if length data \<le> length (take INIT_PAYLOAD data) then dispatch_message cid command (take INIT_PAYLOAD data) h1
        else (Inr (), h1))"
    unfolding handle_init_frame_def Let_def l c p using len assms(3-5,7,8) by auto
  finally show ?thesis
    by (simp add: Let_def)
qed

lemma feed_frames:
  assumes "cid < 2 ^ 32" and "cid \<noteq> CID_BROADCAST" and "map_of (channels h) cid \<noteq> None" and "\<not> busy_with_other cid h"
    and "command < 128" and "command \<noteq> CTAPHID_INIT" and "command \<noteq> CTAPHID_CANCEL"
    and "length data \<le> INIT_PAYLOAD + 128 * CONT_PAYLOAD"
  shows "feed_all (frames cid command data) h = dispatch_message cid command data h"
proof -
  let ?ch = "\<lparr>ch_command = Some command, ch_expected = length data, ch_buffer = take INIT_PAYLOAD data, ch_seq = 0\<rparr>"
  let ?h = "h\<lparr>channels := AList.update cid ?ch (channels h)\<rparr>"
  have "length data < 2 ^ 16"
    using assms(8) by (simp add: INIT_PAYLOAD_eq CONT_PAYLOAD_eq)
  note first = feed_first_report [OF refl assms(1-7) this, unfolded Let_def]
  show ?thesis
  proof (cases "length data \<le> INIT_PAYLOAD")
    case True
    then show ?thesis
      using first by (simp add: frames_def cont_frames.simps [of cid 0 "[]"] dispatch_message_channel)
  next
    case False
    then have "feed_all (frames cid command data) h = feed_all (cont_frames cid 0 (drop INIT_PAYLOAD data)) ?h"
      using first by (simp add: frames_def pbind_def)
    also have "\<dots> = dispatch_message cid command (take INIT_PAYLOAD data @ drop INIT_PAYLOAD data) ?h"
      using assms(1,8) False by (intro feed_cont_frames) auto
    finally show ?thesis
      by (simp add: dispatch_message_channel)
  qed
qed

text \<open>
  C12. Fragmentation and reassembly are inverse: the reports \<open>_send_message\<close> makes of a message
  of up to 57 + 128 * 59 bytes, fed one after another to a device with that channel open and no other
  channel's transaction running, have exactly the effect of dispatching the whole message, and a
  ping sent this way comes back as the same reports.
\<close>

theorem message_reassembled:
  assumes "cid < CID_BROADCAST" and "map_of (channels h) cid \<noteq> None" and "\<not> busy_with_other cid h"
    and "command < 128" and "command \<notin> {CTAPHID_INIT, CTAPHID_CANCEL}" and "length data \<le> 7609"
  shows "feed_all (frames cid command data) h = dispatch_message cid command data h
    \<and> feed_all (frames cid CTAPHID_PING data) h
      = (Inr (), (reset_channel cid h)\<lparr>sent := sent h @ frames cid CTAPHID_PING data\<rparr>)"
proof (intro conjI)
  have cid: "cid < 2 ^ 32" "cid \<noteq> CID_BROADCAST"
    using assms(1) by (simp_all add: CID_BROADCAST_def)
  have len: "length data \<le> INIT_PAYLOAD + 128 * CONT_PAYLOAD"
    using assms(6) by (simp add: INIT_PAYLOAD_eq CONT_PAYLOAD_eq)
  show "feed_all (frames cid command data) h = dispatch_message cid command data h"
    using assms(4,5) by (intro feed_frames cid assms(2,3) len) auto
  have "feed_all (frames cid CTAPHID_PING data) h = dispatch_message cid CTAPHID_PING data h"
    by (intro feed_frames cid assms(2,3) len) (simp_all add: CTAPHID_PING_def CTAPHID_INIT_def CTAPHID_CANCEL_def)
  then show "feed_all (frames cid CTAPHID_PING data) h
         = (Inr (), (reset_channel cid h)\<lparr>sent := sent h @ frames cid CTAPHID_PING data\<rparr>)"
    using assms(6) cid(1) by (simp add: dispatch_message_def send_message_def reset_channel_def)
qed

theorem message_reassembled_witness:
  "feed_all (frames 1 CTAPHID_PING (replicate 200 7)) (new_device\<lparr>channels := [(1, idle_channel)]\<rparr>)
   = (Inr (), new_device\<lparr>channels := [(1, idle_channel)], sent := frames 1 CTAPHID_PING (replicate 200 7)\<rparr>)"
  using message_reassembled [THEN conjunct2, of 1 "new_device\<lparr>channels := [(1, idle_channel)]\<rparr>" CTAPHID_PING "replicate 200 7"]
  by (simp add: CID_BROADCAST_def busy_with_other_def new_device_def reset_channel_def CTAPHID_PING_def
      CTAPHID_INIT_def CTAPHID_CANCEL_def)

section \<open>The device's invariant\<close>

text \<open>
  One transaction at a time, and its channel is the active one; a channel in mid-message holds less
  than it expects; every channel was handed out; every report sent is a whole HID report.
\<close>

definition channel_ok :: "channel \<Rightarrow> bool" where
  "channel_ok ch \<longleftrightarrow>
     (case ch_command ch of
        None \<Rightarrow> ch = idle_channel
      | Some c \<Rightarrow> c < 128 \<and> length (ch_buffer ch) < ch_expected ch \<and> ch_expected ch < 2 ^ 16 \<and> ch_seq ch \<le> 128)"

definition hid_inv :: "hid \<Rightarrow> bool" where
  "hid_inv h \<longleftrightarrow>
     active_cid h = map_option fst (worker h) \<and>
     (\<forall>w. worker h = Some w \<longrightarrow> snd w \<noteq> []) \<and>
     (\<forall>r \<in> set (sent h). length r = HID_REPORT_SIZE) \<and>
     (\<forall>c ch. (c, ch) \<in> set (channels h) \<longrightarrow> c < next_cid h \<and> channel_ok ch)"

text \<open>What may happen to the device, and the state it leaves, whether or not it raised.\<close>

datatype hid_event = Report "byte list" | Done "byte list" | Reply | Alive

fun hid_next :: "hid_event \<Rightarrow> hid \<Rightarrow> hid" where
  "hid_next (Report r) h = snd (feed_report r h)"
| "hid_next (Done response) h = worker_done response h"
| "hid_next Reply h = snd (worker_reply h)"
| "hid_next Alive h = snd (keepalive h)"

lemma set_update_subset: "set (AList.update k v al) \<subseteq> insert (k, v) (set al)"
  by (induction al) auto

lemma channel_ok_idle [simp]: "channel_ok idle_channel"
  by (simp add: channel_ok_def idle_channel_def)

lemma cont_frames_size: "r \<in> set (cont_frames cid seq data) \<Longrightarrow> length r = HID_REPORT_SIZE"
proof (induction cid seq data rule: cont_frames.induct)
  case (1 cid seq data)
  have "length (ljust (to_be 4 cid @ [of_nat (seq mod 128)] @ take CONT_PAYLOAD data)) = HID_REPORT_SIZE"
    by (rule length_ljust) (simp add: CONT_PAYLOAD_eq HID_REPORT_SIZE_def)
  with 1 show ?case
    by (subst (asm) (2) cont_frames.simps) (auto split: if_splits)
qed

lemma frames_size: "r \<in> set (frames cid command data) \<Longrightarrow> length r = HID_REPORT_SIZE"
proof -
  have "length (ljust (to_be 4 cid @ [0x80 OR of_nat command] @ to_be 2 (length data) @ take INIT_PAYLOAD data))
      = HID_REPORT_SIZE"
    by (rule length_ljust) (simp add: INIT_PAYLOAD_eq HID_REPORT_SIZE_def)
  then show "r \<in> set (frames cid command data) \<Longrightarrow> length r = HID_REPORT_SIZE"
    by (auto simp: frames_def dest: cont_frames_size)
qed

named_theorems hid_inv_intros

lemma inv_send [hid_inv_intros]: "hid_inv h \<Longrightarrow> hid_inv (snd (send_message cid command data h))"
  by (auto simp: send_message_def hid_inv_def dest: frames_size)

lemma inv_send_error [hid_inv_intros]: "hid_inv h \<Longrightarrow> hid_inv (snd (send_error cid code h))"
  by (simp add: send_error_def hid_inv_intros)

lemma inv_channel [hid_inv_intros]:
  "hid_inv h \<Longrightarrow> map_of (channels h) cid \<noteq> None \<Longrightarrow> channel_ok ch \<Longrightarrow>
    hid_inv (h\<lparr>channels := AList.update cid ch (channels h)\<rparr>)"
  unfolding hid_inv_def using map_of_SomeD [of "channels h" cid]
  by (auto dest!: subsetD [OF set_update_subset])

lemma inv_reset [hid_inv_intros]: "hid_inv h \<Longrightarrow> map_of (channels h) cid \<noteq> None \<Longrightarrow> hid_inv (reset_channel cid h)"
  unfolding reset_channel_def by (rule inv_channel) simp_all

lemma inv_cancel [hid_inv_intros]: "hid_inv h \<Longrightarrow> hid_inv (cancel_active cid reply h)"
  by (simp add: cancel_active_def hid_inv_def)

lemma inv_start [hid_inv_intros]: "hid_inv h \<Longrightarrow> hid_inv (snd (start_cbor cid payload h))"
  by (simp add: start_cbor_def hid_inv_intros) (simp add: hid_inv_def)

lemma inv_dispatch [hid_inv_intros]:
  "hid_inv h \<Longrightarrow> map_of (channels h) cid \<noteq> None \<Longrightarrow> hid_inv (snd (dispatch_message cid command payload h))"
  unfolding dispatch_message_def Let_def by (simp add: hid_inv_intros)

lemma inv_init [hid_inv_intros]:
  assumes "hid_inv h"
  shows "hid_inv (snd (handle_ctaphid_init cid nonce h))"
proof -
  let ?new = "h\<lparr>next_cid := next_cid h + 1, channels := AList.update (next_cid h) idle_channel (channels h)\<rparr>"
  have "hid_inv ?new"
    using assms set_update_subset [of "next_cid h" idle_channel "channels h"] unfolding hid_inv_def by fastforce
  then show ?thesis
    using assms unfolding handle_ctaphid_init_def Let_def by (simp add: hid_inv_intros)
qed

lemma inv_init_frame [hid_inv_intros]:
  assumes "hid_inv h"
  shows "hid_inv (snd (handle_init_frame cid report h))"
proof -
  have "unat (x AND 0x7F) < 128" for x :: byte
    by (simp add: unsigned_and_eq and_127)
  moreover have "from_be (take 2 (drop 5 report)) < 2 ^ 16"
    using less_le_trans [OF from_be_less power_increasing [of "length (take 2 (drop 5 report))" 2 256]] by simp
  ultimately show ?thesis
    using assms unfolding handle_init_frame_def Let_def
    by (auto intro!: hid_inv_intros simp: dispatch_message_channel channel_ok_def)
qed

lemma inv_cont_frame [hid_inv_intros]:
  assumes "hid_inv h"
  shows "hid_inv (snd (handle_cont_frame cid report h))"
proof (cases "map_of (channels h) cid")
  case (Some ch)
  then have "channel_ok ch"
    using assms map_of_SomeD [OF Some] by (auto simp: hid_inv_def)
  moreover have "unat (x AND 0x7F) < 128" for x :: byte
    by (simp add: unsigned_and_eq and_127)
  then have "Suc (ch_seq ch) \<le> 128" if "unat (report ! 4 AND 0x7F) = ch_seq ch"
    using that by (metis Suc_leI)
  ultimately show ?thesis
    using assms Some unfolding handle_cont_frame_def Let_def
    by (auto intro!: hid_inv_intros simp: dispatch_message_channel channel_ok_def split: option.split)
qed (simp add: handle_cont_frame_def assms)

lemma inv_next: "hid_inv h \<Longrightarrow> hid_inv (hid_next e h)"
proof (cases e)
  case (Report r)
  then show "hid_inv h \<Longrightarrow> ?thesis"
    by (simp add: feed_report_def Let_def hid_inv_intros)
next
  case (Done response)
  then show "hid_inv h \<Longrightarrow> ?thesis"
    by (auto simp: worker_done_def hid_inv_def Let_def split: option.split)
next
  case Reply
  have "hid_inv h \<Longrightarrow> hid_inv (h\<lparr>replies := rest\<rparr>)" for rest
    by (simp add: hid_inv_def)
  with Reply show "hid_inv h \<Longrightarrow> ?thesis"
    by (auto simp: worker_reply_def intro: hid_inv_intros split: list.split)
next
  case Alive
  then show "hid_inv h \<Longrightarrow> ?thesis"
    by (auto simp: keepalive_def intro: hid_inv_intros split: option.split)
qed

lemma hid_reachable: "hid_inv (fold hid_next es new_device)"
proof -
  have "hid_inv (fold hid_next es h)" if "hid_inv h" for h
    using that by (induction es arbitrary: h) (simp_all add: inv_next)
  moreover have "hid_inv new_device"
    by (simp add: hid_inv_def new_device_def)
  ultimately show ?thesis
    by blast
qed

lemma kept_send [simp]:
  "worker (snd (send_message cid command data h)) = worker h"
  "worker (snd (send_error cid code h)) = worker h"
  "worker (reset_channel cid h) = worker h"
  "worker (cancel_active cid reply h) = worker h"
  "active_cid (reset_channel cid h) = active_cid h"
  by (simp_all add: send_error_def send_message_def reset_channel_def cancel_active_def)

lemma kept_dispatch [simp]:
  "active_cid h \<noteq> None \<Longrightarrow> worker (snd (dispatch_message cid command payload h)) = worker h"
  unfolding dispatch_message_def Let_def start_cbor_def by simp

lemma kept_ctaphid_init [simp]: "worker (snd (handle_ctaphid_init cid nonce h)) = worker h"
  unfolding handle_ctaphid_init_def Let_def by simp

lemma kept_init:
  "active_cid h \<noteq> None \<Longrightarrow> worker (snd (handle_init_frame cid report h)) = worker h"
  unfolding handle_init_frame_def Let_def by (auto simp: dispatch_message_channel)

lemma kept_cont:
  "active_cid h \<noteq> None \<Longrightarrow> worker (snd (handle_cont_frame cid report h)) = worker h"
  unfolding handle_cont_frame_def Let_def by (auto simp: dispatch_message_channel split: option.split)

text \<open>
  C22. Whatever the host sends and however its reports interleave with the worker, its answers
  and keepalives, the virtual security key keeps its invariant from its creation on: at most one
  CBOR transaction runs, on the active channel, with a payload; a channel in mid-message has
  buffered less than the at most 65535 bytes announced; no channel lies beyond those handed
  out; and every report written to the kernel is exactly 64 bytes long.
\<close>

theorem hid_device_invariant: "hid_inv (fold hid_next es new_device)"
  by (rule hid_reachable)

text \<open>
  A second CBOR request cannot disturb a running one: in any state the device can reach, if
  a worker runs, then whatever report arrives, the same worker still runs afterwards on the same
  channel with the same payload.
\<close>

theorem transaction_undisturbed:
  assumes "worker (fold hid_next es new_device) = Some w"
  shows "worker (hid_next (Report r) (fold hid_next es new_device)) = Some w"
proof -
  have "active_cid (fold hid_next es new_device) \<noteq> None"
    using assms hid_reachable [of es] by (auto simp: hid_inv_def)
  then show ?thesis
    using assms by (simp add: feed_report_def Let_def kept_init kept_cont)
qed

text \<open>A broadcast INIT with an 8-byte nonce, and a CBOR request of one byte on channel 1.\<close>

definition open_and_ask :: "hid_event list" where
  "open_and_ask =
     [Report ([255, 255, 255, 255, 0x86, 0, 8] @ replicate 57 0), Report ([0, 0, 0, 1, 0x90, 0, 1, 4] @ replicate 56 0)]"

lemma opened: "hid_next (open_and_ask ! 0) new_device =
    new_device\<lparr>next_cid := 2, channels := [(1, idle_channel)],
      sent := frames CID_BROADCAST CTAPHID_INIT (init_response (replicate 8 0) 1)\<rparr>"
  by (simp add: open_and_ask_def feed_report_def handle_init_frame_def handle_ctaphid_init_def from_be_def
      CTAPHID_INIT_def CID_BROADCAST_def new_device_def send_message_def init_response_def)

lemma asked: "worker (fold hid_next open_and_ask new_device) = Some (1, [4])"
  using opened
  by (simp add: open_and_ask_def)
   (simp add: feed_report_def handle_init_frame_def from_be_def busy_with_other_def dispatch_message_def start_cbor_def
      CTAPHID_INIT_def CID_BROADCAST_def CTAPHID_CANCEL_def CTAPHID_CBOR_def CTAPHID_PING_def CTAPHID_WINK_def
      CTAPHID_MSG_def new_device_def reset_channel_def INIT_PAYLOAD_eq)

theorem transaction_undisturbed_witness:
  "worker (fold hid_next open_and_ask new_device) = Some (1, [4]) \<and>
   worker (hid_next (Report (hd (frames 1 CTAPHID_CBOR [6]))) (fold hid_next open_and_ask new_device)) = Some (1, [4])"
  using transaction_undisturbed [OF asked] asked by blast

end
