(* ===== verification/Cred_Store.thy ===== *)
theory Cred_Store
  imports Byte_Struct
begin

text \<open>
  \<^verbatim>\<open>webauthn/store.py\<close>: the passkeys of one user, in memory and in one JSON file.

  The file is its parsed content: absent, not JSON, or an object with a version and one row per
  credential, whose byte strings are base64 texts. A value that comes from a client is a
  \<open>pyval\<close>, the Python objects CBOR can hold; what \<open>json.dump\<close> cannot write is
  \<open>None\<close>. The write is atomic (temporary file, rename) and fails as a whole where the
  file cannot be written; the lock file makes an operation one step.
\<close>

section \<open>Python values and JSON\<close>

datatype pyval = PInt int | PBool bool | PText string | PBytes "byte list" | PList "pyval list"
  | PMap "(pyval \<times> pyval) list"

text \<open>\<open>json.dump\<close> and \<open>json.load\<close>: a dict's keys become texts, bytes cannot be written.\<close>

fun json_key :: "pyval \<Rightarrow> string option" where
  "json_key (PText s) = Some s"
| "json_key (PInt i) = Some (if i < 0 then CHR ''-'' # nat_digits (nat (- i)) else nat_digits (nat i))"
| "json_key (PBool b) = Some (if b then ''true'' else ''false'')"
| "json_key _ = None"

fun json_value :: "pyval \<Rightarrow> pyval option" where
  "json_value (PList xs) = map_option PList (those (map json_value xs))"
| "json_value (PMap m) =
     map_option (\<lambda>kvs. PMap (fold (\<lambda>(k, v). AList.update (PText k) v) kvs []))
       (those (map (\<lambda>(k, v). case (json_key k, json_value v) of (Some k', Some v') \<Rightarrow> Some (k', v') | _ \<Rightarrow> None) m))"
| "json_value (PBytes b) = None"
| "json_value v = Some v"

section \<open>Base64\<close>

definition B64 :: string where
  "B64 = ''ABCDEFGHIJKLMNOPQRSTUVWXYZabcdefghijklmnopqrstuvwxyz0123456789-_''"

definition b64_char :: "nat \<Rightarrow> char" where
  "b64_char n = B64 ! n"

fun b64_groups :: "byte list \<Rightarrow> string" where
  "b64_groups [] = []"
| "b64_groups [a] = [b64_char (unat a div 4), b64_char (unat a mod 4 * 16), CHR ''='', CHR ''='']"
| "b64_groups [a, b] =
     [b64_char (unat a div 4), b64_char (unat a mod 4 * 16 + unat b div 16), b64_char (unat b mod 16 * 4), CHR ''='']"
| "b64_groups (a # b # c # bs) =
     b64_char (unat a div 4) # b64_char (unat a mod 4 * 16 + unat b div 16)
     # b64_char (unat b mod 16 * 4 + unat c div 64) # b64_char (unat c mod 64) # b64_groups bs"

text \<open>\<open>base64.urlsafe_b64encode(data).decode().rstrip("=")\<close>\<close>

definition b64encode :: "byte list \<Rightarrow> string" where
  "b64encode data = rev (dropWhile (\<lambda>c. c = CHR ''='') (rev (b64_groups data)))"

text \<open>The value of a character, both alphabets accepted.\<close>

definition b64_value :: "char \<Rightarrow> nat option" where
  "b64_value c =
     (let c' = (if c = CHR ''+'' then CHR ''-'' else if c = CHR ''/'' then CHR ''_'' else c);
          n = length (takeWhile (\<lambda>d. d \<noteq> c') B64)
      in if n < 64 then Some n else None)"

text \<open>
  \<open>binascii.a2b_base64\<close>, not strict: the position in a group of four, the bits left over and
  the pads seen; other characters are skipped, and a group that does not end is an error.
\<close>

fun b64_scan :: "nat \<Rightarrow> nat \<Rightarrow> nat \<Rightarrow> string \<Rightarrow> byte list option" where
  "b64_scan q left pads [] = (if q = 0 then Some [] else None)"
| "b64_scan q left pads (c # cs) =
     (if c = CHR ''='' then
        (if q \<ge> 2 then (if q + (pads + 1) \<ge> 4 then Some [] else b64_scan q left (pads + 1) cs)
         else b64_scan q left pads cs)
      else (case b64_value c of
          None \<Rightarrow> b64_scan q left pads cs
        | Some v \<Rightarrow>
            (if q = 0 then b64_scan 1 v 0 cs
             else if q = 1 then map_option ((#) (of_nat (left * 4 + v div 16))) (b64_scan 2 (v mod 16) 0 cs)
             else if q = 2 then map_option ((#) (of_nat (left * 16 + v div 4))) (b64_scan 3 (v mod 4) 0 cs)
             else map_option ((#) (of_nat (left * 64 + v))) (b64_scan 0 0 0 cs))))"

text \<open>\<open>base64.urlsafe_b64decode(data + "=" * (-len(data) % 4))\<close>; a text beyond ASCII raises.\<close>

definition b64decode :: "string \<Rightarrow> byte list option" where
  "b64decode s =
     (if \<exists>c \<in> set s. of_char c \<ge> (128 :: nat) then None
      else b64_scan 0 0 0 (s @ replicate (nat ((- int (length s)) mod 4)) (CHR ''='')))"

section \<open>Credentials\<close>

record 'b cred =
  credential_id :: 'b
  rp_id :: string
  rp_name :: pyval
  user_handle :: 'b
  user_name :: pyval
  user_display_name :: pyval
  cose_public_key :: 'b
  key_ref :: string
  sign_count :: int
  resident :: bool
  cred_protect :: pyval
  algorithm :: int
  created_at :: int

type_synonym credential = "byte list cred"

type_synonym cred_row = "string cred"

text \<open>\<open>to_dict\<close> as the file holds it: \<open>None\<close> where a value cannot be written.\<close>

definition to_dict :: "credential \<Rightarrow> cred_row option" where
  "to_dict c =
     (case (json_value (rp_name c), json_value (user_name c), json_value (user_display_name c), json_value (cred_protect c)) of
        (Some rn, Some un, Some dn, Some cp) \<Rightarrow>
          Some \<lparr>credential_id = b64encode (credential_id c), rp_id = rp_id c, rp_name = rn,
             user_handle = b64encode (user_handle c), user_name = un, user_display_name = dn,
             cose_public_key = b64encode (cose_public_key c), key_ref = key_ref c, sign_count = sign_count c,
             resident = resident c, cred_protect = cp, algorithm = algorithm c, created_at = created_at c\<rparr>
      | _ \<Rightarrow> None)"

definition from_dict :: "cred_row \<Rightarrow> credential option" where
  "from_dict r =
     (case (b64decode (credential_id r), b64decode (user_handle r), b64decode (cose_public_key r)) of
        (Some i, Some h, Some k) \<Rightarrow>
          Some \<lparr>credential_id = i, rp_id = rp_id r, rp_name = rp_name r, user_handle = h, user_name = user_name r,
             user_display_name = user_display_name r, cose_public_key = k, key_ref = key_ref r,
             sign_count = sign_count r, resident = resident r, cred_protect = cred_protect r,
             algorithm = algorithm r, created_at = created_at r\<rparr>
      | _ \<Rightarrow> None)"

section \<open>The store\<close>

definition STORE_FORMAT_VERSION :: int where "STORE_FORMAT_VERSION = 1"

datatype store_file = NotJson | Doc "int option" "cred_row list"

text \<open>\<open>lock_ok\<close>: the lock file can be opened; \<open>write_ok\<close>: the new file can be written.\<close>

record cstore =
  credentials :: "credential list"
  disk :: "store_file option"
  lock_ok :: bool
  write_ok :: bool

datatype cstore_error = StoreError | StoreValueError | StoreTypeError | StoreOSError

type_synonym 'a store_op = "(cstore, cstore_error, 'a) block"

definition locked :: "'a store_op \<Rightarrow> 'a store_op" where
  "locked m s = (if lock_ok s then m s else (Inl StoreOSError, s))"

definition cs_load :: "unit store_op" where
  "cs_load s =
     (case disk s of
        None \<Rightarrow> (Inr (), s\<lparr>credentials := []\<rparr>)
      | Some NotJson \<Rightarrow> (Inl StoreError, s)
      | Some (Doc version rows) \<Rightarrow>
          if version \<noteq> Some STORE_FORMAT_VERSION then (Inl StoreError, s)
          else (case those (map from_dict rows) of
              None \<Rightarrow> (Inl StoreValueError, s)
            | Some cs \<Rightarrow> (Inr (), s\<lparr>credentials := cs\<rparr>)))"

definition cs_save :: "unit store_op" where
  "cs_save s =
     (case those (map to_dict (credentials s)) of
        None \<Rightarrow> (Inl StoreTypeError, s)
      | Some rows \<Rightarrow>
          if write_ok s then (Inr (), s\<lparr>disk := Some (Doc (Some STORE_FORMAT_VERSION) rows)\<rparr>)
          else (Inl StoreOSError, s))"

definition cs_add :: "credential \<Rightarrow> unit store_op" where
  "cs_add c =
     locked (pbind cs_load (\<lambda>_ s.
       cs_save (s\<lparr>credentials :=
         filter (\<lambda>d. \<not> (rp_id d = rp_id c \<and> user_handle d = user_handle c)) (credentials s) @ [c]\<rparr>)))"

definition find_by_id :: "byte list \<Rightarrow> credential list \<Rightarrow> credential option" where
  "find_by_id i cs = List.find (\<lambda>c. credential_id c = i) cs"

text \<open>\<open>sorted(\<dots>, reverse=True)\<close> keeps the order of credentials created at the same time.\<close>

definition find_for_rp :: "string \<Rightarrow> byte list list option \<Rightarrow> credential list \<Rightarrow> credential list" where
  "find_for_rp rp allow cs =
     (let matches = filter (\<lambda>c. rp_id c = rp) cs;
          matches' = (case allow of
              Some ids \<Rightarrow> filter (\<lambda>c. credential_id c \<in> set ids) matches
            | None \<Rightarrow> filter resident matches)
      in sort_key (\<lambda>c. - created_at c) matches')"

text \<open>The first credential with the id counts up.\<close>

fun bump :: "byte list \<Rightarrow> credential list \<Rightarrow> credential list" where
  "bump i [] = []"
| "bump i (c # cs) = (if credential_id c = i then c\<lparr>sign_count := sign_count c + 1\<rparr> # cs else c # bump i cs)"

definition increment_counter :: "byte list \<Rightarrow> int store_op" where
  "increment_counter i =
     locked (pbind cs_load (\<lambda>_ s.
       (case find_by_id i (credentials s) of
          None \<Rightarrow> (Inl StoreError, s)
        | Some c \<Rightarrow> pbind cs_save (\<lambda>_. pret (sign_count c + 1)) (s\<lparr>credentials := bump i (credentials s)\<rparr>))))"

definition cs_remove :: "byte list \<Rightarrow> bool store_op" where
  "cs_remove i =
     locked (pbind cs_load (\<lambda>_ s.
       (let kept = filter (\<lambda>c. credential_id c \<noteq> i) (credentials s);
            s' = s\<lparr>credentials := kept\<rparr>
        in if length kept = length (credentials s) then (Inr False, s')
           else pbind cs_save (\<lambda>_. pret True) s')))"

definition destroy_all :: "unit store_op" where
  "destroy_all = locked (\<lambda>s. (Inr (), s\<lparr>credentials := [], disk := None\<rparr>))"

section \<open>Round trips\<close>

lemma b64_value_char: "n < 64 \<Longrightarrow> b64_value (b64_char n) = Some n"
proof -
  have "\<forall>n \<in> set [0..<64]. b64_value (b64_char n) = Some n"
    by code_simp
  then show "n < 64 \<Longrightarrow> b64_value (b64_char n) = Some n"
    by simp
qed

lemma b64_char_plain: "n < 64 \<Longrightarrow> b64_char n \<noteq> CHR ''='' \<and> of_char (b64_char n) < (128 :: nat)"
proof -
  have "\<forall>n \<in> set [0..<64]. b64_char n \<noteq> CHR ''='' \<and> of_char (b64_char n) < (128 :: nat)"
    by code_simp
  then show "n < 64 \<Longrightarrow> b64_char n \<noteq> CHR ''='' \<and> of_char (b64_char n) < (128 :: nat)"
    by simp
qed

lemma b64_groups_shape:
  "\<exists>p n. b64_groups bs = p @ replicate n (CHR ''='') \<and> (\<forall>c \<in> set p. c \<noteq> CHR ''='' \<and> of_char c < (128 :: nat)) \<and>
     n = nat ((- int (length p)) mod 4)"
proof (induction bs rule: b64_groups.induct)
  case 1
  show ?case
    by (rule exI [of _ "[]"], rule exI [of _ 0]) simp
next
  case (2 a)
  have "unat a div 4 < 64"
    by (simp add: less_mult_imp_div_less)
  then show ?case
    by (intro exI [of _ "[b64_char (unat a div 4), b64_char (unat a mod 4 * 16)]"] exI [of _ 2])
      (simp add: b64_char_plain numeral_2_eq_2)
next
  case (3 a b)
  have "unat a div 4 < 64" "unat b div 16 < 16"
    by (simp_all add: less_mult_imp_div_less)
  moreover have "unat a mod 4 < 4" "unat b mod 16 < 16"
    by simp_all
  ultimately have "unat a div 4 < 64" "unat a mod 4 * 16 + unat b div 16 < 64" "unat b mod 16 * 4 < 64"
    by linarith+
  then show ?case
    by (intro exI [of _ "[b64_char (unat a div 4), b64_char (unat a mod 4 * 16 + unat b div 16), b64_char (unat b mod 16 * 4)]"]
          exI [of _ 1]) (simp add: b64_char_plain)
next
  case (4 a b c bs)
  then obtain p n where p: "b64_groups bs = p @ replicate n (CHR ''='')"
      "\<forall>c \<in> set p. c \<noteq> CHR ''='' \<and> of_char c < (128 :: nat)" "n = nat ((- int (length p)) mod 4)"
    by blast
  have "unat a div 4 < 64" "unat b div 16 < 16" "unat c div 64 < 4"
    by (simp_all add: less_mult_imp_div_less)
  moreover have "unat a mod 4 < 4" "unat b mod 16 < 16" "unat c mod 64 < 64"
    by simp_all
  ultimately have "unat a div 4 < 64" "unat a mod 4 * 16 + unat b div 16 < 64"
      "unat b mod 16 * 4 + unat c div 64 < 64" "unat c mod 64 < 64"
    by linarith+
  moreover have "(- int (length p + 4)) mod 4 = (- int (length p)) mod 4"
    by (simp add: mod_minus_eq)
  ultimately show ?case
    using p
    by (intro exI [of _ "b64_char (unat a div 4) # b64_char (unat a mod 4 * 16 + unat b div 16)
        # b64_char (unat b mod 16 * 4 + unat c div 64) # b64_char (unat c mod 64) # p"] exI [of _ n])
      (simp add: b64_char_plain algebra_simps)
qed

lemma dropWhile_replicate: "dropWhile (\<lambda>c. c = x) (replicate n x @ ys) = dropWhile (\<lambda>c. c = x) ys"
  by (induction n) simp_all

lemma sextets:
  fixes a b c :: nat
  assumes "a < 256" and "b < 256" and "c < 256"
  shows "a div 4 < 64" "a mod 4 * 16 < 64" "a mod 4 * 16 + b div 16 < 64" "b mod 16 * 4 < 64" "b mod 16 * 4 + c div 64 < 64"
    "(a mod 4 * 16 + b div 16) div 16 = a mod 4" "(b mod 16 * 4 + c div 64) div 4 = b mod 16"
    "b div 16 mod 16 = b div 16" "c div 64 mod 4 = c div 64"
proof -
  have d: "a div 4 < 64" "b div 16 < 16" "c div 64 < 4"
    using assms by (simp_all add: less_mult_imp_div_less)
  moreover have m: "a mod 4 < 4" "b mod 16 < 16"
    by simp_all
  ultimately show "a div 4 < 64" "a mod 4 * 16 < 64" "a mod 4 * 16 + b div 16 < 64" "b mod 16 * 4 < 64"
      "b mod 16 * 4 + c div 64 < 64"
    by linarith+
  show "(a mod 4 * 16 + b div 16) div 16 = a mod 4" "(b mod 16 * 4 + c div 64) div 4 = b mod 16"
      "b div 16 mod 16 = b div 16" "c div 64 mod 4 = c div 64"
    using d by simp_all
qed

lemma byte_parts:
  fixes a :: byte
  shows "of_nat (unat a div 4 * 4 + unat a mod 4) = a" "of_nat (unat a div 16 * 16 + unat a mod 16) = a"
    "of_nat (unat a div 64 * 64 + unat a mod 64) = a"
  by (simp_all del: of_nat_add of_nat_mult)

lemma b64_scan_groups: "b64_scan 0 0 0 (b64_groups bs) = Some bs"
proof (induction bs rule: b64_groups.induct)
  case (2 a)
  note t = sextets [OF unat_byte_less [of a] unat_byte_less [of 0] unat_byte_less [of 0]]
  show ?case
    by (simp add: b64_value_char b64_char_plain t byte_parts del: of_nat_add of_nat_mult)
next
  case (3 a b)
  note t = sextets [OF unat_byte_less [of a] unat_byte_less [of b] unat_byte_less [of 0]]
  show ?case
    by (simp add: b64_value_char b64_char_plain t byte_parts del: of_nat_add of_nat_mult)
next
  case (4 a b c bs)
  note t = sextets [OF unat_byte_less [of a] unat_byte_less [of b] unat_byte_less [of c]]
  show ?case
    using 4 by (simp add: b64_value_char b64_char_plain t byte_parts del: of_nat_add of_nat_mult)
qed simp

lemma b64_roundtrip: "b64decode (b64encode bs) = Some bs"
proof -
  obtain p n where p: "b64_groups bs = p @ replicate n (CHR ''='')"
      "\<forall>c \<in> set p. c \<noteq> CHR ''='' \<and> of_char c < (128 :: nat)" "n = nat ((- int (length p)) mod 4)"
    using b64_groups_shape by blast
  have "dropWhile (\<lambda>c. c = CHR ''='') (rev p) = rev p"
    using p(2) by (cases "rev p") (auto simp: dropWhile_eq_self_iff)
  then have "b64encode bs = p"
    by (simp add: b64encode_def p(1) dropWhile_replicate)
  moreover have "\<not> (\<exists>c \<in> set p. of_char c \<ge> (128 :: nat))"
    using p(2) by fastforce
  ultimately show ?thesis
    using b64_scan_groups [of bs] by (simp add: b64decode_def p(1,3))
qed


lemma those_Some_iff: "those xs = Some ys \<longleftrightarrow> xs = map Some ys"
  by (induction xs arbitrary: ys) (auto split: option.splits)

lemma those_map_Some [simp]: "those (map Some ys) = Some ys"
  by (simp add: those_Some_iff)

text \<open>A dict that JSON gave back is written and read as it is.\<close>

definition json_dict :: "(string \<times> pyval) list \<Rightarrow> (pyval \<times> pyval) list \<Rightarrow> (pyval \<times> pyval) list" where
  "json_dict = fold (\<lambda>(k, v). AList.update (PText k) v)"

definition json_items :: "(pyval \<times> pyval) list \<Rightarrow> bool" where
  "json_items m \<longleftrightarrow> distinct (map fst m) \<and> (\<forall>x \<in> set m. (\<exists>t. fst x = PText t) \<and> json_value (snd x) = Some (snd x))"

lemma json_items_update: "json_items m \<Longrightarrow> json_value v = Some v \<Longrightarrow> json_items (AList.update (PText k) v m)"
proof -
  assume m: "json_items m" and v: "json_value v = Some v"
  have "set (AList.update (PText k) v m) \<subseteq> insert (PText k, v) (set m)"
    by (induction m) auto
  with m v show ?thesis
    unfolding json_items_def by (auto simp: distinct_update)
qed

lemma json_items_dict:
  "\<forall>x \<in> set kvs. json_value (snd x) = Some (snd x) \<Longrightarrow> json_items acc \<Longrightarrow> json_items (json_dict kvs acc)"
  unfolding json_dict_def
  by (induction kvs arbitrary: acc) (auto simp: json_items_update)

lemma update_new: "k \<notin> fst ` set acc \<Longrightarrow> AList.update k v acc = acc @ [(k, v)]"
  by (induction acc) auto

lemma json_dict_distinct:
  "distinct (map fst acc @ map (PText \<circ> fst) kvs) \<Longrightarrow> json_dict kvs acc = acc @ map (\<lambda>(k, v). (PText k, v)) kvs"
  unfolding json_dict_def
  by (induction kvs arbitrary: acc) (auto simp: update_new)

lemma json_value_dict: "json_items m \<Longrightarrow> json_value (PMap m) = Some (PMap m)"
proof -
  assume m: "json_items m"
  define kvs where "kvs = map (\<lambda>(k, v). (case k of PText t \<Rightarrow> t | _ \<Rightarrow> [], v)) m"
  have inv: "map (\<lambda>(k, v). (PText k, v)) kvs = m"
    using m unfolding kvs_def json_items_def map_map by (intro map_idI) auto
  moreover have "map (PText \<circ> fst) kvs = map fst (map (\<lambda>(k, v). (PText k, v)) kvs)"
    by (simp add: case_prod_beta comp_def)
  ultimately have "map (PText \<circ> fst) kvs = map fst m"
    by simp
  then have "json_dict kvs [] = m"
    using m json_dict_distinct [of "[]" kvs] inv by (simp add: json_items_def)
  moreover have "those (map (\<lambda>(k, v). case (json_key k, json_value v) of (Some k', Some v') \<Rightarrow> Some (k', v') | _ \<Rightarrow> None) m) = Some kvs"
    unfolding kvs_def using m by (intro those_map_id) (auto simp: json_items_def)
  ultimately show ?thesis
    by (simp add: json_dict_def)
qed

lemma json_value_idem: "json_value v = Some w \<Longrightarrow> json_value w = Some w"
proof (induction v arbitrary: w rule: json_value.induct)
  case (1 xs)
  then obtain ys where w: "w = PList ys" and ys: "map json_value xs = map Some ys"
    by (auto simp: those_Some_iff)
  have "json_value y = Some y" if "y \<in> set ys" for y
  proof -
    from that have "Some y \<in> set (map json_value xs)"
      unfolding ys by simp
    then show ?thesis
      using "1.IH" by auto
  qed
  then show ?case
    by (simp add: w those_map_id [of ys json_value id])
next
  case (2 m)
  then obtain kvs where w: "w = PMap (json_dict kvs [])"
      and kvs: "map (\<lambda>(k, v). case (json_key k, json_value v) of (Some k', Some v') \<Rightarrow> Some (k', v') | _ \<Rightarrow> None) m = map Some kvs"
    by (auto simp: those_Some_iff json_dict_def)
  have "json_value (snd x) = Some (snd x)" if "x \<in> set kvs" for x
  proof -
    from that have "Some x \<in> set (map Some kvs)"
      by simp
    then obtain k v where "(k, v) \<in> set m" and "json_value v = Some (snd x)"
      unfolding kvs [symmetric] by (auto split: option.splits)
    then show ?thesis
      using "2.IH" by blast
  qed
  then show ?case
    unfolding w by (intro json_value_dict json_items_dict) (simp_all add: json_items_def)
qed auto

section \<open>What the file holds\<close>

text \<open>A credential after it was written and read: its names as JSON gives them back.\<close>

definition json_form :: "credential \<Rightarrow> credential option" where
  "json_form c = (case to_dict c of None \<Rightarrow> None | Some r \<Rightarrow> from_dict r)"

text \<open>The credentials in the file; \<open>None\<close> where it cannot be read.\<close>

definition stored :: "cstore \<Rightarrow> credential list option" where
  "stored s =
     (case disk s of
        None \<Rightarrow> Some []
      | Some NotJson \<Rightarrow> None
      | Some (Doc version rows) \<Rightarrow> if version = Some STORE_FORMAT_VERSION then those (map from_dict rows) else None)"

text \<open>A file the store can read, with values JSON can hold.\<close>

definition store_ok :: "cstore \<Rightarrow> bool" where
  "store_ok s \<longleftrightarrow> lock_ok s \<and> (\<exists>cs. stored s = Some cs \<and> (\<forall>c \<in> set cs. json_form c = Some c))"

lemma json_form_eq:
  "json_form c = Some d \<longleftrightarrow>
     (\<exists>rn un dn cp. json_value (rp_name c) = Some rn \<and> json_value (user_name c) = Some un \<and>
        json_value (user_display_name c) = Some dn \<and> json_value (cred_protect c) = Some cp \<and>
        d = c\<lparr>rp_name := rn, user_name := un, user_display_name := dn, cred_protect := cp\<rparr>)"
  by (cases c) (auto simp: json_form_def to_dict_def from_dict_def b64_roundtrip split: option.splits)

lemma json_form_idem: "json_form c = Some d \<Longrightarrow> json_form d = Some d"
proof -
  assume "json_form c = Some d"
  then obtain rn un dn cp where "json_value (rp_name c) = Some rn" "json_value (user_name c) = Some un"
      "json_value (user_display_name c) = Some dn" "json_value (cred_protect c) = Some cp"
      and d: "d = c\<lparr>rp_name := rn, user_name := un, user_display_name := dn, cred_protect := cp\<rparr>"
    unfolding json_form_eq by blast
  note this(1-4) [THEN json_value_idem]
  then show "json_form d = Some d"
    unfolding json_form_eq by (intro exI conjI) (simp_all add: d)
qed

lemma json_form_counter [simp]:
  "json_form (c\<lparr>sign_count := n\<rparr>) = map_option (\<lambda>d. d\<lparr>sign_count := n\<rparr>) (json_form c)"
  by (cases c) (auto simp: json_form_def to_dict_def from_dict_def b64_roundtrip split: option.splits)

lemma json_form_None: "to_dict c = None \<longleftrightarrow> json_form c = None"
  by (auto simp: json_form_def to_dict_def from_dict_def b64_roundtrip split: option.splits)

lemma json_form_fields:
  assumes "json_form c = Some d"
  shows "credential_id d = credential_id c" "rp_id d = rp_id c" "user_handle d = user_handle c" "sign_count d = sign_count c"
    "key_ref d = key_ref c" "resident d = resident c" "created_at d = created_at c"
  using assms by (auto simp: json_form_eq)

lemma cs_load_stored:
  "stored s = Some cs \<Longrightarrow> cs_load s = (Inr (), s\<lparr>credentials := cs\<rparr>)"
  by (auto simp: stored_def cs_load_def split: option.splits store_file.splits if_splits)

lemma those_bind_map:
  "those (map f xs) = Some ys \<Longrightarrow> those (map g ys) = those (map (\<lambda>x. case f x of None \<Rightarrow> None | Some y \<Rightarrow> g y) xs)"
  by (induction xs arbitrary: ys) (auto split: option.splits)

lemma those_None_iff: "those xs = None \<longleftrightarrow> None \<in> set xs"
  by (induction xs) (auto split: option.splits)

lemma cs_save_unwritable:
  "those (map json_form (credentials s)) = None \<Longrightarrow> cs_save s = (Inl StoreTypeError, s)"
proof -
  assume "those (map json_form (credentials s)) = None"
  then obtain c where "c \<in> set (credentials s)" "json_form c = None"
    by (force simp: those_None_iff)
  then have "None \<in> set (map to_dict (credentials s))"
    unfolding json_form_None [symmetric] by force
  then have "those (map to_dict (credentials s)) = None"
    by (simp only: those_None_iff)
  then show ?thesis
    by (simp add: cs_save_def)
qed

lemma cs_save_forms:
  assumes "those (map json_form (credentials s)) = Some cs"
  obtains rows where "those (map from_dict rows) = Some cs"
    and "cs_save s = (if write_ok s then (Inr (), s\<lparr>disk := Some (Doc (Some STORE_FORMAT_VERSION) rows)\<rparr>)
                      else (Inl StoreOSError, s))"
proof (cases "those (map to_dict (credentials s))")
  case None
  then have "None \<in> set (map to_dict (credentials s))"
    by (simp only: those_None_iff)
  then obtain c where "c \<in> set (credentials s)" and "to_dict c = None"
    by force
  then have "None \<in> set (map json_form (credentials s))"
    unfolding json_form_None by force
  then have "those (map json_form (credentials s)) = None"
    by (simp only: those_None_iff)
  with assms show thesis
    by simp
next
  case (Some rows)
  then show thesis
    using assms those_bind_map [OF Some, of from_dict] that [of rows]
    by (simp add: cs_save_def json_form_def [abs_def])
qed

lemma stored_doc [simp]:
  "stored (s\<lparr>disk := Some (Doc (Some STORE_FORMAT_VERSION) rows)\<rparr>) = those (map from_dict rows)"
  by (simp add: stored_def)

section \<open>The store refines a list of credentials\<close>

datatype store_call = Add credential | Count "byte list" | Remove "byte list" | Destroy

datatype store_answer = Unit | Counted int | Removed bool

fun store_run :: "store_call \<Rightarrow> store_answer store_op" where
  "store_run (Add c) = pbind (cs_add c) (\<lambda>_. pret Unit)"
| "store_run (Count i) = pbind (increment_counter i) (\<lambda>n. pret (Counted n))"
| "store_run (Remove i) = pbind (cs_remove i) (\<lambda>b. pret (Removed b))"
| "store_run Destroy = pbind destroy_all (\<lambda>_. pret Unit)"

text \<open>What each operation promises on the credentials alone; \<open>None\<close>: it is refused.\<close>

fun store_spec :: "store_call \<Rightarrow> credential list \<Rightarrow> (store_answer \<times> credential list) option" where
  "store_spec (Add c) cs =
     map_option (\<lambda>c'. (Unit, filter (\<lambda>d. \<not> (rp_id d = rp_id c \<and> user_handle d = user_handle c)) cs @ [c'])) (json_form c)"
| "store_spec (Count i) cs = map_option (\<lambda>c. (Counted (sign_count c + 1), bump i cs)) (find_by_id i cs)"
| "store_spec (Remove i) cs =
     Some (Removed (i \<in> credential_id ` set cs), filter (\<lambda>c. credential_id c \<noteq> i) cs)"
| "store_spec Destroy cs = Some (Unit, [])"

lemma those_append: "those (xs @ ys) = (case those xs of None \<Rightarrow> None | Some as \<Rightarrow> map_option ((@) as) (those ys))"
  by (induction xs; cases "those ys") (auto split: option.splits)

lemma json_forms: "\<forall>c \<in> set cs. json_form c = Some c \<Longrightarrow> those (map json_form cs) = Some cs"
  by (induction cs) auto

lemma bump_forms: "\<forall>c \<in> set cs. json_form c = Some c \<Longrightarrow> \<forall>c \<in> set (bump i cs). json_form c = Some c"
  by (induction cs) auto

lemma json_forms_idem: "those (map json_form xs) = Some cs \<Longrightarrow> c \<in> set cs \<Longrightarrow> json_form c = Some c"
proof -
  assume "those (map json_form xs) = Some cs" and "c \<in> set cs"
  then have "Some c \<in> set (map json_form xs)"
    by (simp add: those_Some_iff)
  then show ?thesis
    using json_form_idem by auto
qed

text \<open>Saving what an operation computed: the file then holds it, or nothing changed.\<close>

lemma save_refines:
  assumes "store_ok s" and "disk s' = disk s" and "lock_ok s' = lock_ok s"
  shows "store_ok (snd (cs_save s'))"
    and "fst (cs_save s') = Inr () \<Longrightarrow> stored (snd (cs_save s')) = those (map json_form (credentials s'))"
    and "fst (cs_save s') = Inl e \<Longrightarrow> disk (snd (cs_save s')) = disk s"
    and "fst (cs_save s') = Inr () \<longleftrightarrow> write_ok s' \<and> those (map json_form (credentials s')) \<noteq> None"
proof -
  have "stored s' = stored s"
    using assms(2) by (simp add: stored_def)
  then have same: "store_ok s'"
    using assms by (simp add: store_ok_def)
  consider (bad) "those (map json_form (credentials s')) = None" | (good) cs where "those (map json_form (credentials s')) = Some cs"
    by (cases "those (map json_form (credentials s'))") auto
  then have "store_ok (snd (cs_save s')) \<and>
      (fst (cs_save s') = Inr () \<longrightarrow> stored (snd (cs_save s')) = those (map json_form (credentials s'))) \<and>
      (fst (cs_save s') = Inl e \<longrightarrow> disk (snd (cs_save s')) = disk s) \<and>
      (fst (cs_save s') = Inr () \<longleftrightarrow> write_ok s' \<and> those (map json_form (credentials s')) \<noteq> None)"
  proof cases
    case bad
    then show ?thesis
      using same assms(2) by (simp add: cs_save_unwritable)
  next
    case good
    obtain rows where "those (map from_dict rows) = Some cs"
        and "cs_save s' = (if write_ok s' then (Inr (), s'\<lparr>disk := Some (Doc (Some STORE_FORMAT_VERSION) rows)\<rparr>)
                      else (Inl StoreOSError, s'))"
      by (rule cs_save_forms [OF good])
    then show ?thesis
      using same assms good json_forms_idem [OF good] by (simp add: store_ok_def)
  qed
  then show "store_ok (snd (cs_save s'))"
    and "fst (cs_save s') = Inr () \<Longrightarrow> stored (snd (cs_save s')) = those (map json_form (credentials s'))"
    and "fst (cs_save s') = Inl e \<Longrightarrow> disk (snd (cs_save s')) = disk s"
    and "fst (cs_save s') = Inr () \<longleftrightarrow> write_ok s' \<and> those (map json_form (credentials s')) \<noteq> None"
    by blast+
qed

lemma find_in_bump: "find_by_id i cs = Some c \<Longrightarrow> c \<in> set cs \<and> credential_id c = i"
  by (auto simp: find_by_id_def find_Some_iff)

lemma locked_load:
  "lock_ok s \<Longrightarrow> stored s = Some cs \<Longrightarrow> locked (pbind cs_load f) s = f () (s\<lparr>credentials := cs\<rparr>)"
  by (simp add: locked_def pbind_def cs_load_stored)

lemma filter_length_same: "length (filter P xs) = length xs \<Longrightarrow> x \<in> set xs \<Longrightarrow> P x"
  using length_filter_less [of x xs P] by auto

lemma pbind_pret: "pbind m (\<lambda>x. pret (f x)) s = (case m s of (Inl e, s') \<Rightarrow> (Inl e, s') | (Inr x, s') \<Rightarrow> (Inr (f x), s'))"
  by (simp add: pbind_def split: prod.split sum.split)

definition refines :: "cstore \<Rightarrow> ('a \<times> credential list) option \<Rightarrow> (cstore_error + 'a) \<times> cstore \<Rightarrow> bool" where
  "refines s spec m \<longleftrightarrow> store_ok (snd m) \<and>
    (\<forall>a. fst m = Inr a \<longrightarrow> (\<exists>cs'. spec = Some (a, cs') \<and> stored (snd m) = Some cs')) \<and>
    (\<forall>e. fst m = Inl e \<longrightarrow> disk (snd m) = disk s) \<and>
    (\<forall>a cs'. write_ok s \<and> spec = Some (a, cs') \<longrightarrow> fst m = Inr a)"

lemma refines_save:
  assumes "store_ok s" and "disk s' = disk s" and "lock_ok s' = lock_ok s" and "write_ok s' = write_ok s"
    and "m = pbind cs_save (\<lambda>_. pret a) s'" and "spec = map_option (Pair a) (those (map json_form (credentials s')))"
  shows "refines s spec m"
proof (cases "cs_save s'")
  case (Pair r t)
  note save = save_refines [OF assms(1-3), unfolded Pair fst_conv snd_conv]
  show ?thesis
  proof (cases r)
    case (Inl e)
    then show ?thesis
      using save(1,3,4) Pair assms(4) by (auto simp: refines_def assms(5,6) pbind_def)
  next
    case (Inr u)
    then show ?thesis
      using save(1,2,4) Pair by (auto simp: refines_def assms(5,6) pbind_def)
  qed
qed

lemma store_ok_lock: "store_ok s \<Longrightarrow> lock_ok s"
  by (simp add: store_ok_def)

lemma refines_add:
  assumes "store_ok s" and "stored s = Some cs"
  shows "refines s (store_spec (Add c) cs) (store_run (Add c) s)"
proof -
  have forms: "\<forall>c \<in> set cs. json_form c = Some c"
    using assms by (auto simp: store_ok_def)
  note load = locked_load [OF store_ok_lock [OF assms(1)] assms(2)]
  let ?s = "s\<lparr>credentials := filter (\<lambda>d. \<not> (rp_id d = rp_id c \<and> user_handle d = user_handle c)) cs @ [c]\<rparr>"
  have "store_run (Add c) s = pbind cs_save (\<lambda>_. pret Unit) ?s"
    by (simp add: cs_add_def pbind_def load)
  moreover have "store_spec (Add c) cs = map_option (Pair Unit) (those (map json_form (credentials ?s)))"
    using forms by (cases "json_form c") (simp_all add: those_append json_forms)
  ultimately show ?thesis
    by (rule refines_save [OF assms(1), of ?s, rotated 3]) simp_all
qed

lemma refines_count:
  assumes "store_ok s" and "stored s = Some cs"
  shows "refines s (store_spec (Count i) cs) (store_run (Count i) s)"
proof -
  have forms: "\<forall>c \<in> set cs. json_form c = Some c"
    using assms by (auto simp: store_ok_def)
  note load = locked_load [OF store_ok_lock [OF assms(1)] assms(2)]
  show ?thesis
  proof (cases "find_by_id i cs")
    case None
    then have "store_run (Count i) s = (Inl StoreError, s\<lparr>credentials := cs\<rparr>)"
      by (simp add: increment_counter_def pbind_def load)
    then show ?thesis
      using assms None by (simp add: refines_def store_ok_def stored_def)
  next
    case (Some c)
    let ?s = "s\<lparr>credentials := bump i cs\<rparr>"
    have "store_run (Count i) s = pbind cs_save (\<lambda>_. pret (Counted (sign_count c + 1))) ?s"
      using Some by (simp add: increment_counter_def pbind_def load split: prod.split sum.split)
    moreover have "store_spec (Count i) cs = map_option (Pair (Counted (sign_count c + 1))) (those (map json_form (credentials ?s)))"
      using json_forms [OF bump_forms [OF forms]] Some by simp
    ultimately show ?thesis
      by (rule refines_save [OF assms(1), of ?s, rotated 3]) simp_all
  qed
qed

lemma refines_remove:
  assumes "store_ok s" and "stored s = Some cs"
  shows "refines s (store_spec (Remove i) cs) (store_run (Remove i) s)"
proof -
  have forms: "\<forall>c \<in> set cs. json_form c = Some c"
    using assms by (auto simp: store_ok_def)
  note load = locked_load [OF store_ok_lock [OF assms(1)] assms(2)]
  let ?kept = "filter (\<lambda>c. credential_id c \<noteq> i) cs"
  let ?s = "s\<lparr>credentials := ?kept\<rparr>"
  have run: "store_run (Remove i) s =
      (if length ?kept = length cs then (Inr (Removed False), ?s) else pbind cs_save (\<lambda>_. pret (Removed True)) ?s)"
    by (simp add: cs_remove_def pbind_def load Let_def split: prod.split sum.split)
  have "?kept = cs" if "i \<notin> credential_id ` set cs"
    using that by (auto simp: filter_id_conv)
  then have same: "length ?kept = length cs \<longleftrightarrow> i \<notin> credential_id ` set cs"
    by (auto dest: filter_length_same)
  show ?thesis
  proof (cases "i \<in> credential_id ` set cs")
    case True
    then have "store_run (Remove i) s = pbind cs_save (\<lambda>_. pret (Removed True)) ?s"
      using run same by simp
    moreover have "store_spec (Remove i) cs = map_option (Pair (Removed True)) (those (map json_form (credentials ?s)))"
      using forms True by (simp add: json_forms)
    ultimately show ?thesis
      by (rule refines_save [OF assms(1), of ?s, rotated 3]) simp_all
  next
    case False
    then have "?kept = cs"
      by (auto simp: filter_id_conv)
    then show ?thesis
      using run same False assms by (simp add: refines_def store_ok_def stored_def)
  qed
qed

text \<open>
  C11. The credential store refines a list: starting from a file it can read, every operation
  leaves such a file; one that succeeds answers and changes the file's credentials exactly as
  specified (adding replaces the credential of the same site and account, counting up adds
  one to one credential), one that fails leaves the file as it was, and an operation the
  specification allows succeeds whenever the file can be written.
\<close>

theorem store_refines:
  assumes "store_ok s" and "stored s = Some cs"
  shows "store_ok (snd (store_run call s)) \<and>
    (\<forall>a. fst (store_run call s) = Inr a \<longrightarrow>
       (\<exists>cs'. store_spec call cs = Some (a, cs') \<and> stored (snd (store_run call s)) = Some cs')) \<and>
    (\<forall>e. fst (store_run call s) = Inl e \<longrightarrow> disk (snd (store_run call s)) = disk s) \<and>
    (\<forall>a cs'. write_ok s \<and> store_spec call cs = Some (a, cs') \<longrightarrow> fst (store_run call s) = Inr a)"
proof -
  have "refines s (store_spec call cs) (store_run call s)"
  proof (cases call)
    case Destroy
    then have "store_run call s = (Inr Unit, s\<lparr>credentials := [], disk := None\<rparr>)"
      using store_ok_lock [OF assms(1)] by (simp add: destroy_all_def locked_def pbind_def)
    then show ?thesis
      using assms(1) by (simp add: Destroy refines_def store_ok_def stored_def)
  qed (use assms refines_add refines_count refines_remove in blast)+
  then show ?thesis
    unfolding refines_def .
qed

definition sample_credential :: credential where
  "sample_credential = \<lparr>credential_id = [1, 2], rp_id = ''example.org'', rp_name = PText ''Example'', user_handle = [7],
     user_name = PText ''ann'', user_display_name = PText ''Ann'', cose_public_key = [165], key_ref = ''k1'',
     sign_count = 3, resident = True, cred_protect = PInt 1, algorithm = - 7, created_at = 100\<rparr>"

definition sample_cstore :: cstore where
  "sample_cstore =
     snd (cs_add sample_credential \<lparr>credentials = [], disk = None, lock_ok = True, write_ok = True\<rparr>)"

lemma sample_stored: "stored sample_cstore = Some [sample_credential]"
  by code_simp

lemma sample_store_ok: "store_ok sample_cstore"
proof -
  have "json_form sample_credential = Some sample_credential" and "lock_ok sample_cstore"
    by code_simp+
  then show ?thesis
    by (simp add: store_ok_def sample_stored)
qed

theorem store_refines_witness:
  "stored (snd (store_run (Count [1, 2]) sample_cstore)) = Some [sample_credential\<lparr>sign_count := 4\<rparr>]"
proof -
  have "write_ok sample_cstore"
    by code_simp
  moreover have "store_spec (Count [1, 2]) [sample_credential] = Some (Counted 4, [sample_credential\<lparr>sign_count := 4\<rparr>])"
    by code_simp
  ultimately show ?thesis
    using store_refines [OF sample_store_ok sample_stored, of "Count [1, 2]"] by auto
qed

section \<open>Counters that never repeat\<close>

text \<open>
  The contract of a persisted counter: a tick that succeeds returns the next value and
  stores it, a tick that fails stores nothing. Clients rely on this: over any
  sequence of ticks, whichever fail, the values handed out for one key only grow.
\<close>

locale persisted_counter =
  fixes inv :: "'s \<Rightarrow> bool"
    and count :: "'s \<Rightarrow> 'k \<Rightarrow> int option"
    and tick :: "'k \<Rightarrow> 's \<Rightarrow> ('e + int) \<times> 's"
  assumes tick_ok: "inv s \<Longrightarrow> tick k s = (Inr n, s') \<Longrightarrow>
      inv s' \<and> count s k = Some (n - 1) \<and> count s' = (count s)(k \<mapsto> n)"
    and tick_fail: "inv s \<Longrightarrow> tick k s = (Inl e, s') \<Longrightarrow> inv s' \<and> count s' = count s"
begin

fun ticks :: "'k list \<Rightarrow> 's \<Rightarrow> ('k \<times> int) list" where
  "ticks [] s = []"
| "ticks (k # ks) s = (case tick k s of (Inl e, s') \<Rightarrow> ticks ks s' | (Inr n, s') \<Rightarrow> (k, n) # ticks ks s')"

lemma ticks_above: "inv s \<Longrightarrow> (k, n) \<in> set (ticks ks s) \<Longrightarrow> \<exists>m. count s k = Some m \<and> m < n"
proof (induction ks arbitrary: s)
  case (Cons k' ks)
  obtain r s' where t: "tick k' s = (r, s')"
    by fastforce
  show ?case
  proof (cases r)
    case (Inl e)
    then show ?thesis
      using Cons.IH [of s'] Cons.prems t tick_fail [OF Cons.prems(1), of k' e s'] by auto
  next
    case (Inr v)
    then have ok: "inv s'" "count s k' = Some (v - 1)" "count s' = (count s)(k' \<mapsto> v)"
      using tick_ok [OF Cons.prems(1), of k' v s'] t by auto
    consider "k = k'" "n = v" | "(k, n) \<in> set (ticks ks s')"
      using Cons.prems(2) t Inr by auto
    then show ?thesis
    proof cases
      case 1
      with ok show ?thesis
        by simp
    next
      case 2
      with Cons.IH [OF ok(1)] ok show ?thesis
        by (cases "k = k'") force+
    qed
  qed
qed simp

lemma ticks_grow:
  "inv s \<Longrightarrow> sorted_wrt (\<lambda>(k, n) (k', n'). k = k' \<longrightarrow> n < n') (ticks ks s)"
proof (induction ks arbitrary: s)
  case (Cons k ks)
  obtain r s' where t: "tick k s = (r, s')"
    by fastforce
  show ?case
  proof (cases r)
    case (Inl e)
    then show ?thesis
      using Cons.IH [of s'] Cons.prems t tick_fail [OF Cons.prems(1), of k e s'] by simp
  next
    case (Inr v)
    then have "inv s'" "count s' = (count s)(k \<mapsto> v)"
      using tick_ok [OF Cons.prems(1), of k v s'] t by auto
    then show ?thesis
      using Cons.IH [of s'] t Inr ticks_above [of s'] by fastforce
  qed
qed simp

end

definition stored_count :: "cstore \<Rightarrow> byte list \<Rightarrow> int option" where
  "stored_count s i = (case stored s of None \<Rightarrow> None | Some cs \<Rightarrow> map_option sign_count (find_by_id i cs))"

lemma count_bump:
  "find_by_id i cs = Some c \<Longrightarrow>
    map_option sign_count (find_by_id j (bump i cs)) = (if j = i then Some (sign_count c + 1) else map_option sign_count (find_by_id j cs))"
  unfolding find_by_id_def by (induction cs) auto

interpretation sign_counter: persisted_counter store_ok stored_count increment_counter
proof
  fix s :: cstore and i :: "byte list" and n :: int and e :: cstore_error and s' :: cstore
  assume ok: "store_ok s"
  then obtain cs where cs: "stored s = Some cs"
    by (auto simp: store_ok_def)
  note r = refines_count [OF ok cs, of i, unfolded refines_def]
  {
    assume t: "increment_counter i s = (Inr n, s')"
    then have run: "store_run (Count i) s = (Inr (Counted n), s')"
      by (simp add: pbind_def)
    then obtain c where c: "find_by_id i cs = Some c" "n = sign_count c + 1" "stored s' = Some (bump i cs)"
      using r by auto
    then have "stored_count s' = (stored_count s)(i \<mapsto> n)"
      by (auto simp: stored_count_def cs count_bump fun_eq_iff)
    then show "store_ok s' \<and> stored_count s i = Some (n - 1) \<and> stored_count s' = (stored_count s)(i \<mapsto> n)"
      using r run c by (simp add: stored_count_def cs)
  next
    assume t: "increment_counter i s = (Inl e, s')"
    then have run: "store_run (Count i) s = (Inl e, s')"
      by (simp add: pbind_def)
    then show "store_ok s' \<and> stored_count s' = stored_count s"
      using r by (simp add: stored_count_def stored_def fun_eq_iff)
  }
qed

text \<open>The counter values a sequence of signatures hands out.\<close>

fun signings :: "byte list list \<Rightarrow> cstore \<Rightarrow> (byte list \<times> int) list" where
  "signings [] s = []"
| "signings (i # is) s =
     (case increment_counter i s of (Inl e, s') \<Rightarrow> signings is s' | (Inr n, s') \<Rightarrow> (i, n) # signings is s')"

lemma signings_ticks: "signings is s = sign_counter.ticks is s"
  by (induction "is" arbitrary: s) (auto split: prod.split sum.split)

text \<open>
  C21. A sign counter never repeats: over any sequence of signatures asked for, on any credentials
  and whether or not some of them fail to be written, the values handed out for one credential
  are strictly increasing, and each lies above the value the file held before.
\<close>

theorem counters_never_repeat:
  assumes "store_ok s"
  shows "sorted_wrt (\<lambda>(i, n) (j, m). i = j \<longrightarrow> n < m) (signings ids s) \<and>
    (\<forall>i n. (i, n) \<in> set (signings ids s) \<longrightarrow> (\<exists>m. stored_count s i = Some m \<and> m < n))"
  unfolding signings_ticks using sign_counter.ticks_grow [OF assms] sign_counter.ticks_above [OF assms] by blast

theorem counters_never_repeat_witness:
  "signings [[1, 2], [9], [1, 2]] sample_cstore = [([1, 2], 4), ([1, 2], 5)] \<and>
   sorted_wrt (\<lambda>(i, n) (j, m). i = j \<longrightarrow> n < m) (signings [[1, 2], [9], [1, 2]] sample_cstore)"
proof
  show "signings [[1, 2], [9], [1, 2]] sample_cstore = [([1, 2], 4), ([1, 2], 5)]"
    by code_simp
  show "sorted_wrt (\<lambda>(i, n) (j, m). i = j \<longrightarrow> n < m) (signings [[1, 2], [9], [1, 2]] sample_cstore)"
    using counters_never_repeat [OF sample_store_ok] by blast
qed

end
