(* ===== verification/Authenticator.thy ===== *)
theory Authenticator
  imports Cred_Store Daemon_Access Complex_Main
begin

text \<open>
  \<^verbatim>\<open>webauthn/authenticator.py\<close>: the CTAP2 commands over the credential store.

  python-fido2 (CBOR, COSE, authenticator data, the numeric error codes) and SHA-256 are a record
  of functions; what a command meets outside is another: the face check's result, the two
  clocks, the key and the id it would create, and the keystore's signing function, \<open>None\<close>
  where the keystore raises. The keystore's calls are recorded in their order, with every message it signed, and how
  often it was emptied. A CTAP error is a value, any other exception is \<open>Raised\<close>.
\<close>

unbundle bit_operations_syntax

section \<open>Python values\<close>

fun truthy :: "pyval \<Rightarrow> bool" where
  "truthy (PInt i) = (i \<noteq> 0)"
| "truthy (PBool b) = b"
| "truthy (PText s) = (s \<noteq> [])"
| "truthy (PBytes b) = (b \<noteq> [])"
| "truthy (PList xs) = (xs \<noteq> [])"
| "truthy (PMap m) = (m \<noteq> [])"

text \<open>\<open>True == 1\<close>: what keys and small values are compared by.\<close>

fun py_norm :: "pyval \<Rightarrow> pyval" where
  "py_norm (PBool b) = PInt (if b then 1 else 0)"
| "py_norm v = v"

definition dget :: "pyval \<Rightarrow> (pyval \<times> pyval) list \<Rightarrow> pyval option" where
  "dget k m = map_of (map (\<lambda>(a, b). (py_norm a, b)) m) k"

text \<open>\<open>x or default\<close>\<close>

definition or_default :: "pyval \<Rightarrow> pyval option \<Rightarrow> pyval" where
  "or_default d v = (case v of None \<Rightarrow> d | Some x \<Rightarrow> if truthy x then x else d)"

text \<open>What a \<open>for\<close> runs over, and \<open>len\<close>.\<close>

fun py_iter :: "pyval \<Rightarrow> pyval list option" where
  "py_iter (PList xs) = Some xs"
| "py_iter (PMap m) = Some (map fst m)"
| "py_iter (PText s) = Some (map (\<lambda>c. PText [c]) s)"
| "py_iter (PBytes b) = Some (map (\<lambda>x. PInt (uint x)) b)"
| "py_iter _ = None"

section \<open>State\<close>

datatype ctap_err = E_SUCCESS | E_INVALID_LENGTH | E_INVALID_CBOR | E_CBOR_UNEXPECTED_TYPE | E_PIN_AUTH_INVALID
  | E_INVALID_COMMAND | E_OTHER | E_USER_ACTION_TIMEOUT | E_KEEPALIVE_CANCEL | E_OPERATION_DENIED | E_PIN_NOT_SET
  | E_MISSING_PARAMETER | E_INVALID_PARAMETER | E_INVALID_OPTION | E_UNSUPPORTED_ALGORITHM
  | E_CREDENTIAL_EXCLUDED | E_NO_CREDENTIALS | E_NOT_ALLOWED

datatype auth_error = Ctap ctap_err | Raised

record fido =
  err_code :: "ctap_err \<Rightarrow> byte"
  cbor_decode :: "byte list \<Rightarrow> pyval option"
  cbor_encode :: "pyval \<Rightarrow> byte list"
  sha256 :: "string \<Rightarrow> byte list"
  ES256 :: int
  FLAG_UP :: nat
  FLAG_UV :: nat
  FLAG_AT :: nat
  FLAG_ED :: nat
  attested_data :: "byte list \<Rightarrow> byte list \<Rightarrow> pyval \<Rightarrow> byte list"
  auth_data :: "byte list \<Rightarrow> nat \<Rightarrow> int \<Rightarrow> byte list \<Rightarrow> pyval option \<Rightarrow> byte list"

record ceremony =
  face :: vresult
  now :: real
  wall :: int
  fresh_key :: "(string \<times> pyval) option"
  fresh_id :: "byte list"
  sign_with :: "string \<Rightarrow> byte list \<Rightarrow> byte list option"

text \<open>The calls to the keystore, whether they return or raise.\<close>

datatype keystore_call = Generates | Signs string "byte list"

record auth =
  a_store :: cstore
  started :: real
  next_assertions :: "pyval list"
  next_time :: real
  signatures :: "(string \<times> byte list) list"
  keystore_calls :: "keystore_call list"
  keys_emptied :: nat

type_synonym 'a command = "(auth, auth_error, 'a) block"

definition CMD_MAKE_CREDENTIAL :: byte where "CMD_MAKE_CREDENTIAL = 0x01"
definition CMD_GET_ASSERTION :: byte where "CMD_GET_ASSERTION = 0x02"
definition CMD_GET_INFO :: byte where "CMD_GET_INFO = 0x04"
definition CMD_CLIENT_PIN :: byte where "CMD_CLIENT_PIN = 0x06"
definition CMD_RESET :: byte where "CMD_RESET = 0x07"
definition CMD_GET_NEXT_ASSERTION :: byte where "CMD_GET_NEXT_ASSERTION = 0x08"
definition CMD_SELECTION :: byte where "CMD_SELECTION = 0x0B"
definition RESET_WINDOW :: real where "RESET_WINDOW = 10"
definition NEXT_ASSERTION_WINDOW :: real where "NEXT_ASSERTION_WINDOW = 30"

definition AAGUID :: "byte list" where
  "AAGUID = [0x14, 0x64, 0x7b, 0x7a, 0x47, 0xb0, 0xdb, 0x54, 0x27, 0x50, 0xf3, 0x0f, 0x0c, 0xeb, 0x25, 0x1c]"

section \<open>Steps shared by the commands\<close>

definition verification_error :: "vresult \<Rightarrow> ctap_err" where
  "verification_error r =
     (if r \<in> {TIMEOUT_REACHED, NOT_CONFIRMED} then E_USER_ACTION_TIMEOUT
      else if r = CANCELLED then E_KEEPALIVE_CANCEL
      else E_OPERATION_DENIED)"

definition check_pin_uv_auth_param :: "pyval option \<Rightarrow> unit command" where
  "check_pin_uv_auth_param v =
     (case v of
        None \<Rightarrow> pret ()
      | Some x \<Rightarrow> (case py_iter x of
            None \<Rightarrow> praise Raised
          | Some items \<Rightarrow> if items = [] then praise (Ctap E_PIN_NOT_SET) else pret ()))"

definition verify_user :: "ceremony \<Rightarrow> unit command" where
  "verify_user w = (if face w \<noteq> SUCCESS then praise (Ctap (verification_error (face w))) else pret ())"

definition on_credentials :: "'a store_op \<Rightarrow> 'a command" where
  "on_credentials m a =
     (case m (a_store a) of
        (Inl e, s) \<Rightarrow> (Inl Raised, a\<lparr>a_store := s\<rparr>)
      | (Inr x, s) \<Rightarrow> (Inr x, a\<lparr>a_store := s\<rparr>))"

definition ks_sign :: "ceremony \<Rightarrow> string \<Rightarrow> byte list \<Rightarrow> byte list command" where
  "ks_sign w key message a =
     (case sign_with w key message of
        None \<Rightarrow> (Inl Raised, a\<lparr>keystore_calls := keystore_calls a @ [Signs key message]\<rparr>)
      | Some sig \<Rightarrow>
          (Inr sig, a\<lparr>signatures := signatures a @ [(key, message)], keystore_calls := keystore_calls a @ [Signs key message]\<rparr>))"

definition ks_generate :: "ceremony \<Rightarrow> (string \<times> pyval) command" where
  "ks_generate w a =
     (case fresh_key w of None \<Rightarrow> Inl Raised | Some k \<Rightarrow> Inr k, a\<lparr>keystore_calls := keystore_calls a @ [Generates]\<rparr>)"

text \<open>An entry of a credential list: a dict whose \<open>id\<close> is a byte string.\<close>

definition entry_id :: "pyval \<Rightarrow> byte list option" where
  "entry_id v =
     (case v of
        PMap m \<Rightarrow> (case dget (PText ''id'') m of Some (PBytes i) \<Rightarrow> Some i | _ \<Rightarrow> None)
      | _ \<Rightarrow> None)"

section \<open>authenticatorMakeCredential\<close>

text \<open>\<open>any(p.get("type") == "public-key" and p.get("alg") == ES256.ALGORITHM for p in key_params)\<close>\<close>

fun offers_es256 :: "fido \<Rightarrow> pyval list \<Rightarrow> auth_error + bool" where
  "offers_es256 f [] = Inr False"
| "offers_es256 f (PMap m # ps) =
     (if dget (PText ''type'') m = Some (PText ''public-key'') \<and> map_option py_norm (dget (PText ''alg'') m) = Some (PInt (ES256 f))
      then Inr True else offers_es256 f ps)"
| "offers_es256 f (_ # ps) = Inl Raised"

definition is_excluded :: "string \<Rightarrow> credential list \<Rightarrow> pyval list \<Rightarrow> bool" where
  "is_excluded rp cs entries \<longleftrightarrow>
     list_ex (\<lambda>e. case entry_id e of
         None \<Rightarrow> False
       | Some i \<Rightarrow> (case find_by_id i cs of None \<Rightarrow> False | Some c \<Rightarrow> rp_id c = rp)) entries"

definition cred_protect_of :: "(pyval \<times> pyval) list \<Rightarrow> pyval" where
  "cred_protect_of extensions = (case dget (PText ''credProtect'') extensions of None \<Rightarrow> PInt 1 | Some p \<Rightarrow> p)"

definition new_credential ::
    "fido \<Rightarrow> ceremony \<Rightarrow> string \<Rightarrow> byte list \<Rightarrow> (pyval \<times> pyval) list \<Rightarrow> (pyval \<times> pyval) list \<Rightarrow>
     (pyval \<times> pyval) list \<Rightarrow> (pyval \<times> pyval) list \<Rightarrow> string \<Rightarrow> pyval \<Rightarrow> credential" where
  "new_credential f w rp user_id rp_map user_map extensions options ref cose =
     \<lparr>credential_id = fresh_id w, rp_id = rp,
      rp_name = or_default (PText []) (dget (PText ''name'') rp_map),
      user_handle = user_id,
      user_name = or_default (PText []) (dget (PText ''name'') user_map),
      user_display_name = or_default (PText []) (dget (PText ''displayName'') user_map),
      cose_public_key = cbor_encode f cose, key_ref = ref, sign_count = 0,
      resident = (case dget (PText ''rk'') options of None \<Rightarrow> False | Some v \<Rightarrow> truthy v),
      cred_protect = cred_protect_of extensions, algorithm = - 7, created_at = wall w\<rparr>"

text \<open>The signed part of the attestation.\<close>

definition attestation_data :: "fido \<Rightarrow> ceremony \<Rightarrow> string \<Rightarrow> (pyval \<times> pyval) list \<Rightarrow> pyval \<Rightarrow> byte list" where
  "attestation_data f w rp extensions cose =
     (let extended = dget (PText ''credProtect'') extensions \<noteq> None;
          flags = (FLAG_UP f OR FLAG_UV f OR FLAG_AT f) OR (if extended then FLAG_ED f else 0)
      in auth_data f (sha256 f rp) flags 0 (attested_data f AAGUID (fresh_id w) cose)
           (if extended then Some (PMap [(PText ''credProtect'', cred_protect_of extensions)]) else None))"

text \<open>From the checked request on: the face check, the key, the record, the attestation.\<close>

definition create_credential ::
    "fido \<Rightarrow> ceremony \<Rightarrow> byte list \<Rightarrow> string \<Rightarrow> byte list \<Rightarrow> (pyval \<times> pyval) list \<Rightarrow> (pyval \<times> pyval) list \<Rightarrow>
     (pyval \<times> pyval) list \<Rightarrow> (pyval \<times> pyval) list \<Rightarrow> pyval command" where
  "create_credential f w cdh rp user_id rp_map user_map extensions options =
     pbind (verify_user w) (\<lambda>_.
     pbind (ks_generate w) (\<lambda>(ref, cose).
       let data = attestation_data f w rp extensions cose in
       pbind (on_credentials (cs_add (new_credential f w rp user_id rp_map user_map extensions options ref cose))) (\<lambda>_.
       pbind (ks_sign w ref (data @ cdh)) (\<lambda>sig.
       pret (PMap [(PInt 1, PText ''packed''), (PInt 2, PBytes data),
                   (PInt 3, PMap [(PText ''alg'', PInt (ES256 f)), (PText ''sig'', PBytes sig)])])))))"

definition make_credential :: "fido \<Rightarrow> ceremony \<Rightarrow> (pyval \<times> pyval) list \<Rightarrow> pyval command" where
  "make_credential f w params =
     (case (dget (PInt 1) params, dget (PInt 2) params, dget (PInt 3) params, dget (PInt 4) params) of
        (Some (PBytes cdh), Some (PMap rp_map), Some (PMap user_map), Some (PList key_params)) \<Rightarrow>
          pbind (check_pin_uv_auth_param (dget (PInt 8) params)) (\<lambda>_.
          (case (dget (PText ''id'') rp_map, dget (PText ''id'') user_map) of
             (Some (PText rp), Some (PBytes user_id)) \<Rightarrow>
               if \<not> (1 \<le> length user_id \<and> length user_id \<le> 64) then praise (Ctap E_INVALID_PARAMETER)
               else (case or_default (PMap []) (dget (PInt 7) params) of
                   PMap options \<Rightarrow>
                     if dget (PText ''up'') options = Some (PBool False) then praise (Ctap E_INVALID_OPTION)
                     else (case offers_es256 f key_params of
                         Inl e \<Rightarrow> praise e
                       | Inr False \<Rightarrow> praise (Ctap E_UNSUPPORTED_ALGORITHM)
                       | Inr True \<Rightarrow>
                           (case or_default (PMap []) (dget (PInt 6) params) of
                              PMap extensions \<Rightarrow>
                                if (case dget (PText ''credProtect'') extensions of
                                      None \<Rightarrow> False
                                    | Some p \<Rightarrow> py_norm p \<notin> {PInt 1, PInt 2, PInt 3}) then praise (Ctap E_INVALID_OPTION)
                                else (case py_iter (or_default (PList []) (dget (PInt 5) params)) of
                                    None \<Rightarrow> praise Raised
                                  | Some entries \<Rightarrow> (\<lambda>a.
                                      if is_excluded rp (credentials (a_store a)) entries
                                      then pbind (verify_user w) (\<lambda>_. praise (Ctap E_CREDENTIAL_EXCLUDED)) a
                                      else create_credential f w cdh rp user_id rp_map user_map extensions options a))
                            | _ \<Rightarrow> praise Raised))
                 | _ \<Rightarrow> praise Raised)
           | _ \<Rightarrow> praise (Ctap E_INVALID_PARAMETER)))
      | _ \<Rightarrow> praise (Ctap E_MISSING_PARAMETER))"

section \<open>authenticatorGetAssertion\<close>

definition public_key :: "credential \<Rightarrow> pyval" where
  "public_key c = PMap [(PText ''type'', PText ''public-key''), (PText ''id'', PBytes (credential_id c))]"

definition silent_assertion :: "fido \<Rightarrow> ceremony \<Rightarrow> byte list \<Rightarrow> credential \<Rightarrow> pyval command" where
  "silent_assertion f w cdh c =
     (let data = auth_data f (sha256 f (rp_id c)) 0 (sign_count c) [] None in
      pbind (ks_sign w (key_ref c) (data @ cdh)) (\<lambda>sig.
      pret (PMap [(PInt 1, public_key c), (PInt 2, PBytes data), (PInt 3, PBytes sig)])))"

definition assert_credential :: "fido \<Rightarrow> ceremony \<Rightarrow> byte list \<Rightarrow> bool \<Rightarrow> nat \<Rightarrow> credential \<Rightarrow> pyval command" where
  "assert_credential f w cdh discoverable count c =
     pbind (on_credentials (increment_counter (credential_id c))) (\<lambda>n.
       (let data = auth_data f (sha256 f (rp_id c)) (FLAG_UP f OR FLAG_UV f) n [] None in
        pbind (ks_sign w (key_ref c) (data @ cdh)) (\<lambda>sig.
        pret (PMap ([(PInt 1, public_key c), (PInt 2, PBytes data), (PInt 3, PBytes sig)]
          @ (if discoverable
             then [(PInt 4, PMap ((PText ''id'', PBytes (user_handle c))
                # (if count > 1 then [(PText ''name'', user_name c), (PText ''displayName'', user_display_name c)] else [])))]
             else [])
          @ (if count > 1 then [(PInt 5, PInt (int count))] else []))))))"

fun assert_all :: "fido \<Rightarrow> ceremony \<Rightarrow> byte list \<Rightarrow> bool \<Rightarrow> nat \<Rightarrow> credential list \<Rightarrow> pyval list command" where
  "assert_all f w cdh discoverable count [] = pret []"
| "assert_all f w cdh discoverable count (c # cs) =
     pbind (assert_credential f w cdh discoverable count c) (\<lambda>r.
     pbind (assert_all f w cdh discoverable count cs) (\<lambda>rs. pret (r # rs)))"

definition answer_assertion ::
    "fido \<Rightarrow> ceremony \<Rightarrow> byte list \<Rightarrow> bool \<Rightarrow> bool \<Rightarrow> credential list \<Rightarrow> pyval command" where
  "answer_assertion f w cdh silent discoverable cs =
     (case cs of
        [] \<Rightarrow> praise (Ctap E_NO_CREDENTIALS)
      | c # _ \<Rightarrow>
          if silent then silent_assertion f w cdh c
          else pbind (verify_user w) (\<lambda>_.
               pbind (assert_all f w cdh discoverable (length cs) cs) (\<lambda>responses a.
                 (Inr (hd responses), a\<lparr>next_assertions := tl responses, next_time := now w\<rparr>))))"

definition get_assertion :: "fido \<Rightarrow> ceremony \<Rightarrow> (pyval \<times> pyval) list \<Rightarrow> pyval command" where
  "get_assertion f w params =
     (case (dget (PInt 1) params, dget (PInt 2) params) of
        (Some (PText rp), Some (PBytes cdh)) \<Rightarrow>
          pbind (check_pin_uv_auth_param (dget (PInt 6) params)) (\<lambda>_.
          (case (case dget (PInt 3) params of
                   None \<Rightarrow> Inr None
                 | Some v \<Rightarrow> (case py_iter v of
                       None \<Rightarrow> Inl Raised
                     | Some entries \<Rightarrow> Inr (Some (List.map_filter entry_id entries)))) of
             Inl e \<Rightarrow> praise e
           | Inr allow \<Rightarrow>
               (case or_default (PMap []) (dget (PInt 5) params) of
                  PMap options \<Rightarrow> (\<lambda>a.
                    answer_assertion f w cdh (dget (PText ''up'') options = Some (PBool False)) (allow = None)
                      (find_for_rp rp allow (credentials (a_store a))) a)
                | _ \<Rightarrow> praise Raised)))
      | _ \<Rightarrow> praise (Ctap E_MISSING_PARAMETER))"

text \<open>\<open>response.pop(5, None)\<close>\<close>

definition without_total :: "pyval \<Rightarrow> pyval" where
  "without_total r = (case r of PMap m \<Rightarrow> PMap (filter (\<lambda>kv. py_norm (fst kv) \<noteq> PInt 5) m) | v \<Rightarrow> v)"

definition get_next_assertion :: "ceremony \<Rightarrow> pyval command" where
  "get_next_assertion w a =
     (case next_assertions a of
        [] \<Rightarrow> (Inl (Ctap E_NOT_ALLOWED), a)
      | r # rs \<Rightarrow>
          if now w - next_time a > NEXT_ASSERTION_WINDOW then (Inl (Ctap E_NOT_ALLOWED), a\<lparr>next_assertions := []\<rparr>)
          else (Inr (without_total r), a\<lparr>next_assertions := rs, next_time := now w\<rparr>))"

section \<open>The other commands\<close>

definition get_info :: "fido \<Rightarrow> pyval" where
  "get_info f =
     PMap [(PInt 1, PList [PText ''FIDO_2_0'', PText ''FIDO_2_1'']),
           (PInt 2, PList [PText ''credProtect'']),
           (PInt 3, PBytes AAGUID),
           (PInt 4, PMap [(PText ''plat'', PBool False), (PText ''rk'', PBool True), (PText ''up'', PBool True),
                          (PText ''uv'', PBool True)]),
           (PInt 5, PInt 2048),
           (PInt 9, PList [PText ''usb'']),
           (PInt 10, PList [PMap [(PText ''alg'', PInt (ES256 f)), (PText ''type'', PText ''public-key'')]])]"

definition auth_reset :: "ceremony \<Rightarrow> unit command" where
  "auth_reset w a =
     (if now w - started a > RESET_WINDOW then (Inl (Ctap E_NOT_ALLOWED), a)
      else pbind (verify_user w) (\<lambda>_.
           pbind (on_credentials destroy_all) (\<lambda>_ b. (Inr (), b\<lparr>keys_emptied := keys_emptied b + 1\<rparr>))) a)"

definition auth_selection :: "ceremony \<Rightarrow> unit command" where
  "auth_selection w = verify_user w"

definition no_answer :: "unit command \<Rightarrow> pyval option command" where
  "no_answer m = pbind m (\<lambda>_. pret None)"

definition with_answer :: "pyval command \<Rightarrow> pyval option command" where
  "with_answer m = pbind m (\<lambda>r. pret (Some r))"

definition command_handler :: "fido \<Rightarrow> ceremony \<Rightarrow> byte \<Rightarrow> (pyval \<times> pyval) list \<Rightarrow> pyval option command option" where
  "command_handler f w cmd params =
     (if cmd = CMD_MAKE_CREDENTIAL then Some (with_answer (make_credential f w params))
      else if cmd = CMD_GET_ASSERTION then Some (with_answer (get_assertion f w params))
      else if cmd = CMD_GET_INFO then Some (with_answer (pret (get_info f)))
      else if cmd = CMD_RESET then Some (no_answer (auth_reset w))
      else if cmd = CMD_GET_NEXT_ASSERTION then Some (with_answer (get_next_assertion w))
      else if cmd = CMD_SELECTION then Some (no_answer (auth_selection w))
      else None)"

definition run_command :: "fido \<Rightarrow> ceremony \<Rightarrow> byte \<Rightarrow> (pyval \<times> pyval) list \<Rightarrow> auth \<Rightarrow> byte list \<times> auth" where
  "run_command f w cmd params a =
     (case command_handler f w cmd params of
        None \<Rightarrow> ([err_code f (if cmd = CMD_CLIENT_PIN then E_PIN_AUTH_INVALID else E_INVALID_COMMAND)], a)
      | Some h \<Rightarrow> (case h a of
            (Inl (Ctap e), a') \<Rightarrow> ([err_code f e], a')
          | (Inl Raised, a') \<Rightarrow> ([err_code f E_OTHER], a')
          | (Inr None, a') \<Rightarrow> ([err_code f E_SUCCESS], a')
          | (Inr (Some r), a') \<Rightarrow> (err_code f E_SUCCESS # cbor_encode f r, a')))"

definition handle_cbor :: "fido \<Rightarrow> ceremony \<Rightarrow> byte list \<Rightarrow> auth \<Rightarrow> byte list \<times> auth" where
  "handle_cbor f w request a =
     (case request of
        [] \<Rightarrow> ([err_code f E_INVALID_LENGTH], a)
      | [cmd] \<Rightarrow> run_command f w cmd [] a
      | cmd # body \<Rightarrow> (case cbor_decode f body of
            None \<Rightarrow> ([err_code f E_INVALID_CBOR], a)
          | Some (PMap params) \<Rightarrow> run_command f w cmd params a
          | Some _ \<Rightarrow> ([err_code f E_CBOR_UNEXPECTED_TYPE], a)))"

section \<open>Without the face\<close>

text \<open>A command that ends with an error and changes nothing.\<close>

definition refuses :: "'a command \<Rightarrow> bool" where
  "refuses m \<longleftrightarrow> (\<forall>a. \<exists>e. m a = (Inl e, a) \<and> e \<noteq> Ctap E_SUCCESS)"

named_theorems refuses_intros

lemma refuses_praise [refuses_intros]: "e \<noteq> Ctap E_SUCCESS \<Longrightarrow> refuses (praise e)"
  by (simp add: refuses_def)

lemma refuses_if [refuses_intros]: "refuses m \<Longrightarrow> refuses n \<Longrightarrow> refuses (if b then m else n)"
  by simp

lemma refuses_state_if [refuses_intros]: "refuses m \<Longrightarrow> refuses n \<Longrightarrow> refuses (\<lambda>a. if b a then m a else n a)"
  by (simp add: refuses_def)

lemma refuses_option [refuses_intros]: "refuses m \<Longrightarrow> (\<And>x. refuses (f x)) \<Longrightarrow> refuses (case_option m f v)"
  by (cases v) simp_all

lemma refuses_sum [refuses_intros]: "(\<And>x. v = Inl x \<Longrightarrow> refuses (f x)) \<Longrightarrow> (\<And>x. refuses (g x)) \<Longrightarrow> refuses (case_sum f g v)"
  by (cases v) simp_all

lemma refuses_bool [refuses_intros]: "refuses m \<Longrightarrow> refuses n \<Longrightarrow> refuses (case_bool m n v)"
  by (cases v) simp_all

lemma refuses_prod [refuses_intros]: "(\<And>x y. refuses (f x y)) \<Longrightarrow> refuses (case_prod f v)"
  by (cases v) simp

lemma refuses_pyval [refuses_intros]:
  "(\<And>x. refuses (f1 x)) \<Longrightarrow> (\<And>x. refuses (f2 x)) \<Longrightarrow> (\<And>x. refuses (f3 x)) \<Longrightarrow> (\<And>x. refuses (f4 x)) \<Longrightarrow>
   (\<And>x. refuses (f5 x)) \<Longrightarrow> (\<And>x. refuses (f6 x)) \<Longrightarrow> refuses (case_pyval f1 f2 f3 f4 f5 f6 v)"
  by (cases v) simp_all

lemma verification_error_fails [simp]: "verification_error r \<noteq> E_SUCCESS"
  by (simp add: verification_error_def)

lemma refuses_verify: "face w \<noteq> SUCCESS \<Longrightarrow> refuses (pbind (verify_user w) g)"
  by (simp add: refuses_def verify_user_def pbind_def)

lemma check_pin_cases:
  "check_pin_uv_auth_param v = pret () \<or> (\<exists>e. e \<noteq> Ctap E_SUCCESS \<and> check_pin_uv_auth_param v = praise e)"
  by (auto simp: check_pin_uv_auth_param_def split: option.split)

lemma refuses_check_pin [refuses_intros]: "refuses (g ()) \<Longrightarrow> refuses (pbind (check_pin_uv_auth_param v) g)"
  using check_pin_cases [of v] by (auto simp: refuses_def pbind_def)

lemma offers_es256_error: "offers_es256 f ps = Inl e \<Longrightarrow> e = Raised"
  by (induction f ps rule: offers_es256.induct) (auto split: if_splits)

lemma refuses_make_credential: "face w \<noteq> SUCCESS \<Longrightarrow> refuses (make_credential f w params)"
  unfolding make_credential_def create_credential_def
  by (intro refuses_intros refuses_verify) (auto dest: offers_es256_error)

lemma refuses_reset: "face w \<noteq> SUCCESS \<Longrightarrow> refuses (auth_reset w)"
  using refuses_verify [of w] by (auto simp: auth_reset_def refuses_def)

lemma refuses_selection: "face w \<noteq> SUCCESS \<Longrightarrow> refuses (auth_selection w)"
  by (simp add: auth_selection_def verify_user_def refuses_def)

text \<open>
  What may happen without a successful face check: pending assertions are handed out or dropped,
  and messages are signed that claim neither presence nor verification.
\<close>

definition unverified :: "fido \<Rightarrow> auth \<Rightarrow> auth \<Rightarrow> bool" where
  "unverified f a a' \<longleftrightarrow>
     a_store a' = a_store a \<and> keys_emptied a' = keys_emptied a \<and>
     (\<exists>n. next_assertions a' = drop n (next_assertions a)) \<and>
     (\<exists>calls. keystore_calls a' = keystore_calls a @ calls \<and> Generates \<notin> set calls) \<and>
    (\<exists>new. signatures a' = signatures a @ new \<and>
        (\<forall>(key, message) \<in> set new. \<exists>rp n cdh. message = auth_data f (sha256 f rp) 0 n [] None @ cdh))"

lemma unverified_refl [simp]: "unverified f a a"
  unfolding unverified_def by (auto intro: exI [of _ 0])

lemma unverified_refuses: "refuses m \<Longrightarrow> unverified f a (snd (m a))"
  by (metis refuses_def snd_conv unverified_refl)

lemma unverified_silent: "unverified f a (snd (silent_assertion f w cdh c a))"
  by (auto simp: silent_assertion_def Let_def ks_sign_def pbind_def unverified_def intro: exI [of _ 0] split: option.split)

lemma unverified_next: "unverified f a (snd (get_next_assertion w a))"
  unfolding get_next_assertion_def unverified_def
  by (auto split: list.split intro: exI [of _ 0] exI [of _ 1] exI [of _ "length (next_assertions a)"])

lemma unverified_check_pin:
  "(\<And>b. unverified f b (snd (g () b))) \<Longrightarrow> unverified f a (snd (pbind (check_pin_uv_auth_param v) g a))"
  using check_pin_cases [of v] by (auto simp: pbind_def)

lemma unverified_answer: "face w \<noteq> SUCCESS \<Longrightarrow> unverified f a (snd (answer_assertion f w cdh silent d cs a))"
  unfolding answer_assertion_def
  by (auto split: list.split simp: unverified_silent intro: unverified_refuses refuses_verify)

lemma unverified_get_assertion: "face w \<noteq> SUCCESS \<Longrightarrow> unverified f a (snd (get_assertion f w params a))"
  unfolding get_assertion_def
  by (auto split: option.split pyval.split sum.split simp: unverified_answer intro!: unverified_check_pin)

lemma unverified_command: "face w \<noteq> SUCCESS \<Longrightarrow> unverified f a (snd (run_command f w cmd params a))"
proof -
  assume "face w \<noteq> SUCCESS"
  then have "unverified f a (snd (h a))" if "command_handler f w cmd params = Some h" for h
    using that unverified_get_assertion [of w f a params] unverified_next [of f a w]
      unverified_refuses [OF refuses_make_credential, of w f a f params]
      unverified_refuses [OF refuses_reset, of w f a] unverified_refuses [OF refuses_selection, of w f a]
    by (auto simp: command_handler_def with_answer_def no_answer_def pbind_def split: if_splits prod.split sum.split)
  then show ?thesis
    by (auto simp: run_command_def split: option.split prod.split sum.split auth_error.split)
qed

lemma refuses_pbind: "refuses m \<Longrightarrow> refuses (pbind m g)"
  unfolding refuses_def using pbind_Inl by fast

lemma refuses_answers: "refuses m \<Longrightarrow> refuses (with_answer m)" "refuses n \<Longrightarrow> refuses (no_answer n)"
  by (simp_all add: with_answer_def no_answer_def refuses_pbind)

lemma handle_cbor_cases:
  "(\<exists>e. e \<noteq> E_SUCCESS \<and> handle_cbor f w request a = ([err_code f e], a)) \<or>
   (\<exists>params. request \<noteq> [] \<and> handle_cbor f w request a = run_command f w (hd request) params a)"
  unfolding handle_cbor_def by (auto split: list.split option.split pyval.split)

lemma gated_commands:
  assumes "face w \<noteq> SUCCESS" and "cmd \<in> {CMD_MAKE_CREDENTIAL, CMD_RESET, CMD_SELECTION}"
  shows "\<exists>e. e \<noteq> E_SUCCESS \<and> run_command f w cmd params a = ([err_code f e], a)"
proof -
  obtain h :: "pyval option command" where h: "command_handler f w cmd params = Some h" and "refuses h"
  proof -
    show thesis
      using that assms(2) refuses_answers refuses_make_credential [OF assms(1)] refuses_reset [OF assms(1)] refuses_selection [OF assms(1)]
      by (auto simp: command_handler_def CMD_MAKE_CREDENTIAL_def CMD_RESET_def CMD_SELECTION_def CMD_GET_ASSERTION_def
          CMD_GET_INFO_def CMD_GET_NEXT_ASSERTION_def)
  qed
  then obtain e where "h a = (Inl e, a)" "e \<noteq> Ctap E_SUCCESS"
    unfolding refuses_def by blast
  with h show ?thesis
    by (cases e) (auto simp: run_command_def)
qed

text \<open>
  C4. The face is the gate: as long as the face check does not succeed, no request of any kind creates,
  changes or destroys a key or a credential, advances a counter or empties the keystore; every message signed
  meanwhile carries neither the presence nor the verification flag; no assertion is queued; and
  registering, resetting and selecting end with an error.
\<close>

theorem face_gates_passkeys:
  assumes "face w \<noteq> SUCCESS" and "handle_cbor f w request a = (response, a')"
  shows "a_store a' = a_store a \<and> keys_emptied a' = keys_emptied a \<and>
    (\<exists>n. next_assertions a' = drop n (next_assertions a)) \<and>
    (\<exists>calls. keystore_calls a' = keystore_calls a @ calls \<and> Generates \<notin> set calls) \<and>
    (\<exists>new. signatures a' = signatures a @ new \<and>
       (\<forall>(key, message) \<in> set new. \<exists>rp n cdh. message = auth_data f (sha256 f rp) 0 n [] None @ cdh)) \<and>
    (request \<noteq> [] \<and> hd request \<in> {CMD_MAKE_CREDENTIAL, CMD_RESET, CMD_SELECTION} \<longrightarrow>
       (\<exists>e. e \<noteq> E_SUCCESS \<and> response = [err_code f e]))"
proof -
  consider (fixed) e where "handle_cbor f w request a = ([err_code f e], a)" "e \<noteq> E_SUCCESS"
    | (run) params where "request \<noteq> []" "handle_cbor f w request a = run_command f w (hd request) params a"
    using handle_cbor_cases [of f w request a] by blast
  then show ?thesis
  proof cases
    case fixed
    then show ?thesis
      using assms(2) unverified_refl [of f a] unfolding unverified_def by auto
  next
    case run
    then have r: "run_command f w (hd request) params a = (response, a')"
      using assms(2) by simp
    then have "unverified f a a'"
      using unverified_command [OF assms(1), of f a "hd request" params] by simp
    then show ?thesis
      using gated_commands [OF assms(1), of "hd request" f params a] run r unfolding unverified_def by auto
  qed
qed

text \<open>
  A library instance: the body of a request is one byte that selects a request, authenticator
  data is its flags and counter.
\<close>

definition sample_requests :: "byte list \<Rightarrow> pyval option" where
  "sample_requests body =
     (if body = [1] then Some (PMap [(PInt 1, PText ''example.org''), (PInt 2, PBytes [42]), (PInt 5, PMap [(PText ''up'', PBool False)])])
      else if body = [2] then Some (PMap [(PInt 1, PText ''example.org''), (PInt 2, PBytes [42])])
      else None)"

definition sample_fido :: fido where
  "sample_fido = \<lparr>err_code = (\<lambda>e. if e = E_SUCCESS then 0 else 0x27), cbor_decode = sample_requests, cbor_encode = (\<lambda>v. []),
     sha256 = (\<lambda>s. []), ES256 = - 7, FLAG_UP = 1, FLAG_UV = 4, FLAG_AT = 64, FLAG_ED = 128,
     attested_data = (\<lambda>g i k. i), auth_data = (\<lambda>h fl n cred ext. [of_nat fl, of_int n] @ cred)\<rparr>"

definition sample_ceremony :: "vresult \<Rightarrow> ceremony" where
  "sample_ceremony r = \<lparr>face = r, now = 100, wall = 0, fresh_key = Some (''k2'', PInt 0), fresh_id = [5],
     sign_with = (\<lambda>key message. Some [99])\<rparr>"

definition sample_auth :: auth where
  "sample_auth = \<lparr>a_store = sample_cstore, started = 0, next_assertions = [], next_time = 0, signatures = [], keystore_calls = [], keys_emptied = 0\<rparr>"

lemma sample_credentials: "credentials sample_cstore = [sample_credential]"
  by code_simp

lemma sample_silent:
  "signatures (snd (handle_cbor sample_fido (sample_ceremony TIMEOUT_REACHED) [CMD_GET_ASSERTION, 1] sample_auth)) =
    [(''k1'', [0, 3, 42])]"
  by (simp add: handle_cbor_def run_command_def command_handler_def sample_fido_def sample_requests_def CMD_MAKE_CREDENTIAL_def
      CMD_GET_ASSERTION_def with_answer_def get_assertion_def dget_def check_pin_uv_auth_param_def pbind_def or_default_def
      sample_auth_def sample_credentials find_for_rp_def sample_credential_def answer_assertion_def silent_assertion_def
      ks_sign_def sample_ceremony_def)

theorem face_gates_passkeys_witness:
  "signatures (snd (handle_cbor sample_fido (sample_ceremony TIMEOUT_REACHED) [CMD_GET_ASSERTION, 1] sample_auth)) =
     [(''k1'', [0, 3, 42])] \<and>
   a_store (snd (handle_cbor sample_fido (sample_ceremony TIMEOUT_REACHED) [CMD_GET_ASSERTION, 1] sample_auth)) = sample_cstore \<and>
   (\<exists>e. e \<noteq> E_SUCCESS \<and>
      fst (handle_cbor sample_fido (sample_ceremony TIMEOUT_REACHED) [CMD_SELECTION] sample_auth) = [err_code sample_fido e])"
proof -
  let ?w = "sample_ceremony TIMEOUT_REACHED"
  have f: "face ?w \<noteq> SUCCESS"
    by (simp add: sample_ceremony_def)
  obtain r1 a1 r2 a2 where h: "handle_cbor sample_fido ?w [CMD_GET_ASSERTION, 1] sample_auth = (r1, a1)"
      "handle_cbor sample_fido ?w [CMD_SELECTION] sample_auth = (r2, a2)"
    by fastforce
  have "a_store a1 = sample_cstore"
    using face_gates_passkeys [OF f h(1)] by (simp add: sample_auth_def)
  moreover have "\<exists>e. e \<noteq> E_SUCCESS \<and> r2 = [err_code sample_fido e]"
    using face_gates_passkeys [OF f h(2)] by simp
  ultimately show ?thesis
    using sample_silent unfolding h fst_conv snd_conv by blast
qed

lemma insort_key_map: "insort_key f (g x) (map g xs) = map g (insort_key (\<lambda>y. f (g y)) x xs)"
  by (induction xs) auto

lemma sort_key_map: "sort_key f (map g xs) = map g (sort_key (\<lambda>y. f (g y)) xs)"
  by (induction xs) (simp_all add: insort_key_map)

text \<open>
  A silent request ignores the protection level a credential was made with: whatever
  \<open>credProtect\<close> a resident credential has, level 3 (use only after verification) included, a
  request without user presence and without naming it finds the newest one and gets
  its id and a signature, without a face check.
\<close>

theorem silent_ignores_cred_protect:
  assumes "dget (PInt 1) params = Some (PText rp)" and "dget (PInt 2) params = Some (PBytes cdh)"
    and "dget (PInt 3) params = None" and "dget (PInt 6) params = None"
    and "dget (PInt 5) params = Some (PMap options)" and "dget (PText ''up'') options = Some (PBool False)"
    and "find_for_rp rp None (credentials (a_store a)) = c # cs" and "sign_with w (key_ref c) = (\<lambda>m. Some (sig m))"
  shows "\<exists>data sg. fst (get_assertion f w params a) = Inr (PMap [(PInt 1, public_key c), (PInt 2, PBytes data), (PInt 3, PBytes sg)])
    \<and> (\<forall>p. find_for_rp rp None (map (\<lambda>d. d\<lparr>cred_protect := p\<rparr>) (credentials (a_store a)))
         = map (\<lambda>d. d\<lparr>cred_protect := p\<rparr>) (c # cs))"
proof -
  have "options \<noteq> []"
    using assms(6) by (auto simp: dget_def)
  then have "fst (get_assertion f w params a) = Inr (PMap [(PInt 1, public_key c),
      (PInt 2, PBytes (auth_data f (sha256 f (rp_id c)) 0 (sign_count c) [] None)),
      (PInt 3, PBytes (sig (auth_data f (sha256 f (rp_id c)) 0 (sign_count c) [] None @ cdh)))])"
    using assms
    by (simp add: get_assertion_def check_pin_uv_auth_param_def pbind_def or_default_def answer_assertion_def
        silent_assertion_def ks_sign_def Let_def)
  moreover have "find_for_rp rp None (map (\<lambda>d. d\<lparr>cred_protect := p\<rparr>) l) = map (\<lambda>d. d\<lparr>cred_protect := p\<rparr>) (find_for_rp rp None l)"
    for p and l :: "credential list"
    by (simp add: find_for_rp_def filter_map comp_def sort_key_map)
  ultimately show ?thesis
    using assms(7) by auto
qed

theorem silent_ignores_cred_protect_witness:
  "\<exists>data sg. fst (get_assertion sample_fido (sample_ceremony TIMEOUT_REACHED)
      [(PInt 1, PText ''example.org''), (PInt 2, PBytes [42]), (PInt 5, PMap [(PText ''up'', PBool False)])]
      (sample_auth\<lparr>a_store := sample_cstore\<lparr>credentials := [sample_credential\<lparr>cred_protect := PInt 3\<rparr>]\<rparr>\<rparr>))
    = Inr (PMap [(PInt 1, public_key (sample_credential\<lparr>cred_protect := PInt 3\<rparr>)), (PInt 2, PBytes data), (PInt 3, PBytes sg)])"
proof -
  let ?c = "sample_credential\<lparr>cred_protect := PInt 3\<rparr>"
  let ?a = "sample_auth\<lparr>a_store := sample_cstore\<lparr>credentials := [?c]\<rparr>\<rparr>"
  have "find_for_rp ''example.org'' None (credentials (a_store ?a)) = ?c # []"
    by (simp add: find_for_rp_def sample_credential_def)
  then show ?thesis
    using silent_ignores_cred_protect [of "[(PInt 1, PText ''example.org''), (PInt 2, PBytes [42]), (PInt 5, PMap [(PText ''up'', PBool False)])]"
        "''example.org''" "[42]" "[(PText ''up'', PBool False)]" ?a ?c "[]" "sample_ceremony TIMEOUT_REACHED" "\<lambda>m. [99]" sample_fido]
    by (simp add: dget_def sample_ceremony_def)
qed

section \<open>Registering and signing in\<close>

lemma save_flags: "write_ok (snd (cs_save s)) = write_ok s" "credentials (snd (cs_save s)) = credentials s"
  by (simp_all add: cs_save_def split: option.split)

lemma increment_write_ok: "store_ok s \<Longrightarrow> write_ok (snd (increment_counter i s)) = write_ok s"
proof -
  assume ok: "store_ok s"
  then obtain cs where cs: "stored s = Some cs"
    by (auto simp: store_ok_def)
  show ?thesis
    using save_flags(1) [of "s\<lparr>credentials := bump i cs\<rparr>"]
    by (auto simp: increment_counter_def locked_load [OF store_ok_lock [OF ok] cs] pbind_def
        split: option.split prod.splits sum.split)
qed

lemma bump_ids: "credential_id ` set (bump i cs) = credential_id ` set cs"
  by (induction cs) auto

lemma find_by_id_None: "find_by_id i cs = None \<longleftrightarrow> i \<notin> credential_id ` set cs"
  by (auto simp: find_by_id_def find_None_iff)

lemma increment_succeeds:
  assumes "store_ok s" and "write_ok s" and "stored s = Some cs" and "i \<in> credential_id ` set cs"
  shows "\<exists>n s' cs'. increment_counter i s = (Inr n, s') \<and> store_ok s' \<and> write_ok s' \<and>
    stored s' = Some cs' \<and> credential_id ` set cs' = credential_id ` set cs"
proof -
  obtain c where c: "find_by_id i cs = Some c"
    using assms(4) find_by_id_None [of i cs] by auto
  obtain r s' where t: "increment_counter i s = (r, s')"
    by fastforce
  note ref = refines_count [OF assms(1,3), of i, unfolded refines_def]
  have spec: "store_spec (Count i) cs = Some (Counted (sign_count c + 1), bump i cs)"
    by (simp add: c)
  then have "fst (store_run (Count i) s) = Inr (Counted (sign_count c + 1))"
    using ref assms(2) by blast
  then obtain n where n: "r = Inr n"
    using t by (cases r) (simp_all add: pbind_def)
  then have run: "store_run (Count i) s = (Inr (Counted n), s')"
    using t by (simp add: pbind_def)
  then have "store_ok s'"
    using ref by simp
  moreover obtain cs' where "store_spec (Count i) cs = Some (Counted n, cs')" "stored s' = Some cs'"
    using ref run by (metis fst_conv snd_conv)
  then have st: "stored s' = Some (bump i cs)"
    using spec by auto
  moreover have "write_ok s'"
    using increment_write_ok [OF assms(1), of i] t assms(2) by simp
  ultimately show ?thesis
    using t n st bump_ids [of i cs] by auto
qed

lemma assert_all_succeeds:
  assumes "store_ok (a_store a)" and "write_ok (a_store a)" and "stored (a_store a) = Some l"
    and "credential_id ` set cs \<subseteq> credential_id ` set l" and "\<forall>c \<in> set cs. \<forall>m. sign_with w (key_ref c) m \<noteq> None"
  shows "\<exists>rs a'. assert_all f w cdh d n cs a = (Inr rs, a') \<and> length rs = length cs"
  using assms
proof (induction cs arbitrary: a l)
  case (Cons c cs)
  obtain v s' l' where inc: "increment_counter (credential_id c) (a_store a) = (Inr v, s')" "store_ok s'" "write_ok s'"
      "stored s' = Some l'" "credential_id ` set l' = credential_id ` set l"
    using increment_succeeds [OF Cons.prems(1-3), of "credential_id c"] Cons.prems(4) by auto
  let ?data = "auth_data f (sha256 f (rp_id c)) (FLAG_UP f OR FLAG_UV f) v [] None"
  obtain sg where "sign_with w (key_ref c) (?data @ cdh) = Some sg"
    using Cons.prems(5) by (meson list.set_intros(1) not_Some_eq)
  then obtain r where r: "assert_credential f w cdh d n c a =
      (Inr r, a\<lparr>a_store := s', signatures := signatures a @ [(key_ref c, ?data @ cdh)],
      keystore_calls := keystore_calls a @ [Signs (key_ref c) (?data @ cdh)]\<rparr>)"
    using inc(1) by (simp add: assert_credential_def on_credentials_def ks_sign_def pbind_def Let_def)
  obtain rs a' where "assert_all f w cdh d n cs (a\<lparr>a_store := s', signatures := signatures a @ [(key_ref c, ?data @ cdh)],
      keystore_calls := keystore_calls a @ [Signs (key_ref c) (?data @ cdh)]\<rparr>) = (Inr rs, a')"
      "length rs = length cs"
    using Cons.IH [of "a\<lparr>a_store := s', signatures := signatures a @ [(key_ref c, ?data @ cdh)],
      keystore_calls := keystore_calls a @ [Signs (key_ref c) (?data @ cdh)]\<rparr>" l'] inc Cons.prems(4,5) by auto
  with r show ?case
    by (simp add: pbind_def)
qed simp

text \<open>Where a successful command ended: every way through it that returns.\<close>

definition leads :: "'a command \<Rightarrow> (auth \<Rightarrow> 'a \<Rightarrow> auth \<Rightarrow> bool) \<Rightarrow> bool" where
  "leads m P \<longleftrightarrow> (\<forall>a r a'. m a = (Inr r, a') \<longrightarrow> P a r a')"

named_theorems leads_intros

lemma leads_praise [leads_intros]: "leads (praise e) P"
  by (simp add: leads_def)

lemma leads_if [leads_intros]: "(b \<Longrightarrow> leads m P) \<Longrightarrow> (\<not> b \<Longrightarrow> leads n P) \<Longrightarrow> leads (if b then m else n) P"
  by simp

lemma leads_state_if [leads_intros]:
  "leads (\<lambda>a. m a) P \<Longrightarrow> leads (\<lambda>a. n a) P \<Longrightarrow> leads (\<lambda>a. if b a then m a else n a) P"
  by (simp add: leads_def)

lemma leads_option [leads_intros]:
  "(v = None \<Longrightarrow> leads m P) \<Longrightarrow> (\<And>x. v = Some x \<Longrightarrow> leads (f x) P) \<Longrightarrow> leads (case_option m f v) P"
  by (cases v) simp_all

lemma leads_sum [leads_intros]:
  "(\<And>x. v = Inl x \<Longrightarrow> leads (f x) P) \<Longrightarrow> (\<And>x. v = Inr x \<Longrightarrow> leads (g x) P) \<Longrightarrow> leads (case_sum f g v) P"
  by (cases v) simp_all

lemma leads_bool [leads_intros]: "(v \<Longrightarrow> leads m P) \<Longrightarrow> (\<not> v \<Longrightarrow> leads n P) \<Longrightarrow> leads (case_bool m n v) P"
  by (cases v) simp_all

lemma leads_prod [leads_intros]: "(\<And>x y. v = (x, y) \<Longrightarrow> leads (f x y) P) \<Longrightarrow> leads (case_prod f v) P"
  by (cases v) simp

lemma leads_pyval [leads_intros]:
  "(\<And>x. v = PInt x \<Longrightarrow> leads (f1 x) P) \<Longrightarrow> (\<And>x. v = PBool x \<Longrightarrow> leads (f2 x) P) \<Longrightarrow>
   (\<And>x. v = PText x \<Longrightarrow> leads (f3 x) P) \<Longrightarrow> (\<And>x. v = PBytes x \<Longrightarrow> leads (f4 x) P) \<Longrightarrow>
   (\<And>x. v = PList x \<Longrightarrow> leads (f5 x) P) \<Longrightarrow> (\<And>x. v = PMap x \<Longrightarrow> leads (f6 x) P) \<Longrightarrow>
   leads (case_pyval f1 f2 f3 f4 f5 f6 v) P"
  by (cases v) simp_all

lemma leads_check_pin [leads_intros]: "leads (g ()) P \<Longrightarrow> leads (pbind (check_pin_uv_auth_param v) g) P"
  using check_pin_cases [of v] by (auto simp: leads_def pbind_def)

lemma leads_excluded [leads_intros]: "leads (pbind (verify_user w) (\<lambda>_. praise e)) P"
  by (simp add: leads_def pbind_def verify_user_def)

lemma make_credential_leads:
  "leads (make_credential f w params) (\<lambda>a r a'. \<exists>cdh rp_map user_map rp user_id extensions options.
     dget (PInt 2) params = Some (PMap rp_map) \<and> dget (PText ''id'') rp_map = Some (PText rp) \<and>
     or_default (PMap []) (dget (PInt 7) params) = PMap options \<and>
     create_credential f w cdh rp user_id rp_map user_map extensions options a = (Inr r, a'))"
  unfolding make_credential_def
  apply (intro leads_intros)
  apply (simp_all add: leads_def)
  apply blast
  done

lemma json_forms_ids:
  "those (map json_form xs) = Some l \<Longrightarrow> credential_id ` set l = credential_id ` set xs"
proof (induction xs arbitrary: l)
  case (Cons x xs)
  then obtain y ys where "json_form x = Some y" "those (map json_form xs) = Some ys" "l = y # ys"
    by (auto split: option.splits)
  with Cons.IH show ?case
    by (simp add: json_form_fields(1))
qed simp

lemma add_result:
  assumes "store_ok s" and "cs_add c s = (Inr (), s')"
  shows "store_ok s' \<and> write_ok s' \<and> c \<in> set (credentials s') \<and>
    (\<exists>l. stored s' = Some l \<and> credential_id ` set (credentials s') = credential_id ` set l)"
proof -
  obtain cs where cs: "stored s = Some cs"
    using assms(1) by (auto simp: store_ok_def)
  let ?t = "s\<lparr>credentials := filter (\<lambda>d. \<not> (rp_id d = rp_id c \<and> user_handle d = user_handle c)) cs @ [c]\<rparr>"
  have save: "cs_save ?t = (Inr (), s')"
    using assms(2) by (simp add: cs_add_def locked_load [OF store_ok_lock [OF assms(1)] cs])
  have "disk ?t = disk s" and "lock_ok ?t = lock_ok s"
    by simp_all
  note ref = save_refines [OF assms(1) this, unfolded save fst_conv snd_conv]
  have "write_ok ?t" and "those (map json_form (credentials ?t)) \<noteq> None"
    using ref(4) by simp_all
  then obtain l where l: "those (map json_form (credentials ?t)) = Some l"
    by blast
  have "write_ok s' = write_ok ?t" and "credentials s' = credentials ?t"
    using save_flags [of ?t] unfolding save by simp_all
  then show ?thesis
    using ref(1,2) l json_forms_ids [OF l] \<open>write_ok ?t\<close> by simp
qed

lemma create_credential_Inr:
  assumes "create_credential f w cdh rp user_id rp_map user_map extensions options a = (Inr r, a')"
  shows "face w = SUCCESS \<and> (\<exists>ref cose.
    cs_add (new_credential f w rp user_id rp_map user_map extensions options ref cose) (a_store a) = (Inr (), a_store a'))"
  using assms unfolding create_credential_def verify_user_def pbind_def on_credentials_def ks_sign_def ks_generate_def Let_def
  by (auto split: if_splits option.splits prod.splits sum.splits) blast

text \<open>
  A passkey that was registered can be used: when registering succeeded with the option to be
  found by site alone, signing in to that site without naming a credential succeeds, given a
  successful face check and a keystore that signs.
\<close>

theorem registered_signs_in:
  assumes "store_ok (a_store a)" and "make_credential f w params a = (Inr r, a1)"
    and "dget (PInt 2) params = Some (PMap rp_map)" and "dget (PText ''id'') rp_map = Some (PText rp)"
    and "dget (PInt 7) params = Some (PMap options)" and "dget (PText ''rk'') options = Some (PBool True)"
    and "dget (PInt 1) query = Some (PText rp)" and "dget (PInt 2) query = Some (PBytes cdh)"
    and "dget (PInt 3) query = None" and "dget (PInt 5) query = None" and "dget (PInt 6) query = None"
    and "face w' = SUCCESS" and "\<forall>k m. sign_with w' k m \<noteq> None"
  shows "face w = SUCCESS \<and> (\<exists>r' a2. get_assertion f w' query a1 = (Inr r', a2))"
proof -
  have opt: "or_default (PMap []) (dget (PInt 7) params) = PMap options"
    using assms(5,6) by (auto simp: or_default_def dget_def)
  obtain cdh' user_map user_id extensions where
      "create_credential f w cdh' rp user_id rp_map user_map extensions options a = (Inr r, a1)"
    using make_credential_leads [of f w params] assms(2-4) opt unfolding leads_def by force
  note create = create_credential_Inr [OF this]
  then obtain ref cose where "cs_add (new_credential f w rp user_id rp_map user_map extensions options ref cose) (a_store a)
      = (Inr (), a_store a1)"
    by blast
  moreover define c where "c = new_credential f w rp user_id rp_map user_map extensions options ref cose"
  moreover define s where "s = a_store a1"
  ultimately have c: "face w = SUCCESS" "rp_id c = rp" "resident c" "cs_add c (a_store a) = (Inr (), s)" "a_store a1 = s"
    using create assms(6) by (simp_all add: new_credential_def)
  obtain l where s: "store_ok s" "write_ok s" "c \<in> set (credentials s)" "stored s = Some l"
      "credential_id ` set (credentials s) = credential_id ` set l"
    using add_result [OF assms(1) c(4)] by blast
  let ?found = "find_for_rp rp None (credentials s)"
  have "c \<in> set ?found" and sub: "credential_id ` set ?found \<subseteq> credential_id ` set l"
    using s(3,5) c(2,3) by (auto simp: find_for_rp_def)
  then obtain d ds where found: "?found = d # ds"
    by (cases ?found) auto
  obtain rs a' where "assert_all f w' cdh True (length ?found) ?found a1 = (Inr rs, a')"
    using assert_all_succeeds [of a1 l ?found w'] s sub assms(13) c(5) by blast
  then have "get_assertion f w' query a1 = (Inr (hd rs), a'\<lparr>next_assertions := tl rs, next_time := now w'\<rparr>)"
    using assms(7-12) found c(5)
    by (simp add: get_assertion_def check_pin_uv_auth_param_def pbind_def or_default_def answer_assertion_def
        verify_user_def dget_def)
  then show ?thesis
    using c(1) by blast
qed

definition sample_registration :: "(pyval \<times> pyval) list" where
  "sample_registration =
     [(PInt 1, PBytes [42]), (PInt 2, PMap [(PText ''id'', PText ''site.test'')]), (PInt 3, PMap [(PText ''id'', PBytes [8])]),
      (PInt 4, PList [PMap [(PText ''type'', PText ''public-key''), (PText ''alg'', PInt (- 7))]]),
      (PInt 7, PMap [(PText ''rk'', PBool True)])]"

lemma sample_registered: "\<exists>r a1. make_credential sample_fido (sample_ceremony SUCCESS) sample_registration sample_auth = (Inr r, a1)"
proof -
  let ?c = "new_credential sample_fido (sample_ceremony SUCCESS) ''site.test'' [8] [(PText ''id'', PText ''site.test'')]
      [(PText ''id'', PBytes [8])] [] [(PText ''rk'', PBool True)] ''k2'' (PInt 0)"
  obtain r s where add: "cs_add ?c sample_cstore = (r, s)"
    by fastforce
  have "json_form ?c \<noteq> None"
    by (simp add: json_form_eq new_credential_def or_default_def dget_def cred_protect_of_def)
  moreover have "write_ok sample_cstore"
    by code_simp
  ultimately have "fst (store_run (Add ?c) sample_cstore) = Inr Unit"
    using refines_add [OF sample_store_ok sample_stored, of ?c, unfolded refines_def] by auto
  then have "r = Inr ()"
    using add by (cases r) (simp_all add: pbind_def)
  with add show ?thesis
    by (simp add: make_credential_def sample_registration_def sample_fido_def dget_def check_pin_uv_auth_param_def pbind_def
        or_default_def is_excluded_def create_credential_def verify_user_def sample_ceremony_def on_credentials_def
        sample_auth_def ks_sign_def ks_generate_def Let_def)
qed

theorem registered_signs_in_witness:
  "\<exists>r a1 r' a2. make_credential sample_fido (sample_ceremony SUCCESS) sample_registration sample_auth = (Inr r, a1) \<and>
    get_assertion sample_fido (sample_ceremony SUCCESS) [(PInt 1, PText ''site.test''), (PInt 2, PBytes [42])] a1 = (Inr r', a2)"
proof -
  obtain r a1 where reg: "make_credential sample_fido (sample_ceremony SUCCESS) sample_registration sample_auth = (Inr r, a1)"
    using sample_registered by blast
  have "store_ok (a_store sample_auth)"
    by (simp add: sample_auth_def sample_store_ok)
  from registered_signs_in [OF this reg, of "[(PText ''id'', PText ''site.test'')]" "''site.test''" "[(PText ''rk'', PBool True)]"
      "[(PInt 1, PText ''site.test''), (PInt 2, PBytes [42])]" "[42]" "sample_ceremony SUCCESS"]
  show ?thesis
    using reg by (auto simp: sample_registration_def dget_def sample_ceremony_def)
qed

end
