(* ===== verification/Passkey_Service.thy ===== *)
theory Passkey_Service
  imports Ctaphid Authenticator
begin

text \<open>
  \<^verbatim>\<open>webauthn/uhid.py\<close> and \<^verbatim>\<open>webauthn/service.py\<close>: the virtual HID device in the kernel and
  the loop that feeds its reports to the CTAPHID transport.

  An event is the byte string read from or written to the device file. What loginctl prints is
  a parameter, \<open>None\<close> where it cannot be run or does not end in time. The loop ends when the
  device is closed (a read fails) or with an exception of the transport.
\<close>

section \<open>uhid.py\<close>

definition UHID_DESTROY :: nat where "UHID_DESTROY = 1"
definition UHID_OUTPUT :: nat where "UHID_OUTPUT = 6"
definition UHID_CREATE2 :: nat where "UHID_CREATE2 = 11"
definition UHID_INPUT2 :: nat where "UHID_INPUT2 = 12"

definition FIDO_REPORT_DESCRIPTOR :: "byte list" where
  "FIDO_REPORT_DESCRIPTOR =
     [0x06, 0xD0, 0xF1, 0x09, 0x01, 0xA1, 0x01, 0x09, 0x20, 0x15, 0x00, 0x26, 0xFF, 0x00, 0x75, 0x08, 0x95, 0x40,
      0x81, 0x02, 0x09, 0x21, 0x15, 0x00, 0x26, 0xFF, 0x00, 0x75, 0x08, 0x95, 0x40, 0x91, 0x02, 0xC0]"

definition pad :: "nat \<Rightarrow> byte list \<Rightarrow> byte list" where
  "pad n b = b @ replicate (n - length b) 0"

definition uhid_event :: "nat \<Rightarrow> byte list \<Rightarrow> byte list" where
  "uhid_event type payload = to_le 4 type @ payload"

definition create_event :: "byte list \<Rightarrow> nat \<Rightarrow> nat \<Rightarrow> byte list" where
  "create_event name vendor product =
     uhid_event UHID_CREATE2
       (pad 128 (take 127 name) @ replicate 64 0 @ replicate 64 0
        @ to_le 2 (length FIDO_REPORT_DESCRIPTOR) @ to_le 2 3 @ to_le 4 vendor @ to_le 4 product @ to_le 4 0 @ to_le 4 0
        @ pad 4096 FIDO_REPORT_DESCRIPTOR)"

definition send_input :: "byte list \<Rightarrow> byte list" where
  "send_input report =
     (let r = pad HID_REPORT_SIZE (take HID_REPORT_SIZE report) in uhid_event UHID_INPUT2 (to_le 2 (length r) @ r))"

definition read_event :: "byte list \<Rightarrow> nat option \<times> byte list option" where
  "read_event data =
     (if length data < 4 then (None, None)
      else
        let type = from_le (take 4 data) in
        if type = UHID_OUTPUT then
          (let body = drop 4 data in
           if length body < 4098 then (Some type, None)
           else
             let size = from_le (take 2 (drop 4096 body)) in
             if size > 4096 then (Some type, None)
             else
               let report = take size body in
               (Some type, Some (if report \<noteq> [] \<and> hd report = 0 then tl report else report)))
        else (Some type, None))"

section \<open>service.py\<close>

text \<open>\<open>dict(part.split("=", 1) for part in \<dots>.split() if "=" in part)\<close>, looked up.\<close>

definition session_field :: "string \<Rightarrow> string \<Rightarrow> string option" where
  "session_field name props =
     map_of (rev (map (\<lambda>part. (takeWhile (\<lambda>c. c \<noteq> CHR ''='') part, tl (dropWhile (\<lambda>c. c \<noteq> CHR ''='') part)))
       (filter (\<lambda>part. CHR ''='' \<in> set part) (split_ws props)))) name"

fun scan_sessions :: "(string \<Rightarrow> string option) \<Rightarrow> string list \<Rightarrow> string" where
  "scan_sessions show [] = []"
| "scan_sessions show (line # lines) =
     (case split_ws line of
        [] \<Rightarrow> scan_sessions show lines
      | session_id # _ \<Rightarrow> (case show session_id of
            None \<Rightarrow> []
          | Some props \<Rightarrow>
              if session_field ''Active'' props = Some ''yes'' \<and>
                 session_field ''Class'' props \<in> {Some ''user'', Some ''lock-screen''}
              then (case session_field ''Name'' props of None \<Rightarrow> [] | Some n \<Rightarrow> n)
              else scan_sessions show lines))"

definition resolve_user :: "string \<Rightarrow> string option \<Rightarrow> (string \<Rightarrow> string option) \<Rightarrow> string" where
  "resolve_user configured listing show =
     (if strip configured \<noteq> [] then strip configured
      else (case listing of None \<Rightarrow> [] | Some t \<Rightarrow> scan_sessions show (splitlines t)))"

datatype pump_end = Closed | Crashed hid_error

text \<open>One element per read: \<open>None\<close> for a read that fails.\<close>

fun pump :: "byte list option list \<Rightarrow> hid \<Rightarrow> pump_end \<times> hid" where
  "pump [] h = (Closed, h)"
| "pump (None # es) h = (Closed, h)"
| "pump (Some data # es) h =
     (case snd (read_event data) of
        None \<Rightarrow> pump es h
      | Some report \<Rightarrow>
          if report = [] then pump es h
          else (case feed_report report h of
              (Inl e, h') \<Rightarrow> (Crashed e, h')
            | (Inr _, h') \<Rightarrow> pump es h'))"

section \<open>Reports through the kernel\<close>

text \<open>The kernel's event for an output report: the data in a fixed field, its size, its type.\<close>

definition output_event :: "byte list \<Rightarrow> byte list" where
  "output_event written = uhid_event UHID_OUTPUT (pad 4096 written @ to_le 2 (length written) @ [1])"

lemma read_output_event:
  assumes "length written \<le> 4096"
  shows "read_event (output_event written) =
    (Some UHID_OUTPUT, Some (if written \<noteq> [] \<and> hd written = 0 then tl written else written))"
proof -
  have "from_le (to_le 4 UHID_OUTPUT) = UHID_OUTPUT"
    by (rule from_to_le) (simp add: UHID_OUTPUT_def)
  moreover have "from_le (to_le 2 (length written)) = length written"
    using assms by (intro from_to_le) simp
  ultimately show ?thesis
    using assms by (simp add: read_event_def output_event_def uhid_event_def pad_def Let_def)
qed

lemma pump_reports:
  "\<forall>r \<in> set rs. length r \<le> 4095 \<and> r \<noteq> [] \<Longrightarrow>
    pump (map (\<lambda>r. Some (output_event (0 # r))) rs) h =
    (case feed_all rs h of (Inl e, h') \<Rightarrow> (Crashed e, h') | (Inr _, h') \<Rightarrow> (Closed, h'))"
  by (induction rs arbitrary: h) (auto simp: read_output_event pbind_def split: prod.split sum.split)

lemma frames_length: "r \<in> set (frames cid command data) \<Longrightarrow> length r \<le> 4095 \<and> r \<noteq> []"
  using frames_size [of r cid command data] by (auto simp: HID_REPORT_SIZE_def)

lemma dispatch_cbor:
  "payload \<noteq> [] \<Longrightarrow> active_cid h = None \<Longrightarrow>
    dispatch_message cid CTAPHID_CBOR payload h =
    (Inr (), (reset_channel cid h)\<lparr>active_cid := Some cid, cancelled := False, worker := Some (cid, payload)\<rparr>)"
  by (simp add: dispatch_message_def start_cbor_def reset_channel_def CTAPHID_CBOR_def CTAPHID_PING_def CTAPHID_WINK_def
      CTAPHID_MSG_def)

text \<open>
  C23. A request is answered, from the kernel's events to the reports sent back: when an idle device
  gets the events of a CBOR request on an open channel, the worker runs with exactly the
  request's bytes, and once the authenticator has answered, exactly the reports of its answer
  are sent on that channel and the device is idle again.
\<close>

theorem request_answered:
  assumes "cid < CID_BROADCAST" and "map_of (channels h) cid \<noteq> None" and "active_cid h = None" and "replies h = []"
    and "payload \<noteq> []" and "length payload \<le> 7609" and "handle_cbor f w payload a = (response, a')" and "length response < 2 ^ 16"
  shows "\<exists>h1 h2.
    pump (map (\<lambda>r. Some (output_event (0 # r))) (frames cid CTAPHID_CBOR payload)) h = (Closed, h1) \<and>
    worker h1 = Some (cid, payload) \<and> sent h1 = sent h \<and>
    worker_reply (worker_done response h1) = (Inr (), h2) \<and>
    sent h2 = sent h @ frames cid CTAPHID_CBOR response \<and> worker h2 = None \<and> active_cid h2 = None"
proof -
  define h1 where "h1 = (reset_channel cid h)\<lparr>active_cid := Some cid, cancelled := False, worker := Some (cid, payload)\<rparr>"
  have cid: "cid < 2 ^ 32" "cid \<noteq> CID_BROADCAST"
    using assms(1) by (simp_all add: CID_BROADCAST_def)
  have "feed_all (frames cid CTAPHID_CBOR payload) h = dispatch_message cid CTAPHID_CBOR payload h"
    using assms(3,6) by (intro feed_frames cid assms(2))
      (simp_all add: busy_with_other_def CTAPHID_CBOR_def CTAPHID_INIT_def CTAPHID_CANCEL_def INIT_PAYLOAD_eq CONT_PAYLOAD_eq)
  also have "\<dots> = (Inr (), h1)"
    unfolding h1_def by (rule dispatch_cbor [OF assms(5,3)])
  finally have "pump (map (\<lambda>r. Some (output_event (0 # r))) (frames cid CTAPHID_CBOR payload)) h = (Closed, h1)"
    using pump_reports [of "frames cid CTAPHID_CBOR payload" h] frames_length by simp
  moreover have "worker_reply (worker_done response h1) =
      send_message cid CTAPHID_CBOR response (h1\<lparr>active_cid := None, worker := None, replies := []\<rparr>)"
    by (simp add: h1_def worker_done_def worker_reply_def reset_channel_def assms(4))
  ultimately show ?thesis
    using assms(8) cid(1)
    by (intro exI [of _ h1] exI [of _ "snd (send_message cid CTAPHID_CBOR response (h1\<lparr>active_cid := None, worker := None, replies := []\<rparr>))"])
      (simp add: h1_def send_message_def reset_channel_def)
qed

theorem request_answered_witness:
  "\<exists>h1 h2. pump (map (\<lambda>r. Some (output_event (0 # r))) (frames 1 CTAPHID_CBOR [CMD_GET_INFO])) (new_device\<lparr>channels := [(1, idle_channel)]\<rparr>)
      = (Closed, h1) \<and> worker h1 = Some (1, [CMD_GET_INFO]) \<and>
    worker_reply (worker_done [0] h1) = (Inr (), h2) \<and> sent h2 = frames 1 CTAPHID_CBOR [0]"
proof -
  have "handle_cbor sample_fido (sample_ceremony SUCCESS) [CMD_GET_INFO] sample_auth = ([0], sample_auth)"
    by (simp add: handle_cbor_def run_command_def command_handler_def with_answer_def pbind_def sample_fido_def
        CMD_GET_INFO_def CMD_MAKE_CREDENTIAL_def CMD_GET_ASSERTION_def)
  from request_answered [OF _ _ _ _ _ _ this, of 1 "new_device\<lparr>channels := [(1, idle_channel)]\<rparr>"]
  show ?thesis
    by (auto simp: CID_BROADCAST_def new_device_def)
qed

text \<open>
  A short write stops the passkey service: an output report of five or six bytes after the
  report id, with the first-frame bit set, makes the transport read a length field that is not
  there, and nothing between the device and the service's loop catches the exception.
\<close>

theorem short_report_stops_service:
  assumes "length r = 5 \<or> length r = 6" and "r ! 4 AND 0x80 \<noteq> 0"
  shows "pump (Some (output_event (0 # r)) # es) h = (Crashed StructError, h)"
proof -
  have "snd (read_event (output_event (0 # r))) = Some r"
    using read_output_event [of "0 # r"] assms(1) by auto
  moreover have "feed_report r h = (Inl StructError, h)"
    using assms by (auto simp: feed_report_def handle_init_frame_def)
  moreover have "r \<noteq> []"
    using assms(1) by auto
  ultimately show ?thesis
    by simp
qed

theorem short_report_stops_service_witness:
  "pump [Some (output_event [0, 0, 0, 0, 1, 0x86, 0]), Some (output_event (replicate 65 0))] new_device = (Crashed StructError, new_device)"
  using short_report_stops_service [of "[0, 0, 0, 1, 0x86, 0]" "[Some (output_event (replicate 65 0))]" new_device] by simp

end
