(* ===== verification/Keystores.thy ===== *)
theory Keystores
  imports Cred_Store "HOL-Library.Countable"
begin

text \<open>
  \<^verbatim>\<open>webauthn/keystore.py\<close> and \<^verbatim>\<open>webauthn/keystore_tpm.py\<close>: the keys behind the
  passkeys, in software or in a TPM.

  The package \<open>cryptography\<close>, the TPM and its Python binding, and the \<open>json\<close> module are
  fields of the keystore's library record, with the laws the code relies on as the predicates \<open>crypto_ok\<close> and
  \<open>tpm_ok\<close>. What a call draws at random and whether the disk or the TPM works is given with the
  call. \<open>Key_Error\<close> is \<open>KeyStoreError\<close>, \<open>Other_Error\<close> any other exception.
\<close>

datatype ks_exc = Key_Error | Other_Error

section \<open>Key references\<close>

text \<open>A reference is JSON text; what \<open>json.loads\<close> makes of it. A field is a text or something else.\<close>

datatype json_field = J_Text string | J_Other

datatype json_ref = Not_JSON | Not_Object | Json_Object "(string \<times> json_field) list"

text \<open>\<open>base64.b64encode\<close> and \<open>b64decode\<close>, with the standard alphabet and its padding.\<close>

definition to_std :: "char \<Rightarrow> char" where
  "to_std c = (if c = CHR ''-'' then CHR ''+'' else if c = CHR ''_'' then CHR ''/'' else c)"

definition std_b64encode :: "byte list \<Rightarrow> string" where
  "std_b64encode data = map to_std (b64_groups data)"

definition std_b64decode :: "string \<Rightarrow> byte list option" where
  "std_b64decode s =
     (if \<exists>c \<in> set s. of_char c \<ge> (128 :: nat) then None
      else b64_scan 0 0 0 (filter (\<lambda>c. c \<noteq> CHR ''-'' \<and> c \<noteq> CHR ''_'') s))"

text \<open>\<open>base64.b64decode(ref[name])\<close> under \<open>except (ValueError, KeyError)\<close>.\<close>

definition field_bytes :: "string \<Rightarrow> (string \<times> json_field) list \<Rightarrow> ks_exc + byte list" where
  "field_bytes name obj =
     (case map_of obj name of
        None \<Rightarrow> Inl Key_Error
      | Some J_Other \<Rightarrow> Inl Other_Error
      | Some (J_Text s) \<Rightarrow> (case std_b64decode s of None \<Rightarrow> Inl Key_Error | Some bs \<Rightarrow> Inr bs))"

section \<open>The software keystore\<close>

datatype gcm_result = Gcm_Plain "byte list" | Gcm_Invalid_Tag | Gcm_Bad_Nonce

record ('k, 'p) crypto =
  json_dumps :: "(string \<times> json_field) list \<Rightarrow> string"
  json_loads :: "string \<Rightarrow> json_ref"
  private_der :: "'k \<Rightarrow> byte list"
  load_der :: "byte list \<Rightarrow> 'k option"
  public_of :: "'k \<Rightarrow> 'p"
  ecdsa_sign :: "nat \<Rightarrow> 'k \<Rightarrow> byte list \<Rightarrow> byte list"
  ecdsa_verify :: "'p \<Rightarrow> byte list \<Rightarrow> byte list \<Rightarrow> bool"
  gcm_encrypt :: "byte list \<Rightarrow> byte list \<Rightarrow> byte list \<Rightarrow> string \<Rightarrow> byte list"
  gcm_decrypt :: "byte list \<Rightarrow> byte list \<Rightarrow> byte list \<Rightarrow> string \<Rightarrow> gcm_result"

text \<open>What a call meets: what it draws, twelve or 32 random bytes at a time, and whether the keystore's directory can be used.\<close>

record 'k sw_call =
  drawn_key :: 'k
  drawn_nonce :: "96 word"
  drawn_id :: "96 word"
  drawn_master :: "256 word"
  drawn_k :: nat
  disk_ok :: bool

text \<open>The object: the key file \<open>master.key\<close>, and the key once it was read.\<close>

record ('k, 'p) sw_store =
  sw_lib :: "('k, 'p) crypto"
  master_file :: "byte list option"
  master_cached :: "byte list option"

text \<open>A new process: \<open>__init__\<close> starts without the key.\<close>

definition sw_init :: "('k, 'p) sw_store \<Rightarrow> ('k, 'p) sw_store" where
  "sw_init s = s\<lparr>master_cached := None\<rparr>"

definition load_master_key :: "'k sw_call \<Rightarrow> (('k, 'p) sw_store, ks_exc, byte list) block" where
  "load_master_key c s =
     (case master_cached s of
        Some key \<Rightarrow> (Inr key, s)
      | None \<Rightarrow>
          if \<not> disk_ok c then (Inl Other_Error, s)
          else
            let key = (case master_file s of Some k \<Rightarrow> k | None \<Rightarrow> to_be 32 (unat (drawn_master c)));
                s1 = s\<lparr>master_file := Some key\<rparr>
            in if length key \<noteq> 32 then (Inl Key_Error, s1)
               else (Inr key, s1\<lparr>master_cached := Some key\<rparr>))"

definition sw_generate_key :: "'k sw_call \<Rightarrow> (('k, 'p) sw_store, ks_exc, string \<times> 'p) block" where
  "sw_generate_key c s =
     (let key_id = b64encode (to_be 12 (unat (drawn_id c))); nonce = to_be 12 (unat (drawn_nonce c)) in
      pbind (load_master_key c) (\<lambda>master.
        pret (json_dumps (sw_lib s)
                [(''backend'', J_Text ''software''), (''id'', J_Text key_id),
                 (''nonce'', J_Text (std_b64encode nonce)),
                 (''blob'', J_Text (std_b64encode
                    (gcm_encrypt (sw_lib s) master nonce (private_der (sw_lib s) (drawn_key c)) key_id)))],
              public_of (sw_lib s) (drawn_key c))) s)"

text \<open>The three fields of a reference.\<close>

definition sw_parse :: "json_ref \<Rightarrow> ks_exc + byte list \<times> byte list \<times> string" where
  "sw_parse j =
     (case j of
        Not_JSON \<Rightarrow> Inl Key_Error
      | Not_Object \<Rightarrow> Inl Other_Error
      | Json_Object obj \<Rightarrow>
          rbind (field_bytes ''nonce'' obj) (\<lambda>nonce. rbind (field_bytes ''blob'' obj) (\<lambda>blob.
            (case map_of obj ''id'' of
               None \<Rightarrow> Inl Key_Error
             | Some J_Other \<Rightarrow> Inl Other_Error
             | Some (J_Text aad) \<Rightarrow> Inr (nonce, blob, aad)))))"

definition sw_decrypt :: "'k sw_call \<Rightarrow> string \<Rightarrow> (('k, 'p) sw_store, ks_exc, 'k) block" where
  "sw_decrypt c ref s =
     (case sw_parse (json_loads (sw_lib s) ref) of
        Inl e \<Rightarrow> (Inl e, s)
      | Inr (nonce, blob, aad) \<Rightarrow>
          pbind (load_master_key c) (\<lambda>master.
            (case gcm_decrypt (sw_lib s) master nonce blob aad of
               Gcm_Invalid_Tag \<Rightarrow> praise Key_Error
             | Gcm_Bad_Nonce \<Rightarrow> praise Other_Error
             | Gcm_Plain plain \<Rightarrow>
                 (case load_der (sw_lib s) plain of None \<Rightarrow> praise Other_Error | Some k \<Rightarrow> pret k))) s)"

definition sw_sign :: "'k sw_call \<Rightarrow> string \<Rightarrow> byte list \<Rightarrow> (('k, 'p) sw_store, ks_exc, byte list) block" where
  "sw_sign c ref message s = pbind (sw_decrypt c ref) (\<lambda>k. pret (ecdsa_sign (sw_lib s) (drawn_k c) k message)) s"

text \<open>\<open>delete_key\<close> does nothing: the key is in the record. \<open>destroy_all\<close> removes the file.\<close>

definition sw_destroy_all :: "'k sw_call \<Rightarrow> (('k, 'p) sw_store, ks_exc, unit) block" where
  "sw_destroy_all c s =
     (if \<not> disk_ok c then (Inl Other_Error, s)
      else (Inr (), s\<lparr>master_file := None, master_cached := None\<rparr>))"

section \<open>The TPM keystore\<close>

datatype 'k tpm_loaded = Tpm_Key 'k | Tpm_Refuses

record ('k, 'p) tpm_lib =
  tpm_dumps :: "(string \<times> json_field) list \<Rightarrow> string"
  tpm_loads :: "string \<Rightarrow> json_ref"
  tpm_wrap :: "'k \<Rightarrow> byte list \<times> byte list"
  tpm_unmarshals :: "byte list \<Rightarrow> bool"
  tpm_open :: "byte list \<Rightarrow> byte list \<Rightarrow> 'k tpm_loaded"
  tpm_point :: "'k \<Rightarrow> byte list \<times> byte list"
  ec_public :: "int \<Rightarrow> int \<Rightarrow> 'p"
  hash256 :: "byte list \<Rightarrow> byte list"
  tpm_ecdsa :: "nat \<Rightarrow> 'k \<Rightarrow> byte list \<Rightarrow> byte list \<times> byte list"
  encode_dss :: "int \<Rightarrow> int \<Rightarrow> byte list"
  tpm_verify :: "'p \<Rightarrow> byte list \<Rightarrow> byte list \<Rightarrow> bool"

text \<open>Which of the calls to the TPM succeed, the key it would create and what a signature draws.\<close>

record 'k tpm_call =
  esapi_ok :: bool
  primary_ok :: bool
  create_ok :: bool
  load_ok :: bool
  sign_ok :: bool
  flush_ok :: bool
  created_key :: 'k
  created_k :: nat

text \<open>The object, and the handles that occupy the TPM's few slots for loaded keys.\<close>

record ('k, 'p) tpm_store =
  t_lib :: "('k, 'p) tpm_lib"
  t_ectx :: bool
  t_primary :: "nat option"
  t_live :: "nat list"
  t_next :: nat

text \<open>A new process starts without a connection; what the last one had loaded went with its own.\<close>

definition tpm_init :: "('k, 'p) tpm_store \<Rightarrow> ('k, 'p) tpm_store" where
  "tpm_init s = s\<lparr>t_ectx := False, t_primary := None, t_live := []\<rparr>"

definition new_handle :: "(('k, 'p) tpm_store, ks_exc, nat) block" where
  "new_handle s = (Inr (t_next s), s\<lparr>t_live := t_next s # t_live s, t_next := Suc (t_next s)\<rparr>)"

definition tpm_context :: "'k tpm_call \<Rightarrow> (('k, 'p) tpm_store, ks_exc, unit) block" where
  "tpm_context c s =
     (if t_ectx s then (Inr (), s)
      else if esapi_ok c then (Inr (), s\<lparr>t_ectx := True\<rparr>)
      else (Inl Key_Error, s))"

definition primary_handle :: "'k tpm_call \<Rightarrow> (('k, 'p) tpm_store, ks_exc, nat) block" where
  "primary_handle c s =
     (case t_primary s of
        Some h \<Rightarrow> (Inr h, s)
      | None \<Rightarrow>
          pbind (tpm_context c) (\<lambda>_.
            if \<not> primary_ok c then praise Key_Error
            else pbind new_handle (\<lambda>h s1. (Inr h, s1\<lparr>t_primary := Some h\<rparr>))) s)"

definition tpm_generate_key :: "'k tpm_call \<Rightarrow> (('k, 'p) tpm_store, ks_exc, string \<times> 'p) block" where
  "tpm_generate_key c s =
     pbind (tpm_context c) (\<lambda>_. pbind (primary_handle c) (\<lambda>_.
       if \<not> create_ok c then praise Key_Error
       else
         let (priv, pub) = tpm_wrap (t_lib s) (created_key c); (x, y) = tpm_point (t_lib s) (created_key c) in
         pret (tpm_dumps (t_lib s)
                 [(''backend'', J_Text ''tpm''), (''private'', J_Text (std_b64encode priv)), (''public'', J_Text (std_b64encode pub))],
               ec_public (t_lib s) (int (from_be x)) (int (from_be y))))) s"

text \<open>\<open>unmarshal\<close> raises an exception of the binding, which is neither of the two that are caught.\<close>

definition tpm_field :: "('k, 'p) tpm_lib \<Rightarrow> string \<Rightarrow> (string \<times> json_field) list \<Rightarrow> ks_exc + byte list" where
  "tpm_field lib name obj =
     rbind (field_bytes name obj) (\<lambda>bs. if tpm_unmarshals lib bs then Inr bs else Inl Other_Error)"

definition tpm_parse :: "('k, 'p) tpm_lib \<Rightarrow> json_ref \<Rightarrow> ks_exc + byte list \<times> byte list" where
  "tpm_parse lib j =
     (case j of
        Not_JSON \<Rightarrow> Inl Key_Error
      | Not_Object \<Rightarrow> Inl Other_Error
      | Json_Object obj \<Rightarrow>
          if map_of obj ''backend'' \<noteq> Some (J_Text ''tpm'') then Inl Key_Error
          else rbind (tpm_field lib ''private'' obj) (\<lambda>priv. rbind (tpm_field lib ''public'' obj) (\<lambda>pub. Inr (priv, pub))))"

definition tpm_load :: "'k tpm_call \<Rightarrow> string \<Rightarrow> (('k, 'p) tpm_store, ks_exc, nat \<times> 'k) block" where
  "tpm_load c ref s =
     (case tpm_parse (t_lib s) (tpm_loads (t_lib s) ref) of
        Inl e \<Rightarrow> (Inl e, s)
      | Inr (priv, pub) \<Rightarrow>
          pbind (tpm_context c) (\<lambda>_. pbind (primary_handle c) (\<lambda>_.
            (case tpm_open (t_lib s) priv pub of
               Tpm_Refuses \<Rightarrow> praise Key_Error
             | Tpm_Key k \<Rightarrow>
                 if \<not> load_ok c then praise Key_Error
                 else pbind new_handle (\<lambda>h. pret (h, k))))) s)"

text \<open>The \<open>finally\<close> of \<open>sign\<close>: the handle is flushed, and a flush that raises replaces the outcome.\<close>

definition flushed :: "'k tpm_call \<Rightarrow> nat \<Rightarrow> ks_exc + 'a \<Rightarrow> (('k, 'p) tpm_store, ks_exc, 'a) block" where
  "flushed c h r s =
     (if flush_ok c then (r, s\<lparr>t_live := removeAll h (t_live s)\<rparr>) else (Inl Other_Error, s))"

definition tpm_sign :: "'k tpm_call \<Rightarrow> string \<Rightarrow> byte list \<Rightarrow> (('k, 'p) tpm_store, ks_exc, byte list) block" where
  "tpm_sign c ref message s =
     pbind (tpm_context c) (\<lambda>_. pbind (tpm_load c ref) (\<lambda>(h, k).
       flushed c h
         (if \<not> sign_ok c then Inl Key_Error
          else let (r, q) = tpm_ecdsa (t_lib s) (created_k c) k (hash256 (t_lib s) message)
               in Inr (encode_dss (t_lib s) (int (from_be r)) (int (from_be q)))))) s"

text \<open>\<open>delete_key\<close> and \<open>destroy_all\<close> do nothing.\<close>

definition tpm_destroy_all :: "(('k, 'p) tpm_store, ks_exc, unit) block" where
  "tpm_destroy_all s = (Inr (), s)"

definition tpm_close :: "'k tpm_call \<Rightarrow> ('k, 'p) tpm_store \<Rightarrow> ('k, 'p) tpm_store" where
  "tpm_close c s =
     (if \<not> t_ectx s then s
      else
        let s1 = (case t_primary s of
             None \<Rightarrow> s
           | Some h \<Rightarrow> s\<lparr>t_primary := None, t_live := (if flush_ok c then removeAll h (t_live s) else t_live s)\<rparr>)
        in s1\<lparr>t_ectx := False\<rparr>)"


section \<open>The contract\<close>

text \<open>
  What a keystore promises its client. A call \<open>works\<close> when nothing outside the keystore fails. A reference \<open>opens\<close> to
  a public key in a state; a reference that was handed out opens, one that opens signs what verifies with
  its public key, and neither creating nor using keys, successfully or not, nor a new process closes one.
\<close>

datatype 'c key_use = New_Key 'c | Use_Key 'c string "byte list" | Restart

text \<open>A run of the client: the keys it was given, and the state at its end.\<close>

fun key_uses :: "('c \<Rightarrow> ('s, ks_exc, string \<times> 'p) block) \<Rightarrow> ('c \<Rightarrow> string \<Rightarrow> byte list \<Rightarrow> ('s, ks_exc, byte list) block) \<Rightarrow>
    ('s \<Rightarrow> 's) \<Rightarrow> 'c key_use list \<Rightarrow> 's \<Rightarrow> (string \<times> 'p) list \<times> 's" where
  "key_uses generate sign restart [] s = ([], s)"
| "key_uses generate sign restart (New_Key c # us) s =
     (case generate c s of
        (Inl _, s') \<Rightarrow> key_uses generate sign restart us s'
      | (Inr k, s') \<Rightarrow> (let (ks, s'') = key_uses generate sign restart us s' in (k # ks, s'')))"
| "key_uses generate sign restart (Use_Key c ref m # us) s = key_uses generate sign restart us (snd (sign c ref m s))"
| "key_uses generate sign restart (Restart # us) s = key_uses generate sign restart us (restart s)"

fun key_calls :: "'c key_use \<Rightarrow> 'c set" where
  "key_calls (New_Key c) = {c}"
| "key_calls (Use_Key c _ _) = {c}"
| "key_calls Restart = {}"

lemma key_uses_step:
  assumes "key_uses generate sign restart (u # us) s = (ks, s')"
  obtains (new) c r s1 ks1 where "u = New_Key c" "generate c s = (r, s1)" "key_uses generate sign restart us s1 = (ks1, s')"
      "ks = (case r of Inl _ \<Rightarrow> ks1 | Inr k \<Rightarrow> k # ks1)"
    | (use) c ref m r s1 where "u = Use_Key c ref m" "sign c ref m s = (r, s1)" "key_uses generate sign restart us s1 = (ks, s')"
    | (restart) "u = Restart" "key_uses generate sign restart us (restart s) = (ks, s')"
proof (cases u)
  case (New_Key c)
  then show ?thesis
    using assms new by (auto split: prod.splits sum.splits)
next
  case (Use_Key c ref m)
  then show ?thesis
    using assms use by (cases "sign c ref m s") auto
next
  case Restart
  then show ?thesis
    using assms restart by simp
qed

text \<open>What every call and a restart keep, a run keeps.\<close>

lemma key_uses_keep:
  assumes "\<And>c s. c \<in> C \<Longrightarrow> P s \<Longrightarrow> P (snd (generate c s))" and "\<And>c ref m s. c \<in> C \<Longrightarrow> P s \<Longrightarrow> P (snd (sign c ref m s))"
    and "\<And>s. P s \<Longrightarrow> P (restart s)" and "\<forall>u \<in> set us. key_calls u \<subseteq> C"
    and "P s" and "key_uses generate sign restart us s = (ks, s')"
  shows "P s'"
  using assms(4-6)
proof (induction us arbitrary: s ks)
  case (Cons u us)
  from Cons.prems(3) show ?case
  proof (cases rule: key_uses_step)
    case (new c r s1 ks1)
    then show ?thesis
      using Cons.IH [OF _ _ new(3)] assms(1) [of c s] Cons.prems(1,2) by simp
  next
    case (use c ref m r s1)
    then show ?thesis
      using Cons.IH [OF _ _ use(3)] assms(2) [of c s ref m] Cons.prems(1,2) by simp
  next
    case restart
    then show ?thesis
      using Cons.IH [OF _ _ restart(2)] assms(3) [of s] Cons.prems(1,2) by simp
  qed
qed simp

locale keystore =
  fixes generate :: "'c \<Rightarrow> ('s, ks_exc, string \<times> 'p) block"
    and sign :: "'c \<Rightarrow> string \<Rightarrow> byte list \<Rightarrow> ('s, ks_exc, byte list) block"
    and restart :: "'s \<Rightarrow> 's"
    and verifies :: "'s \<Rightarrow> 'p \<Rightarrow> byte list \<Rightarrow> byte list \<Rightarrow> bool"
    and works :: "'c \<Rightarrow> bool"
    and sound :: "'s \<Rightarrow> bool"
    and opens :: "'s \<Rightarrow> string \<Rightarrow> 'p \<Rightarrow> bool"
  assumes generate_opens: "sound s \<Longrightarrow> generate c s = (Inr (ref, p), s') \<Longrightarrow> opens s' ref p"
    and sign_verifies: "sound s \<Longrightarrow> opens s ref p \<Longrightarrow> works c \<Longrightarrow> \<exists>sig s'. sign c ref m s = (Inr sig, s') \<and> verifies s p m sig"
    and generate_keeps: "sound s \<Longrightarrow> generate c s = (r, s') \<Longrightarrow> sound s' \<and> verifies s' = verifies s"
    and generate_keeps_open: "sound s \<Longrightarrow> generate c s = (r, s') \<Longrightarrow> opens s ref p \<Longrightarrow> opens s' ref p"
    and sign_keeps: "sound s \<Longrightarrow> sign c ref' m s = (r', s') \<Longrightarrow> sound s' \<and> verifies s' = verifies s"
    and sign_keeps_open: "sound s \<Longrightarrow> sign c ref' m s = (r', s') \<Longrightarrow> opens s ref p \<Longrightarrow> opens s' ref p"
    and restart_keeps: "sound s \<Longrightarrow> sound (restart s) \<and> verifies (restart s) = verifies s"
    and restart_keeps_open: "sound s \<Longrightarrow> opens s ref p \<Longrightarrow> opens (restart s) ref p"
begin

lemma step_keeps:
  assumes "sound s" and "key_uses generate sign restart (u # us) s = (ks, s')"
  shows "\<exists>s1 ks1. key_uses generate sign restart us s1 = (ks1, s') \<and> sound s1 \<and> verifies s1 = verifies s \<and>
    (\<forall>ref p. opens s ref p \<longrightarrow> opens s1 ref p) \<and> (\<forall>(ref, p) \<in> set ks. (ref, p) \<in> set ks1 \<or> opens s1 ref p)"
  using assms(2)
proof (cases rule: key_uses_step)
  case (new c r s1 ks1)
  note 1 = this
  have "sound s1 \<and> verifies s1 = verifies s" "\<And>ref p. opens s ref p \<Longrightarrow> opens s1 ref p"
    using generate_keeps [OF assms(1) 1(2)] generate_keeps_open [OF assms(1) 1(2)] by blast+
  moreover have "\<forall>(ref, p) \<in> set ks. (ref, p) \<in> set ks1 \<or> opens s1 ref p"
    using 1(2,4) generate_opens [OF assms(1)] by (cases r) auto
  ultimately show ?thesis
    using 1(3) by blast
next
  case (use c ref m r s1)
  note 2 = this
  then show ?thesis
    using sign_keeps [OF assms(1) 2(2)] sign_keeps_open [OF assms(1) 2(2)] by (intro exI [of _ s1] exI [of _ ks]) auto
next
  case restart
  then show ?thesis
    using restart_keeps [OF assms(1)] restart_keeps_open [OF assms(1)] by (intro exI [of _ "restart s"] exI [of _ ks]) auto
qed

lemma uses_keep: "sound s \<Longrightarrow> key_uses generate sign restart us s = (ks, s') \<Longrightarrow>
    sound s' \<and> verifies s' = verifies s \<and> (\<forall>ref p. opens s ref p \<longrightarrow> opens s' ref p)"
proof (induction us arbitrary: s ks)
  case (Cons u us)
  then show ?case
    using step_keeps [OF Cons.prems] by metis
qed simp

lemma uses_open: "sound s \<Longrightarrow> key_uses generate sign restart us s = (ks, s') \<Longrightarrow> (ref, p) \<in> set ks \<Longrightarrow> opens s' ref p"
proof (induction us arbitrary: s ks)
  case (Cons u us)
  obtain s1 ks1 where s1: "key_uses generate sign restart us s1 = (ks1, s')" "sound s1" "(ref, p) \<in> set ks1 \<or> opens s1 ref p"
    using step_keeps [OF Cons.prems(1,2)] Cons.prems(3) by blast
  then show ?case
    using Cons.IH [OF s1(2,1)] uses_keep [OF s1(2,1)] by blast
qed simp

lemma keys_survive:
  assumes "sound s" and "key_uses generate sign restart us s = (ks, s')" and "(ref, p) \<in> set ks" and "works c"
  shows "\<exists>sig s''. sign c ref m s' = (Inr sig, s'') \<and> verifies s p m sig"
  using sign_verifies [OF _ uses_open [OF assms(1-3)] assms(4), of m] uses_keep [OF assms(1,2)] by auto

end

section \<open>The software keystore keeps it\<close>

lemma to_std_pad [simp]: "to_std c = CHR ''='' \<longleftrightarrow> c = CHR ''=''"
  by (simp add: to_std_def)

lemma b64_value_std [simp]: "b64_value (to_std c) = b64_value c"
  by (simp add: b64_value_def to_std_def Let_def)

lemma b64_scan_std: "b64_scan q left pads (map to_std s) = b64_scan q left pads s"
  by (induction q left pads s rule: b64_scan.induct) (auto split: option.splits)

lemma std_b64_roundtrip: "std_b64decode (std_b64encode bs) = Some bs"
proof -
  obtain p n where shape: "b64_groups bs = p @ replicate n (CHR ''='')" "\<forall>c \<in> set p. c \<noteq> CHR ''='' \<and> of_char c < (128 :: nat)"
    using b64_groups_shape [of bs] by blast
  have "\<forall>c \<in> set (b64_groups bs). of_char c < (128 :: nat)"
    using shape(2) unfolding shape(1) by (simp add: set_replicate_conv_if ball_Un)
  then have plain: "\<forall>c \<in> set (std_b64encode bs). \<not> of_char c \<ge> (128 :: nat)"
    by (auto simp: std_b64encode_def to_std_def)
  have "filter (\<lambda>c. c \<noteq> CHR ''-'' \<and> c \<noteq> CHR ''_'') (map to_std (b64_groups bs)) = map to_std (b64_groups bs)"
    by (auto simp: filter_id_conv to_std_def)
  then show ?thesis
    using plain by (simp add: std_b64decode_def std_b64encode_def b64_scan_std b64_scan_groups)
qed


text \<open>What the code relies on: an authenticated cipher under a nonce of twelve bytes, and signatures that verify.\<close>

definition crypto_ok :: "('k, 'p) crypto \<Rightarrow> bool" where
  "crypto_ok lib \<longleftrightarrow>
     (\<forall>obj. json_loads lib (json_dumps lib obj) = Json_Object obj) \<and>
     (\<forall>k. load_der lib (private_der lib k) = Some k) \<and>
     (\<forall>n k m. ecdsa_verify lib (public_of lib k) m (ecdsa_sign lib n k m)) \<and>
     (\<forall>key nonce plain aad. length key = 32 \<longrightarrow> length nonce = 12 \<longrightarrow>
        gcm_decrypt lib key nonce (gcm_encrypt lib key nonce plain aad) aad = Gcm_Plain plain) \<and>
     (\<forall>key key' nonce plain aad. length key = 32 \<longrightarrow> length key' = 32 \<longrightarrow> length nonce = 12 \<longrightarrow> key' \<noteq> key \<longrightarrow>
        gcm_decrypt lib key' nonce (gcm_encrypt lib key nonce plain aad) aad = Gcm_Invalid_Tag)"

definition current_master :: "('k, 'p) sw_store \<Rightarrow> byte list option" where
  "current_master s = (case master_cached s of Some k \<Rightarrow> Some k | None \<Rightarrow> master_file s)"

definition sw_opens :: "('k, 'p) sw_store \<Rightarrow> string \<Rightarrow> 'p \<Rightarrow> bool" where
  "sw_opens s ref p \<longleftrightarrow>
     (\<exists>master nonce blob aad plain k. current_master s = Some master \<and> length master = 32 \<and>
        sw_parse (json_loads (sw_lib s) ref) = Inr (nonce, blob, aad) \<and>
        gcm_decrypt (sw_lib s) master nonce blob aad = Gcm_Plain plain \<and> load_der (sw_lib s) plain = Some k \<and>
        p = public_of (sw_lib s) k)"

lemma load_master_key_keeps:
  assumes "load_master_key c s = (r, s')"
  shows "sw_lib s' = sw_lib s" and "current_master s = Some k \<Longrightarrow> current_master s' = Some k"
    and "r = Inr k \<Longrightarrow> current_master s' = Some k" and "current_master s = Some k \<Longrightarrow> r = Inr k' \<Longrightarrow> k' = k"
    and "current_master s = None \<Longrightarrow> r = Inr k \<Longrightarrow> k = to_be 32 (unat (drawn_master c))"
  using assms by (auto simp: load_master_key_def current_master_def Let_def split: option.splits if_splits)

lemma load_master_key_length:
  assumes "load_master_key c s = (Inr k, s')" and "master_cached s = None"
  shows "length k = 32"
  using assms by (auto simp: load_master_key_def Let_def split: if_splits)

lemma load_master_key_works:
  assumes "disk_ok c" and "current_master s = Some k" and "length k = 32"
  shows "\<exists>s'. load_master_key c s = (Inr k, s')"
  using assms by (auto simp: load_master_key_def current_master_def Let_def split: option.splits)

lemma sw_parse_generated:
  assumes "crypto_ok lib"
  shows "sw_parse (json_loads lib (json_dumps lib [(''backend'', J_Text ''software''), (''id'', J_Text aad),
      (''nonce'', J_Text (std_b64encode nonce)), (''blob'', J_Text (std_b64encode blob))])) = Inr (nonce, blob, aad)"
  using assms by (simp add: crypto_ok_def sw_parse_def field_bytes_def std_b64_roundtrip rbind_def)

text \<open>What a key that was handed out is, and that later calls keep the library and the master key.\<close>

lemma sw_generate_key_Inr:
  assumes "sw_generate_key c s = (Inr (ref, p), s')"
  obtains master where "load_master_key c s = (Inr master, s')" "p = public_of (sw_lib s) (drawn_key c)"
    "ref = json_dumps (sw_lib s) [(''backend'', J_Text ''software''), (''id'', J_Text (b64encode (to_be 12 (unat (drawn_id c))))),
      (''nonce'', J_Text (std_b64encode (to_be 12 (unat (drawn_nonce c))))),
      (''blob'', J_Text (std_b64encode (gcm_encrypt (sw_lib s) master (to_be 12 (unat (drawn_nonce c)))
         (private_der (sw_lib s) (drawn_key c)) (b64encode (to_be 12 (unat (drawn_id c)))))))]"
  using assms by (auto simp: sw_generate_key_def pbind_def Let_def split: sum.splits prod.splits)

lemma sw_generate_key_state: "snd (sw_generate_key c s) = snd (load_master_key c s)"
  by (simp add: sw_generate_key_def pbind_def Let_def split: sum.split prod.split)

lemma sw_sign_state: "snd (sw_sign c ref m s) \<in> {s, snd (load_master_key c s)}"
  by (auto simp: sw_sign_def sw_decrypt_def pbind_def pret_def praise_def split: sum.split prod.split option.split gcm_result.split)

lemma sw_opens_cong:
  "sw_opens s ref p \<Longrightarrow> sw_lib s' = sw_lib s \<Longrightarrow> current_master s' = current_master s \<Longrightarrow> sw_opens s' ref p"
  by (simp add: sw_opens_def)

lemma load_master_key_opens: "sw_opens s ref p \<Longrightarrow> sw_opens (snd (load_master_key c s)) ref p"
  using load_master_key_keeps(1,2) [of c s "fst (load_master_key c s)" "snd (load_master_key c s)"]
  by (auto simp: sw_opens_def)

definition sw_sound :: "('k, 'p) sw_store \<Rightarrow> bool" where
  "sw_sound s \<longleftrightarrow> crypto_ok (sw_lib s) \<and> (\<forall>k. master_cached s = Some k \<longrightarrow> length k = 32 \<and> master_file s = Some k)"

lemma load_master_key_sound: "sw_sound s \<Longrightarrow> sw_sound (snd (load_master_key c s))"
  by (auto simp: sw_sound_def load_master_key_def Let_def split: option.splits)

interpretation software: keystore sw_generate_key sw_sign sw_init "\<lambda>s. ecdsa_verify (sw_lib s)" disk_ok sw_sound sw_opens
proof (unfold_locales, goal_cases)
  case (1 s c ref p s')
  obtain master where g: "load_master_key c s = (Inr master, s')" "p = public_of (sw_lib s) (drawn_key c)"
    "ref = json_dumps (sw_lib s) [(''backend'', J_Text ''software''), (''id'', J_Text (b64encode (to_be 12 (unat (drawn_id c))))),
      (''nonce'', J_Text (std_b64encode (to_be 12 (unat (drawn_nonce c))))),
      (''blob'', J_Text (std_b64encode (gcm_encrypt (sw_lib s) master (to_be 12 (unat (drawn_nonce c)))
         (private_der (sw_lib s) (drawn_key c)) (b64encode (to_be 12 (unat (drawn_id c)))))))]"
    using 1(2) by (rule sw_generate_key_Inr)
  have lib: "sw_lib s' = sw_lib s" "current_master s' = Some master"
    using load_master_key_keeps(1,3) [OF g(1)] by simp_all
  have "length master = 32"
    using 1(1) g(1) load_master_key_length [OF g(1)] by (cases "master_cached s") (auto simp: sw_sound_def load_master_key_def)
  then show ?case
    using 1(1) lib g(2,3) sw_parse_generated [of "sw_lib s"] by (simp add: sw_opens_def sw_sound_def crypto_ok_def)
next
  case (2 s ref p c m)
  then obtain master nonce blob aad plain k where o: "current_master s = Some master" "length master = 32"
      "sw_parse (json_loads (sw_lib s) ref) = Inr (nonce, blob, aad)"
      "gcm_decrypt (sw_lib s) master nonce blob aad = Gcm_Plain plain" "load_der (sw_lib s) plain = Some k"
      "p = public_of (sw_lib s) k"
    unfolding sw_opens_def by blast
  obtain s' where "load_master_key c s = (Inr master, s')"
    using load_master_key_works [OF 2(3) o(1,2)] by blast
  then show ?case
    using o 2(1) by (simp add: sw_sign_def sw_decrypt_def pbind_def sw_sound_def crypto_ok_def)
next
  case (3 s c r s')
  then show ?case
    using sw_generate_key_state [of c s] load_master_key_sound [OF 3(1), of c]
      load_master_key_keeps(1) [of c s "fst (load_master_key c s)" "snd (load_master_key c s)"] by simp
next
  case (4 s c r s' ref p)
  then show ?case
    using sw_generate_key_state [of c s] load_master_key_opens [OF 4(3), of c] by simp
next
  case (5 s c ref' m r' s')
  then show ?case
    using sw_sign_state [of c ref' m s] load_master_key_sound [OF 5(1), of c]
      load_master_key_keeps(1) [of c s "fst (load_master_key c s)" "snd (load_master_key c s)"] by auto
next
  case (6 s c ref' m r' s' ref p)
  then show ?case
    using sw_sign_state [of c ref' m s] load_master_key_opens [OF 6(3), of c] by auto
next
  case (7 s)
  then show ?case
    by (simp add: sw_init_def sw_sound_def)
next
  case (8 s ref p)
  then have "current_master (sw_init s) = current_master s"
    by (auto simp: sw_sound_def sw_init_def current_master_def split: option.split)
  then show ?case
    using 8(2) by (simp add: sw_opens_def sw_init_def)
qed


section \<open>So does the TPM keystore\<close>

definition tpm_ok :: "('k, 'p) tpm_lib \<Rightarrow> bool" where
  "tpm_ok lib \<longleftrightarrow>
     (\<forall>obj. tpm_loads lib (tpm_dumps lib obj) = Json_Object obj) \<and>
     (\<forall>k. tpm_unmarshals lib (fst (tpm_wrap lib k)) \<and> tpm_unmarshals lib (snd (tpm_wrap lib k)) \<and>
        tpm_open lib (fst (tpm_wrap lib k)) (snd (tpm_wrap lib k)) = Tpm_Key k) \<and>
     (\<forall>n k m. tpm_verify lib (ec_public lib (int (from_be (fst (tpm_point lib k)))) (int (from_be (snd (tpm_point lib k))))) m
        (encode_dss lib (int (from_be (fst (tpm_ecdsa lib n k (hash256 lib m))))) (int (from_be (snd (tpm_ecdsa lib n k (hash256 lib m)))))))"

definition tpm_opens :: "('k, 'p) tpm_store \<Rightarrow> string \<Rightarrow> 'p \<Rightarrow> bool" where
  "tpm_opens s ref p \<longleftrightarrow>
     (\<exists>priv pub k. tpm_parse (t_lib s) (tpm_loads (t_lib s) ref) = Inr (priv, pub) \<and> tpm_open (t_lib s) priv pub = Tpm_Key k \<and>
        p = ec_public (t_lib s) (int (from_be (fst (tpm_point (t_lib s) k)))) (int (from_be (snd (tpm_point (t_lib s) k)))))"

definition tpm_works :: "'k tpm_call \<Rightarrow> bool" where
  "tpm_works c \<longleftrightarrow> esapi_ok c \<and> primary_ok c \<and> create_ok c \<and> load_ok c \<and> sign_ok c \<and> flush_ok c"

definition tpm_sound :: "('k, 'p) tpm_store \<Rightarrow> bool" where
  "tpm_sound s \<longleftrightarrow> tpm_ok (t_lib s)"

named_theorems tpm_defs \<open>the calls a TPM operation is made of\<close>

lemmas tpm_call_defs [tpm_defs] =
  pbind_def pret_def praise_def tpm_context_def new_handle_def primary_handle_def tpm_load_def flushed_def

lemma primary_handle_lib: "t_lib (snd (primary_handle c s)) = t_lib s"
  by (auto simp: tpm_defs split: option.split)

lemma tpm_generate_key_lib: "t_lib (snd (tpm_generate_key c s)) = t_lib s"
  by (auto simp: tpm_generate_key_def tpm_defs split: option.split prod.split)

lemma tpm_load_lib: "t_lib (snd (tpm_load c ref s)) = t_lib s"
  by (auto simp: tpm_defs split: option.split sum.split prod.split tpm_loaded.split)

lemma tpm_sign_lib: "t_lib (snd (tpm_sign c ref m s)) = t_lib s"
proof -
  have "t_lib (snd (tpm_context c s)) = t_lib s"
    by (simp add: tpm_context_def)
  then show ?thesis
    using tpm_load_lib [of c ref "snd (tpm_context c s)"]
    by (auto simp: tpm_sign_def pbind_def flushed_def Let_def split: sum.split prod.split)
qed

lemma tpm_parse_generated:
  assumes "tpm_ok lib"
  shows "tpm_parse lib (tpm_loads lib (tpm_dumps lib [(''backend'', J_Text ''tpm''),
      (''private'', J_Text (std_b64encode (fst (tpm_wrap lib k)))), (''public'', J_Text (std_b64encode (snd (tpm_wrap lib k))))])) =
    Inr (tpm_wrap lib k)"
  using assms by (simp add: tpm_ok_def tpm_parse_def tpm_field_def field_bytes_def std_b64_roundtrip rbind_def)

interpretation tpm: keystore tpm_generate_key tpm_sign tpm_init "\<lambda>s. tpm_verify (t_lib s)" tpm_works tpm_sound tpm_opens
proof (unfold_locales, goal_cases)
  case (1 s c ref p s')
  obtain priv pub x y where d: "tpm_wrap (t_lib s) (created_key c) = (priv, pub)" "tpm_point (t_lib s) (created_key c) = (x, y)"
    by (meson surj_pair)
  have k: "ref = tpm_dumps (t_lib s) [(''backend'', J_Text ''tpm''), (''private'', J_Text (std_b64encode priv)), (''public'', J_Text (std_b64encode pub))]"
      "p = ec_public (t_lib s) (int (from_be x)) (int (from_be y))"
    using 1(2) d by (auto simp: tpm_generate_key_def pbind_def pret_def praise_def split: prod.splits sum.splits if_splits)
  have "tpm_parse (t_lib s) (tpm_loads (t_lib s) ref) = Inr (priv, pub)" "tpm_open (t_lib s) priv pub = Tpm_Key (created_key c)"
    using tpm_parse_generated [of "t_lib s" "created_key c"] 1(1) d by (simp_all add: k(1) tpm_sound_def tpm_ok_def, metis fst_conv snd_conv)
  then show ?case
    using tpm_generate_key_lib [of c s] 1(2) d(2) by (auto simp: tpm_opens_def k(2))
next
  case (2 s ref p c m)
  then obtain priv pub k where o: "tpm_parse (t_lib s) (tpm_loads (t_lib s) ref) = Inr (priv, pub)" "tpm_open (t_lib s) priv pub = Tpm_Key k"
      "p = ec_public (t_lib s) (int (from_be (fst (tpm_point (t_lib s) k)))) (int (from_be (snd (tpm_point (t_lib s) k))))"
    unfolding tpm_opens_def by blast
  have "\<exists>s'. tpm_sign c ref m s = (Inr (encode_dss (t_lib s)
      (int (from_be (fst (tpm_ecdsa (t_lib s) (created_k c) k (hash256 (t_lib s) m)))))
      (int (from_be (snd (tpm_ecdsa (t_lib s) (created_k c) k (hash256 (t_lib s) m)))))), s')"
    using 2(3) o(1,2) by (auto simp: tpm_works_def tpm_sign_def tpm_defs split: option.split prod.split)
  then show ?case
    using 2(1) by (auto simp: o(3) tpm_sound_def tpm_ok_def)
next
  case (3 s c r s')
  then show ?case
    using tpm_generate_key_lib [of c s] by (simp add: tpm_sound_def)
next
  case (4 s c r s' ref p)
  then show ?case
    using tpm_generate_key_lib [of c s] by (simp add: tpm_opens_def)
next
  case (5 s c ref' m r' s')
  then show ?case
    using tpm_sign_lib [of c ref' m s] by (simp add: tpm_sound_def)
next
  case (6 s c ref' m r' s' ref p)
  then show ?case
    using tpm_sign_lib [of c ref' m s] by (simp add: tpm_opens_def)
next
  case (7 s)
  then show ?case
    by (simp add: tpm_sound_def tpm_init_def)
next
  case (8 s ref p)
  then show ?case
    by (simp add: tpm_opens_def tpm_init_def)
qed

text \<open>
  C8. A key that was handed out keeps working, in both keystores: after any run of creations,
  signatures, failed ones among them, and restarts of the process, signing with the reference of a key created in it succeeds when disk or TPM work, and
  the signature verifies with the public key that was handed out with the reference.
\<close>

theorem keys_keep_working:
  "(\<forall>s us ks s' ref p c m. sw_sound s \<longrightarrow> key_uses sw_generate_key sw_sign sw_init us s = (ks, s') \<longrightarrow> (ref, p) \<in> set ks \<longrightarrow> disk_ok c \<longrightarrow>
      (\<exists>sig s''. sw_sign c ref m s' = (Inr sig, s'') \<and> ecdsa_verify (sw_lib s) p m sig)) \<and>
   (\<forall>s us ks s' ref p c m. tpm_sound s \<longrightarrow> key_uses tpm_generate_key tpm_sign tpm_init us s = (ks, s') \<longrightarrow> (ref, p) \<in> set ks \<longrightarrow> tpm_works c \<longrightarrow>
      (\<exists>sig s''. tpm_sign c ref m s' = (Inr sig, s'') \<and> tpm_verify (t_lib s) p m sig))"
  using software.keys_survive tpm.keys_survive by blast


text \<open>Libraries that have the laws: a cipher that writes the key in front, a signature that is the key and the message.\<close>

definition sample_dumps :: "(string \<times> json_field) list \<Rightarrow> string" where
  "sample_dumps obj = replicate (to_nat (map (\<lambda>(n, f). (n, case f of J_Text s \<Rightarrow> Some s | J_Other \<Rightarrow> None)) obj)) (CHR ''x'')"

definition sample_loads :: "string \<Rightarrow> json_ref" where
  "sample_loads s =
     Json_Object (map (\<lambda>(n, f). (n, case f of Some t \<Rightarrow> J_Text t | None \<Rightarrow> J_Other)) (from_nat (length s)))"

lemma sample_json: "sample_loads (sample_dumps obj) = Json_Object obj"
  by (auto simp: sample_loads_def sample_dumps_def split: json_field.splits intro!: map_idI)

definition sample_crypto :: "(byte list, byte list) crypto" where
  "sample_crypto =
     \<lparr>json_dumps = sample_dumps, json_loads = sample_loads, private_der = id, load_der = Some, public_of = id,
      ecdsa_sign = (\<lambda>n k m. k @ m), ecdsa_verify = (\<lambda>p m sig. sig = p @ m), gcm_encrypt = (\<lambda>key nonce plain aad. key @ plain),
      gcm_decrypt = (\<lambda>key nonce blob aad. if take 32 blob = key then Gcm_Plain (drop 32 blob) else Gcm_Invalid_Tag)\<rparr>"

definition sample_tpm_lib :: "(byte list, int) tpm_lib" where
  "sample_tpm_lib =
     \<lparr>tpm_dumps = sample_dumps, tpm_loads = sample_loads, tpm_wrap = (\<lambda>k. (k, [])), tpm_unmarshals = (\<lambda>bs. True),
      tpm_open = (\<lambda>priv pub. Tpm_Key priv), tpm_point = (\<lambda>k. (k, [])), ec_public = (\<lambda>x y. x), hash256 = id,
      tpm_ecdsa = (\<lambda>n k h. (k, h)), encode_dss = (\<lambda>r q. [of_int r]), tpm_verify = (\<lambda>p m sig. sig = [of_int p])\<rparr>"

definition sample_sw :: "(byte list, byte list) sw_store" where
  "sample_sw = \<lparr>sw_lib = sample_crypto, master_file = None, master_cached = None\<rparr>"

definition sample_tpm :: "(byte list, int) tpm_store" where
  "sample_tpm = \<lparr>t_lib = sample_tpm_lib, t_ectx = False, t_primary = None, t_live = [], t_next = 0\<rparr>"

definition sample_sw_call :: "256 word \<Rightarrow> byte list sw_call" where
  "sample_sw_call w = \<lparr>drawn_key = [7, 8], drawn_nonce = 5, drawn_id = 6, drawn_master = w, drawn_k = 0, disk_ok = True\<rparr>"

definition sample_tpm_call :: "byte list tpm_call" where
  "sample_tpm_call = \<lparr>esapi_ok = True, primary_ok = True, create_ok = True, load_ok = True, sign_ok = True, flush_ok = True,
     created_key = [7, 8], created_k = 0\<rparr>"

lemma sample_sw_sound: "sw_sound sample_sw"
  by (auto simp: sw_sound_def sample_sw_def crypto_ok_def sample_crypto_def sample_json)

lemma sample_tpm_sound: "tpm_sound sample_tpm"
  by (auto simp: tpm_sound_def sample_tpm_def tpm_ok_def sample_tpm_lib_def sample_json)

lemma sample_generates: "\<exists>ref s. sw_generate_key (sample_sw_call w) sample_sw = (Inr (ref, [7, 8]), s)"
  by (simp add: sw_generate_key_def load_master_key_def sample_sw_call_def sample_sw_def sample_crypto_def pbind_def Let_def)

lemma sample_tpm_generates: "\<exists>ref s. tpm_generate_key sample_tpm_call sample_tpm = (Inr (ref, int (from_be [7, 8])), s)"
  by (simp add: tpm_generate_key_def tpm_defs sample_tpm_call_def sample_tpm_def sample_tpm_lib_def)

theorem keys_keep_working_witness:
  "(\<exists>ref s sig s'. sw_generate_key (sample_sw_call 1) sample_sw = (Inr (ref, [7, 8]), s) \<and>
     sw_sign (sample_sw_call 1) ref [42] s = (Inr sig, s') \<and> sig = [7, 8, 42]) \<and>
   (\<exists>ref s sig s'. tpm_generate_key sample_tpm_call sample_tpm = (Inr (ref, int (from_be [7, 8])), s) \<and>
     tpm_sign sample_tpm_call ref [42] s = (Inr sig, s') \<and> tpm_verify sample_tpm_lib (int (from_be [7, 8])) [42] sig)"
proof
  obtain ref s where g: "sw_generate_key (sample_sw_call 1) sample_sw = (Inr (ref, [7, 8]), s)"
    using sample_generates by blast
  then have u: "key_uses sw_generate_key sw_sign sw_init [New_Key (sample_sw_call 1)] sample_sw = ([(ref, [7, 8])], s)"
    by simp
  obtain sig s' where "sw_sign (sample_sw_call 1) ref [42] s = (Inr sig, s')" "ecdsa_verify (sw_lib sample_sw) [7, 8] [42] sig"
    using keys_keep_working [THEN conjunct1, rule_format, OF sample_sw_sound u, of ref "[7, 8]" "sample_sw_call 1" "[42]"]
    by (auto simp: sample_sw_call_def)
  then show "\<exists>ref s sig s'. sw_generate_key (sample_sw_call 1) sample_sw = (Inr (ref, [7, 8]), s) \<and>
     sw_sign (sample_sw_call 1) ref [42] s = (Inr sig, s') \<and> sig = [7, 8, 42]"
    using g by (auto simp: sample_sw_def sample_crypto_def)
next
  obtain ref s where g: "tpm_generate_key sample_tpm_call sample_tpm = (Inr (ref, int (from_be [7, 8])), s)"
    using sample_tpm_generates by blast
  then have u: "key_uses tpm_generate_key tpm_sign tpm_init [New_Key sample_tpm_call] sample_tpm = ([(ref, int (from_be [7, 8]))], s)"
    by simp
  obtain sig s' where "tpm_sign sample_tpm_call ref [42] s = (Inr sig, s')"
      "tpm_verify (t_lib sample_tpm) (int (from_be [7, 8])) [42] sig"
    using keys_keep_working [THEN conjunct2, rule_format, OF sample_tpm_sound u, of ref "int (from_be [7, 8])" sample_tpm_call "[42]"]
    by (auto simp: sample_tpm_call_def tpm_works_def)
  then show "\<exists>ref s sig s'. tpm_generate_key sample_tpm_call sample_tpm = (Inr (ref, int (from_be [7, 8])), s) \<and>
     tpm_sign sample_tpm_call ref [42] s = (Inr sig, s') \<and> tpm_verify sample_tpm_lib (int (from_be [7, 8])) [42] sig"
    using g by (auto simp: sample_tpm_def)
qed

section \<open>What a reset destroys\<close>

lemma load_master_key_other:
  assumes "current_master s \<noteq> Some k" and "to_be 32 (unat (drawn_master c)) \<noteq> k"
  shows "current_master (snd (load_master_key c s)) \<noteq> Some k" and "fst (load_master_key c s) \<noteq> Inr k"
  using assms by (auto simp: load_master_key_def current_master_def Let_def split: option.splits)

text \<open>A master key that is gone from the disk and from memory.\<close>

definition lost_master :: "byte list \<Rightarrow> ('k, 'p) sw_store \<Rightarrow> bool" where
  "lost_master k s \<longleftrightarrow> master_file s \<noteq> Some k \<and> master_cached s \<noteq> Some k"

lemma lost_master_current: "lost_master k s \<Longrightarrow> current_master s \<noteq> Some k"
  by (auto simp: lost_master_def current_master_def split: option.split)

lemma load_master_key_lost:
  "lost_master k s \<Longrightarrow> to_be 32 (unat (drawn_master c)) \<noteq> k \<Longrightarrow> lost_master k (snd (load_master_key c s))"
  by (auto simp: load_master_key_def lost_master_def Let_def split: option.splits)

lemma uses_lost_master:
  assumes "lost_master k s" and "key_uses sw_generate_key sw_sign sw_init us s = (ks, s')"
    and "\<forall>u \<in> set us. \<forall>c \<in> key_calls u. to_be 32 (unat (drawn_master c)) \<noteq> k"
  shows "lost_master k s'"
proof (rule key_uses_keep [where P = "lost_master k" and C = "{c. to_be 32 (unat (drawn_master c)) \<noteq> k}", OF _ _ _ _ assms(1,2)])
  show "lost_master k (snd (sw_generate_key c s))" if "c \<in> {c. to_be 32 (unat (drawn_master c)) \<noteq> k}" "lost_master k s" for c and s :: "('k, 'p) sw_store"
    using that load_master_key_lost [of k s c] by (simp add: sw_generate_key_state)
  show "lost_master k (snd (sw_sign c ref m s))" if "c \<in> {c. to_be 32 (unat (drawn_master c)) \<noteq> k}" "lost_master k s" for c ref m and s :: "('k, 'p) sw_store"
    using that load_master_key_lost [of k s c] sw_sign_state [of c ref m s] by auto
  show "lost_master k (sw_init s)" if "lost_master k s" for s :: "('k, 'p) sw_store"
    using that by (simp add: lost_master_def sw_init_def)
  show "\<forall>u \<in> set us. key_calls u \<subseteq> {c. to_be 32 (unat (drawn_master c)) \<noteq> k}"
    using assms(3) by blast
qed

lemma load_master_key_result: "sw_sound s \<Longrightarrow> load_master_key c s = (Inr k, s') \<Longrightarrow> length k = 32"
  by (auto simp: load_master_key_def sw_sound_def Let_def split: option.splits if_splits)

lemma load_master_key_lib: "sw_lib (snd (load_master_key c s)) = sw_lib s"
  by (auto simp: load_master_key_def Let_def split: option.split)

lemma sw_lib_run:
  fixes s :: "('k, 'p) sw_store"
  assumes "key_uses sw_generate_key sw_sign sw_init us s = (ks, s')"
  shows "sw_lib s' = sw_lib s"
proof (rule key_uses_keep [where P = "\<lambda>t. sw_lib t = sw_lib s" and C = UNIV, OF _ _ _ _ _ assms])
  show "sw_lib (snd (sw_generate_key c t)) = sw_lib s" if "sw_lib t = sw_lib s" for c and t :: "('k, 'p) sw_store"
    using that load_master_key_lib [of c t] by (simp add: sw_generate_key_state)
  show "sw_lib (snd (sw_sign c ref m t)) = sw_lib s" if "sw_lib t = sw_lib s" for c ref m and t :: "('k, 'p) sw_store"
    using that load_master_key_lib [of c t] sw_sign_state [of c ref m t] by auto
qed (simp_all add: sw_init_def)

text \<open>
  C25. A reset of the software keystore is final: a key created before \<open>destroy_all\<close> cannot sign any more, however the keystore is used before and
  after, as long as the new master keys drawn are not the old one by chance. Signing fails with the keystore's own error.
\<close>

theorem destroyed_keys_stay_closed:
  assumes "sw_sound s" and "sw_generate_key c s = (Inr (ref, p), s1)" and "key_uses sw_generate_key sw_sign sw_init before s1 = (ks, s2)"
    and "sw_destroy_all d s2 = (Inr (), s3)" and "key_uses sw_generate_key sw_sign sw_init after s3 = (ks', s4)"
    and "\<forall>u \<in> set (after @ [Use_Key c' ref m]). \<forall>d \<in> key_calls u. Some (to_be 32 (unat (drawn_master d))) \<noteq> current_master s1"
    and "disk_ok c'"
  shows "fst (sw_sign c' ref m s4) = Inl Key_Error"
proof -
  obtain master where g: "load_master_key c s = (Inr master, s1)"
    "ref = json_dumps (sw_lib s) [(''backend'', J_Text ''software''), (''id'', J_Text (b64encode (to_be 12 (unat (drawn_id c))))),
      (''nonce'', J_Text (std_b64encode (to_be 12 (unat (drawn_nonce c))))),
      (''blob'', J_Text (std_b64encode (gcm_encrypt (sw_lib s) master (to_be 12 (unat (drawn_nonce c)))
         (private_der (sw_lib s) (drawn_key c)) (b64encode (to_be 12 (unat (drawn_id c)))))))]"
    using assms(2) by (rule sw_generate_key_Inr)
  have "sw_sound s1"
    using software.generate_keeps [OF assms(1,2)] by blast
  then have "sw_sound s2"
    using software.uses_keep [OF _ assms(3)] by blast
  then have "sw_sound s3"
    using assms(4) by (simp add: sw_destroy_all_def sw_sound_def split: if_splits) force
  then have sound: "sw_sound s4"
    using software.uses_keep [OF _ assms(5)] by blast
  have "sw_lib s3 = sw_lib s2"
    using assms(4) by (auto simp: sw_destroy_all_def split: if_splits)
  then have lib: "sw_lib s4 = sw_lib s"
    using sw_lib_run [OF assms(3)] sw_lib_run [OF assms(5)] load_master_key_keeps(1) [OF g(1)] by simp
  have cur: "current_master s1 = Some master" and len: "length master = 32"
    using load_master_key_keeps(3) [OF g(1)] load_master_key_result [OF assms(1) g(1)] by simp_all
  have draws: "\<forall>u \<in> set after. \<forall>d \<in> key_calls u. to_be 32 (unat (drawn_master d)) \<noteq> master" "to_be 32 (unat (drawn_master c')) \<noteq> master"
    using assms(6) cur by auto
  have "lost_master master s3"
    using assms(4) by (auto simp: sw_destroy_all_def lost_master_def split: if_splits)
  then have other: "current_master s4 \<noteq> Some master"
    using uses_lost_master assms(5) draws(1) lost_master_current by blast
  show ?thesis
  proof (cases "load_master_key c' s4")
    case (Pair r s5)
    show ?thesis
    proof (cases r)
      case (Inl e)
      then have "e = Key_Error"
        using Pair assms(7) by (auto simp: load_master_key_def Let_def split: option.splits if_splits)
      then show ?thesis
        using Pair Inl sw_parse_generated [of "sw_lib s"] assms(1) lib
        by (simp add: sw_sign_def sw_decrypt_def pbind_def g(2) sw_sound_def)
    next
      case (Inr k)
      then have "k \<noteq> master" "length k = 32"
        using load_master_key_other(2) [OF other draws(2)] load_master_key_result [OF sound] Pair by auto
      then show ?thesis
        using Pair Inr sw_parse_generated [of "sw_lib s"] assms(1) lib len
        by (simp add: sw_sign_def sw_decrypt_def pbind_def g(2) sw_sound_def crypto_ok_def)
    qed
  qed
qed


lemma sample_current: "sw_generate_key (sample_sw_call w) sample_sw = (r, s) \<Longrightarrow> current_master s = Some (to_be 32 (unat w))"
  using sw_generate_key_state [of "sample_sw_call w" sample_sw]
  by (simp add: load_master_key_def sample_sw_call_def sample_sw_def current_master_def Let_def)

theorem destroyed_keys_stay_closed_witness:
  "\<exists>ref s1 s3. sw_generate_key (sample_sw_call 1) sample_sw = (Inr (ref, [7, 8]), s1) \<and>
     sw_destroy_all (sample_sw_call 1) s1 = (Inr (), s3) \<and> fst (sw_sign (sample_sw_call 2) ref [42] s3) = Inl Key_Error"
proof -
  obtain ref s1 where g: "sw_generate_key (sample_sw_call 1) sample_sw = (Inr (ref, [7, 8]), s1)"
    using sample_generates by blast
  have d: "sw_destroy_all (sample_sw_call 1) s1 = (Inr (), s1\<lparr>master_file := None, master_cached := None\<rparr>)"
    by (simp add: sw_destroy_all_def sample_sw_call_def)
  have "from_be (to_be 32 2) = 2" "from_be (to_be 32 1) = 1"
    by (simp_all only: from_be_def to_be_def rev_rev_ident) (simp_all add: from_to_le del: to_le.simps)
  then have "to_be 32 2 \<noteq> to_be 32 1"
    by fastforce
  then have "\<forall>u \<in> set ([] @ [Use_Key (sample_sw_call 2) ref [42]]). \<forall>d \<in> key_calls u. Some (to_be 32 (unat (drawn_master d))) \<noteq> current_master s1"
    using sample_current [OF g] by (simp add: sample_sw_call_def)
  from destroyed_keys_stay_closed [OF sample_sw_sound g, of "[]" "[]" s1, OF _ d _ this] g d
  show ?thesis
    by (auto simp: sample_sw_call_def)
qed

section \<open>The slots of the TPM\<close>

text \<open>Between two calls at most the primary key is loaded, and only while the connection is open.\<close>

definition slots_tidy :: "('k, 'p) tpm_store \<Rightarrow> bool" where
  "slots_tidy s \<longleftrightarrow>
     (case t_primary s of None \<Rightarrow> t_live s = [] | Some h \<Rightarrow> t_live s = [h] \<and> h < t_next s \<and> t_ectx s)"

lemma context_tidy: "slots_tidy s \<Longrightarrow> tpm_context c s = (r, s') \<Longrightarrow> slots_tidy s'"
  by (auto simp: slots_tidy_def tpm_context_def split: option.splits if_splits)

lemma primary_tidy: "slots_tidy s \<Longrightarrow> primary_handle c s = (r, s') \<Longrightarrow> slots_tidy s'"
  by (auto simp: slots_tidy_def tpm_defs split: option.splits if_splits)

lemma primary_loaded: "primary_handle c s = (Inr h, s') \<Longrightarrow> t_primary s' = Some h"
  by (auto simp: tpm_defs split: option.splits if_splits)

lemma tpm_generate_key_tidy:
  assumes "slots_tidy s"
  shows "slots_tidy (snd (tpm_generate_key c s))"
proof -
  obtain r s1 where c: "tpm_context c s = (r, s1)"
    by fastforce
  obtain r2 s2 where p: "primary_handle c s1 = (r2, s2)"
    by fastforce
  have "slots_tidy s1" "slots_tidy s2"
    using context_tidy [OF assms c] primary_tidy [OF _ p] by simp_all
  then show ?thesis
    using c p by (simp add: tpm_generate_key_def pbind_def pret_def praise_def split: sum.split prod.split)
qed

text \<open>A handle that \<open>tpm_load\<close> adds is one more than the primary; without one, nothing is added.\<close>

lemma tpm_load_tidy:
  assumes "slots_tidy s" and "tpm_load c ref s = (r, s')"
  shows "(case r of
      Inl _ \<Rightarrow> slots_tidy s'
    | Inr (h, k) \<Rightarrow> (\<exists>p. t_primary s' = Some p \<and> t_live s' = [h, p] \<and> p < h \<and> h < t_next s' \<and> t_ectx s'))"
proof (cases "tpm_parse (t_lib s) (tpm_loads (t_lib s) ref)")
  case (Inl e)
  then show ?thesis
    using assms by (auto simp: tpm_load_def)
next
  case (Inr pp)
  obtain priv pub where pp: "pp = (priv, pub)"
    by fastforce
  obtain r1 s1 where c: "tpm_context c s = (r1, s1)"
    by fastforce
  obtain r2 s2 where p: "primary_handle c s1 = (r2, s2)"
    by fastforce
  have t: "slots_tidy s1" "slots_tidy s2"
    using context_tidy [OF assms(1) c] primary_tidy [OF _ p] by simp_all
  show ?thesis
    using assms(2) t Inr pp c p primary_loaded [of c s1 _ s2]
    by (auto simp: tpm_load_def pbind_def pret_def praise_def new_handle_def slots_tidy_def
        split: sum.splits tpm_loaded.splits if_splits option.splits)
qed

lemma tpm_sign_tidy:
  assumes "slots_tidy s" and "flush_ok c"
  shows "slots_tidy (snd (tpm_sign c ref m s))"
proof -
  obtain r s1 where c: "tpm_context c s = (r, s1)"
    by fastforce
  obtain r2 s2 where l: "tpm_load c ref s1 = (r2, s2)"
    by fastforce
  have t: "slots_tidy s1"
    using context_tidy [OF assms(1) c] .
  show ?thesis
    using c l t tpm_load_tidy [OF t l] assms(2)
    by (auto simp: tpm_sign_def pbind_def flushed_def slots_tidy_def split: sum.splits prod.splits option.splits)
qed

lemma init_tidy: "slots_tidy (tpm_init s)"
  by (simp add: slots_tidy_def tpm_init_def)

text \<open>
  C40. The TPM's slots do not fill up: over any run of creations, signatures, successful or not, and restarts, whose flushes work, no handle but the
  primary's stays loaded between calls, and closing the keystore leaves none.
\<close>

theorem tpm_slots_bounded:
  assumes "slots_tidy s" and "key_uses tpm_generate_key tpm_sign tpm_init us s = (ks, s')"
    and "\<forall>u \<in> set us. \<forall>c \<in> key_calls u. flush_ok c"
  shows "slots_tidy s' \<and> length (t_live s') \<le> 1 \<and> (flush_ok c \<longrightarrow> t_live (tpm_close c s') = [])"
proof -
  have "slots_tidy s'"
  proof (rule key_uses_keep [where P = slots_tidy and C = "{c. flush_ok c}", OF _ _ _ _ assms(1,2)])
    show "\<forall>u \<in> set us. key_calls u \<subseteq> {c. flush_ok c}"
      using assms(3) by blast
  qed (simp_all add: tpm_generate_key_tidy tpm_sign_tidy init_tidy)
  then show ?thesis
    by (auto simp: slots_tidy_def tpm_close_def split: option.splits)
qed

theorem tpm_slots_bounded_witness:
  "slots_tidy sample_tpm \<and>
   t_live (tpm_close sample_tpm_call (snd (key_uses tpm_generate_key tpm_sign tpm_init [New_Key sample_tpm_call, Use_Key sample_tpm_call [] [1]] sample_tpm))) = []"
proof -
  obtain ks s' where u: "key_uses tpm_generate_key tpm_sign tpm_init [New_Key sample_tpm_call, Use_Key sample_tpm_call [] [1]] sample_tpm = (ks, s')"
    by fastforce
  have f: "flush_ok sample_tpm_call"
    by (simp add: sample_tpm_call_def)
  have t: "slots_tidy sample_tpm"
    by (simp add: slots_tidy_def sample_tpm_def)
  have "t_live (tpm_close sample_tpm_call s') = []"
    using tpm_slots_bounded [OF t u, of sample_tpm_call] f by simp
  then show ?thesis
    using t unfolding u by simp
qed

end
