(* ===== verification/Passkey_Cli.thy ===== *)
theory Passkey_Cli
  imports Command_Line Passkey_Service Keystores
begin

text \<open>
  \<^verbatim>\<open>cli/webauthn.py\<close>, \<open>create_keystore\<close> of \<^verbatim>\<open>webauthn/__init__.py\<close> and the start of
  \<^verbatim>\<open>webauthn/service.py\<close>: the passkey commands, which put the authenticator, the credential store and a keystore together.

  Each command is a process of its own, and they run one after the other; \<open>run\<close> is the service until it ends. What lies on the disk between two of them is the state file, the users'
  credential files, the master key of the software keystore and the face models. A command ends with the exit code of the process; an
  exception that nothing catches is \<open>Uncaught\<close>. Output is left out.
\<close>

section \<open>Either keystore\<close>

text \<open>The libraries: those of the parts, COSE keys, and the directory of the configuration.\<close>

record ('k, 't, 'p) passkey_libs =
  l_fido :: fido
  l_cose :: "'p \<Rightarrow> pyval"
  l_cose_verify :: "pyval \<Rightarrow> byte list \<Rightarrow> byte list \<Rightarrow> bool"
  l_crypto :: "('k, 'p) crypto"
  l_tpm :: "('t, 'p) tpm_lib"
  l_config_dir :: string

datatype ('k, 't, 'p) keys = Software "('k, 'p) sw_store" | Tpm "('t, 'p) tpm_store"

type_synonym ('k, 't) keys_call = "'k sw_call \<times> 't tpm_call"

definition in_keys :: "('s \<Rightarrow> 'u) \<Rightarrow> ('s, ks_exc, 'a) block \<Rightarrow> 's \<Rightarrow> (ks_exc + 'a) \<times> 'u" where
  "in_keys C m s = (case m s of (r, s') \<Rightarrow> (r, C s'))"

fun keys_generate :: "('k, 't) keys_call \<Rightarrow> (('k, 't, 'p) keys, ks_exc, string \<times> 'p) block" where
  "keys_generate (c, d) (Software s) = in_keys Software (sw_generate_key c) s"
| "keys_generate (c, d) (Tpm s) = in_keys Tpm (tpm_generate_key d) s"

fun keys_sign :: "('k, 't) keys_call \<Rightarrow> string \<Rightarrow> byte list \<Rightarrow> (('k, 't, 'p) keys, ks_exc, byte list) block" where
  "keys_sign (c, d) ref m (Software s) = in_keys Software (sw_sign c ref m) s"
| "keys_sign (c, d) ref m (Tpm s) = in_keys Tpm (tpm_sign d ref m) s"

text \<open>What the calls of a command leave of its keystore.\<close>

fun keys_after :: "('k, 't) keys_call \<Rightarrow> keystore_call list \<Rightarrow> ('k, 't, 'p) keys \<Rightarrow> ('k, 't, 'p) keys" where
  "keys_after c [] s = s"
| "keys_after c (Generates # ops) s = keys_after c ops (snd (keys_generate c s))"
| "keys_after c (Signs ref m # ops) s = keys_after c ops (snd (keys_sign c ref m s))"

fun keys_destroy :: "('k, 't) keys_call \<Rightarrow> ('k, 't, 'p) keys \<Rightarrow> ('k, 't, 'p) keys" where
  "keys_destroy (c, d) (Software s) = Software (snd (sw_destroy_all c s))"
| "keys_destroy (c, d) (Tpm s) = Tpm (snd (tpm_destroy_all s))"

text \<open>What the keystore leaves on the disk for the next process.\<close>

fun master_after :: "byte list option \<Rightarrow> ('k, 't, 'p) keys \<Rightarrow> byte list option" where
  "master_after old (Software s) = master_file s"
| "master_after old (Tpm s) = old"

section \<open>The world of a command\<close>

text \<open>\<open>state.json\<close>: missing, not JSON, or the keystore it names (\<open>None\<close> without such a field).\<close>

datatype state_file = No_State | Bad_State | State_Doc "string option"

record passkey_world =
  pw_state :: state_file
  pw_creds :: "string \<Rightarrow> cstore"
  pw_master :: "byte list option"
  pw_models :: store

text \<open>
  What the service meets: the settings and sessions that decide its user (\<open>None\<close> where reading the option raises), the device, the complete requests that
  arrive until it is stopped, each with what it meets, and whether it ends by an exception (writing a reply to the device is not guarded).
\<close>

datatype uhid_open = Opened | No_Permission | No_Device | Open_Fails

record ('k, 't) asked =
  rq_bytes :: "byte list"
  rq_face :: vresult
  rq_now :: real
  rq_wall :: int
  rq_id :: "byte list"
  rq_keys :: "('k, 't) keys_call"

record ('k, 't) service_call =
  sv_enabled :: "bool option"
  sv_configured :: string
  sv_listing :: "string option"
  sv_show :: "string \<Rightarrow> string option"
  sv_device :: uhid_open
  sv_asked :: "('k, 't) asked list"
  sv_crashes :: bool

text \<open>The arguments of a command and what it meets.\<close>

record ('k, 't) passkey_call =
  pc_user :: string
  pc_args :: "string list"
  pc_euid :: nat
  pc_fido_installed :: bool
  pc_tpm_available :: bool
  pc_tpm_usable :: bool
  pc_settings_ok :: bool
  pc_dir_ok :: bool
  pc_face :: vresult
  pc_now :: real
  pc_wall :: int
  pc_id :: "byte list"
  pc_challenge :: string
  pc_keys :: "('k, 't) keys_call"
  pc_service :: "('k, 't) service_call"

type_synonym 'a passkey_cmd = "(passkey_world, cli_exit, 'a) block"

definition webauthn_credentials_path :: "string \<Rightarrow> string \<Rightarrow> string" where
  "webauthn_credentials_path config_dir user = path_join (path_join (path_join config_dir ''webauthn'') ''credentials'') (user @ ''.json'')"

text \<open>\<open>str.encode()\<close>: UTF-8, here of characters below 256.\<close>

definition utf8 :: "string \<Rightarrow> byte list" where
  "utf8 s = concat (map (\<lambda>c. let n = of_char c :: nat in
     if n < 128 then [of_nat n] else [of_nat (192 + n div 64), of_nat (128 + n mod 64)]) s)"

text \<open>\<open>CredentialStore(path)\<close> loads the file; its exceptions are not caught.\<close>

definition open_store :: "string \<Rightarrow> cstore passkey_cmd" where
  "open_store path w =
     (case cs_load ((pw_creds w path)\<lparr>credentials := []\<rparr>) of
        (Inl _, s) \<Rightarrow> (Inl Uncaught, w)
      | (Inr _, s) \<Rightarrow> (Inr s, w))"

definition create_keystore :: "('k, 't, 'p) passkey_libs \<Rightarrow> ('k, 't) passkey_call \<Rightarrow> string \<Rightarrow> ('k, 't, 'p) keys passkey_cmd" where
  "create_keystore l c kind w =
     (if kind = ''tpm'' then
        (if pc_tpm_available c
         then (Inr (Tpm \<lparr>t_lib = l_tpm l, t_ectx = False, t_primary = None, t_live = [], t_next = 0\<rparr>), w)
         else (Inl Uncaught, w))
      else (Inr (Software \<lparr>sw_lib = l_crypto l, master_file = pw_master w, master_cached = None\<rparr>), w))"

text \<open>\<open>load_state\<close>: \<open>None\<close> when there is no file.\<close>

definition passkey_state :: "string option option passkey_cmd" where
  "passkey_state w =
     (case pw_state w of
        No_State \<Rightarrow> (Inr None, w)
      | Bad_State \<Rightarrow> (Inl Uncaught, w)
      | State_Doc kind \<Rightarrow> (Inr (Some kind), w))"

definition require_state :: "string option passkey_cmd" where
  "require_state = pbind passkey_state (\<lambda>s. case s of None \<Rightarrow> praise (Exit 1) | Some kind \<Rightarrow> pret kind)"

definition state_kind :: "string option \<Rightarrow> string passkey_cmd" where
  "state_kind k = (case k of None \<Rightarrow> praise Uncaught | Some kind \<Rightarrow> pret kind)"

definition new_authenticator :: "real \<Rightarrow> cstore \<Rightarrow> auth" where
  "new_authenticator t s =
     \<lparr>a_store = s, started = t, next_assertions = [], next_time = 0, signatures = [], keystore_calls = [], keys_emptied = 0\<rparr>"

definition make_authenticator ::
    "('k, 't, 'p) passkey_libs \<Rightarrow> ('k, 't) passkey_call \<Rightarrow> string option \<Rightarrow> (auth \<times> ('k, 't, 'p) keys) passkey_cmd" where
  "make_authenticator l c kind =
     (if \<not> pc_settings_ok c then praise Uncaught
      else
        pbind (open_store (webauthn_credentials_path (l_config_dir l) (pc_user c))) (\<lambda>s.
        pbind (state_kind kind) (\<lambda>k.
        pbind (create_keystore l c k) (\<lambda>keys.
        pret (new_authenticator (pc_now c) s, keys)))))"

text \<open>What the authenticator meets: keys are created in one state of the keystore, and signed with in \<open>signing\<close>.\<close>

definition passkey_ceremony ::
    "('k, 't, 'p) passkey_libs \<Rightarrow> ('k, 't) passkey_call \<Rightarrow> ('k, 't, 'p) keys \<Rightarrow> ('k, 't, 'p) keys \<Rightarrow> ceremony" where
  "passkey_ceremony l c keys signing =
     \<lparr>face = pc_face c, now = pc_now c, wall = pc_wall c,
      fresh_key = (case fst (keys_generate (pc_keys c) keys) of Inl _ \<Rightarrow> None | Inr (ref, p) \<Rightarrow> Some (ref, l_cose l p)),
      fresh_id = pc_id c,
      sign_with = (\<lambda>ref m. case fst (keys_sign (pc_keys c) ref m signing) of Inl _ \<Rightarrow> None | Inr sig \<Rightarrow> Some sig)\<rparr>"

text \<open>A command of the authenticator with its effects on the disk; a CTAP error is reported with exit code 1.\<close>

definition run_ctap ::
    "('k, 't, 'p) passkey_libs \<Rightarrow> ('k, 't) passkey_call \<Rightarrow> pyval command \<Rightarrow> auth \<Rightarrow> ('k, 't, 'p) keys \<Rightarrow> pyval passkey_cmd" where
  "run_ctap l c m a keys w =
     (case m a of (r, a') \<Rightarrow>
        (case r of Inl (Ctap _) \<Rightarrow> Inl (Exit 1) | Inl Raised \<Rightarrow> Inl Uncaught | Inr x \<Rightarrow> Inr x,
         w\<lparr>pw_creds := (pw_creds w)(webauthn_credentials_path (l_config_dir l) (pc_user c) := a_store a'),
           pw_master := master_after (pw_master w) (keys_after (pc_keys c) (keystore_calls a') keys)\<rparr>))"

section \<open>The commands\<close>

definition passkey_init :: "('k, 't) passkey_call \<Rightarrow> unit passkey_cmd" where
  "passkey_init c =
     pbind passkey_state (\<lambda>s.
       if s \<noteq> None then praise (Exit 1)
       else
         let requested = (case pc_args c of _ # r # _ \<Rightarrow> Some r | _ \<Rightarrow> None) in
         if requested \<notin> {None, Some ''tpm'', Some ''software''} then praise (Exit 1)
         else if requested = Some ''tpm'' \<and> \<not> pc_tpm_usable c then praise (Exit 1)
         else
           let kind = (case requested of Some k \<Rightarrow> k | None \<Rightarrow> if pc_tpm_usable c then ''tpm'' else ''software'') in
           if \<not> pc_dir_ok c then praise Uncaught
           else (\<lambda>w. (Inr (), w\<lparr>pw_state := State_Doc (Some kind)\<rparr>)))"

definition passkey_status :: "('k, 't, 'p) passkey_libs \<Rightarrow> ('k, 't) passkey_call \<Rightarrow> unit passkey_cmd" where
  "passkey_status l c =
     pbind passkey_state (\<lambda>s. case s of
         None \<Rightarrow> pret ()
       | Some kind \<Rightarrow>
           pbind (state_kind kind) (\<lambda>_.
           pbind (open_store (webauthn_credentials_path (l_config_dir l) (pc_user c))) (\<lambda>_ w.
             (case load_models (pc_user c) (pw_models w) of
                (Inl _, ms) \<Rightarrow> (Inl Uncaught, w\<lparr>pw_models := ms\<rparr>)
              | (Inr _, ms) \<Rightarrow> (Inr (), w\<lparr>pw_models := ms\<rparr>)))))"

definition passkey_list :: "('k, 't, 'p) passkey_libs \<Rightarrow> ('k, 't) passkey_call \<Rightarrow> (nat \<times> credential) list passkey_cmd" where
  "passkey_list l c =
     pbind require_state (\<lambda>_.
     pbind (open_store (webauthn_credentials_path (l_config_dir l) (pc_user c))) (\<lambda>s.
     pret (enumerate 0 (credentials s))))"

text \<open>Indexing a Python list; a negative index counts from the end.\<close>

definition py_index :: "int \<Rightarrow> 'a list \<Rightarrow> 'a option" where
  "py_index i xs =
     (if 0 \<le> i \<and> i < int (length xs) then Some (xs ! nat i)
      else if i < 0 \<and> - int (length xs) \<le> i then Some (xs ! nat (int (length xs) + i))
      else None)"

definition passkey_remove :: "('k, 't, 'p) passkey_libs \<Rightarrow> ('k, 't) passkey_call \<Rightarrow> unit passkey_cmd" where
  "passkey_remove l c =
     (let path = webauthn_credentials_path (l_config_dir l) (pc_user c) in
      pbind require_state (\<lambda>_.
        (case pc_args c of
           _ # arg # _ \<Rightarrow>
             pbind (open_store path) (\<lambda>s.
               (case Option.bind (int_of_dec (strip arg)) (\<lambda>i. py_index i (credentials s)) of
                  None \<Rightarrow> praise (Exit 1)
                | Some d \<Rightarrow> (\<lambda>w.
                    (case cs_remove (credential_id d) s of
                       (Inl _, s') \<Rightarrow> (Inl Uncaught, w\<lparr>pw_creds := (pw_creds w)(path := s')\<rparr>)
                     | (Inr _, s') \<Rightarrow> (Inr (), w\<lparr>pw_creds := (pw_creds w)(path := s')\<rparr>)))))
         | _ \<Rightarrow> praise (Exit 1))))"

definition TEST_SITE :: string where "TEST_SITE = ''linuxhello.test''"

definition register_params :: "('k, 't, 'p) passkey_libs \<Rightarrow> string \<Rightarrow> (pyval \<times> pyval) list" where
  "register_params l user =
     [(PInt 1, PBytes (sha256 (l_fido l) ''linux-hello webauthn register test'')),
      (PInt 2, PMap [(PText ''id'', PText TEST_SITE), (PText ''name'', PText ''Linux Hello local test'')]),
      (PInt 3, PMap [(PText ''id'', PBytes (utf8 user)), (PText ''name'', PText user), (PText ''displayName'', PText user)]),
      (PInt 4, PList [PMap [(PText ''type'', PText ''public-key''), (PText ''alg'', PInt (- 7))]]),
      (PInt 7, PMap [(PText ''rk'', PBool True)])]"

definition passkey_register :: "('k, 't, 'p) passkey_libs \<Rightarrow> ('k, 't) passkey_call \<Rightarrow> unit passkey_cmd" where
  "passkey_register l c =
     pbind require_state (\<lambda>kind.
     pbind (make_authenticator l c kind) (\<lambda>(a, keys).
     pbind (run_ctap l c
         (make_credential (l_fido l) (passkey_ceremony l c keys (snd (keys_generate (pc_keys c) keys))) (register_params l (pc_user c)))
         a keys) (\<lambda>_.
     pret ())))"

text \<open>\<open>response[1]["id"]\<close>, \<open>response[2]\<close> and \<open>response[3]\<close>.\<close>

definition assertion_fields :: "pyval \<Rightarrow> (byte list \<times> byte list \<times> byte list) option" where
  "assertion_fields r =
     (case r of
        PMap m \<Rightarrow> (case (dget (PInt 1) m, dget (PInt 2) m, dget (PInt 3) m) of
            (Some (PMap cred), Some (PBytes data), Some (PBytes sig)) \<Rightarrow>
              (case dget (PText ''id'') cred of Some (PBytes i) \<Rightarrow> Some (i, data, sig) | _ \<Rightarrow> None)
          | _ \<Rightarrow> None)
      | _ \<Rightarrow> None)"

text \<open>What the website does: the signature has to verify with the public key stored at registration; otherwise \<open>verify\<close> raises.\<close>

definition check_assertion :: "('k, 't, 'p) passkey_libs \<Rightarrow> credential list \<Rightarrow> byte list \<Rightarrow> pyval \<Rightarrow> bool" where
  "check_assertion l cs cdh r =
     (case assertion_fields r of
        None \<Rightarrow> False
      | Some (i, data, sig) \<Rightarrow>
          (case find_by_id i cs of
             None \<Rightarrow> False
           | Some d \<Rightarrow>
               (case cbor_decode (l_fido l) (cose_public_key d) of
                  None \<Rightarrow> False
                | Some key \<Rightarrow> l_cose_verify l key (data @ cdh) sig)))"

definition passkey_authenticate :: "('k, 't, 'p) passkey_libs \<Rightarrow> ('k, 't) passkey_call \<Rightarrow> unit passkey_cmd" where
  "passkey_authenticate l c =
     (let challenge_hash = sha256 (l_fido l) (pc_challenge c) in
      pbind require_state (\<lambda>kind.
      pbind (make_authenticator l c kind) (\<lambda>(a, keys).
      pbind (run_ctap l c
          (get_assertion (l_fido l) (passkey_ceremony l c keys keys) [(PInt 1, PText TEST_SITE), (PInt 2, PBytes challenge_hash)])
          a keys) (\<lambda>response.
      pbind (open_store (webauthn_credentials_path (l_config_dir l) (pc_user c))) (\<lambda>s.
      if check_assertion l (credentials s) challenge_hash response then pret () else praise Uncaught)))))"

text \<open>\<open>run_service\<close> up to its loop, which is \<open>pump\<close>.\<close>

definition service_user :: "('k, 't) service_call \<Rightarrow> string" where
  "service_user e = resolve_user (sv_configured e) (sv_listing e) (sv_show e)"

definition run_service ::
    "('k, 't, 'p) passkey_libs \<Rightarrow> ('k, 't) passkey_call \<Rightarrow> string option \<Rightarrow> (auth \<times> ('k, 't, 'p) keys) passkey_cmd" where
  "run_service l c kind =
     (let e = pc_service c; user = service_user e in
      case sv_enabled e of
        None \<Rightarrow> praise Uncaught
      | Some False \<Rightarrow> praise (Exit 1)
      | Some True \<Rightarrow>
          if user = [] then praise (Exit 1)
          else pbind (make_authenticator l (c\<lparr>pc_user := user\<rparr>) kind) (\<lambda>(a, keys).
            (case sv_device e of
               Opened \<Rightarrow> pret (a, keys)
             | No_Permission \<Rightarrow> praise (Exit 1)
             | No_Device \<Rightarrow> praise (Exit 1)
             | Open_Fails \<Rightarrow> praise Uncaught)))"

text \<open>A request: the authenticator's answer, then what its calls leave of the keystore. A new key is signed with right after it was created.\<close>

definition asked_call :: "('k, 't) passkey_call \<Rightarrow> ('k, 't) asked \<Rightarrow> ('k, 't) passkey_call" where
  "asked_call c q = c\<lparr>pc_face := rq_face q, pc_now := rq_now q, pc_wall := rq_wall q, pc_id := rq_id q, pc_keys := rq_keys q\<rparr>"

definition serve_request ::
    "('k, 't, 'p) passkey_libs \<Rightarrow> ('k, 't) passkey_call \<Rightarrow> ('k, 't) asked \<Rightarrow> auth \<times> ('k, 't, 'p) keys \<Rightarrow> auth \<times> ('k, 't, 'p) keys" where
  "serve_request l c q ak =
     (let (a, keys) = ak; d = asked_call c q;
          signing = (if take 1 (rq_bytes q) = [CMD_MAKE_CREDENTIAL] then snd (keys_generate (pc_keys d) keys) else keys);
          a' = snd (handle_cbor (l_fido l) (passkey_ceremony l d keys signing) (rq_bytes q) (a\<lparr>keystore_calls := []\<rparr>));
          keys' = keys_after (pc_keys d) (keystore_calls a') keys
      in (a', if keys_emptied a' = keys_emptied a then keys' else keys_destroy (pc_keys d) keys'))"

text \<open>The service until it ends: by a signal, which closes the device, or by an exception.\<close>

definition serve_requests ::
    "('k, 't, 'p) passkey_libs \<Rightarrow> ('k, 't) passkey_call \<Rightarrow> auth \<times> ('k, 't, 'p) keys \<Rightarrow> unit passkey_cmd" where
  "serve_requests l c ak w =
     (let e = pc_service c; (a, keys) = fold (serve_request l c) (sv_asked e) ak in
      (if sv_crashes e then Inl Uncaught else Inr (),
       w\<lparr>pw_creds := (pw_creds w)(webauthn_credentials_path (l_config_dir l) (service_user e) := a_store a),
         pw_master := master_after (pw_master w) keys\<rparr>))"

definition passkey_run :: "('k, 't, 'p) passkey_libs \<Rightarrow> ('k, 't) passkey_call \<Rightarrow> unit passkey_cmd" where
  "passkey_run l c = pbind require_state (\<lambda>kind. pbind (run_service l c kind) (serve_requests l c))"

text \<open>The script: root only and not for root, the optional package first, then the action.\<close>

definition passkey_action :: "('k, 't, 'p) passkey_libs \<Rightarrow> ('k, 't) passkey_call \<Rightarrow> unit passkey_cmd" where
  "passkey_action l c =
     (let action = (case pc_args c of [] \<Rightarrow> ''status'' | x # _ \<Rightarrow> x) in
      if pc_euid c \<noteq> 0 \<or> pc_user c = ''root'' then praise (Exit 1)
      else if \<not> pc_fido_installed c then praise (Exit 1)
      else if action = ''init'' then passkey_init c
      else if action = ''status'' then passkey_status l c
      else if action = ''list'' then pbind (passkey_list l c) (\<lambda>_. pret ())
      else if action = ''remove'' then passkey_remove l c
      else if action = ''register'' then passkey_register l c
      else if action = ''authenticate'' then passkey_authenticate l c
      else if action = ''run'' then passkey_run l c
      else praise (Exit 1))"

text \<open>\<^verbatim>\<open>webauthn_daemon.py\<close>: \<open>main\<close>, the service as a program of its own.\<close>

definition webauthn_main :: "('k, 't, 'p) passkey_libs \<Rightarrow> ('k, 't) passkey_call \<Rightarrow> unit passkey_cmd" where
  "webauthn_main l c = (if \<not> pc_fido_installed c then praise (Exit 1) else passkey_run l c)"

section \<open>Either keystore keeps the contract\<close>

fun keys_restart :: "('k, 't, 'p) keys \<Rightarrow> ('k, 't, 'p) keys" where
  "keys_restart (Software s) = Software (sw_init s)"
| "keys_restart (Tpm s) = Tpm (tpm_init s)"

fun keys_verifies :: "('k, 't, 'p) keys \<Rightarrow> 'p \<Rightarrow> byte list \<Rightarrow> byte list \<Rightarrow> bool" where
  "keys_verifies (Software s) = ecdsa_verify (sw_lib s)"
| "keys_verifies (Tpm s) = tpm_verify (t_lib s)"

fun keys_works :: "('k, 't) keys_call \<Rightarrow> bool" where
  "keys_works (c, d) = (disk_ok c \<and> tpm_works d)"

fun keys_sound :: "('k, 't, 'p) keys \<Rightarrow> bool" where
  "keys_sound (Software s) = sw_sound s"
| "keys_sound (Tpm s) = tpm_sound s"

fun keys_opens :: "('k, 't, 'p) keys \<Rightarrow> string \<Rightarrow> 'p \<Rightarrow> bool" where
  "keys_opens (Software s) = sw_opens s"
| "keys_opens (Tpm s) = tpm_opens s"

lemma in_keys_eq: "in_keys C m s = (r, k) \<longleftrightarrow> (\<exists>s'. m s = (r, s') \<and> k = C s')"
  by (auto simp: in_keys_def split: prod.split)

interpretation either: keystore keys_generate keys_sign keys_restart keys_verifies keys_works keys_sound keys_opens
proof (unfold_locales, goal_cases)
  case (1 s c ref p s')
  then show ?case
    by (cases c; cases s) (auto simp: in_keys_eq dest: software.generate_opens tpm.generate_opens)
next
  case (2 s ref p c m)
  obtain x y where c: "c = (x, y)"
    by (cases c)
  show ?case
  proof (cases s)
    case (Software t)
    then obtain sig t' where "sw_sign x ref m t = (Inr sig, t')" "ecdsa_verify (sw_lib t) p m sig"
      using software.sign_verifies [of t ref p x m] 2 c by auto
    then show ?thesis
      using Software c by (simp add: in_keys_def)
  next
    case (Tpm t)
    then obtain sig t' where "tpm_sign y ref m t = (Inr sig, t')" "tpm_verify (t_lib t) p m sig"
      using tpm.sign_verifies [of t ref p y m] 2 c by auto
    then show ?thesis
      using Tpm c by (simp add: in_keys_def)
  qed
next
  case (3 s c r s')
  then show ?case
    by (cases c; cases s) (auto simp: in_keys_eq dest: software.generate_keeps tpm.generate_keeps)
next
  case (4 s c r s' ref p)
  then show ?case
    by (cases c; cases s) (auto simp: in_keys_eq dest: software.generate_keeps_open tpm.generate_keeps_open)
next
  case (5 s c ref' m r' s')
  then show ?case
    by (cases c; cases s) (auto simp: in_keys_eq dest: software.sign_keeps tpm.sign_keeps)
next
  case (6 s c ref' m r' s' ref p)
  then show ?case
    by (cases c; cases s) (auto simp: in_keys_eq dest: software.sign_keeps_open tpm.sign_keeps_open)
next
  case (7 s)
  then show ?case
    by (cases s) (auto dest: software.restart_keeps tpm.restart_keeps)
next
  case (8 s ref p)
  then show ?case
    by (cases s) (auto dest: software.restart_keeps_open tpm.restart_keeps_open)
qed

text \<open>What every call keeps, the calls of a command keep.\<close>

lemma keys_after_keep:
  assumes "P k" and "\<And>k. P k \<Longrightarrow> P (snd (keys_generate c k))" and "\<And>k ref m. P k \<Longrightarrow> P (snd (keys_sign c ref m k))"
  shows "P (keys_after c ops k)"
  using assms(1)
proof (induction ops arbitrary: k)
  case (Cons op ops)
  then show ?case
    using assms(2,3) by (cases op) simp_all
qed simp

lemma keys_after_opens: "keys_sound k \<Longrightarrow> keys_opens k ref p \<Longrightarrow> keys_sound (keys_after c ops k) \<and> keys_opens (keys_after c ops k) ref p"
proof (rule keys_after_keep [where P = "\<lambda>k. keys_sound k \<and> keys_opens k ref p"])
  fix k :: "('a, 'b, 'c) keys"
  assume k: "keys_sound k \<and> keys_opens k ref p"
  obtain r k' where "keys_generate c k = (r, k')"
    by fastforce
  then show "keys_sound (snd (keys_generate c k)) \<and> keys_opens (snd (keys_generate c k)) ref p"
    using k either.generate_keeps either.generate_keeps_open by (metis snd_conv)
  fix ref' m
  obtain r k' where "keys_sign c ref' m k = (r, k')"
    by fastforce
  then show "keys_sound (snd (keys_sign c ref' m k)) \<and> keys_opens (snd (keys_sign c ref' m k)) ref p"
    using k either.sign_keeps either.sign_keeps_open by (metis snd_conv)
qed simp

lemma keys_after_sound: "keys_sound k \<Longrightarrow> keys_sound (keys_after c ops k)"
proof (rule keys_after_keep [where P = keys_sound])
  fix k :: "('a, 'b, 'c) keys" and ref' m
  assume "keys_sound k"
  then show "keys_sound (snd (keys_generate c k))" and "keys_sound (snd (keys_sign c ref' m k))"
    using either.generate_keeps either.sign_keeps by (metis prod.collapse)+
qed

section \<open>The keystore on the disk\<close>

text \<open>The keystore a command starts with.\<close>

definition keys_on_disk :: "('k, 't, 'p) passkey_libs \<Rightarrow> string \<Rightarrow> byte list option \<Rightarrow> ('k, 't, 'p) keys" where
  "keys_on_disk l kind master =
     (if kind = ''tpm'' then Tpm \<lparr>t_lib = l_tpm l, t_ectx = False, t_primary = None, t_live = [], t_next = 0\<rparr>
      else Software \<lparr>sw_lib = l_crypto l, master_file = master, master_cached = None\<rparr>)"

fun keys_of :: "('k, 't, 'p) passkey_libs \<Rightarrow> string \<Rightarrow> ('k, 't, 'p) keys \<Rightarrow> bool" where
  "keys_of l kind (Software s) = (kind \<noteq> ''tpm'' \<and> sw_lib s = l_crypto l)"
| "keys_of l kind (Tpm s) = (kind = ''tpm'' \<and> t_lib s = l_tpm l)"

lemma keys_of_on_disk: "keys_of l kind (keys_on_disk l kind m)"
  by (simp add: keys_on_disk_def)

lemma sw_sign_lib: "sw_lib (snd (sw_sign c ref m s)) = sw_lib s"
  using sw_sign_state [of c ref m s] load_master_key_lib [of c s] by auto

lemma keys_of_generate: "keys_of l kind k \<Longrightarrow> keys_of l kind (snd (keys_generate c k))"
  by (cases c; cases k) (simp_all add: in_keys_def sw_generate_key_state load_master_key_lib tpm_generate_key_lib split: prod.split,
    metis load_master_key_lib snd_conv sw_generate_key_state, metis snd_conv tpm_generate_key_lib)

lemma keys_of_sign: "keys_of l kind k \<Longrightarrow> keys_of l kind (snd (keys_sign c ref m k))"
  by (cases c; cases k) (simp_all add: in_keys_def split: prod.split, metis sw_sign_lib snd_conv, metis tpm_sign_lib snd_conv)

lemma keys_of_after: "keys_of l kind k \<Longrightarrow> keys_of l kind (keys_after c ops k)"
  by (rule keys_after_keep [where P = "keys_of l kind"]) (simp_all add: keys_of_generate keys_of_sign)

lemma next_process:
  assumes "keys_of l kind k" and "keys_sound k" and "keys_opens k ref p"
  shows "keys_opens (keys_on_disk l kind (master_after m k)) ref p"
proof (cases k)
  case (Software s)
  then have "sw_init s = \<lparr>sw_lib = l_crypto l, master_file = master_file s, master_cached = None\<rparr>"
    using assms(1) by (simp add: sw_init_def)
  then show ?thesis
    using Software assms software.restart_keeps_open [of s ref p] by (simp add: keys_on_disk_def)
next
  case (Tpm s)
  then show ?thesis
    using assms by (simp add: keys_on_disk_def tpm_opens_def)
qed

section \<open>What a command does to the credentials\<close>

lemma store_ok_credentials [simp]: "store_ok (s\<lparr>credentials := cs\<rparr>) = store_ok s" "stored (s\<lparr>credentials := cs\<rparr>) = stored s"
  by (simp_all add: store_ok_def stored_def)

lemma open_store_ok: "stored (pw_creds w path) = Some cs \<Longrightarrow> open_store path w = (Inr ((pw_creds w path)\<lparr>credentials := cs\<rparr>), w)"
  by (simp add: open_store_def cs_load_stored)

text \<open>Credentials that differ in their counters only.\<close>

definition uncounted :: "credential list \<Rightarrow> credential list" where
  "uncounted = map (\<lambda>c. c\<lparr>sign_count := 0\<rparr>)"

lemma uncounted_bump [simp]: "uncounted (bump i cs) = uncounted cs"
  by (induction cs) (auto simp: uncounted_def)

lemma increment_effect:
  assumes "store_ok s" and "stored s = Some cs" and "increment_counter i s = (r, s')"
  shows "store_ok s' \<and> (\<exists>cs'. stored s' = Some cs' \<and> uncounted cs' = uncounted cs)"
proof -
  note ref = refines_count [OF assms(1,2), of i, unfolded refines_def]
  have run: "store_run (Count i) s = (map_sum id Counted r, s')"
    using assms(3) by (cases r) (simp_all add: pbind_def)
  show ?thesis
  proof (cases r)
    case (Inl e)
    then show ?thesis
      using ref run assms(2) by (simp add: stored_def)
  next
    case (Inr n)
    then have "store_run (Count i) s = (Inr (Counted n), s')"
      using run by simp
    then obtain cs' where "store_spec (Count i) cs = Some (Counted n, cs')" "stored s' = Some cs'" "store_ok s'"
      using ref by (metis fst_conv snd_conv)
    then show ?thesis
      by (auto split: option.splits)
  qed
qed

text \<open>Asserting changes no more than counters, and only signs; in particular the keystore is not emptied.\<close>

definition only_signs :: "auth \<Rightarrow> auth \<Rightarrow> bool" where
  "only_signs a a' \<longleftrightarrow> keys_emptied a' = keys_emptied a \<and>
     (store_ok (a_store a) \<longrightarrow> store_ok (a_store a') \<and>
        (\<forall>cs. stored (a_store a) = Some cs \<longrightarrow> (\<exists>cs'. stored (a_store a') = Some cs' \<and> uncounted cs' = uncounted cs)))"

lemma only_signs_refl [simp]: "only_signs a a"
  by (simp add: only_signs_def)

lemma only_signs_trans: "only_signs a b \<Longrightarrow> only_signs b c \<Longrightarrow> only_signs a c"
  unfolding only_signs_def by metis

lemma only_signs_sign: "only_signs a (snd (ks_sign w key m a))"
  by (simp add: ks_sign_def only_signs_def split: option.split)

lemma only_signs_count: "only_signs a (snd (on_credentials (increment_counter i) a))"
proof (cases "increment_counter i (a_store a)")
  case (Pair r s)
  then show ?thesis
    using increment_effect [of "a_store a" _ i r s] by (auto simp: on_credentials_def only_signs_def store_ok_def split: sum.split)
qed

lemma only_signs_pbind:
  assumes "only_signs a (snd (m a))" and "\<And>x b. only_signs b (snd (g x b))"
  shows "only_signs a (snd (pbind m g a))"
proof (cases "m a")
  case (Pair r b)
  then show ?thesis
    using assms(1) assms(2) [of b] only_signs_trans [of a b] by (cases r) (simp_all add: pbind_def)
qed

lemma only_signs_pret [simp]: "only_signs a (snd (pret x a))" "only_signs a (snd (praise e a))"
  by (simp_all add: pret_def praise_def)

lemma only_signs_assert: "only_signs a (snd (assert_credential f w cdh d n c a))"
  unfolding assert_credential_def Let_def by (intro only_signs_pbind only_signs_count only_signs_sign only_signs_pret)

lemma only_signs_assert_all: "only_signs a (snd (assert_all f w cdh d n cs a))"
proof (induction cs arbitrary: a)
  case (Cons c cs)
  show ?case
    unfolding assert_all.simps by (intro only_signs_pbind only_signs_assert Cons.IH only_signs_pret)
qed simp

lemma only_signs_answer: "only_signs a (snd (answer_assertion f w cdh silent d cs a))"
proof (cases cs)
  case (Cons c rest)
  have last: "only_signs b (snd (case ms of rs \<Rightarrow> (Inr (hd rs), b\<lparr>next_assertions := tl rs, next_time := now w\<rparr>)))"
    for b and ms :: "pyval list"
    by (simp add: only_signs_def)
  have verify: "only_signs a (snd (verify_user w a))"
    by (simp add: verify_user_def)
  have silently: "only_signs a (snd (silent_assertion f w cdh c a))"
    unfolding silent_assertion_def Let_def by (intro only_signs_pbind only_signs_sign only_signs_pret)
  have "only_signs a (snd (pbind (verify_user w) (\<lambda>_.
      pbind (assert_all f w cdh d (length cs) cs) (\<lambda>rs b. (Inr (hd rs), b\<lparr>next_assertions := tl rs, next_time := now w\<rparr>))) a))"
    by (rule only_signs_pbind, rule verify, rule only_signs_pbind, rule only_signs_assert_all, rule last)
  with silently show ?thesis
    unfolding answer_assertion_def Cons by simp
qed (simp add: answer_assertion_def)

section \<open>What registering adds\<close>

text \<open>The calls to the keystore begin with the new key when a credential is added.\<close>

lemma add_effect:
  assumes "store_ok s" and "stored s = Some cs" and "cs_add c s = (r, s')"
  shows "store_ok s' \<and>
    (case r of
       Inl _ \<Rightarrow> stored s' = Some cs
     | Inr _ \<Rightarrow> (\<exists>d. json_form c = Some d \<and>
          stored s' = Some (filter (\<lambda>e. \<not> (rp_id e = rp_id c \<and> user_handle e = user_handle c)) cs @ [d])))"
proof -
  note ref = refines_add [OF assms(1,2), of c, unfolded refines_def]
  have run: "store_run (Add c) s = (map_sum id (\<lambda>_. Unit) r, s')"
    using assms(3) by (cases r) (simp_all add: pbind_def)
  show ?thesis
  proof (cases r)
    case (Inl e)
    then show ?thesis
      using ref run assms(2) by (simp add: stored_def)
  next
    case (Inr n)
    then have "store_run (Add c) s = (Inr Unit, s')"
      using run by simp
    then obtain cs' where "store_spec (Add c) cs = Some (Unit, cs')" "stored s' = Some cs'" "store_ok s'"
      using ref by (metis fst_conv snd_conv)
    then show ?thesis
      using Inr by (auto split: option.splits)
  qed
qed

lemma json_form_cose: "json_form c = Some d \<Longrightarrow> cose_public_key d = cose_public_key c"
  by (auto simp: json_form_eq)

lemma create_effect:
  assumes "store_ok (a_store a)" and "stored (a_store a) = Some cs"
    and "create_credential f w cdh rp handle_id rp_map user_map extensions options a = (r, a')"
  shows "store_ok (a_store a') \<and> keys_emptied a' = keys_emptied a \<and>
    ((\<exists>e. r = Inl e) \<and> stored (a_store a') = Some cs \<or>
     (\<exists>ref cose d ops. fresh_key w = Some (ref, cose) \<and>
        json_form (new_credential f w rp handle_id rp_map user_map extensions options ref cose) = Some d \<and>
        stored (a_store a') = Some (filter (\<lambda>e. \<not> (rp_id e = rp \<and> user_handle e = handle_id)) cs @ [d]) \<and>
        keystore_calls a' = keystore_calls a @ Generates # ops))"
proof (cases "face w = SUCCESS \<and> fresh_key w \<noteq> None")
  case False
  then show ?thesis
    using assms by (auto simp: create_credential_def verify_user_def ks_generate_def pbind_def praise_def pret_def split: if_splits option.splits)
next
  case True
  then obtain ref cose where k: "fresh_key w = Some (ref, cose)" "face w = SUCCESS"
    by auto
  let ?c = "new_credential f w rp handle_id rp_map user_map extensions options ref cose"
  obtain r1 s1 where add: "cs_add ?c (a_store a) = (r1, s1)"
    by fastforce
  note eff = add_effect [OF assms(1,2) add]
  have c: "rp_id ?c = rp" "user_handle ?c = handle_id"
    by (simp_all add: new_credential_def)
  show ?thesis
  proof (cases r1)
    case (Inl e)
    then show ?thesis
      using assms(3) k add eff
      by (auto simp: create_credential_def verify_user_def ks_generate_def pbind_def pret_def praise_def Let_def on_credentials_def)
  next
    case (Inr u)
    then obtain d where d: "json_form ?c = Some d" "store_ok s1"
        "stored s1 = Some (filter (\<lambda>e. \<not> (rp_id e = rp \<and> user_handle e = handle_id)) cs @ [d])"
      using eff c by auto
    have "a_store a' = s1 \<and> keys_emptied a' = keys_emptied a \<and> (\<exists>ops. keystore_calls a' = keystore_calls a @ Generates # ops)"
      using assms(3) k add Inr
      by (auto simp: create_credential_def verify_user_def ks_generate_def ks_sign_def pbind_def pret_def praise_def Let_def
          on_credentials_def split: option.splits)
    then show ?thesis
      using k d by auto
  qed
qed

text \<open>The requests of the two test commands.\<close>

lemma pbind_pret_eq: "pbind (pret x) g = g x"
  by (simp add: pbind_def pret_def fun_eq_iff)

lemma test_registration:
  obtains (refused) e where "make_credential f w (register_params l user) = praise (Ctap e)"
  | (created) cdh rp_map user_map options where "dget (PText ''rk'') options = Some (PBool True)"
      "make_credential f w (register_params l user) = create_credential f w cdh TEST_SITE (utf8 user) rp_map user_map [] options"
proof -
  consider "1 \<le> length (utf8 user) \<and> length (utf8 user) \<le> 64 \<and> ES256 f = - 7" | "\<not> (1 \<le> length (utf8 user) \<and> length (utf8 user) \<le> 64)"
    | "1 \<le> length (utf8 user) \<and> length (utf8 user) \<le> 64" "ES256 f \<noteq> - 7"
    by blast
  then show thesis
  proof cases
    case 1
    show thesis
      by (rule created [of "[(PText ''rk'', PBool True)]"])
        (use 1 in \<open>simp_all add: make_credential_def register_params_def dget_def check_pin_uv_auth_param_def pbind_pret_eq or_default_def
          is_excluded_def\<close>)
  next
    case 2
    then show thesis
      by (intro refused) (auto simp: make_credential_def register_params_def dget_def check_pin_uv_auth_param_def pbind_pret_eq or_default_def)
  next
    case 3
    then show thesis
      by (intro refused) (auto simp: make_credential_def register_params_def dget_def check_pin_uv_auth_param_def pbind_pret_eq or_default_def)
  qed
qed

lemma test_assertion:
  "get_assertion f w [(PInt 1, PText rp), (PInt 2, PBytes h)] a =
    answer_assertion f w h False True (find_for_rp rp None (credentials (a_store a))) a"
  by (simp add: get_assertion_def dget_def check_pin_uv_auth_param_def pbind_def or_default_def)

section \<open>Keys that match their credentials\<close>

text \<open>What python-fido2 and the packages behind the keystores promise.\<close>

definition passkey_laws :: "('k, 't, 'p) passkey_libs \<Rightarrow> bool" where
  "passkey_laws l \<longleftrightarrow>
     crypto_ok (l_crypto l) \<and> tpm_ok (l_tpm l) \<and>
     (\<forall>p. cbor_decode (l_fido l) (cbor_encode (l_fido l) (l_cose l p)) = Some (l_cose l p)) \<and>
     (\<forall>p m sig. ecdsa_verify (l_crypto l) p m sig \<or> tpm_verify (l_tpm l) p m sig \<longrightarrow> l_cose_verify l (l_cose l p) m sig)"

definition key_matches :: "('k, 't, 'p) passkey_libs \<Rightarrow> ('k, 't, 'p) keys \<Rightarrow> credential \<Rightarrow> bool" where
  "key_matches l keys c \<longleftrightarrow> (\<exists>p. keys_opens keys (key_ref c) p \<and> cose_public_key c = cbor_encode (l_fido l) (l_cose l p))"

definition creds_match :: "('k, 't, 'p) passkey_libs \<Rightarrow> ('k, 't, 'p) keys \<Rightarrow> credential list \<Rightarrow> bool" where
  "creds_match l keys cs \<longleftrightarrow> distinct (map credential_id cs) \<and> (\<forall>c \<in> set cs. key_matches l keys c)"

text \<open>The invariant of the disk: every credential of every user has its own id and a key the keystore opens, with the public key stored.\<close>

definition passkeys_ok :: "('k, 't, 'p) passkey_libs \<Rightarrow> string \<Rightarrow> passkey_world \<Rightarrow> bool" where
  "passkeys_ok l kind w \<longleftrightarrow>
     pw_state w = State_Doc (Some kind) \<and>
     (\<forall>path. store_ok (pw_creds w path) \<and>
        (\<forall>cs. stored (pw_creds w path) = Some cs \<longrightarrow> creds_match l (keys_on_disk l kind (pw_master w)) cs))"

lemma disk_sound: "passkey_laws l \<Longrightarrow> keys_sound (keys_on_disk l kind m)"
  by (simp add: passkey_laws_def keys_on_disk_def sw_sound_def tpm_sound_def)

lemma disk_keeps_open:
  assumes "passkey_laws l" and "keys_opens (keys_on_disk l kind m) ref p"
  shows "keys_opens (keys_on_disk l kind (master_after m (keys_after c ops (keys_on_disk l kind m)))) ref p"
  by (rule next_process [OF keys_of_after [OF keys_of_on_disk]])
    (simp_all add: keys_after_opens [OF disk_sound [OF assms(1)] assms(2)])

lemma created_opens:
  assumes "passkey_laws l" and "fst (keys_generate c (keys_on_disk l kind m)) = Inr (ref, p)"
  shows "keys_opens (keys_on_disk l kind (master_after m (keys_after c (Generates # ops) (keys_on_disk l kind m)))) ref p"
proof -
  obtain k where g: "keys_generate c (keys_on_disk l kind m) = (Inr (ref, p), k)"
    using assms(2) by (metis prod.collapse)
  have "keys_sound k" "keys_opens k ref p" "keys_of l kind k"
    using either.generate_keeps [OF disk_sound [OF assms(1)] g] either.generate_opens [OF disk_sound [OF assms(1)] g]
      keys_of_generate [OF keys_of_on_disk [of l kind m], of c] g by simp_all
  then have "keys_opens (keys_on_disk l kind (master_after m (keys_after c ops k))) ref p"
    by (intro next_process [OF keys_of_after]) (simp_all add: keys_after_opens)
  then show ?thesis
    by (simp add: g)
qed

lemma creds_match_keys:
  "creds_match l keys cs \<Longrightarrow> (\<And>ref p. keys_opens keys ref p \<Longrightarrow> keys_opens keys' ref p) \<Longrightarrow> creds_match l keys' cs"
  unfolding creds_match_def key_matches_def by blast

lemma creds_match_filter: "creds_match l keys cs \<Longrightarrow> creds_match l keys (filter P cs)"
  by (auto simp: creds_match_def distinct_map_filter)

lemma creds_match_add:
  "creds_match l keys cs \<Longrightarrow> key_matches l keys d \<Longrightarrow> credential_id d \<notin> credential_id ` set cs \<Longrightarrow> creds_match l keys (filter P cs @ [d])"
  by (auto simp: creds_match_def distinct_map_filter)

lemma key_matches_uncounted: "key_matches l keys (c\<lparr>sign_count := n\<rparr>) = key_matches l keys c"
  by (simp add: key_matches_def)

lemma uncounted_cong:
  assumes "uncounted cs' = uncounted cs"
  shows "map credential_id cs' = map credential_id cs" and "c \<in> set cs' \<Longrightarrow> \<exists>d \<in> set cs. c\<lparr>sign_count := 0\<rparr> = d\<lparr>sign_count := 0\<rparr>"
proof -
  have "map credential_id cs = map credential_id (uncounted cs)" for cs
    by (simp add: uncounted_def comp_def)
  then show "map credential_id cs' = map credential_id cs"
    using assms by metis
  show "\<exists>d \<in> set cs. c\<lparr>sign_count := 0\<rparr> = d\<lparr>sign_count := 0\<rparr>" if "c \<in> set cs'"
  proof -
    have "c\<lparr>sign_count := 0\<rparr> \<in> set (uncounted cs')"
      using that by (auto simp: uncounted_def)
    then show ?thesis
      unfolding assms by (auto simp: uncounted_def)
  qed
qed

lemma creds_match_uncounted: "uncounted cs' = uncounted cs \<Longrightarrow> creds_match l keys cs \<Longrightarrow> creds_match l keys cs'"
  unfolding creds_match_def using uncounted_cong [of cs' cs] key_matches_uncounted by metis

text \<open>A command of the authenticator keeps the invariant when it leaves its user's credentials matched.\<close>

lemma run_ctap_keeps:
  assumes "passkey_laws l" and "passkeys_ok l kind w" and "m a = (r, a')"
    and "store_ok (a_store a')" and "stored (a_store a') = Some cs"
    and "creds_match l (keys_on_disk l kind (master_after (pw_master w) (keys_after (pc_keys c) (keystore_calls a') keys))) cs"
    and "keys = keys_on_disk l kind (pw_master w)"
  shows "passkeys_ok l kind (snd (run_ctap l c m a keys w))"
proof -
  have "creds_match l (keys_on_disk l kind (pw_master w)) ds \<Longrightarrow>
      creds_match l (keys_on_disk l kind (master_after (pw_master w) (keys_after (pc_keys c) (keystore_calls a') keys))) ds" for ds
    by (erule creds_match_keys) (simp add: assms(7) disk_keeps_open [OF assms(1)])
  then show ?thesis
    using assms(2-6) by (simp add: run_ctap_def passkeys_ok_def)
qed

section \<open>Every command keeps the invariant\<close>

abbreviation creds_file :: "('k, 't, 'p) passkey_libs \<Rightarrow> ('k, 't) passkey_call \<Rightarrow> string" where
  "creds_file l c \<equiv> webauthn_credentials_path (l_config_dir l) (pc_user c)"

text \<open>A credential of the test site that can be found by the site alone.\<close>

definition has_test :: "credential list \<Rightarrow> bool" where
  "has_test cs \<longleftrightarrow> (\<exists>c \<in> set cs. rp_id c = TEST_SITE \<and> resident c)"

definition can_start :: "string \<Rightarrow> ('k, 't) passkey_call \<Rightarrow> bool" where
  "can_start kind c \<longleftrightarrow> pc_settings_ok c \<and> (kind = ''tpm'' \<longrightarrow> pc_tpm_available c)"

lemma require_state_ok: "passkeys_ok l kind w \<Longrightarrow> require_state w = (Inr (Some kind), w)"
  by (simp add: passkeys_ok_def require_state_def passkey_state_def pbind_def)

lemma make_authenticator_ok:
  assumes "stored (pw_creds w (creds_file l c)) = Some cs"
  shows "make_authenticator l c (Some kind) w =
    (if can_start kind c
     then (Inr (new_authenticator (pc_now c) ((pw_creds w (creds_file l c))\<lparr>credentials := cs\<rparr>), keys_on_disk l kind (pw_master w)), w)
     else (Inl Uncaught, w))"
  by (simp add: make_authenticator_def open_store_ok [OF assms] state_kind_def create_keystore_def keys_on_disk_def pbind_def can_start_def)

lemma has_test_uncounted: "uncounted cs' = uncounted cs \<Longrightarrow> has_test cs \<Longrightarrow> has_test cs'"
proof -
  assume u: "uncounted cs' = uncounted cs" and "has_test cs"
  then obtain c d where "c \<in> set cs" "rp_id c = TEST_SITE" "resident c" "d \<in> set cs'" "c\<lparr>sign_count := 0\<rparr> = d\<lparr>sign_count := 0\<rparr>"
    unfolding has_test_def using uncounted_cong(2) [OF u [symmetric]] by metis
  moreover have "rp_id d = rp_id (d\<lparr>sign_count := 0\<rparr>)" "resident d = resident (d\<lparr>sign_count := 0\<rparr>)"
    by simp_all
  ultimately show ?thesis
    unfolding has_test_def by (metis (no_types, lifting) cred.ext_inject cred.surjective cred.update_convs(9))
qed

lemma new_credential_fields:
  "credential_id (new_credential f w rp h rm um ex op ref cose) = fresh_id w"
  "key_ref (new_credential f w rp h rm um ex op ref cose) = ref"
  "cose_public_key (new_credential f w rp h rm um ex op ref cose) = cbor_encode f cose"
  "rp_id (new_credential f w rp h rm um ex op ref cose) = rp"
  by (simp_all add: new_credential_def)

lemma register_effect:
  assumes laws: "passkey_laws l" and match: "creds_match l k cs" and k: "k = keys_on_disk l kind m"
    and fresh: "pc_id c \<notin> credential_id ` set cs" and store: "store_ok s" "stored s = Some cs"
    and run: "make_credential (l_fido l) (passkey_ceremony l c k signing) (register_params l user) (new_authenticator t (s\<lparr>credentials := cs\<rparr>)) = (r, a')"
  shows "store_ok (a_store a') \<and> (\<exists>cs'. stored (a_store a') = Some cs' \<and>
    creds_match l (keys_on_disk l kind (master_after m (keys_after (pc_keys c) (keystore_calls a') k))) cs' \<and>
    (has_test cs \<or> (\<exists>x. r = Inr x) \<longrightarrow> has_test cs'))"
proof -
  let ?a = "new_authenticator t (s\<lparr>credentials := cs\<rparr>)"
  let ?w = "passkey_ceremony l c k signing"
  let ?disk = "\<lambda>ops. keys_on_disk l kind (master_after m (keys_after (pc_keys c) ops k))"
  have a: "a_store ?a = s\<lparr>credentials := cs\<rparr>" "keystore_calls ?a = []"
    by (simp_all add: new_authenticator_def)
  have later: "creds_match l (?disk ops) cs" for ops
    using creds_match_keys [OF match, of "?disk ops"] disk_keeps_open [OF laws] k by blast
  from test_registration [of "l_fido l" ?w l user] show ?thesis
  proof cases
    case (refused e)
    then show ?thesis
      using run store later [of "[]"] a by auto
  next
    case (created cdh rp_map user_map options)
    have ok: "store_ok (a_store ?a)" "stored (a_store ?a) = Some cs"
      using store a by simp_all
    note eff = create_effect [OF ok run [unfolded created(2)]]
    show ?thesis
    proof (cases "stored (a_store a') = Some cs \<and> (\<exists>e. r = Inl e)")
      case True
      then show ?thesis
        using eff later by auto
    next
      case False
      then obtain ref cose d ops where new: "fresh_key ?w = Some (ref, cose)"
          "json_form (new_credential (l_fido l) ?w TEST_SITE (utf8 user) rp_map user_map [] options ref cose) = Some d"
          "stored (a_store a') = Some (filter (\<lambda>e. \<not> (rp_id e = TEST_SITE \<and> user_handle e = utf8 user)) cs @ [d])"
          "keystore_calls a' = Generates # ops"
        using eff a(2) by auto
      obtain p where p: "fst (keys_generate (pc_keys c) k) = Inr (ref, p)" "cose = l_cose l p"
        using new(1) by (auto simp: passkey_ceremony_def split: sum.splits)
      note d = json_form_fields(1,2,5,6) [OF new(2)] json_form_cose [OF new(2)]
      have "key_matches l (?disk (Generates # ops)) d"
        unfolding key_matches_def using created_opens [OF laws, of "pc_keys c" kind m ref p ops] p d k
        by (auto simp: new_credential_fields)
      moreover have "credential_id d \<notin> credential_id ` set cs"
        using fresh d by (simp add: new_credential_fields passkey_ceremony_def)
      ultimately have "creds_match l (?disk (Generates # ops)) (filter (\<lambda>e. \<not> (rp_id e = TEST_SITE \<and> user_handle e = utf8 user)) cs @ [d])"
        by (rule creds_match_add [OF later])
      moreover have "rp_id d = TEST_SITE" "resident d"
        using d created(1) by (simp_all add: new_credential_def)
      ultimately show ?thesis
        using new eff by (auto simp: has_test_def)
    qed
  qed
qed

lemma assertion_effect:
  assumes laws: "passkey_laws l" and match: "creds_match l k cs" and k: "k = keys_on_disk l kind m"
    and store: "store_ok s" "stored s = Some cs"
    and run: "get_assertion f w [(PInt 1, PText rp), (PInt 2, PBytes h)] (new_authenticator t (s\<lparr>credentials := cs\<rparr>)) = (r, a')"
  shows "store_ok (a_store a') \<and> (\<exists>cs'. stored (a_store a') = Some cs' \<and> uncounted cs' = uncounted cs \<and>
    creds_match l (keys_on_disk l kind (master_after m (keys_after (pc_keys c) (keystore_calls a') k))) cs')"
proof -
  let ?a = "new_authenticator t (s\<lparr>credentials := cs\<rparr>)"
  have a: "a_store ?a = s\<lparr>credentials := cs\<rparr>"
    by (simp add: new_authenticator_def)
  have "only_signs ?a a'"
    using only_signs_answer [of ?a f w h False True "find_for_rp rp None cs"] run a by (simp add: test_assertion)
  then obtain cs' where cs': "store_ok (a_store a')" "stored (a_store a') = Some cs'" "uncounted cs' = uncounted cs"
    unfolding only_signs_def using store a by auto
  moreover have "creds_match l (keys_on_disk l kind (master_after m (keys_after (pc_keys c) (keystore_calls a') k))) cs"
    using creds_match_keys [OF match] disk_keeps_open [OF laws] k by blast
  ultimately show ?thesis
    using creds_match_uncounted by blast
qed

lemma remove_effect:
  assumes "store_ok s" and "stored s = Some cs" and "cs_remove i s = (r, s')"
  shows "store_ok s' \<and> (\<exists>P. stored s' = Some (filter P cs))"
proof -
  note ref = refines_remove [OF assms(1,2), of i, unfolded refines_def]
  have run: "store_run (Remove i) s = (map_sum id Removed r, s')"
    using assms(3) by (cases r) (simp_all add: pbind_def)
  show ?thesis
  proof (cases r)
    case (Inl e)
    then have "stored s' = Some (filter (\<lambda>_. True) cs)"
      using ref run assms(2) by (simp add: stored_def)
    moreover have "store_ok s'"
      using ref run by simp
    ultimately show ?thesis
      by blast
  next
    case (Inr n)
    then have "store_run (Remove i) s = (Inr (Removed n), s')"
      using run by simp
    then obtain cs' where "store_spec (Remove i) cs = Some (Removed n, cs')" "stored s' = Some cs'" "store_ok s'"
      using ref by (metis fst_conv snd_conv)
    moreover from this have "cs' = filter (\<lambda>c. credential_id c \<noteq> i) cs"
      by simp
    ultimately show ?thesis
      by blast
  qed
qed

text \<open>What a command leaves, for its own user's file and for the disk.\<close>

definition keeps_passkeys :: "('k, 't, 'p) passkey_libs \<Rightarrow> string \<Rightarrow> passkey_world \<Rightarrow> passkey_world \<Rightarrow> bool" where
  "keeps_passkeys l kind w w' \<longleftrightarrow> passkeys_ok l kind w' \<and>
     (\<forall>path cs. stored (pw_creds w path) = Some cs \<longrightarrow> has_test cs \<longrightarrow> (\<exists>cs'. stored (pw_creds w' path) = Some cs' \<and> has_test cs'))"

lemma run_ctap_keeps_passkeys:
  assumes laws: "passkey_laws l" and ok: "passkeys_ok l kind w" and run: "m a = (r, a')"
    and cs: "stored (pw_creds w (creds_file l c)) = Some cs"
    and eff: "store_ok (a_store a')" "stored (a_store a') = Some cs'"
      "creds_match l (keys_on_disk l kind (master_after (pw_master w) (keys_after (pc_keys c) (keystore_calls a') keys))) cs'"
    and test: "has_test cs \<Longrightarrow> has_test cs'" and k: "keys = keys_on_disk l kind (pw_master w)"
  shows "keeps_passkeys l kind w (snd (run_ctap l c m a keys w))"
  unfolding keeps_passkeys_def
proof (intro conjI allI impI)
  show "passkeys_ok l kind (snd (run_ctap l c m a keys w))"
    by (rule run_ctap_keeps [where m = m and a = a, OF laws ok run eff k])
  fix path ds
  assume "stored (pw_creds w path) = Some ds" "has_test ds"
  then show "\<exists>cs'. stored (pw_creds (snd (run_ctap l c m a keys w)) path) = Some cs' \<and> has_test cs'"
    using eff(2) test cs run by (auto simp: run_ctap_def)
qed

lemma keeps_refl: "passkeys_ok l kind w \<Longrightarrow> keeps_passkeys l kind w w"
  by (auto simp: keeps_passkeys_def)

lemma register_keeps:
  assumes laws: "passkey_laws l" and ok: "passkeys_ok l kind w" and run: "passkey_register l c w = (r, w')"
    and fresh: "\<forall>cs. stored (pw_creds w (creds_file l c)) = Some cs \<longrightarrow> pc_id c \<notin> credential_id ` set cs"
  shows "keeps_passkeys l kind w w' \<and> (r = Inr () \<longrightarrow> (\<exists>cs. stored (pw_creds w' (creds_file l c)) = Some cs \<and> has_test cs))"
proof -
  obtain cs where cs: "store_ok (pw_creds w (creds_file l c))" "stored (pw_creds w (creds_file l c)) = Some cs"
      "creds_match l (keys_on_disk l kind (pw_master w)) cs"
    using ok unfolding passkeys_ok_def store_ok_def by metis
  let ?k = "keys_on_disk l kind (pw_master w)"
  let ?a = "new_authenticator (pc_now c) ((pw_creds w (creds_file l c))\<lparr>credentials := cs\<rparr>)"
  let ?m = "make_credential (l_fido l) (passkey_ceremony l c ?k (snd (keys_generate (pc_keys c) ?k))) (register_params l (pc_user c))"
  obtain x a' where m: "?m ?a = (x, a')"
    by fastforce
  obtain cs' where eff: "store_ok (a_store a')" "stored (a_store a') = Some cs'"
      "creds_match l (keys_on_disk l kind (master_after (pw_master w) (keys_after (pc_keys c) (keystore_calls a') ?k))) cs'"
      "has_test cs \<or> (\<exists>y. x = Inr y) \<Longrightarrow> has_test cs'"
    using register_effect [OF laws cs(3) refl _ cs(1,2) m] fresh cs(2) by auto
  show ?thesis
  proof (cases "can_start kind c")
    case True
    then have reg: "passkey_register l c w = pbind (run_ctap l c ?m ?a ?k) (\<lambda>_. pret ()) w"
      by (simp add: passkey_register_def require_state_ok [OF ok] make_authenticator_ok [OF cs(2)] pbind_def)
    have w': "w' = snd (run_ctap l c ?m ?a ?k w)" and r: "r = Inr () \<Longrightarrow> \<exists>y. x = Inr y"
      using run reg m by (auto simp: run_ctap_def pbind_def pret_def split: sum.splits auth_error.splits)
    have "keeps_passkeys l kind w w'"
      unfolding w' by (rule run_ctap_keeps_passkeys [where m = ?m and a = ?a, OF laws ok m cs(2) eff(1-3) _ refl]) (simp add: eff(4))
    moreover have "pw_creds w' (creds_file l c) = a_store a'"
      using w' m by (simp add: run_ctap_def)
    ultimately show ?thesis
      using eff(2,4) r by auto
  next
    case False
    then have "r = Inl Uncaught \<and> w' = w"
      using run by (simp add: passkey_register_def require_state_ok [OF ok] make_authenticator_ok [OF cs(2)] pbind_def)
    then show ?thesis
      using keeps_refl [OF ok] by simp
  qed
qed

lemma authenticate_keeps:
  assumes laws: "passkey_laws l" and ok: "passkeys_ok l kind w" and run: "passkey_authenticate l c w = (r, w')"
  shows "keeps_passkeys l kind w w'"
proof -
  obtain cs where cs: "store_ok (pw_creds w (creds_file l c))" "stored (pw_creds w (creds_file l c)) = Some cs"
      "creds_match l (keys_on_disk l kind (pw_master w)) cs"
    using ok unfolding passkeys_ok_def store_ok_def by metis
  let ?k = "keys_on_disk l kind (pw_master w)"
  let ?h = "sha256 (l_fido l) (pc_challenge c)"
  let ?a = "new_authenticator (pc_now c) ((pw_creds w (creds_file l c))\<lparr>credentials := cs\<rparr>)"
  let ?m = "get_assertion (l_fido l) (passkey_ceremony l c ?k ?k) [(PInt 1, PText TEST_SITE), (PInt 2, PBytes ?h)]"
  obtain x a' where m: "?m ?a = (x, a')"
    by fastforce
  obtain cs' where eff: "store_ok (a_store a')" "stored (a_store a') = Some cs'" "uncounted cs' = uncounted cs"
      "creds_match l (keys_on_disk l kind (master_after (pw_master w) (keys_after (pc_keys c) (keystore_calls a') ?k))) cs'"
    using assertion_effect [OF laws cs(3) refl cs(1,2) m] by blast
  show ?thesis
  proof (cases "can_start kind c")
    case True
    then have "w' = snd (run_ctap l c ?m ?a ?k w)"
      using run
      by (auto simp: passkey_authenticate_def require_state_ok [OF ok] make_authenticator_ok [OF cs(2)] pbind_def Let_def
          open_store_def pret_def praise_def split: prod.splits sum.splits if_splits)
    moreover have "keeps_passkeys l kind w (snd (run_ctap l c ?m ?a ?k w))"
      by (rule run_ctap_keeps_passkeys [where m = ?m and a = ?a, OF laws ok m cs(2) eff(1,2,4) _ refl])
        (rule has_test_uncounted [OF eff(3)])
    ultimately show ?thesis
      by simp
  next
    case False
    then have "w' = w"
      using run by (simp add: passkey_authenticate_def require_state_ok [OF ok] make_authenticator_ok [OF cs(2)] pbind_def Let_def)
    then show ?thesis
      using keeps_refl [OF ok] by simp
  qed
qed

lemma remove_keeps:
  assumes ok: "passkeys_ok l kind w" and run: "passkey_remove l c w = (r, w')"
  shows "passkeys_ok l kind w'"
proof -
  obtain cs where cs: "store_ok (pw_creds w (creds_file l c))" "stored (pw_creds w (creds_file l c)) = Some cs"
      "creds_match l (keys_on_disk l kind (pw_master w)) cs"
    using ok unfolding passkeys_ok_def store_ok_def by metis
  let ?s = "(pw_creds w (creds_file l c))\<lparr>credentials := cs\<rparr>"
  have "w' = w \<or> (\<exists>i r' s'. cs_remove i ?s = (r', s') \<and> w' = w\<lparr>pw_creds := (pw_creds w)(creds_file l c := s')\<rparr>)"
    using run
    by (auto simp: passkey_remove_def require_state_ok [OF ok] open_store_ok [OF cs(2)] pbind_def praise_def Let_def
        split: list.splits option.splits prod.splits sum.splits)
  then consider "w' = w" | i r' s' where "cs_remove i ?s = (r', s')" "w' = w\<lparr>pw_creds := (pw_creds w)(creds_file l c := s')\<rparr>"
    by blast
  then show ?thesis
  proof cases
    case 1
    then show ?thesis
      using ok by simp
  next
    case 2
    have "store_ok ?s" "stored ?s = Some cs"
      using cs by simp_all
    from remove_effect [OF this 2(1)] obtain P where "store_ok s'" "stored s' = Some (filter P cs)"
      by blast
    then show ?thesis
      using ok creds_match_filter [OF cs(3), of P] by (simp add: 2(2) passkeys_ok_def)
  qed
qed

section \<open>A registered credential authenticates\<close>

lemma assert_all_first:
  assumes "assert_all f w cdh d n (c # cs) a = (Inr rs, a')"
  obtains data sig items where "hd rs = PMap ([(PInt 1, public_key c), (PInt 2, PBytes data), (PInt 3, PBytes sig)] @ items)"
    "sign_with w (key_ref c) (data @ cdh) = Some sig"
proof -
  obtain r1 a1 where first: "assert_credential f w cdh d n c a = (Inr r1, a1)" and "hd rs = r1"
    using assms by (auto simp: pbind_def split: prod.splits sum.splits)
  moreover obtain data sig items where "r1 = PMap ([(PInt 1, public_key c), (PInt 2, PBytes data), (PInt 3, PBytes sig)] @ items)"
      "sign_with w (key_ref c) (data @ cdh) = Some sig"
    using first by (auto simp: assert_credential_def ks_sign_def pbind_def Let_def split: prod.splits sum.splits option.splits)
  ultimately show thesis
    using that by blast
qed

lemma assertion_fields_found:
  "assertion_fields (PMap ([(PInt 1, public_key c), (PInt 2, PBytes data), (PInt 3, PBytes sig)] @ items)) = Some (credential_id c, data, sig)"
  by (simp add: assertion_fields_def dget_def public_key_def)

lemma cose_verifies:
  assumes "passkey_laws l" and "keys_verifies (keys_on_disk l kind m) p msg sig"
  shows "l_cose_verify l (l_cose l p) msg sig"
  using assms by (auto simp: passkey_laws_def keys_on_disk_def split: if_splits)

lemma find_by_id_uncounted:
  assumes "uncounted cs' = uncounted cs" and "distinct (map credential_id cs)" and "c \<in> set cs"
  obtains d where "find_by_id (credential_id c) cs' = Some d" "cose_public_key d = cose_public_key c"
proof -
  obtain d where d: "d \<in> set cs'" "c\<lparr>sign_count := 0\<rparr> = d\<lparr>sign_count := 0\<rparr>"
    using uncounted_cong(2) [OF assms(1) [symmetric] assms(3)] by blast
  then have same: "credential_id d = credential_id c" "cose_public_key d = cose_public_key c"
    by (metis (no_types, lifting) cred.ext_inject cred.surjective cred.update_convs(9))+
  obtain e where e: "find_by_id (credential_id c) cs' = Some e"
    using d(1) same(1) find_by_id_None [of "credential_id c" cs'] by (metis imageI not_Some_eq)
  then have "e \<in> set cs'" "credential_id e = credential_id d"
    using find_in_bump [OF e] same(1) by simp_all
  then have "e = d"
    using d(1) assms(2) uncounted_cong(1) [OF assms(1)] by (metis distinct_map inj_onD)
  then show thesis
    using that e same(2) by blast
qed

lemma authenticate_succeeds:
  assumes laws: "passkey_laws l" and ok: "passkeys_ok l kind w"
    and cs: "stored (pw_creds w (creds_file l c)) = Some cs" "has_test cs" and writable: "write_ok (pw_creds w (creds_file l c))"
    and call: "can_start kind c" "pc_face c = SUCCESS" "keys_works (pc_keys c)"
  shows "fst (passkey_authenticate l c w) = Inr ()"
proof -
  let ?s = "(pw_creds w (creds_file l c))\<lparr>credentials := cs\<rparr>"
  let ?k = "keys_on_disk l kind (pw_master w)"
  let ?h = "sha256 (l_fido l) (pc_challenge c)"
  let ?a = "new_authenticator (pc_now c) ?s"
  let ?w = "passkey_ceremony l c ?k ?k"
  let ?found = "find_for_rp TEST_SITE None cs"
  have store: "store_ok (pw_creds w (creds_file l c))" and match: "creds_match l ?k cs"
    using ok cs(1) by (auto simp: passkeys_ok_def)
  obtain e where "e \<in> set ?found"
    using cs(2) by (auto simp: find_for_rp_def has_test_def)
  then have "?found \<noteq> []"
    by force
  have found: "set ?found \<subseteq> set cs"
    by (auto simp: find_for_rp_def)
  obtain d ds where d: "?found = d # ds" "d \<in> set cs"
    using found \<open>?found \<noteq> []\<close> by (cases ?found) auto
  have signs: "\<exists>p sig. cose_public_key e = cbor_encode (l_fido l) (l_cose l p) \<and> sign_with ?w (key_ref e) m = Some sig \<and>
      l_cose_verify l (l_cose l p) m sig" if e: "e \<in> set cs" for e m
  proof -
    obtain p where p: "keys_opens ?k (key_ref e) p" "cose_public_key e = cbor_encode (l_fido l) (l_cose l p)"
      using match e by (auto simp: creds_match_def key_matches_def)
    obtain sig k' where "keys_sign (pc_keys c) (key_ref e) m ?k = (Inr sig, k')" "keys_verifies ?k p m sig"
      using either.sign_verifies [OF disk_sound [OF laws] p(1) call(3), of m] by blast
    then show ?thesis
      using p(2) cose_verifies [OF laws] by (auto simp: passkey_ceremony_def)
  qed
  then have total: "\<forall>e \<in> set ?found. \<forall>m. sign_with ?w (key_ref e) m \<noteq> None"
    using found by fastforce
  have a: "a_store ?a = ?s"
    by (simp add: new_authenticator_def)
  have sub: "credential_id ` set ?found \<subseteq> credential_id ` set cs"
    using found by blast
  obtain rs a1 where all: "assert_all (l_fido l) ?w ?h True (length ?found) ?found ?a = (Inr rs, a1)"
    using assert_all_succeeds [of ?a cs ?found ?w, OF _ _ _ sub total] store writable cs(1) a by fastforce
  then obtain data sig items where rs: "hd rs = PMap ([(PInt 1, public_key d), (PInt 2, PBytes data), (PInt 3, PBytes sig)] @ items)"
      "sign_with ?w (key_ref d) (data @ ?h) = Some sig"
    using assert_all_first [of _ _ _ _ _ d ds] unfolding d(1) by blast
  let ?a' = "a1\<lparr>next_assertions := tl rs, next_time := pc_now c\<rparr>"
  let ?m = "get_assertion (l_fido l) ?w [(PInt 1, PText TEST_SITE), (PInt 2, PBytes ?h)]"
  have m: "?m ?a = (Inr (hd rs), ?a')"
  proof -
    have "face ?w = SUCCESS" "now ?w = pc_now c"
      using call(2) by (simp_all add: passkey_ceremony_def)
    then show ?thesis
      using all d(1) a by (simp add: test_assertion answer_assertion_def verify_user_def pbind_def)
  qed
  obtain cs' where cs': "stored (a_store ?a') = Some cs'" "uncounted cs' = uncounted cs"
    using assertion_effect [OF laws match refl store cs(1) m] by blast
  obtain e where e: "find_by_id (credential_id d) cs' = Some e" "cose_public_key e = cose_public_key d"
    using find_by_id_uncounted [OF cs'(2) _ d(2)] match by (auto simp: creds_match_def)
  have "check_assertion l cs' ?h (hd rs)"
    using signs [OF d(2), of "data @ ?h"] rs(2) e laws
    by (auto simp: check_assertion_def rs(1) assertion_fields_found passkey_laws_def simp del: append.simps)
  moreover have "open_store (creds_file l c) (snd (run_ctap l c ?m ?a ?k w)) = (Inr ((a_store ?a')\<lparr>credentials := cs'\<rparr>), snd (run_ctap l c ?m ?a ?k w))"
    using open_store_ok [of "snd (run_ctap l c ?m ?a ?k w)" "creds_file l c" cs'] cs'(1) m by (simp add: run_ctap_def)
  ultimately show ?thesis
    using call(1) m
    by (simp add: passkey_authenticate_def require_state_ok [OF ok] make_authenticator_ok [OF cs(1)] pbind_def Let_def run_ctap_def)
qed

section \<open>What the service leaves\<close>

lemma snd_pbind_same: "(\<And>x w. snd (g x w) = w) \<Longrightarrow> snd (pbind m g w) = snd (m w)"
  by (auto simp: pbind_def split: prod.split sum.split)

text \<open>The site a request registers a credential for.\<close>

definition site_in :: "(pyval \<times> pyval) list \<Rightarrow> string option" where
  "site_in params =
     (case dget (PInt 2) params of
        Some (PMap rp_map) \<Rightarrow> (case dget (PText ''id'') rp_map of Some (PText rp) \<Rightarrow> Some rp | _ \<Rightarrow> None)
      | _ \<Rightarrow> None)"

definition registers_for :: "fido \<Rightarrow> byte list \<Rightarrow> string option" where
  "registers_for f bytes =
     (case bytes of
        cmd # body \<Rightarrow>
          if cmd = CMD_MAKE_CREDENTIAL then (case cbor_decode f body of Some (PMap params) \<Rightarrow> site_in params | _ \<Rightarrow> None) else None
      | [] \<Rightarrow> None)"

text \<open>Registering either ends early and changes nothing, or it comes to creating a credential for the site.\<close>

definition creates :: "fido \<Rightarrow> ceremony \<Rightarrow> string option \<Rightarrow> pyval command \<Rightarrow> bool" where
  "creates f w site m \<longleftrightarrow>
     (\<forall>a r a'. m a = (r, a') \<longrightarrow> a' = a \<or>
        (\<exists>cdh rp user_id rp_map user_map extensions options. site = Some rp \<and>
           create_credential f w cdh rp user_id rp_map user_map extensions options a = (r, a')))"

named_theorems creates_intros

lemma creates_praise [creates_intros]: "creates f w site (praise e)"
  by (simp add: creates_def praise_def)

lemma creates_if [creates_intros]: "creates f w site m \<Longrightarrow> creates f w site n \<Longrightarrow> creates f w site (if b then m else n)"
  by simp

lemma creates_excluded [creates_intros]:
  "creates f w site n \<Longrightarrow> creates f w site (\<lambda>a. if b a then pbind (verify_user v) (\<lambda>_. praise e) a else n a)"
  by (auto simp: creates_def pbind_def verify_user_def praise_def pret_def split: if_splits)

lemma creates_option [creates_intros]:
  "creates f w site m \<Longrightarrow> (\<And>x. v = Some x \<Longrightarrow> creates f w site (g x)) \<Longrightarrow> creates f w site (case_option m g v)"
  by (cases v) simp_all

lemma creates_sum [creates_intros]:
  "(\<And>x. creates f w site (g x)) \<Longrightarrow> (\<And>x. creates f w site (h x)) \<Longrightarrow> creates f w site (case_sum g h v)"
  by (cases v) simp_all

lemma creates_bool [creates_intros]: "creates f w site m \<Longrightarrow> creates f w site n \<Longrightarrow> creates f w site (case_bool m n v)"
  by (cases v) simp_all

lemma creates_prod [creates_intros]: "(\<And>x y. v = (x, y) \<Longrightarrow> creates f w site (g x y)) \<Longrightarrow> creates f w site (case_prod g v)"
  by (cases v) simp

lemma creates_pyval [creates_intros]:
  "(\<And>x. creates f w site (f1 x)) \<Longrightarrow> (\<And>x. creates f w site (f2 x)) \<Longrightarrow> (\<And>x. v = PText x \<Longrightarrow> creates f w site (f3 x)) \<Longrightarrow>
   (\<And>x. creates f w site (f4 x)) \<Longrightarrow> (\<And>x. creates f w site (f5 x)) \<Longrightarrow> (\<And>x. v = PMap x \<Longrightarrow> creates f w site (f6 x)) \<Longrightarrow>
   creates f w site (case_pyval f1 f2 f3 f4 f5 f6 v)"
  by (cases v) simp_all

lemma creates_check_pin [creates_intros]: "creates f w site (g ()) \<Longrightarrow> creates f w site (pbind (check_pin_uv_auth_param v) g)"
  using check_pin_cases [of v]
proof (elim disjE exE conjE)
  assume "check_pin_uv_auth_param v = pret ()" "creates f w site (g ())"
  then show ?thesis
    by (simp add: pbind_pret_eq)
next
  fix e :: auth_error
  assume "check_pin_uv_auth_param v = praise e"
  then have "pbind (check_pin_uv_auth_param v) g = praise e"
    by (simp add: pbind_def praise_def fun_eq_iff)
  then show ?thesis
    by (simp add: creates_praise)
qed

lemma creates_create [creates_intros]:
  "site = Some rp \<Longrightarrow> creates f w site (create_credential f w cdh rp user_id rp_map user_map extensions options)"
  by (auto simp: creates_def)

lemma creates_make: "creates f w (site_in params) (make_credential f w params)"
  unfolding make_credential_def by (intro creates_intros) (simp add: site_in_def)

lemma only_signs_check_pin:
  "(\<And>b. only_signs b (snd (g () b))) \<Longrightarrow> only_signs a (snd (pbind (check_pin_uv_auth_param v) g a))"
  using check_pin_cases [of v] by (auto simp: pbind_def)

lemma only_signs_get: "only_signs a (snd (get_assertion f w params a))"
  unfolding get_assertion_def
  by (auto split: option.split pyval.split sum.split simp: only_signs_answer intro!: only_signs_check_pin)

lemma only_signs_next: "only_signs a (snd (get_next_assertion w a))"
  by (auto simp: get_next_assertion_def only_signs_def split: list.split)

lemma only_signs_selection: "only_signs a (snd (auth_selection w a))"
  by (simp add: auth_selection_def verify_user_def)

text \<open>What a request other than a reset does to the credentials.\<close>

lemma command_effect:
  assumes "cmd \<noteq> CMD_RESET" and "run_command f w cmd params a = (resp, a')"
  shows "only_signs a a' \<or> cmd = CMD_MAKE_CREDENTIAL \<and>
    (\<exists>cdh rp user_id rp_map user_map extensions options r. site_in params = Some rp \<and>
       create_credential f w cdh rp user_id rp_map user_map extensions options a = (r, a'))"
proof -
  have same: "snd (with_answer m a) = snd (m a)" for m :: "pyval command"
    unfolding with_answer_def by (rule snd_pbind_same) (simp add: pret_def)
  have same': "snd (no_answer m a) = snd (m a)" for m :: "unit command"
    unfolding no_answer_def by (rule snd_pbind_same) (simp add: pret_def)
  have a': "a' = (case command_handler f w cmd params of None \<Rightarrow> a | Some h \<Rightarrow> snd (h a))"
    using assms(2) by (auto simp: run_command_def split: option.splits prod.splits sum.splits auth_error.splits)
  show ?thesis
  proof (cases "cmd = CMD_MAKE_CREDENTIAL")
    case True
    obtain r where "make_credential f w params a = (r, a')"
      using a' same True by (metis (no_types, lifting) command_handler_def option.case(2) prod.collapse)
    then show ?thesis
      using creates_make [of f w params] True unfolding creates_def by (metis only_signs_refl)
  next
    case False
    then show ?thesis
      using a' assms(1) same same' only_signs_get [of a f w params] only_signs_next [of a w] only_signs_selection [of a w]
      by (auto simp: command_handler_def pret_def)
  qed
qed

lemma request_effect:
  assumes "take 1 bytes \<noteq> [CMD_RESET]" and "handle_cbor f w bytes a = (resp, a')"
  shows "only_signs a a' \<or> take 1 bytes = [CMD_MAKE_CREDENTIAL] \<and>
    (\<exists>cdh rp user_id rp_map user_map extensions options r. registers_for f bytes = Some rp \<and>
       create_credential f w cdh rp user_id rp_map user_map extensions options a = (r, a'))"
proof (cases bytes)
  case (Cons cmd body)
  have eff: "run_command f w cmd params a = (resp, a') \<Longrightarrow> only_signs a a' \<or> cmd = CMD_MAKE_CREDENTIAL \<and>
      (\<exists>cdh rp user_id rp_map user_map extensions options r. site_in params = Some rp \<and>
         create_credential f w cdh rp user_id rp_map user_map extensions options a = (r, a'))" for params
    using command_effect assms(1) Cons by simp
  consider "a' = a" | "body = []" "run_command f w cmd [] a = (resp, a')"
    | params where "cbor_decode f body = Some (PMap params)" "run_command f w cmd params a = (resp, a')"
    using assms(2) Cons by (auto simp: handle_cbor_def split: list.splits option.splits pyval.splits)
  then show ?thesis
  proof cases
    case 2
    then show ?thesis
      using eff [of "[]"] by (auto simp: site_in_def dget_def)
  next
    case 3
    then have "cmd = CMD_MAKE_CREDENTIAL \<Longrightarrow> registers_for f bytes = site_in params"
      by (simp add: registers_for_def Cons)
    then show ?thesis
      using eff [OF 3(2)] by (cases "cmd = CMD_MAKE_CREDENTIAL") (simp_all add: Cons)
  qed simp
qed (use assms(2) in \<open>simp add: handle_cbor_def\<close>)

text \<open>
  The invariant of the service: its keystore opens what the disk's opened, and what is stored matches it; \<open>ids\<close> are the ids given out, and
  with \<open>test\<close> a credential of the test site is among what is stored.
\<close>

definition serving ::
    "('k, 't, 'p) passkey_libs \<Rightarrow> string \<Rightarrow> ('k, 't, 'p) keys \<Rightarrow> bool \<Rightarrow> byte list set \<Rightarrow> auth \<times> ('k, 't, 'p) keys \<Rightarrow> bool" where
  "serving l kind k0 test ids ak \<longleftrightarrow>
     (let (a, k) = ak in
      keys_of l kind k \<and> keys_sound k \<and> (\<forall>ref p. keys_opens k0 ref p \<longrightarrow> keys_opens k ref p) \<and> store_ok (a_store a) \<and>
      (\<exists>cs. stored (a_store a) = Some cs \<and> creds_match l k cs \<and> credential_id ` set cs \<subseteq> ids \<and> (test \<longrightarrow> has_test cs)))"

lemma request_serves:
  assumes "serving l kind k0 test ids (a, k)" and "rq_id q \<notin> ids" and "take 1 (rq_bytes q) \<noteq> [CMD_RESET]"
    and "test \<Longrightarrow> registers_for (l_fido l) (rq_bytes q) \<noteq> Some TEST_SITE"
  shows "serving l kind k0 test (insert (rq_id q) ids) (serve_request l c q (a, k))"
proof -
  let ?d = "asked_call c q" and ?a = "a\<lparr>keystore_calls := []\<rparr>"
  let ?k1 = "snd (keys_generate (pc_keys ?d) k)"
  let ?signing = "if take 1 (rq_bytes q) = [CMD_MAKE_CREDENTIAL] then ?k1 else k"
  let ?w = "passkey_ceremony l ?d k ?signing"
  obtain resp a' where run: "handle_cbor (l_fido l) ?w (rq_bytes q) ?a = (resp, a')"
    by fastforce
  let ?k' = "keys_after (pc_keys ?d) (keystore_calls a') k"
  obtain cs where k: "keys_of l kind k" "keys_sound k" "\<And>ref p. keys_opens k0 ref p \<Longrightarrow> keys_opens k ref p"
    and cs: "store_ok (a_store a)" "stored (a_store a) = Some cs" "creds_match l k cs" "credential_id ` set cs \<subseteq> ids" "test \<Longrightarrow> has_test cs"
    using assms(1) by (auto simp: serving_def)
  have k': "keys_of l kind ?k'" "keys_sound ?k'" "\<And>ref p. keys_opens k ref p \<Longrightarrow> keys_opens ?k' ref p"
    using keys_of_after [OF k(1)] keys_after_opens [OF k(2)] keys_after_sound [OF k(2)] by blast+
  have match: "creds_match l ?k' cs"
    by (rule creds_match_keys [OF cs(3)]) (rule k'(3))
  have ok: "store_ok (a_store ?a)" "stored (a_store ?a) = Some cs"
    using cs by simp_all
  have emptied: "keys_emptied a' = keys_emptied a"
    using request_effect [OF assms(3) run] create_effect [OF ok] by (fastforce simp: only_signs_def)
  have result: "serve_request l c q (a, k) = (a', ?k')"
    using run emptied by (simp add: serve_request_def Let_def)
  have "\<exists>cs'. store_ok (a_store a') \<and> stored (a_store a') = Some cs' \<and> creds_match l ?k' cs' \<and> credential_id ` set cs' \<subseteq> insert (rq_id q) ids \<and>
      (test \<longrightarrow> has_test cs')"
    using request_effect [OF assms(3) run]
  proof (elim disjE conjE exE)
    assume "only_signs ?a a'"
    then obtain cs' where cs': "store_ok (a_store a')" "stored (a_store a') = Some cs'" "uncounted cs' = uncounted cs"
      unfolding only_signs_def using cs(1,2) by auto
    have "credential_id ` set cs' = credential_id ` set cs"
      using uncounted_cong(1) [OF cs'(3)] by (metis list.set_map)
    then show ?thesis
      using cs' cs(4,5) creds_match_uncounted [OF cs'(3) match] has_test_uncounted [OF cs'(3)] by blast
  next
    fix cdh rp user_id rp_map user_map extensions options r
    assume make: "take 1 (rq_bytes q) = [CMD_MAKE_CREDENTIAL]" and site: "registers_for (l_fido l) (rq_bytes q) = Some rp"
      and create: "create_credential (l_fido l) ?w cdh rp user_id rp_map user_map extensions options ?a = (r, a')"
    note eff = create_effect [OF ok create]
    show ?thesis
    proof (cases "stored (a_store a') = Some cs")
      case True
      then show ?thesis
        using eff match cs(4,5) by auto
    next
      case False
      let ?others = "filter (\<lambda>e. \<not> (rp_id e = rp \<and> user_handle e = user_id)) cs"
      obtain ref cose d ops where new: "fresh_key ?w = Some (ref, cose)"
          "json_form (new_credential (l_fido l) ?w rp user_id rp_map user_map extensions options ref cose) = Some d"
          "stored (a_store a') = Some (?others @ [d])" "keystore_calls a' = Generates # ops" "store_ok (a_store a')"
        using eff False by auto
      obtain p where p: "fst (keys_generate (pc_keys ?d) k) = Inr (ref, p)" "cose = l_cose l p"
        using new(1) by (auto simp: passkey_ceremony_def split: sum.splits)
      note d = json_form_fields(1,2,5,6) [OF new(2)] json_form_cose [OF new(2)]
      have "keys_opens ?k1 ref p" "keys_sound ?k1"
        using either.generate_keeps [OF k(2)] either.generate_opens [OF k(2)] p(1) by (metis prod.collapse)+
      then have "keys_opens ?k' ref p"
        using keys_after_opens [of ?k1 ref p] new(4) by simp
      then have "key_matches l ?k' d"
        unfolding key_matches_def using p d by (auto simp: new_credential_fields)
      moreover have i: "credential_id d = rq_id q"
        using d by (simp add: new_credential_fields passkey_ceremony_def asked_call_def)
      ultimately have "creds_match l ?k' (?others @ [d])"
        using assms(2) cs(4) by (intro creds_match_add [OF match]) auto
      moreover have "test \<longrightarrow> has_test (?others @ [d])"
        using assms(4) site cs(5) by (auto simp: has_test_def)
      ultimately show ?thesis
        using new i cs(4) by auto
    qed
  qed
  then show ?thesis
    using k(3) k' unfolding result serving_def by auto
qed

lemma requests_serve:
  assumes "serving l kind k0 test ids ak" and "distinct (map rq_id qs)" and "set (map rq_id qs) \<inter> ids = {}"
    and "\<forall>q \<in> set qs. take 1 (rq_bytes q) \<noteq> [CMD_RESET] \<and> (test \<longrightarrow> registers_for (l_fido l) (rq_bytes q) \<noteq> Some TEST_SITE)"
  shows "\<exists>ids'. serving l kind k0 test ids' (fold (serve_request l c) qs ak)"
  using assms
proof (induction qs arbitrary: ids ak)
  case (Cons q qs)
  have "serving l kind k0 test (insert (rq_id q) ids) (serve_request l c q ak)"
    using request_serves [of l kind k0 test ids "fst ak" "snd ak" q c] Cons.prems by auto
  then show ?case
    using Cons.IH Cons.prems by auto
qed auto

text \<open>How far a command went: not at all, or to the authenticator with the credentials that were loaded.\<close>

lemma make_authenticator_cases:
  assumes "make_authenticator l c kind w = (r, w')"
  shows "w' = w \<and> (\<forall>a keys. r = Inr (a, keys) \<longrightarrow>
    (\<exists>cs k. a = new_authenticator (pc_now c) ((pw_creds w (creds_file l c))\<lparr>credentials := cs\<rparr>) \<and> keys = keys_on_disk l k (pw_master w)))"
  using assms
  by (auto simp: make_authenticator_def open_store_def cs_load_def state_kind_def create_keystore_def keys_on_disk_def pbind_def pret_def praise_def
      split: if_splits prod.splits sum.splits option.splits store_file.splits)

lemma make_authenticator_world: "snd (make_authenticator l c kind w) = w"
  using make_authenticator_cases [of l c kind w] by (metis prod.collapse)

lemma require_state_world: "snd (require_state w) = w"
  by (simp add: require_state_def passkey_state_def pbind_def praise_def pret_def split: state_file.split)

text \<open>The file of the service's user, and what the service starts with.\<close>

abbreviation service_file :: "('k, 't, 'p) passkey_libs \<Rightarrow> ('k, 't) passkey_call \<Rightarrow> string" where
  "service_file l c \<equiv> webauthn_credentials_path (l_config_dir l) (service_user (pc_service c))"

lemma run_service_starts:
  assumes "run_service l c kind w = (r, w')"
  shows "w' = w \<and> (\<forall>a keys. r = Inr (a, keys) \<longrightarrow>
    make_authenticator l (c\<lparr>pc_user := service_user (pc_service c)\<rparr>) kind w = (Inr (a, keys), w))"
  using assms make_authenticator_world [of l "c\<lparr>pc_user := service_user (pc_service c)\<rparr>" kind w]
  by (auto simp: run_service_def pbind_def praise_def pret_def Let_def
      split: if_splits option.splits bool.splits uhid_open.splits sum.splits prod.splits)

text \<open>The service either does not start, and changes nothing, or it serves its requests.\<close>

lemma passkey_run_cases:
  assumes "passkey_run l c w = (r, w')"
  obtains (stays) "w' = w"
  | (serves) kind a keys where "require_state w = (Inr kind, w)" "serve_requests l c (a, keys) w = (r, w')"
      "make_authenticator l (c\<lparr>pc_user := service_user (pc_service c)\<rparr>) kind w = (Inr (a, keys), w)"
proof -
  obtain s where s: "require_state w = (s, w)"
    using require_state_world [of w] by (metis prod.collapse)
  show thesis
  proof (cases s)
    case (Inl e)
    then show thesis
      using stays assms s by (simp add: passkey_run_def pbind_def)
  next
    case (Inr kind)
    obtain x where x: "run_service l c kind w = (x, w)"
      using run_service_starts [of l c kind w] by (metis prod.collapse)
    show thesis
    proof (cases x)
      case (Inl e)
      then show thesis
        using stays assms s Inr x by (simp add: passkey_run_def pbind_def)
    next
      case (Inr ak)
      then show thesis
        using serves [of kind "fst ak" "snd ak"] assms s \<open>s = Inr kind\<close> x run_service_starts [OF x]
        by (cases ak) (simp add: passkey_run_def pbind_def)
    qed
  qed
qed

text \<open>The ids that are drawn while the service runs are not in use.\<close>

definition requests_fresh :: "('k, 't, 'p) passkey_libs \<Rightarrow> ('k, 't) passkey_call \<Rightarrow> passkey_world \<Rightarrow> bool" where
  "requests_fresh l c w \<longleftrightarrow>
     (let drawn = map rq_id (sv_asked (pc_service c)) in
      distinct drawn \<and> (\<forall>cs. stored (pw_creds w (service_file l c)) = Some cs \<longrightarrow> set drawn \<inter> credential_id ` set cs = {}))"

definition no_reset :: "('k, 't) passkey_call \<Rightarrow> bool" where
  "no_reset c \<longleftrightarrow> take 1 (pc_args c) = [''run''] \<longrightarrow> (\<forall>q \<in> set (sv_asked (pc_service c)). take 1 (rq_bytes q) \<noteq> [CMD_RESET])"

definition spares_test :: "fido \<Rightarrow> ('k, 't) passkey_call \<Rightarrow> bool" where
  "spares_test f c \<longleftrightarrow> take 1 (pc_args c) \<noteq> [''remove''] \<and>
     (take 1 (pc_args c) = [''run''] \<longrightarrow> (\<forall>q \<in> set (sv_asked (pc_service c)). registers_for f (rq_bytes q) \<noteq> Some TEST_SITE))"

lemma run_keeps:
  assumes laws: "passkey_laws l" and ok: "passkeys_ok l kind w" and run: "passkey_run l c w = (r, w')"
    and fresh: "requests_fresh l c w" and c: "take 1 (pc_args c) = [''run'']" and resets: "no_reset c"
  shows "passkeys_ok l kind w' \<and> (spares_test (l_fido l) c \<longrightarrow> keeps_passkeys l kind w w')"
  using run
proof (cases rule: passkey_run_cases)
  case stays
  then show ?thesis
    using ok keeps_refl [OF ok] by simp
next
  case (serves kind' a keys)
  let ?c = "c\<lparr>pc_user := service_user (pc_service c)\<rparr>" and ?file = "service_file l c"
  let ?k = "keys_on_disk l kind (pw_master w)" and ?qs = "sv_asked (pc_service c)"
  obtain cs where cs: "store_ok (pw_creds w ?file)" "stored (pw_creds w ?file) = Some cs" "creds_match l ?k cs"
    using ok unfolding passkeys_ok_def store_ok_def by metis
  have "stored (pw_creds w (creds_file l ?c)) = Some cs"
    using cs(2) by simp
  then have ak: "a = new_authenticator (pc_now ?c) ((pw_creds w ?file)\<lparr>credentials := cs\<rparr>)" "keys = ?k"
    using serves(1,3) require_state_ok [OF ok] make_authenticator_ok [of w l ?c cs kind] by (simp_all split: if_splits)
  let ?test = "spares_test (l_fido l) c \<and> has_test cs"
  have start: "serving l kind ?k ?test (credential_id ` set cs) (a, keys)"
    using cs ak by (simp add: serving_def keys_of_on_disk disk_sound [OF laws] new_authenticator_def)
  have drawn: "distinct (map rq_id ?qs)" "set (map rq_id ?qs) \<inter> credential_id ` set cs = {}"
    using fresh cs(2) by (simp_all add: requests_fresh_def Let_def)
  have "\<forall>q \<in> set ?qs. take 1 (rq_bytes q) \<noteq> [CMD_RESET] \<and> (?test \<longrightarrow> registers_for (l_fido l) (rq_bytes q) \<noteq> Some TEST_SITE)"
    using resets c by (auto simp: no_reset_def spares_test_def)
  from requests_serve [OF start drawn this, of c]
  obtain ids where "serving l kind ?k ?test ids (fold (serve_request l c) ?qs (a, keys))" ..
  moreover obtain a' k' where ended: "fold (serve_request l c) ?qs (a, keys) = (a', k')"
    by fastforce
  ultimately obtain cs' where k': "keys_of l kind k'" "keys_sound k'" "\<And>ref p. keys_opens ?k ref p \<Longrightarrow> keys_opens k' ref p"
    and cs': "store_ok (a_store a')" "stored (a_store a') = Some cs'" "creds_match l k' cs'" "?test \<Longrightarrow> has_test cs'"
    by (auto simp: serving_def)
  have w': "w' = w\<lparr>pw_creds := (pw_creds w)(?file := a_store a'), pw_master := master_after (pw_master w) k'\<rparr>"
    using serves(2) ended by (auto simp: serve_requests_def Let_def)
  have later: "creds_match l (keys_on_disk l kind (master_after (pw_master w) k')) ds" if "creds_match l k' ds" for ds
    by (rule creds_match_keys [OF that]) (rule next_process [OF k'(1,2)])
  have others: "creds_match l k' ds" if "creds_match l ?k ds" for ds
    by (rule creds_match_keys [OF that]) (rule k'(3))
  have ok': "passkeys_ok l kind w'"
    using ok later others cs' by (auto simp: w' passkeys_ok_def)
  moreover have "keeps_passkeys l kind w w'" if "spares_test (l_fido l) c"
    unfolding keeps_passkeys_def using ok' cs(2) cs'(2,4) that by (auto simp: w')
  ultimately show ?thesis
    by blast
qed

section \<open>Runs of commands\<close>

lemma init_keeps: "passkeys_ok l kind w \<Longrightarrow> passkey_init c w = (Inl (Exit 1), w)"
  by (simp add: passkeys_ok_def passkey_init_def passkey_state_def pbind_def)

lemma status_keeps:
  assumes ok: "passkeys_ok l kind w" and run: "passkey_status l c w = (r, w')"
  shows "\<exists>ms. w' = w\<lparr>pw_models := ms\<rparr>"
proof -
  obtain cs where cs: "stored (pw_creds w (creds_file l c)) = Some cs"
    using ok unfolding passkeys_ok_def store_ok_def by metis
  obtain r1 ms where "load_models (pc_user c) (pw_models w) = (r1, ms)"
    by fastforce
  moreover have "pw_state w = State_Doc (Some kind)"
    using ok by (simp add: passkeys_ok_def)
  ultimately show ?thesis
    using run by (auto simp: passkey_status_def passkey_state_def state_kind_def open_store_ok [OF cs] pbind_def split: sum.splits)
qed

lemma list_keeps: "snd (passkey_list l c w) = w"
  by (auto simp: passkey_list_def require_state_def passkey_state_def open_store_def pbind_def praise_def pret_def
      split: state_file.split prod.split sum.split option.split)

text \<open>The id a command would give a new credential is not in use.\<close>

definition ids_fresh :: "('k, 't, 'p) passkey_libs \<Rightarrow> ('k, 't) passkey_call \<Rightarrow> passkey_world \<Rightarrow> bool" where
  "ids_fresh l c w \<longleftrightarrow>
     (if take 1 (pc_args c) = [''run''] then requests_fresh l c w
      else \<forall>cs. stored (pw_creds w (creds_file l c)) = Some cs \<longrightarrow> pc_id c \<notin> credential_id ` set cs)"

lemma action_keeps:
  assumes laws: "passkey_laws l" and ok: "passkeys_ok l kind w" and run: "passkey_action l c w = (r, w')"
    and fresh: "ids_fresh l c w" and resets: "no_reset c"
  shows "passkeys_ok l kind w'" and "spares_test (l_fido l) c \<Longrightarrow> keeps_passkeys l kind w w'"
proof -
  have models: "keeps_passkeys l kind w (w\<lparr>pw_models := ms\<rparr>)" for ms
    using ok by (auto simp: keeps_passkeys_def passkeys_ok_def)
  have listed: "snd (pbind (passkey_list l c) (\<lambda>_. pret ()) w) = w"
    using list_keeps [of l c w] by (auto simp: pbind_def split: prod.split sum.split)
  consider "w' = w" | ms where "w' = w\<lparr>pw_models := ms\<rparr>" | "pc_args c \<noteq> []" "hd (pc_args c) = ''remove''" "passkey_remove l c w = (r, w')"
    | "take 1 (pc_args c) \<noteq> [''run'']" "passkey_register l c w = (r, w')" | "passkey_authenticate l c w = (r, w')"
    | "take 1 (pc_args c) = [''run'']" "passkey_run l c w = (r, w')"
    using run init_keeps [OF ok, of c] status_keeps [OF ok, of c r w'] listed
    by (auto simp: passkey_action_def Let_def praise_def split: if_splits list.splits)
  then have "passkeys_ok l kind w' \<and> (spares_test (l_fido l) c \<longrightarrow> keeps_passkeys l kind w w')"
  proof cases
    case 1
    then show ?thesis
      using ok keeps_refl [OF ok] by simp
  next
    case 2
    then show ?thesis
      using models by (auto simp: keeps_passkeys_def)
  next
    case 3
    then show ?thesis
      using remove_keeps [OF ok] by (cases "pc_args c") (simp_all add: spares_test_def)
  next
    case 4
    then show ?thesis
      using register_keeps [OF laws ok _ _] fresh by (auto simp: keeps_passkeys_def ids_fresh_def)
  next
    case 5
    then show ?thesis
      using authenticate_keeps [OF laws ok] by (auto simp: keeps_passkeys_def)
  next
    case 6
    then show ?thesis
      using run_keeps [OF laws ok 6(2) _ 6(1) resets] fresh by (simp add: ids_fresh_def)
  qed
  then show "passkeys_ok l kind w'" and "spares_test (l_fido l) c \<Longrightarrow> keeps_passkeys l kind w w'"
    by blast+
qed

text \<open>Commands one after the other, of any users; the id each would give a new credential is not in use.\<close>

inductive passkey_runs :: "('k, 't, 'p) passkey_libs \<Rightarrow> passkey_world \<Rightarrow> ('k, 't) passkey_call list \<Rightarrow> passkey_world \<Rightarrow> bool"
  for l where
  none: "passkey_runs l w [] w"
| step: "passkey_action l c w = (r, w1) \<Longrightarrow>
    ids_fresh l c w \<Longrightarrow> passkey_runs l w1 cs w2 \<Longrightarrow> passkey_runs l w (c # cs) w2"

inductive_simps passkey_runs_Nil: "passkey_runs l w [] w'"

lemma runs_ok:
  "passkey_runs l w cs w' \<Longrightarrow> passkey_laws l \<Longrightarrow> passkeys_ok l kind w \<Longrightarrow> \<forall>d \<in> set cs. no_reset d \<Longrightarrow> passkeys_ok l kind w'"
  by (induction rule: passkey_runs.induct) (auto dest: action_keeps(1))

lemma runs_test:
  assumes "passkey_runs l w calls w'" and "passkey_laws l" and "passkeys_ok l kind w"
    and "\<forall>d \<in> set calls. no_reset d \<and> spares_test (l_fido l) d"
    and "stored (pw_creds w path) = Some cs" and "has_test cs"
  shows "\<exists>cs'. stored (pw_creds w' path) = Some cs' \<and> has_test cs'"
  using assms
proof (induction arbitrary: cs rule: passkey_runs.induct)
  case (none w)
  then show ?case
    by blast
next
  case (step c w r w1 calls w2)
  have "keeps_passkeys l kind w w1"
    using action_keeps(2) [OF step.prems(1,2) step.hyps(1,2)] step.prems(3) by simp
  then obtain cs1 where "stored (pw_creds w1 path) = Some cs1" "has_test cs1" "passkeys_ok l kind w1"
    unfolding keeps_passkeys_def using step.prems(4,5) by blast
  then show ?case
    using step.IH step.prems(1,3) by simp
qed

text \<open>
  C9. What the two test commands promise, for both keystores: once \<open>register\<close> succeeded, \<open>authenticate\<close> succeeds for that user, with a
  signature that verifies under the stored public key, given a successful face check and a keystore and a credential file that work. Before and in
  between, any passkey commands may have run, one after the other, of any users and successful or not, \<open>run\<close> included: the service of any user, with whatever
  requests it got until it ended. Excluded are requests that reset the authenticator, which empty the one keystore all users share; and in between
  removals, and requests that register for the test site itself.
\<close>

theorem registered_authenticates:
  assumes "passkey_laws l" and "passkeys_ok l kind w0" and "passkey_runs l w0 before w1" and "\<forall>d \<in> set before. no_reset d"
    and "passkey_register l c w1 = (Inr (), w2)"
    and "\<forall>cs. stored (pw_creds w1 (creds_file l c)) = Some cs \<longrightarrow> pc_id c \<notin> credential_id ` set cs"
    and "passkey_runs l w2 between w3" and "\<forall>d \<in> set between. no_reset d \<and> spares_test (l_fido l) d"
    and "pc_user e = pc_user c" and "can_start kind e" and "pc_face e = SUCCESS" and "keys_works (pc_keys e)"
    and "write_ok (pw_creds w3 (creds_file l e))"
  shows "fst (passkey_authenticate l e w3) = Inr ()"
proof -
  have ok1: "passkeys_ok l kind w1"
    by (rule runs_ok [OF assms(3,1,2,4)])
  then have ok2: "passkeys_ok l kind w2" and "\<exists>cs. stored (pw_creds w2 (creds_file l e)) = Some cs \<and> has_test cs"
    using register_keeps [OF assms(1) _ assms(5,6)] assms(9) by (auto simp: keeps_passkeys_def)
  then obtain cs where "stored (pw_creds w3 (creds_file l e)) = Some cs" "has_test cs"
    using runs_test [OF assms(7,1) ok2 assms(8)] by blast
  moreover have "passkeys_ok l kind w3"
    using runs_ok [OF assms(7,1) ok2] assms(8) by blast
  ultimately show ?thesis
    using authenticate_succeeds [OF assms(1) _ _ _ assms(13,10-12)] by blast
qed

text \<open>When registering succeeds.\<close>

lemma create_succeeds:
  assumes "store_ok (a_store a)" and "write_ok (a_store a)" and "face w = SUCCESS" and "fresh_key w = Some (ref, cose)"
    and "json_form (new_credential f w rp h rp_map user_map ex options ref cose) \<noteq> None" and "\<And>m. sign_with w ref m \<noteq> None"
  shows "\<exists>x. fst (create_credential f w cdh rp h rp_map user_map ex options a) = Inr x"
proof -
  let ?c = "new_credential f w rp h rp_map user_map ex options ref cose"
  obtain cs where cs: "stored (a_store a) = Some cs"
    using assms(1) by (auto simp: store_ok_def)
  have "fst (store_run (Add ?c) (a_store a)) = Inr Unit"
    using refines_add [OF assms(1) cs, of ?c, unfolded refines_def] assms(2,5) by auto
  then obtain s where "cs_add ?c (a_store a) = (Inr (), s)"
    by (cases "cs_add ?c (a_store a)") (auto simp: pbind_def split: sum.splits)
  moreover obtain sig where "sign_with w ref (attestation_data f w rp ex cose @ cdh) = Some sig"
    using assms(6) by blast
  ultimately show ?thesis
    using assms(3,4)
    by (simp add: create_credential_def verify_user_def ks_generate_def ks_sign_def on_credentials_def pbind_def Let_def)
qed

lemma register_succeeds:
  assumes laws: "passkey_laws l" and ok: "passkeys_ok l kind w" and writable: "write_ok (pw_creds w (creds_file l c))"
    and call: "can_start kind c" "pc_face c = SUCCESS" "keys_works (pc_keys c)"
    and made: "fst (keys_generate (pc_keys c) (keys_on_disk l kind (pw_master w))) = Inr (ref, p)"
    and user: "1 \<le> length (utf8 (pc_user c))" "length (utf8 (pc_user c)) \<le> 64" and alg: "ES256 (l_fido l) = - 7"
  shows "fst (passkey_register l c w) = Inr ()"
proof -
  let ?k = "keys_on_disk l kind (pw_master w)"
  let ?w = "passkey_ceremony l c ?k (snd (keys_generate (pc_keys c) ?k))"
  obtain cs where cs: "store_ok (pw_creds w (creds_file l c))" "stored (pw_creds w (creds_file l c)) = Some cs"
    using ok unfolding passkeys_ok_def store_ok_def by metis
  let ?a = "new_authenticator (pc_now c) ((pw_creds w (creds_file l c))\<lparr>credentials := cs\<rparr>)"
  obtain k1 where g: "keys_generate (pc_keys c) ?k = (Inr (ref, p), k1)"
    using made by (metis prod.collapse)
  have signs: "sign_with ?w ref m \<noteq> None" for m
    using either.sign_verifies [OF _ _ call(3), of k1 ref p m] either.generate_keeps [OF disk_sound [OF laws] g]
      either.generate_opens [OF disk_sound [OF laws] g] g by (auto simp: passkey_ceremony_def)
  have w: "face ?w = SUCCESS" "fresh_key ?w = Some (ref, l_cose l p)"
    using call(2) g by (simp_all add: passkey_ceremony_def)
  let ?rp = "[(PText ''id'', PText TEST_SITE), (PText ''name'', PText ''Linux Hello local test'')]"
  let ?um = "[(PText ''id'', PBytes (utf8 (pc_user c))), (PText ''name'', PText (pc_user c)), (PText ''displayName'', PText (pc_user c))]"
  let ?op = "[(PText ''rk'', PBool True)]"
  have form: "json_form (new_credential (l_fido l) ?w TEST_SITE (utf8 (pc_user c)) ?rp ?um [] ?op ref (l_cose l p)) \<noteq> None"
    by (auto simp: json_form_eq new_credential_def or_default_def dget_def cred_protect_of_def)
  have a: "store_ok (a_store ?a)" "write_ok (a_store ?a)"
    using cs(1) writable by (simp_all add: new_authenticator_def)
  have "make_credential (l_fido l) ?w (register_params l (pc_user c)) =
      create_credential (l_fido l) ?w (sha256 (l_fido l) ''linux-hello webauthn register test'') TEST_SITE (utf8 (pc_user c)) ?rp ?um [] ?op"
    using user alg by (simp add: make_credential_def register_params_def dget_def check_pin_uv_auth_param_def pbind_pret_eq or_default_def
        is_excluded_def)
  moreover obtain x where "fst (create_credential (l_fido l) ?w (sha256 (l_fido l) ''linux-hello webauthn register test'') TEST_SITE
      (utf8 (pc_user c)) ?rp ?um [] ?op ?a) = Inr x"
    using create_succeeds [OF a w form signs] by blast
  ultimately obtain a' where "make_credential (l_fido l) ?w (register_params l (pc_user c)) ?a = (Inr x, a')"
    by (metis prod.collapse)
  then show ?thesis
    using call(1)
    by (simp add: passkey_register_def require_state_ok [OF ok] make_authenticator_ok [OF cs(2)] pbind_def run_ctap_def)
qed

text \<open>Libraries with the laws, an empty disk with the software keystore, and a user who looks into the camera.\<close>

definition flat_tpm_lib :: "(byte list, byte list) tpm_lib" where
  "flat_tpm_lib =
     \<lparr>tpm_dumps = sample_dumps, tpm_loads = sample_loads, tpm_wrap = (\<lambda>k. (k, [])), tpm_unmarshals = (\<lambda>bs. True),
      tpm_open = (\<lambda>priv pub. Tpm_Key priv), tpm_point = (\<lambda>k. ([], [])), ec_public = (\<lambda>x y. []), hash256 = id,
      tpm_ecdsa = (\<lambda>n k h. ([], [])), encode_dss = (\<lambda>r q. [9]), tpm_verify = (\<lambda>p m sig. sig = [9])\<rparr>"

definition sample_libs :: "(byte list, byte list, byte list) passkey_libs" where
  "sample_libs =
     \<lparr>l_fido = sample_fido\<lparr>cbor_decode := (\<lambda>b. Some (PBytes b)), cbor_encode := (\<lambda>v. case v of PBytes b \<Rightarrow> b | _ \<Rightarrow> [])\<rparr>,
      l_cose = PBytes, l_cose_verify = (\<lambda>v m sig. sig = [9] \<or> v = PBytes (take (length sig - length m) sig) \<and> drop (length sig - length m) sig = m),
      l_crypto = sample_crypto, l_tpm = flat_tpm_lib, l_config_dir = ''/etc/linux-hello''\<rparr>"

definition empty_disk :: passkey_world where
  "empty_disk = \<lparr>pw_state = State_Doc (Some ''software''), pw_creds = (\<lambda>_. \<lparr>credentials = [], disk = None, lock_ok = True, write_ok = True\<rparr>),
     pw_master = None, pw_models = sample_store\<rparr>"

definition sample_passkey_call :: "string list \<Rightarrow> byte list \<Rightarrow> (byte list, byte list) passkey_call" where
  "sample_passkey_call args i = \<lparr>pc_user = ''alice'', pc_args = args, pc_euid = 0, pc_fido_installed = True, pc_tpm_available = False,
     pc_tpm_usable = False, pc_settings_ok = True, pc_dir_ok = True, pc_face = SUCCESS, pc_now = 0, pc_wall = 0, pc_id = i,
     pc_challenge = ''c'', pc_keys = (sample_sw_call 1, sample_tpm_call),
     pc_service = \<lparr>sv_enabled = Some True, sv_configured = ''bob'', sv_listing = None, sv_show = (\<lambda>_. None), sv_device = Opened,
       sv_asked = [], sv_crashes = False\<rparr>\<rparr>"

lemma sample_libs_laws: "passkey_laws sample_libs"
  by (auto simp: passkey_laws_def sample_libs_def crypto_ok_def tpm_ok_def sample_crypto_def flat_tpm_lib_def sample_json)

lemma empty_disk_ok: "passkeys_ok l ''software'' empty_disk"
  by (simp add: passkeys_ok_def empty_disk_def store_ok_def stored_def creds_match_def)

lemma sample_call_works: "keys_works (pc_keys (sample_passkey_call args i))" "can_start ''software'' (sample_passkey_call args i)"
  by (simp_all add: sample_passkey_call_def sample_sw_call_def sample_tpm_call_def tpm_works_def can_start_def)

lemma sample_register:
  "\<exists>w. passkey_register sample_libs (sample_passkey_call [''register''] [1]) empty_disk = (Inr (), w)"
proof -
  let ?c = "sample_passkey_call [''register''] [1]"
  obtain ref s where "sw_generate_key (sample_sw_call 1) sample_sw = (Inr (ref, [7, 8]), s)"
    using sample_generates by blast
  then have "fst (keys_generate (pc_keys ?c) (keys_on_disk sample_libs ''software'' (pw_master empty_disk))) = Inr (ref, [7, 8])"
    by (simp add: sample_passkey_call_def keys_on_disk_def sample_libs_def empty_disk_def sample_sw_def in_keys_def)
  then have "fst (passkey_register sample_libs ?c empty_disk) = Inr ()"
    by (rule register_succeeds [OF sample_libs_laws empty_disk_ok, rotated 4])
      (simp_all add: sample_call_works, simp_all add: sample_passkey_call_def empty_disk_def utf8_def sample_libs_def sample_fido_def)
  then show ?thesis
    by (metis prod.collapse)
qed

lemma register_writable:
  assumes ok: "passkeys_ok l kind w" and run: "passkey_register l c w = (Inr (), w')"
  shows "write_ok (pw_creds w' (creds_file l c))"
proof -
  obtain cs where cs: "store_ok (pw_creds w (creds_file l c))" "stored (pw_creds w (creds_file l c)) = Some cs"
    using ok unfolding passkeys_ok_def store_ok_def by metis
  let ?k = "keys_on_disk l kind (pw_master w)"
  let ?w = "passkey_ceremony l c ?k (snd (keys_generate (pc_keys c) ?k))"
  let ?a = "new_authenticator (pc_now c) ((pw_creds w (creds_file l c))\<lparr>credentials := cs\<rparr>)"
  obtain x a' where m: "make_credential (l_fido l) ?w (register_params l (pc_user c)) ?a = (x, a')"
    by fastforce
  have x: "\<exists>y. x = Inr y" "pw_creds w' (creds_file l c) = a_store a'"
    using run m
    by (auto simp: passkey_register_def require_state_ok [OF ok] make_authenticator_ok [OF cs(2)] pbind_def run_ctap_def
        split: if_splits sum.splits auth_error.splits)
  then obtain y cdh rp handle_id rm um ex op where "create_credential (l_fido l) ?w cdh rp handle_id rm um ex op ?a = (Inr y, a')"
    using make_credential_leads [of "l_fido l" ?w "register_params l (pc_user c)"] m unfolding leads_def by fastforce
  then obtain d where "cs_add d (a_store ?a) = (Inr (), a_store a')"
    using create_credential_Inr by blast
  moreover have "store_ok (a_store ?a)"
    using cs(1) by (simp add: new_authenticator_def)
  ultimately show ?thesis
    using add_result x(2) by simp
qed

theorem registered_authenticates_witness:
  "\<exists>w. passkey_register sample_libs (sample_passkey_call [''register''] [1]) empty_disk = (Inr (), w) \<and>
     fst (passkey_authenticate sample_libs (sample_passkey_call [''authenticate''] [2]) w) = Inr ()"
proof -
  let ?c = "sample_passkey_call [''register''] [1]" and ?e = "sample_passkey_call [''authenticate''] [2]"
  obtain w where w: "passkey_register sample_libs ?c empty_disk = (Inr (), w)"
    using sample_register by blast
  have same: "pc_user ?e = pc_user ?c" "pc_face ?e = SUCCESS"
    by (simp_all add: sample_passkey_call_def)
  have fresh: "\<forall>cs. stored (pw_creds empty_disk (creds_file sample_libs ?c)) = Some cs \<longrightarrow> pc_id ?c \<notin> credential_id ` set cs"
    by (simp add: empty_disk_def stored_def)
  have "write_ok (pw_creds w (creds_file sample_libs ?e))"
    using register_writable [OF empty_disk_ok w] same by simp
  then have "fst (passkey_authenticate sample_libs ?e w) = Inr ()"
    using registered_authenticates [OF sample_libs_laws empty_disk_ok passkey_runs.none _ w fresh passkey_runs.none _ same(1) sample_call_works(2) same(2)
        sample_call_works(1)] by simp
  then show ?thesis
    using w by blast
qed

section \<open>What a command may touch\<close>

lemma disk_master: "master_after m (keys_on_disk l kind m) = m"
  by (simp add: keys_on_disk_def)

lemma refused_assertion:
  assumes "face w \<noteq> SUCCESS"
  shows "\<exists>e. get_assertion f w [(PInt 1, PText rp), (PInt 2, PBytes h)] a = (Inl e, a)"
  using assms by (auto simp: test_assertion answer_assertion_def verify_user_def pbind_def split: list.split)

text \<open>A command of the authenticator that refuses leaves the disk as it is.\<close>

lemma run_ctap_refused:
  assumes "m a = (Inl e, a)" and "keystore_calls a = []" and "keys = keys_on_disk l kind (pw_master w)"
  shows "snd (run_ctap l c m a keys w) = w\<lparr>pw_creds := (pw_creds w)(creds_file l c := a_store a)\<rparr>"
    and "\<exists>e. fst (run_ctap l c m a keys w) = Inl e"
  using assms by (simp_all add: run_ctap_def disk_master split: auth_error.split)

definition within_bounds :: "('k, 't, 'p) passkey_libs \<Rightarrow> ('k, 't) passkey_call \<Rightarrow> passkey_world \<Rightarrow> passkey_world \<Rightarrow> bool" where
  "within_bounds l c w w' \<longleftrightarrow>
     (\<forall>path. path \<noteq> creds_file l c \<longrightarrow> pw_creds w' path = pw_creds w path) \<and>
     (pw_state w \<noteq> No_State \<longrightarrow> pw_state w' = pw_state w) \<and>
     (pc_face c \<noteq> SUCCESS \<longrightarrow> take 1 (pc_args c) \<noteq> [''remove''] \<longrightarrow>
        (\<forall>path. disk (pw_creds w' path) = disk (pw_creds w path)) \<and> pw_master w' = pw_master w)"

lemma within_bounds_refl [simp]: "within_bounds l c w w"
  by (simp add: within_bounds_def)

lemma contained_ctap:
  assumes "pc_face c \<noteq> SUCCESS \<Longrightarrow> \<exists>e. m a = (Inl e, a)"
    and "a = new_authenticator t ((pw_creds w (creds_file l c))\<lparr>credentials := cs\<rparr>)" and "keys = keys_on_disk l k (pw_master w)"
  shows "within_bounds l c w (snd (run_ctap l c m a keys w))"
proof -
  have calls: "keystore_calls a = []" and store: "disk (a_store a) = disk (pw_creds w (creds_file l c))"
    by (simp_all add: assms(2) new_authenticator_def)
  have "snd (run_ctap l c m a keys w) = w\<lparr>pw_creds := (pw_creds w)(creds_file l c := a_store a)\<rparr>" if "pc_face c \<noteq> SUCCESS"
    using assms(1) [OF that] run_ctap_refused(1) [OF _ calls assms(3)] by blast
  moreover have "pw_state (snd (run_ctap l c m a keys w)) = pw_state w"
      "path \<noteq> creds_file l c \<Longrightarrow> pw_creds (snd (run_ctap l c m a keys w)) path = pw_creds w path" for path
    by (simp_all add: run_ctap_def split: prod.split)
  ultimately show ?thesis
    using store by (auto simp: within_bounds_def)
qed

lemma contained_pbind:
  assumes "\<And>x. snd (m x) = x" and "\<And>y. within_bounds l c w (snd (g y w))"
  shows "within_bounds l c w (snd (pbind m g w))"
proof (cases "m w")
  case (Pair r w1)
  then show ?thesis
    using assms(1) [of w] assms(2) by (cases r) (simp_all add: pbind_def)
qed

lemma open_store_world: "snd (open_store path w) = w"
  by (simp add: open_store_def split: prod.split sum.split)

lemma contained_made:
  assumes "\<And>cs k. within_bounds l c w (snd (g (new_authenticator (pc_now c) ((pw_creds w (creds_file l c))\<lparr>credentials := cs\<rparr>),
      keys_on_disk l k (pw_master w)) w))"
  shows "within_bounds l c w (snd (pbind (make_authenticator l c kind) g w))"
proof -
  obtain r where made: "make_authenticator l c kind w = (r, w)"
    using make_authenticator_world [of l c kind w] by (metis prod.collapse)
  show ?thesis
  proof (cases r)
    case (Inr ak)
    then show ?thesis
      using make_authenticator_cases [OF made] made assms by (cases ak) (auto simp: pbind_def)
  qed (simp add: made pbind_def)
qed

lemma contained_register: "within_bounds l c w (snd (passkey_register l c w))"
  unfolding passkey_register_def
proof (rule contained_pbind, rule require_state_world, rule contained_made, unfold prod.case)
  fix cs k
  let ?a = "new_authenticator (pc_now c) ((pw_creds w (creds_file l c))\<lparr>credentials := cs\<rparr>)" and ?keys = "keys_on_disk l k (pw_master w)"
  let ?w = "passkey_ceremony l c ?keys (snd (keys_generate (pc_keys c) ?keys))"
  let ?m = "make_credential (l_fido l) ?w (register_params l (pc_user c))"
  have "\<exists>e. ?m ?a = (Inl e, ?a)" if "pc_face c \<noteq> SUCCESS"
  proof -
    have "face ?w \<noteq> SUCCESS"
      using that by (simp add: passkey_ceremony_def)
    then show ?thesis
      using refuses_make_credential [of ?w "l_fido l" "register_params l (pc_user c)"] unfolding refuses_def by blast
  qed
  then have "within_bounds l c w (snd (run_ctap l c ?m ?a ?keys w))"
    by (rule contained_ctap [OF _ refl refl])
  then show "within_bounds l c w (snd (pbind (run_ctap l c ?m ?a ?keys) (\<lambda>_. pret ()) w))"
    by (subst snd_pbind_same) (simp_all add: pret_def)
qed

lemma contained_authenticate: "within_bounds l c w (snd (passkey_authenticate l c w))"
  unfolding passkey_authenticate_def Let_def
proof (rule contained_pbind, rule require_state_world, rule contained_made, unfold prod.case)
  fix cs k
  let ?h = "sha256 (l_fido l) (pc_challenge c)"
  let ?rest = "\<lambda>response. pbind (open_store (creds_file l c)) (\<lambda>s. if check_assertion l (credentials s) ?h response then pret () else praise Uncaught)"
  let ?a = "new_authenticator (pc_now c) ((pw_creds w (creds_file l c))\<lparr>credentials := cs\<rparr>)" and ?keys = "keys_on_disk l k (pw_master w)"
  let ?m = "get_assertion (l_fido l) (passkey_ceremony l c ?keys ?keys) [(PInt 1, PText TEST_SITE), (PInt 2, PBytes ?h)]"
  have "snd (?rest response v) = v" for response v
    using open_store_world [of "creds_file l c" v] by (subst snd_pbind_same) (simp_all add: pret_def praise_def)
  then have "snd (pbind (run_ctap l c ?m ?a ?keys) ?rest w) = snd (run_ctap l c ?m ?a ?keys w)"
    by (rule snd_pbind_same)
  moreover have "\<exists>e. ?m ?a = (Inl e, ?a)" if "pc_face c \<noteq> SUCCESS"
    using that by (intro refused_assertion) (simp add: passkey_ceremony_def)
  then have "within_bounds l c w (snd (run_ctap l c ?m ?a ?keys w))"
    by (rule contained_ctap [OF _ refl refl])
  ultimately show "within_bounds l c w (snd (pbind (run_ctap l c ?m ?a ?keys) ?rest w))"
    by simp
qed

lemma contained_remove: "take 1 (pc_args c) = [''remove''] \<Longrightarrow> within_bounds l c w (snd (passkey_remove l c w))"
  unfolding passkey_remove_def Let_def
  by (rule contained_pbind, rule require_state_world)
    (auto simp: within_bounds_def open_store_def pbind_def praise_def split: list.split prod.split sum.split option.split)

lemma contained_others:
  "within_bounds l c w (snd (passkey_init c w))" "within_bounds l c w (snd (passkey_status l c w))"
  "within_bounds l c w (snd (pbind (passkey_list l c) (\<lambda>_. pret ()) w))"
proof -
  show "within_bounds l c w (snd (passkey_init c w))"
    by (auto simp: passkey_init_def passkey_state_def pbind_def praise_def pret_def within_bounds_def Let_def split: state_file.split)
  show "within_bounds l c w (snd (passkey_status l c w))"
    by (auto simp: passkey_status_def passkey_state_def state_kind_def open_store_def pbind_def praise_def pret_def within_bounds_def
        split: state_file.split option.split prod.split sum.split)
  show "within_bounds l c w (snd (pbind (passkey_list l c) (\<lambda>_. pret ()) w))"
    using list_keeps [of l c w] by (subst snd_pbind_same) (simp_all add: pret_def)
qed

text \<open>The service, as long as no face is recognised: it may sign silently, and its first signature may create the master key.\<close>

lemma handle_unverified: "face w \<noteq> SUCCESS \<Longrightarrow> unverified f a (snd (handle_cbor f w bytes a))"
  using handle_cbor_cases [of f w bytes a] unverified_refl [of f a] unverified_command [of w f a] by force

lemma load_master_file: "master_file (snd (load_master_key c s)) = master_file s \<or> master_file s = None"
  by (auto simp: load_master_key_def Let_def split: option.split)

lemma signs_keep_master: "master_after m k = m \<or> m = None \<Longrightarrow> master_after m (snd (keys_sign c ref msg k)) = m \<or> m = None"
proof (cases c; cases k)
  fix x y s
  assume "master_after m k = m \<or> m = None" "c = (x, y)" "k = Software s"
  then show ?thesis
    using sw_sign_state [of x ref msg s] load_master_file [of x s] by (auto simp: in_keys_def split: prod.split)
qed (simp add: in_keys_def split: prod.split)

lemma signs_after_keep_master:
  "Generates \<notin> set ops \<Longrightarrow> master_after m k = m \<or> m = None \<Longrightarrow> master_after m (keys_after c ops k) = m \<or> m = None"
proof (induction ops arbitrary: k)
  case (Cons op ops)
  then show ?case
    using signs_keep_master [of m k c] by (cases op) simp_all
qed simp

lemma unseen_request:
  assumes "rq_face q \<noteq> SUCCESS" and "serve_request l c q (a, k) = (a', k')" and "master_after m k = m \<or> m = None"
  shows "a_store a' = a_store a \<and> (master_after m k' = m \<or> m = None)"
proof -
  let ?d = "asked_call c q" and ?a = "a\<lparr>keystore_calls := []\<rparr>"
  let ?signing = "if take 1 (rq_bytes q) = [CMD_MAKE_CREDENTIAL] then snd (keys_generate (pc_keys ?d) k) else k"
  let ?w = "passkey_ceremony l ?d k ?signing"
  have "face ?w \<noteq> SUCCESS"
    using assms(1) by (simp add: passkey_ceremony_def asked_call_def)
  then have "unverified (l_fido l) ?a (snd (handle_cbor (l_fido l) ?w (rq_bytes q) ?a))"
    by (rule handle_unverified)
  moreover have "a' = snd (handle_cbor (l_fido l) ?w (rq_bytes q) ?a)"
    and k': "k' = (if keys_emptied a' = keys_emptied a then keys_after (pc_keys ?d) (keystore_calls a') k
      else keys_destroy (pc_keys ?d) (keys_after (pc_keys ?d) (keystore_calls a') k))"
    using assms(2) by (auto simp: serve_request_def Let_def)
  ultimately have "a_store a' = a_store a" "keys_emptied a' = keys_emptied a" "Generates \<notin> set (keystore_calls a')"
    by (auto simp: unverified_def)
  then show ?thesis
    using k' signs_after_keep_master assms(3) by simp
qed

lemma unseen_requests:
  assumes "\<forall>q \<in> set qs. rq_face q \<noteq> SUCCESS" and "fold (serve_request l c) qs (a, k) = (a', k')" and "master_after m k = m \<or> m = None"
  shows "a_store a' = a_store a \<and> (master_after m k' = m \<or> m = None)"
  using assms
proof (induction qs arbitrary: a k)
  case (Cons q qs)
  obtain a1 k1 where first: "serve_request l c q (a, k) = (a1, k1)"
    by fastforce
  then show ?case
    using unseen_request [OF _ first Cons.prems(3)] Cons.IH [of a1 k1] Cons.prems by simp
qed simp

lemma contained_run:
  assumes "passkey_run l c w = (r, w')"
  shows "(\<forall>path. path \<noteq> service_file l c \<longrightarrow> pw_creds w' path = pw_creds w path) \<and> pw_state w' = pw_state w \<and>
    ((\<forall>q \<in> set (sv_asked (pc_service c)). rq_face q \<noteq> SUCCESS) \<longrightarrow>
       (\<forall>path. disk (pw_creds w' path) = disk (pw_creds w path)) \<and> (pw_master w' = pw_master w \<or> pw_master w = None))"
  using assms
proof (cases rule: passkey_run_cases)
  case (serves kind a keys)
  let ?qs = "sv_asked (pc_service c)"
  obtain cs k where start: "a = new_authenticator (pc_now c) ((pw_creds w (service_file l c))\<lparr>credentials := cs\<rparr>)"
      "keys = keys_on_disk l k (pw_master w)"
    using make_authenticator_cases [OF serves(3)] by auto
  obtain a' k' where ended: "fold (serve_request l c) ?qs (a, keys) = (a', k')"
    by fastforce
  have w': "w' = w\<lparr>pw_creds := (pw_creds w)(service_file l c := a_store a'), pw_master := master_after (pw_master w) k'\<rparr>"
    using serves(2) ended by (auto simp: serve_requests_def Let_def)
  have "a_store a' = a_store a \<and> (master_after (pw_master w) k' = pw_master w \<or> pw_master w = None)"
    if "\<forall>q \<in> set ?qs. rq_face q \<noteq> SUCCESS"
    using unseen_requests [OF that ended] disk_master start(2) by metis
  then show ?thesis
    by (auto simp: w' start(1) new_authenticator_def)
qed simp

text \<open>The file a command works on, and whether a face was recognised for it.\<close>

definition touched_file :: "('k, 't, 'p) passkey_libs \<Rightarrow> ('k, 't) passkey_call \<Rightarrow> string" where
  "touched_file l c = (if take 1 (pc_args c) = [''run''] then service_file l c else creds_file l c)"

definition face_shown :: "('k, 't) passkey_call \<Rightarrow> bool" where
  "face_shown c \<longleftrightarrow>
     (if take 1 (pc_args c) = [''run''] then \<exists>q \<in> set (sv_asked (pc_service c)). rq_face q = SUCCESS else pc_face c = SUCCESS)"

text \<open>
  C24. What a passkey command may touch. Only root's commands change anything. A command changes no credential file but that of its user, where the
  user of \<open>run\<close> is the one the settings or the session name for the service; and it never changes which keystore is in use once that is decided.
  Without a successful face check, for \<open>run\<close> without one in any of its requests, no command but a removal changes a credential file or
  a master key there is, wherever it fails; \<open>run\<close> may create the master key where there is none.
\<close>

theorem passkey_commands_contained:
  assumes "passkey_action l c w = (r, w')"
  shows "(pc_euid c \<noteq> 0 \<or> pc_user c = ''root'' \<longrightarrow> w' = w) \<and>
    (\<forall>path. path \<noteq> touched_file l c \<longrightarrow> pw_creds w' path = pw_creds w path) \<and>
    (pw_state w \<noteq> No_State \<longrightarrow> pw_state w' = pw_state w) \<and>
    (\<not> face_shown c \<longrightarrow> take 1 (pc_args c) \<noteq> [''remove''] \<longrightarrow>
       (\<forall>path. disk (pw_creds w' path) = disk (pw_creds w path)) \<and>
       (pw_master w' = pw_master w \<or> take 1 (pc_args c) = [''run''] \<and> pw_master w = None))"
proof (cases "take 1 (pc_args c) = [''run'']")
  case True
  then have "w' = w \<or> passkey_run l c w = (r, w')"
    using assms by (auto simp: passkey_action_def Let_def praise_def split: list.splits if_splits)
  moreover have "pc_euid c \<noteq> 0 \<or> pc_user c = ''root'' \<Longrightarrow> w' = w"
    using assms by (auto simp: passkey_action_def Let_def praise_def)
  ultimately show ?thesis
    using contained_run [of l c w r w'] True by (auto simp: touched_file_def face_shown_def)
next
  case False
  have w': "w' = snd (passkey_action l c w)"
    using assms by simp
  have "within_bounds l c w w'"
    unfolding w' using contained_register [of l c w] contained_authenticate [of l c w] contained_remove [of c l w] contained_others [of l c w] False
    by (auto simp: passkey_action_def Let_def praise_def split: list.splits)
  moreover have "pc_euid c \<noteq> 0 \<or> pc_user c = ''root'' \<Longrightarrow> w' = w"
    using assms by (auto simp: passkey_action_def Let_def praise_def)
  ultimately show ?thesis
    using False unfolding within_bounds_def touched_file_def face_shown_def by auto
qed

theorem passkey_commands_contained_witness:
  "\<forall>path. disk (pw_creds (snd (passkey_action sample_libs ((sample_passkey_call [''register''] [1])\<lparr>pc_face := TIMEOUT_REACHED\<rparr>) empty_disk)) path) =
     None"
proof -
  let ?c = "(sample_passkey_call [''register''] [1])\<lparr>pc_face := TIMEOUT_REACHED\<rparr>"
  obtain r w where run: "passkey_action sample_libs ?c empty_disk = (r, w)"
    by fastforce
  have "\<not> face_shown ?c" "take 1 (pc_args ?c) \<noteq> [''remove'']"
    by (simp_all add: sample_passkey_call_def face_shown_def)
  then have "\<forall>path. disk (pw_creds w path) = disk (pw_creds empty_disk path)"
    using passkey_commands_contained [OF run] by blast
  then show ?thesis
    unfolding run by (simp add: empty_disk_def)
qed

section \<open>A reset of one user\<close>

text \<open>
  The credential files are one for each user, the keystore is one for all of them. When the service of one user is asked to reset, and that user
  looks into the camera, the master key goes, while the credentials of the other users stay in their files: they are listed as before, and none of them can
  sign any more (\<^verbatim>\<open>Keystores.destroyed_keys_stay_closed\<close>).
\<close>

theorem reset_loses_others:
  assumes ok: "passkeys_ok l ''software'' w" and starts: "pc_settings_ok c" "sv_enabled (pc_service c) = Some True"
      "service_user (pc_service c) \<noteq> []" "sv_device (pc_service c) = Opened"
    and asked: "sv_asked (pc_service c) = [q]" "rq_bytes q = [CMD_RESET]" "rq_face q = SUCCESS" "rq_now q - pc_now c \<le> RESET_WINDOW"
      "disk_ok (fst (rq_keys q))"
  shows "pw_master (snd (passkey_run l c w)) = None \<and>
    (\<forall>path. path \<noteq> service_file l c \<longrightarrow> pw_creds (snd (passkey_run l c w)) path = pw_creds w path)"
proof -
  let ?c = "c\<lparr>pc_user := service_user (pc_service c)\<rparr>"
  obtain cs where cs: "store_ok (pw_creds w (creds_file l ?c))" "stored (pw_creds w (creds_file l ?c)) = Some cs"
    using ok unfolding passkeys_ok_def store_ok_def by metis
  define a where "a = new_authenticator (pc_now c) ((pw_creds w (service_file l c))\<lparr>credentials := cs\<rparr>)"
  define k where "k = keys_on_disk l ''software'' (pw_master w)"
  have run: "passkey_run l c w = serve_requests l c (a, k) w"
    using starts by (simp add: passkey_run_def require_state_ok [OF ok] run_service_def make_authenticator_ok [OF cs(2)] can_start_def pbind_def
        a_def k_def)
  obtain x y where keys: "rq_keys q = (x, y)"
    by fastforce
  have "lock_ok (a_store a)" "started a = pc_now c"
    using store_ok_lock [OF cs(1)] by (simp_all add: a_def new_authenticator_def)
  then have "handle_cbor (l_fido l) v [CMD_RESET] (a\<lparr>keystore_calls := []\<rparr>) = ([err_code (l_fido l) E_SUCCESS],
      a\<lparr>a_store := (a_store a)\<lparr>credentials := [], disk := None\<rparr>, keystore_calls := [], keys_emptied := keys_emptied a + 1\<rparr>)"
    if "face v = SUCCESS" "now v = rq_now q" for v
    using asked(4) that
    by (simp add: handle_cbor_def run_command_def command_handler_def CMD_RESET_def CMD_MAKE_CREDENTIAL_def CMD_GET_ASSERTION_def CMD_GET_INFO_def
        no_answer_def auth_reset_def verify_user_def on_credentials_def destroy_all_def locked_def pbind_def)
  then obtain b where "serve_request l c q (a, k) = (b, keys_destroy (x, y) k)"
    using asked(2,3) keys by (simp add: serve_request_def Let_def passkey_ceremony_def asked_call_def)
  moreover have "master_after m (keys_destroy (x, y) k) = None" for m
    using asked(5) keys by (simp add: k_def keys_on_disk_def sw_destroy_all_def)
  ultimately show ?thesis
    using asked(1) by (simp add: run serve_requests_def Let_def)
qed

section \<open>Removing by a negative number\<close>

text \<open>
  \<open>list\<close> numbers the credentials from 0, but \<open>remove\<close> takes any Python index: \<open>remove -1\<close> removes the last credential instead of reporting that there is none with
  this ID, and so do the other negative numbers down to the length of the list.
\<close>

theorem remove_negative_index:
  assumes "passkeys_ok l kind w" and "stored (pw_creds w (creds_file l c)) = Some (cs @ [d])" and "write_ok (pw_creds w (creds_file l c))"
    and "pc_args c = [''remove'', ''-1'']"
  shows "passkey_list l c w = (Inr (enumerate 0 (cs @ [d])), w) \<and>
    fst (passkey_remove l c w) = Inr () \<and>
    stored (pw_creds (snd (passkey_remove l c w)) (creds_file l c)) = Some cs"
proof -
  let ?s = "(pw_creds w (creds_file l c))\<lparr>credentials := cs @ [d]\<rparr>"
  have ok: "store_ok ?s" "stored ?s = Some (cs @ [d])" and dist: "distinct (map credential_id (cs @ [d]))"
    using assms(1,2) unfolding passkeys_ok_def creds_match_def by (metis store_ok_credentials)+
  have "write_ok ?s"
    using assms(3) by simp
  moreover have spec: "store_spec (Remove (credential_id d)) (cs @ [d]) = Some (Removed True, cs)"
  proof -
    have "filter (\<lambda>c. credential_id c \<noteq> credential_id d) cs = cs"
      using dist by (intro filter_True) (auto simp: image_iff)
    then show ?thesis
      by simp
  qed
  moreover note ref = refines_remove [OF ok, of "credential_id d", unfolded refines_def]
  ultimately have "fst (store_run (Remove (credential_id d)) ?s) = Inr (Removed True)"
    by blast
  then obtain x s' where rm: "cs_remove (credential_id d) ?s = (Inr x, s')" and run: "store_run (Remove (credential_id d)) ?s = (Inr (Removed True), s')"
    by (cases "cs_remove (credential_id d) ?s") (auto simp: pbind_def split: sum.splits)
  have "stored s' = Some cs"
    using ref run spec by (metis (no_types, lifting) fst_conv option.inject prod.inject snd_conv)
  moreover have "int_of_dec (strip ''-1'') = Some (- 1)"
    by (simp add: int_of_dec_def strip_def rstrip_def lstrip_def is_space_def is_digit_def)
  moreover have "py_index (- 1) (cs @ [d]) = Some d"
    by (simp add: py_index_def)
  ultimately show ?thesis
    using rm assms(4)
    by (simp add: passkey_remove_def require_state_ok [OF assms(1)] open_store_ok [OF assms(2)] pbind_def Let_def passkey_list_def)
qed

end
