(* ===== verification/Engine.thy ===== *)
theory Engine
  imports Daemon_Access Complex_Main
begin

text \<open>
  \<^verbatim>\<open>engine.py\<close>: the frame loop of verification and enrolment.

  OpenCV and the recognition backend are a record of functions on an opaque type of images. Floats
  are real numbers. A run of the loop is given what it meets, one round per frame: what the
  camera returns (\<open>None\<close> for a \<open>CameraError\<close>), what the clock says when the
  round is checked and again when a face was handled, and whether the request is cancelled by then. A loop whose
  rounds ran out without a result is still running: \<open>None\<close>.
\<close>

section \<open>Parameters\<close>

record location =
  loc_left :: int
  loc_top :: int
  loc_right :: int
  loc_bottom :: int

record 'i vision =
  hist8 :: "'i \<Rightarrow> real list"
  mean :: "'i \<Rightarrow> real"
  subtract :: "'i \<Rightarrow> 'i \<Rightarrow> 'i"
  clahe :: "'i \<Rightarrow> 'i"
  resize :: "real \<Rightarrow> 'i \<Rightarrow> 'i"
  turn_left :: "'i \<Rightarrow> 'i"
  turn_right :: "'i \<Rightarrow> 'i"
  shape :: "'i \<Rightarrow> int \<times> int"
  detect_faces :: "'i \<Rightarrow> location list"
  compute_encoding :: "'i \<Rightarrow> location \<Rightarrow> real list option"
  distances :: "real list list \<Rightarrow> real list \<Rightarrow> real list"

text \<open>The settings the loop reads.\<close>

record video =
  max_height :: real
  rotate :: int
  exposure :: int
  dark_threshold :: string

record 'i round =
  shot :: "('i \<times> 'i) option"
  clock :: real
  stop :: bool
  clock2 :: real

section \<open>DarkFilter\<close>

text \<open>\<open>None\<close> as threshold is "auto".\<close>

record dark_filter =
  threshold :: "real option"
  history :: "real list"

text \<open>\<open>to_float\<close> is Python's \<open>float\<close>; a setting it does not take raises.\<close>

definition new_dark_filter :: "(string \<Rightarrow> real option) \<Rightarrow> string \<Rightarrow> dark_filter option" where
  "new_dark_filter to_float setting =
     (let raw = lower (strip setting) in
      if raw \<in> {''auto'', ''none'', []} then Some \<lparr>threshold = None, history = []\<rparr>
      else map_option (\<lambda>t. \<lparr>threshold = Some t, history = []\<rparr>) (to_float raw))"

definition darkness_of :: "real list \<Rightarrow> real" where
  "darkness_of hist = (if sum_list hist = 0 then 100 else hd hist / sum_list hist * 100)"

definition dark_accept :: "real \<Rightarrow> dark_filter \<Rightarrow> bool \<times> dark_filter" where
  "dark_accept darkness d =
     (case threshold d of
        Some t \<Rightarrow> (darkness \<le> t, d)
      | None \<Rightarrow>
          if length (history d) \<ge> 5 \<and> darkness > min 95 (sort (history d) ! (length (history d) div 2) * 1.25 + 10)
          then (False, d)
          else
            let h = history d @ [darkness] in
            (True, d\<lparr>history := if length h > 30 then tl h else h\<rparr>))"

section \<open>AmbientPairing\<close>

definition RATIO :: real where "RATIO = 1.15"
definition MARGIN :: real where "MARGIN = 2"
definition PATIENCE :: nat where "PATIENCE = 10"

record 'i pairing =
  enabled :: bool
  ambient :: "('i \<times> 'i \<times> real) option"
  unpaired :: nat

definition new_pairing :: "bool \<Rightarrow> 'i pairing" where
  "new_pairing alternating = \<lparr>enabled = alternating, ambient = None, unpaired = 0\<rparr>"

definition lit_pair :: "'i vision \<Rightarrow> 'i \<Rightarrow> 'i \<Rightarrow> 'i pairing \<Rightarrow> ('i \<times> 'i) option \<times> 'i pairing" where
  "lit_pair v frame gs p =
     (if \<not> enabled p then (Some (frame, gs), p)
      else
        let level = mean v gs;
            wait = p\<lparr>ambient := Some (frame, gs, level), unpaired := unpaired p + 1\<rparr>;
            unlit = (if unpaired wait > PATIENCE then (Some (frame, gs), wait\<lparr>enabled := False\<rparr>) else (None, wait))
        in (case ambient p of
              None \<Rightarrow> unlit
            | Some (af, ag, al) \<Rightarrow>
                if level > al * RATIO + MARGIN
                then (Some (subtract v frame af, subtract v gs ag), p\<lparr>ambient := None, unpaired := 0\<rparr>)
                else unlit))"

section \<open>Frames\<close>

record stats =
  frames :: nat
  black :: nat
  dark :: nat
  valid :: nat
  darkness_total :: real
  best :: "real option"
  elapsed :: real
  size :: "int \<times> int"
  used_size :: "int \<times> int"
  model_index :: "nat option"
  failed :: bool

definition new_stats :: stats where
  "new_stats = \<lparr>frames = 0, black = 0, dark = 0, valid = 0, darkness_total = 0, best = None, elapsed = 0,
     size = (0, 0), used_size = (0, 0), model_index = None, failed = False\<rparr>"

record 'i loop =
  filter_state :: dark_filter
  pairing_state :: "'i pairing"
  st :: stats
  kept :: "'i list"
  exposures :: nat

text \<open>\<open>(max_height / height) or 1\<close>, with the camera's frame height and width.\<close>

definition scaling :: "video \<Rightarrow> real \<Rightarrow> real \<Rightarrow> real" where
  "scaling c height width =
     (let h = (if rotate c = 2 then width else height); s = max_height c / (if h = 0 then 1 else h)
      in if s = 0 then 1 else s)"

text \<open>What a round turns the frame by: \<open>Some True\<close> is counterclockwise.\<close>

definition turn :: "video \<Rightarrow> nat \<Rightarrow> bool option" where
  "turn c n =
     (if rotate c = 1 then (if n mod 3 = 1 then Some True else if n mod 3 = 2 then Some False else None)
      else if rotate c = 2 then Some (n mod 2 = 0)
      else None)"

definition turned :: "'i vision \<Rightarrow> bool option \<Rightarrow> 'i \<Rightarrow> 'i" where
  "turned v t i = (case t of None \<Rightarrow> i | Some True \<Rightarrow> turn_left v i | Some False \<Rightarrow> turn_right v i)"

text \<open>
  One turn of \<open>_frames\<close> after the camera delivered: the frame to look at, if it is usable, and
  the darkness. \<open>keeping\<close>: the caller keeps the first three frames.
\<close>

definition next_frame :: "'i vision \<Rightarrow> video \<Rightarrow> real \<Rightarrow> bool \<Rightarrow> 'i \<Rightarrow> 'i \<Rightarrow> 'i loop \<Rightarrow> ('i \<times> 'i) option \<times> real \<times> 'i loop" where
  "next_frame v c scale keeping frame0 gs0 l0 =
     (let l1 = l0\<lparr>st := (st l0)\<lparr>frames := frames (st l0) + 1, size := shape v frame0\<rparr>\<rparr>;
          (pair, p) = lit_pair v frame0 gs0 (pairing_state l1);
          l2 = l1\<lparr>pairing_state := p\<rparr>
      in (case pair of
            None \<Rightarrow> (None, 100, l2\<lparr>st := (st l2)\<lparr>black := black (st l2) + 1\<rparr>\<rparr>)
          | Some (frame, gs1) \<Rightarrow>
              let gs = clahe v gs1;
                  l3 = l2\<lparr>kept := if keeping \<and> length (kept l2) < 3 then kept l2 @ [frame] else kept l2\<rparr>;
                  darkness = darkness_of (hist8 v gs)
              in if darkness \<ge> 100 then (None, darkness, l3\<lparr>st := (st l3)\<lparr>black := black (st l3) + 1\<rparr>\<rparr>)
                 else
                   let l4 = l3\<lparr>st := (st l3)\<lparr>valid := valid (st l3) + 1, darkness_total := darkness_total (st l3) + darkness\<rparr>\<rparr>;
                       (ok, d) = dark_accept darkness (filter_state l4);
                       l5 = l4\<lparr>filter_state := d\<rparr>
                   in if \<not> ok then (None, darkness, l5\<lparr>st := (st l5)\<lparr>dark := dark (st l5) + 1\<rparr>\<rparr>)
                      else
                        let sized = (\<lambda>i. if scale \<noteq> 1 then resize v scale i else i);
                            t = turn c (frames (st l5));
                            f = turned v t (sized frame)
                        in (Some (f, turned v t (sized gs)), darkness, l5\<lparr>st := (st l5)\<lparr>used_size := shape v f\<rparr>\<rparr>)))"

definition timed_out_result :: "stats \<Rightarrow> vresult" where
  "timed_out_result s = (if dark s = valid s then TOO_DARK else TIMEOUT_REACHED)"

definition apply_exposure :: "video \<Rightarrow> 'i loop \<Rightarrow> 'i loop" where
  "apply_exposure c l = (if exposure c \<noteq> - 1 then l\<lparr>exposures := exposures l + 1\<rparr> else l)"

section \<open>Verification\<close>

text \<open>\<open>int(np.argmin(distances))\<close>: the first index of the smallest.\<close>

definition argmin :: "real list \<Rightarrow> nat" where
  "argmin ds = length (takeWhile (\<lambda>d. d \<noteq> Min (set ds)) ds)"

text \<open>The faces of one frame, until one matches; the best distance is kept on the way.\<close>

fun scan_faces :: "'i vision \<Rightarrow> real list list \<Rightarrow> real \<Rightarrow> 'i \<Rightarrow> location list \<Rightarrow> stats \<Rightarrow> nat option \<times> stats" where
  "scan_faces v encodings certainty frame [] s = (None, s)"
| "scan_faces v encodings certainty frame (loc # locs) s =
     (case compute_encoding v frame loc of
        None \<Rightarrow> scan_faces v encodings certainty frame locs s
      | Some e \<Rightarrow>
          let ds = distances v encodings e; i = argmin ds; d = ds ! i;
              s' = (if (case best s of None \<Rightarrow> True | Some b \<Rightarrow> d < b) then s\<lparr>best := Some d\<rparr> else s)
          in if 0 \<le> d \<and> d < certainty then (Some i, s') else scan_faces v encodings certainty frame locs s')"

fun verify_loop ::
    "'i vision \<Rightarrow> video \<Rightarrow> real \<Rightarrow> bool \<Rightarrow> real list list \<Rightarrow> real \<Rightarrow> real \<Rightarrow> bool \<Rightarrow> real \<Rightarrow> 'i round list \<Rightarrow> 'i loop \<Rightarrow>
     (vresult \<times> 'i loop) option" where
  "verify_loop v c scale keeping encodings timeout certainty allowed t0 [] l = None"
| "verify_loop v c scale keeping encodings timeout certainty allowed t0 (r # rs) l =
     (case shot r of
        None \<Rightarrow> Some (INVALID_DEVICE, l\<lparr>st := (st l)\<lparr>frames := frames (st l) + 1, failed := True\<rparr>\<rparr>)
      | Some (frame0, gs0) \<Rightarrow>
          let (pair, darkness, l1) = next_frame v c scale keeping frame0 gs0 l;
              l2 = l1\<lparr>st := (st l1)\<lparr>elapsed := clock r - t0\<rparr>\<rparr>
          in if stop r then Some (CANCELLED, l2)
             else if elapsed (st l2) > timeout then Some (timed_out_result (st l2), l2)
             else (case pair of
                 None \<Rightarrow> verify_loop v c scale keeping encodings timeout certainty allowed t0 rs l2
               | Some (frame, gs) \<Rightarrow>
                   (case scan_faces v encodings certainty frame (detect_faces v gs) (st l2) of
                      (Some i, s) \<Rightarrow>
                        Some (if allowed then SUCCESS else RUBBERSTAMP,
                              l2\<lparr>st := s\<lparr>model_index := Some i, elapsed := clock2 r - t0\<rparr>\<rparr>)
                    | (None, s) \<Rightarrow>
                        verify_loop v c scale keeping encodings timeout certainty allowed t0 rs
                          (apply_exposure c (l2\<lparr>st := s\<rparr>)))))"

text \<open>
  The backends that are loaded, by what decides which one it is. \<open>loads\<close> says whether the
  factory succeeds for a key; the handle is the key.
\<close>

type_synonym backend_key = "bool \<times> nat set"

definition get_backend :: "(backend_key \<Rightarrow> bool) \<Rightarrow> bool \<Rightarrow> nat set \<Rightarrow> backend_key list \<Rightarrow> backend_key option \<times> backend_key list" where
  "get_backend loads use_cnn dims cache =
     (let key = (use_cnn, dims) in
      if key \<in> set cache then (Some key, cache)
      else if loads key then (Some key, cache @ [key])
      else (None, cache))"

text \<open>How a request ended, and what became of the camera it opened itself.\<close>

datatype 'r run_end = Ended 'r | Raises | Running

record camera_use =
  cam_opened :: bool
  cam_released :: bool

text \<open>
  \<open>_open_with_backend\<close>: the camera opens while the backend loads. The backend's error wins, and
  then a camera that was opened is released; \<open>Some True\<close> goes on, \<open>Some False\<close> is a
  \<open>CameraError\<close>, \<open>None\<close> the backend's own error.
\<close>

definition open_with_backend :: "bool \<Rightarrow> bool \<Rightarrow> bool option \<times> camera_use" where
  "open_with_backend camera_opens backend_loads =
     (if \<not> backend_loads then (None, \<lparr>cam_opened = camera_opens, cam_released = camera_opens\<rparr>)
      else (Some camera_opens, \<lparr>cam_opened = camera_opens, cam_released = False\<rparr>))"

text \<open>With a camera of the caller's nothing is opened here.\<close>

definition acquire :: "bool \<Rightarrow> bool \<Rightarrow> bool \<Rightarrow> bool option \<times> camera_use" where
  "acquire owned camera_opens backend_loads =
     (if owned then open_with_backend camera_opens backend_loads
      else (if backend_loads then Some True else None, \<lparr>cam_opened = False, cam_released = False\<rparr>))"

text \<open>\<open>finally\<close>: a camera opened here is released once the loop is left.\<close>

definition finish :: "bool \<Rightarrow> 'r run_end \<Rightarrow> camera_use \<Rightarrow> 'r run_end \<times> camera_use" where
  "finish owned r use =
     (r, (case r of Running \<Rightarrow> use | _ \<Rightarrow> if owned then use\<lparr>cam_released := True\<rparr> else use))"

record 'i engine_env =
  vis :: "'i vision"
  conf :: video
  to_float :: "string \<Rightarrow> real option"
  alternating :: bool
  cam_height :: real
  cam_width :: real
  owned :: bool
  camera_opens :: bool
  backend_loads :: bool
  start :: real

definition new_loop :: "'i engine_env \<Rightarrow> 'i loop option" where
  "new_loop e =
     map_option (\<lambda>d. \<lparr>filter_state = d, pairing_state = new_pairing (alternating e), st = new_stats, kept = [], exposures = 0\<rparr>)
       (new_dark_filter (to_float e) (dark_threshold (conf e)))"

definition engine_verify ::
    "'i engine_env \<Rightarrow> bool \<Rightarrow> real list list \<Rightarrow> real \<Rightarrow> real \<Rightarrow> bool \<Rightarrow> 'i round list \<Rightarrow> (vresult \<times> stats) run_end \<times> camera_use" where
  "engine_verify e keeping encodings timeout certainty_setting allowed rounds =
     (if encodings = [] then (Ended (NO_FACE_MODEL, new_stats), \<lparr>cam_opened = False, cam_released = False\<rparr>)
      else
        let (got, use) = acquire (owned e) (camera_opens e) (backend_loads e) in
        (case got of
           None \<Rightarrow> (Raises, use)
         | Some False \<Rightarrow> (Ended (INVALID_DEVICE, new_stats\<lparr>failed := True\<rparr>), use)
         | Some True \<Rightarrow>
             finish (owned e)
               (case new_loop e of
                  None \<Rightarrow> Raises
                | Some l \<Rightarrow>
                    (case verify_loop (vis e) (conf e) (scaling (conf e) (cam_height e) (cam_width e)) keeping encodings timeout
                        (certainty_setting / 10) allowed (start e) rounds l of
                       None \<Rightarrow> Running
                     | Some (r, l') \<Rightarrow> Ended (r, st l')))
               use))"

section \<open>Enrolment\<close>

definition SAMPLE_SPACING :: real where "SAMPLE_SPACING = 0.35"
definition MIN_FACE_SHARE :: real where "MIN_FACE_SHARE = 0.18"

text \<open>\<open>round(x, n)\<close>: to the nearest, halves to the even neighbour.\<close>

definition round_to :: "nat \<Rightarrow> real \<Rightarrow> real" where
  "round_to n x =
     (let y = x * 10 ^ n; k = \<lfloor>y\<rfloor>; up = (y - of_int k > 1 / 2 \<or> (y - of_int k = 1 / 2 \<and> odd k))
      in of_int (if up then k + 1 else k) / 10 ^ n)"

type_synonym face_box = "real \<times> real \<times> real \<times> real"

definition face_of :: "int \<times> int \<Rightarrow> location \<Rightarrow> face_box" where
  "face_of dims loc =
     (let (height, width) = dims in
      (round_to 3 (of_int (max 0 (loc_left loc)) / of_int width), round_to 3 (of_int (max 0 (loc_top loc)) / of_int height),
       round_to 3 (of_int (min width (loc_right loc)) / of_int width), round_to 3 (of_int (min height (loc_bottom loc)) / of_int height)))"

datatype hint = Searching | NoFace | MultipleFaces | TooFar | TooDark | Captured

text \<open>A progress report: the hint, the samples so far, the face, the darkness to one decimal.\<close>

type_synonym report = "hint \<times> nat \<times> face_box option \<times> real option"

record sampling =
  captured :: "real list list"
  last_capture :: "real option"
  reports :: "report list"

definition tell :: "hint \<Rightarrow> face_box option \<Rightarrow> real option \<Rightarrow> sampling \<Rightarrow> sampling" where
  "tell h face darkness s = s\<lparr>reports := reports s @ [(h, length (captured s), face, map_option (round_to 1) darkness)]\<rparr>"

text \<open>
  What a usable frame adds: \<open>check\<close> is the clock when the spacing is checked, \<open>taken\<close> when
  a sample was taken. The flag says whether a sample was taken.
\<close>

definition sample_frame ::
    "'i vision \<Rightarrow> 'i \<Rightarrow> 'i \<Rightarrow> real \<Rightarrow> real \<Rightarrow> real \<Rightarrow> sampling \<Rightarrow> bool \<times> sampling" where
  "sample_frame v frame gs darkness check taken s =
     (case detect_faces v gs of
        [] \<Rightarrow> (False, tell NoFace None (Some darkness) s)
      | [loc] \<Rightarrow>
          (let face = face_of (shape v gs) loc in
           if fst (snd (snd face)) - fst face < MIN_FACE_SHARE then (False, tell TooFar (Some face) (Some darkness) s)
           else if (case last_capture s of None \<Rightarrow> False | Some t \<Rightarrow> check - t < SAMPLE_SPACING)
           then (False, tell Searching (Some face) (Some darkness) s)
           else (case compute_encoding v frame loc of
               None \<Rightarrow> (False, tell NoFace (Some face) (Some darkness) s)
             | Some enc \<Rightarrow>
                 (True, tell Captured (Some face) (Some darkness) (s\<lparr>captured := captured s @ [enc], last_capture := Some taken\<rparr>))))
      | _ \<Rightarrow> (False, tell MultipleFaces None (Some darkness) s))"

fun enroll_loop ::
    "'i vision \<Rightarrow> video \<Rightarrow> real \<Rightarrow> nat \<Rightarrow> real \<Rightarrow> real \<Rightarrow> ('i round \<times> real) list \<Rightarrow> 'i loop \<Rightarrow> sampling \<Rightarrow>
     (vresult \<times> sampling \<times> stats) option" where
  "enroll_loop v c scale samples timeout t0 [] l s = None"
| "enroll_loop v c scale samples timeout t0 ((r, taken) # rs) l s =
     (case shot r of
        None \<Rightarrow> Some (INVALID_DEVICE, s, (st l)\<lparr>frames := frames (st l) + 1, failed := True\<rparr>)
      | Some (frame0, gs0) \<Rightarrow>
          let (pair, darkness, l1) = next_frame v c scale False frame0 gs0 l;
              l2 = l1\<lparr>st := (st l1)\<lparr>elapsed := clock r - t0\<rparr>\<rparr>
          in if stop r then Some (CANCELLED, s, st l2)
             else if elapsed (st l2) > timeout then Some (timed_out_result (st l2), s, st l2)
             else (case pair of
                 None \<Rightarrow> enroll_loop v c scale samples timeout t0 rs l2 (tell TooDark None (Some darkness) s)
               | Some (frame, gs) \<Rightarrow>
                   (case sample_frame v frame gs darkness (clock2 r) taken s of
                      (False, s') \<Rightarrow> enroll_loop v c scale samples timeout t0 rs l2 s'
                    | (True, s') \<Rightarrow>
                        if length (captured s') \<ge> samples then Some (SUCCESS, s', (st l2)\<lparr>elapsed := taken - t0\<rparr>)
                        else enroll_loop v c scale samples timeout t0 rs (apply_exposure c l2) s')))"

definition engine_enroll ::
    "'i engine_env \<Rightarrow> nat \<Rightarrow> real \<Rightarrow> ('i round \<times> real) list \<Rightarrow> (vresult \<times> sampling \<times> stats) run_end \<times> camera_use" where
  "engine_enroll e samples timeout rounds =
     (let s0 = \<lparr>captured = [], last_capture = None, reports = []\<rparr>;
          (got, use) = acquire (owned e) (camera_opens e) (backend_loads e)
      in (case got of
            None \<Rightarrow> (Raises, use)
          | Some False \<Rightarrow> (Ended (INVALID_DEVICE, s0, new_stats\<lparr>failed := True\<rparr>), use)
          | Some True \<Rightarrow>
              finish (owned e)
                (case new_loop e of
                   None \<Rightarrow> Raises
                 | Some l \<Rightarrow>
                     (case enroll_loop (vis e) (conf e) (scaling (conf e) (cam_height e) (cam_width e)) samples timeout (start e)
                         rounds l (tell Searching None None s0) of
                        None \<Rightarrow> Running
                      | Some x \<Rightarrow> Ended x))
                use))"

section \<open>What a match means\<close>

lemma argmin_less: "ds \<noteq> [] \<Longrightarrow> argmin ds < length ds"
proof -
  assume "ds \<noteq> []"
  then have "Min (set ds) \<in> set ds"
    by simp
  moreover have "x \<in> set xs \<Longrightarrow> length (takeWhile (\<lambda>d. d \<noteq> x) xs) < length xs" for x and xs :: "real list"
    by (induction xs) auto
  ultimately show ?thesis
    unfolding argmin_def by blast
qed

lemma argmin_nth: "ds \<noteq> [] \<Longrightarrow> ds ! argmin ds = Min (set ds)"
  using argmin_less [of ds] nth_length_takeWhile [of "\<lambda>d. d \<noteq> Min (set ds)" ds] unfolding argmin_def by blast

text \<open>A face of the frame that is close enough to one of the encodings.\<close>

definition face_matches :: "'i vision \<Rightarrow> real list list \<Rightarrow> real \<Rightarrow> 'i \<Rightarrow> location list \<Rightarrow> nat \<Rightarrow> bool" where
  "face_matches v encodings certainty frame locs i \<longleftrightarrow>
     (\<exists>loc \<in> set locs. \<exists>e. compute_encoding v frame loc = Some e \<and> i = argmin (distances v encodings e) \<and>
        0 \<le> distances v encodings e ! i \<and> distances v encodings e ! i < certainty)"

lemma scan_faces_match:
  "scan_faces v encodings certainty frame locs s = (Some i, s') \<Longrightarrow> face_matches v encodings certainty frame locs i"
proof (induction v encodings certainty frame locs s rule: scan_faces.induct)
  case (2 v encodings certainty frame loc locs s)
  then show ?case
    by (auto simp: face_matches_def Let_def split: option.splits if_splits)
qed simp

lemma next_frame_usable:
  "next_frame v c scale keeping f g l = (Some p, d, l') \<Longrightarrow> d < 100 \<and> (\<forall>t. threshold (filter_state l) = Some t \<longrightarrow> d \<le> t)"
  by (auto simp: next_frame_def Let_def dark_accept_def split: prod.splits option.splits if_splits)

lemma next_frame_threshold:
  "threshold (filter_state (snd (snd (next_frame v c scale keeping f g l)))) = threshold (filter_state l)"
  by (auto simp: next_frame_def Let_def dark_accept_def split: prod.splits option.splits if_splits)

text \<open>A frame of the round that the detector looks at: not black, and no darker than a fixed threshold.\<close>

definition looked_at :: "'i vision \<Rightarrow> video \<Rightarrow> real \<Rightarrow> bool \<Rightarrow> real option \<Rightarrow> 'i round \<Rightarrow> 'i \<Rightarrow> 'i \<Rightarrow> bool" where
  "looked_at v c scale keeping limit r frame gs \<longleftrightarrow>
     (\<exists>f0 g0 l d l'. shot r = Some (f0, g0) \<and> next_frame v c scale keeping f0 g0 l = (Some (frame, gs), d, l') \<and>
        d < 100 \<and> (\<forall>t. limit = Some t \<longrightarrow> d \<le> t))"

definition in_time :: "real \<Rightarrow> real \<Rightarrow> 'i round \<Rightarrow> bool" where
  "in_time t0 timeout r \<longleftrightarrow> shot r \<noteq> None \<and> \<not> stop r \<and> clock r - t0 \<le> timeout"

lemma verify_loop_success:
  assumes "verify_loop v c scale keeping encodings timeout certainty allowed t0 rounds l = Some (SUCCESS, l')"
  shows "allowed \<and> (\<exists>pre r post frame gs i. rounds = pre @ r # post \<and> (\<forall>q \<in> set (pre @ [r]). in_time t0 timeout q) \<and>
    looked_at v c scale keeping (threshold (filter_state l)) r frame gs \<and>
    face_matches v encodings certainty frame (detect_faces v gs) i \<and> model_index (st l') = Some i)"
  using assms
proof (induction rounds arbitrary: l)
  case (Cons r rs)
  obtain f0 g0 where img: "shot r = Some (f0, g0)"
    using Cons.prems by (cases "shot r") auto
  obtain pair d l1 where nf: "next_frame v c scale keeping f0 g0 l = (pair, d, l1)"
    by (metis prod_cases3)
  let ?l2 = "l1\<lparr>st := (st l1)\<lparr>elapsed := clock r - t0\<rparr>\<rparr>"
  have th: "threshold (filter_state l1) = threshold (filter_state l)"
    using next_frame_threshold [of v c scale keeping f0 g0 l] nf by simp
  have ok: "in_time t0 timeout r"
    using Cons.prems img nf by (auto simp: in_time_def timed_out_result_def Let_def split: if_splits)
  have later: ?case if run: "verify_loop v c scale keeping encodings timeout certainty allowed t0 rs k = Some (SUCCESS, l')"
      and same: "threshold (filter_state k) = threshold (filter_state l)" for k
  proof -
    obtain pre q post frame gs i where "allowed" "rs = pre @ q # post" "\<forall>q \<in> set (pre @ [q]). in_time t0 timeout q"
        "looked_at v c scale keeping (threshold (filter_state l)) q frame gs"
        "face_matches v encodings certainty frame (detect_faces v gs) i" "model_index (st l') = Some i"
      using Cons.IH [OF run] same by auto
    with ok show ?thesis
      by (intro conjI exI [of _ "r # pre"] exI [of _ q] exI [of _ post] exI [of _ frame] exI [of _ gs] exI [of _ i]) auto
  qed
  show ?case
  proof (cases pair)
    case None
    then show ?thesis
      using later [of ?l2] Cons.prems img nf ok th by (simp add: in_time_def Let_def)
  next
    case (Some p)
    obtain frame gs where p: "p = (frame, gs)"
      by fastforce
    obtain hit s where scan: "scan_faces v encodings certainty frame (detect_faces v gs) (st ?l2) = (hit, s)"
      by fastforce
    show ?thesis
    proof (cases hit)
      case None
      then show ?thesis
        using later [of "apply_exposure c (?l2\<lparr>st := s\<rparr>)"] Cons.prems img nf ok th Some p scan
        by (simp add: in_time_def apply_exposure_def Let_def)
    next
      case hit: (Some i)
      have "allowed" and "model_index (st l') = Some i"
        using Cons.prems img nf ok Some p scan hit by (auto simp: in_time_def Let_def split: if_splits)
      moreover have "looked_at v c scale keeping (threshold (filter_state l)) r frame gs"
        using next_frame_usable [of v c scale keeping f0 g0 l p d l1] img nf Some p unfolding looked_at_def by blast
      moreover have "face_matches v encodings certainty frame (detect_faces v gs) i"
        using scan_faces_match scan hit by metis
      ultimately show ?thesis
        using ok by (intro conjI exI [of _ "[]"] exI [of _ r] exI [of _ rs] exI [of _ frame] exI [of _ gs] exI [of _ i]) auto
    qed
  qed
qed simp

text \<open>The darkness limit of the settings; \<open>None\<close> where it is learned.\<close>

definition dark_limit :: "'i engine_env \<Rightarrow> real option" where
  "dark_limit e =
     (if lower (strip (dark_threshold (conf e))) \<in> {''auto'', ''none'', []} then None
      else to_float e (lower (strip (dark_threshold (conf e)))))"

lemma new_loop_threshold: "new_loop e = Some l \<Longrightarrow> threshold (filter_state l) = dark_limit e"
  by (auto simp: new_loop_def new_dark_filter_def dark_limit_def Let_def split: if_splits)

lemma engine_success:
  assumes "engine_verify e keeping encodings timeout certainty allowed rounds = (Ended (SUCCESS, s), use)"
  shows "encodings \<noteq> []" and "allowed \<and> backend_loads e \<and> (owned e \<longrightarrow> camera_opens e) \<and>
    (\<exists>pre r post frame gs i. rounds = pre @ r # post \<and> (\<forall>q \<in> set (pre @ [r]). in_time (start e) timeout q) \<and>
      looked_at (vis e) (conf e) (scaling (conf e) (cam_height e) (cam_width e)) keeping (dark_limit e) r frame gs \<and>
      face_matches (vis e) encodings (certainty / 10) frame (detect_faces (vis e) gs) i \<and> model_index s = Some i)"
proof -
  show ne: "encodings \<noteq> []"
    using assms by (auto simp: engine_verify_def)
  have got: "fst (acquire (owned e) (camera_opens e) (backend_loads e)) = Some True"
    using assms ne by (auto simp: engine_verify_def split: prod.splits option.splits bool.splits)
  then obtain l l' where l: "new_loop e = Some l" "s = st l'"
      "verify_loop (vis e) (conf e) (scaling (conf e) (cam_height e) (cam_width e)) keeping encodings timeout
        (certainty / 10) allowed (start e) rounds l = Some (SUCCESS, l')"
    using assms ne by (auto simp: engine_verify_def finish_def split: prod.splits option.splits)
  have "backend_loads e" "owned e \<longrightarrow> camera_opens e"
    using got by (auto simp: acquire_def open_with_backend_def split: if_splits)
  then show "allowed \<and> backend_loads e \<and> (owned e \<longrightarrow> camera_opens e) \<and>
    (\<exists>pre r post frame gs i. rounds = pre @ r # post \<and> (\<forall>q \<in> set (pre @ [r]). in_time (start e) timeout q) \<and>
      looked_at (vis e) (conf e) (scaling (conf e) (cam_height e) (cam_width e)) keeping (dark_limit e) r frame gs \<and>
      face_matches (vis e) encodings (certainty / 10) frame (detect_faces (vis e) gs) i \<and> model_index s = Some i)"
    using verify_loop_success [OF l(3)] unfolding new_loop_threshold [OF l(1)] l(2) by blast
qed

text \<open>
  C5. A success means a matching face: when verification reports success, the camera and the
  backend were there, nothing vetoed the match, and there is a round, reached in time with no
  camera error and no cancellation up to it, with a frame that is neither black nor darker
  than a fixed threshold, in which a detected face has an encoding whose smallest distance to the
  enrolled ones is below the configured certainty; the model reported is the closest one.
\<close>

theorem success_needs_matching_face:
  assumes "engine_verify e keeping encodings timeout certainty allowed rounds = (Ended (SUCCESS, s), use)"
    and "\<forall>x. length (distances (vis e) encodings x) = length encodings"
  shows "allowed \<and> backend_loads e \<and> (owned e \<longrightarrow> camera_opens e) \<and>
    (\<exists>pre r post frame gs loc enc i. rounds = pre @ r # post \<and> (\<forall>q \<in> set (pre @ [r]). in_time (start e) timeout q) \<and>
      looked_at (vis e) (conf e) (scaling (conf e) (cam_height e) (cam_width e)) keeping (dark_limit e) r frame gs \<and>
      loc \<in> set (detect_faces (vis e) gs) \<and> compute_encoding (vis e) frame loc = Some enc \<and>
      model_index s = Some i \<and> i < length encodings \<and>
      distances (vis e) encodings enc ! i = Min (set (distances (vis e) encodings enc)) \<and>
      0 \<le> distances (vis e) encodings enc ! i \<and> distances (vis e) encodings enc ! i < certainty / 10)"
proof -
  obtain pre r post frame gs i where m: "allowed \<and> backend_loads e \<and> (owned e \<longrightarrow> camera_opens e)" "rounds = pre @ r # post"
      "\<forall>q \<in> set (pre @ [r]). in_time (start e) timeout q"
      "looked_at (vis e) (conf e) (scaling (conf e) (cam_height e) (cam_width e)) keeping (dark_limit e) r frame gs"
      "face_matches (vis e) encodings (certainty / 10) frame (detect_faces (vis e) gs) i" "model_index s = Some i"
    using engine_success(2) [OF assms(1)] by blast
  have len: "length (distances (vis e) encodings x) = length encodings" for x
    using assms(2) by simp
  then have nonempty: "distances (vis e) encodings x \<noteq> []" for x
    using engine_success(1) [OF assms(1)] by (metis length_0_conv)
  obtain loc enc where f: "loc \<in> set (detect_faces (vis e) gs)" "compute_encoding (vis e) frame loc = Some enc"
      "i = argmin (distances (vis e) encodings enc)" "0 \<le> distances (vis e) encodings enc ! i"
      "distances (vis e) encodings enc ! i < certainty / 10"
    using m(5) unfolding face_matches_def by blast
  then have "i < length encodings" "distances (vis e) encodings enc ! i = Min (set (distances (vis e) encodings enc))"
    using argmin_less [OF nonempty] argmin_nth [OF nonempty] len by auto
  with m f show ?thesis
    by blast
qed

text \<open>
  An instance: images are numbers, the darkness of image \<open>n\<close> is \<open>n\<close> percent, every
  image shows one face whose distance to an enrolled encoding is a tenth of what it was enrolled with.
\<close>

definition sample_vision :: "real vision" where
  "sample_vision = \<lparr>hist8 = (\<lambda>i. [i, 100 - i]), mean = id, subtract = (-), clahe = id, resize = (\<lambda>s i. i), turn_left = id,
     turn_right = id, shape = (\<lambda>i. (100, 100)), detect_faces = (\<lambda>i. [\<lparr>loc_left = 10, loc_top = 10, loc_right = 60, loc_bottom = 60\<rparr>]),
     compute_encoding = (\<lambda>i l. Some [i]), distances = (\<lambda>es e. map (\<lambda>x. hd x / 10) es)\<rparr>"

definition sample_engine :: "real engine_env" where
  "sample_engine = \<lparr>vis = sample_vision, conf = \<lparr>max_height = 320, rotate = 0, exposure = - 1, dark_threshold = ''auto''\<rparr>,
     to_float = (\<lambda>s. None), alternating = False, cam_height = 320, cam_width = 320, owned = True, camera_opens = True,
     backend_loads = True, start = 0\<rparr>"

definition sample_round :: "real \<Rightarrow> real \<Rightarrow> real round" where
  "sample_round i t = \<lparr>shot = Some (i, i), clock = t, stop = False, clock2 = t\<rparr>"

lemma sample_verify:
  "\<exists>s use. engine_verify sample_engine False [[2]] 4 3.5 True [sample_round 100 1, sample_round 30 2] = (Ended (SUCCESS, s), use)"
  by (simp add: engine_verify_def sample_engine_def acquire_def open_with_backend_def new_loop_def new_dark_filter_def
      finish_def sample_vision_def sample_round_def scaling_def next_frame_def lit_pair_def new_pairing_def new_stats_def
      darkness_of_def dark_accept_def turn_def turned_def argmin_def Let_def lower_def to_lower_char_def strip_def rstrip_def lstrip_def
      is_space_def)

theorem success_needs_matching_face_witness:
  "\<exists>s use r frame gs loc enc. engine_verify sample_engine False [[2]] 4 3.5 True [sample_round 100 1, sample_round 30 2]
      = (Ended (SUCCESS, s), use) \<and> r \<in> set [sample_round 100 1, sample_round 30 2] \<and>
    looked_at (vis sample_engine) (conf sample_engine) 1 False (dark_limit sample_engine) r frame gs \<and>
    loc \<in> set (detect_faces (vis sample_engine) gs) \<and> compute_encoding (vis sample_engine) frame loc = Some enc \<and>
    distances (vis sample_engine) [[2]] enc ! 0 < 0.35"
proof -
  obtain s use where v: "engine_verify sample_engine False [[2]] 4 3.5 True [sample_round 100 1, sample_round 30 2] = (Ended (SUCCESS, s), use)"
    using sample_verify by blast
  have len: "\<forall>x. length (distances (vis sample_engine) [[2]] x) = length [[2::real]]"
    by (simp add: sample_engine_def sample_vision_def)
  have sc: "scaling (conf sample_engine) (cam_height sample_engine) (cam_width sample_engine) = 1"
    by (simp add: sample_engine_def scaling_def)
  obtain pre r post frame gs loc enc i where "[sample_round 100 1, sample_round 30 2] = pre @ r # post"
      "looked_at (vis sample_engine) (conf sample_engine) 1 False (dark_limit sample_engine) r frame gs"
      "loc \<in> set (detect_faces (vis sample_engine) gs)" "compute_encoding (vis sample_engine) frame loc = Some enc"
      "i < length [[2::real]]" "distances (vis sample_engine) [[2]] enc ! i < 3.5 / 10"
    using success_needs_matching_face [OF v len] unfolding sc by blast
  then have "r \<in> set [sample_round 100 1, sample_round 30 2]" "distances (vis sample_engine) [[2]] enc ! 0 < 0.35"
    by (metis in_set_conv_decomp, simp)
  with v show ?thesis
    by (metis \<open>compute_encoding (vis sample_engine) frame loc = Some enc\<close> \<open>loc \<in> set (detect_faces (vis sample_engine) gs)\<close>
        \<open>looked_at (vis sample_engine) (conf sample_engine) 1 False (dark_limit sample_engine) r frame gs\<close>)
qed

section \<open>The loops end, and the camera is released\<close>

lemma verify_loop_ends:
  "\<exists>r \<in> set rounds. \<not> in_time t0 timeout r \<Longrightarrow>
    verify_loop v c scale keeping encodings timeout certainty allowed t0 rounds l \<noteq> None"
proof (induction rounds arbitrary: l)
  case (Cons r rs)
  show ?case
  proof (cases "in_time t0 timeout r")
    case True
    with Cons have "verify_loop v c scale keeping encodings timeout certainty allowed t0 rs k \<noteq> None" for k
      by auto
    then show ?thesis
      by (auto simp: Let_def split: option.split prod.split)
  next
    case False
    then show ?thesis
      by (auto simp: in_time_def Let_def split: option.split prod.split)
  qed
qed simp

lemma enroll_loop_ends:
  "\<exists>r \<in> fst ` set rounds. \<not> in_time t0 timeout r \<Longrightarrow> enroll_loop v c scale samples timeout t0 rounds l s \<noteq> None"
proof (induction rounds arbitrary: l s)
  case (Cons x rs)
  obtain r taken where x: "x = (r, taken)"
    by fastforce
  show ?case
  proof (cases "in_time t0 timeout r")
    case True
    with Cons x have "enroll_loop v c scale samples timeout t0 rs k s' \<noteq> None" for k s'
      by auto
    then show ?thesis
      by (auto simp: x Let_def split: option.split prod.split bool.split)
  next
    case False
    then show ?thesis
      by (auto simp: x in_time_def Let_def split: option.split prod.split)
  qed
qed simp

text \<open>
  C29. The camera is never kept: a request that opened the camera itself has released it
  when it returns or raises, whatever the result, and a loop does return: it ends with the
  first round that is late, cancelled or without a frame. A camera the caller
  opened is never touched.
\<close>

theorem camera_released:
  assumes "owned e"
  shows "(fst (engine_verify e keeping encodings timeout certainty allowed rounds) \<noteq> Running \<longrightarrow>
      cam_released (snd (engine_verify e keeping encodings timeout certainty allowed rounds)) =
      cam_opened (snd (engine_verify e keeping encodings timeout certainty allowed rounds))) \<and>
    ((\<exists>r \<in> set rounds. \<not> in_time (start e) timeout r) \<longrightarrow>
      fst (engine_verify e keeping encodings timeout certainty allowed rounds) \<noteq> Running) \<and>
    (fst (engine_enroll e samples timeout shots) \<noteq> Running \<longrightarrow>
      cam_released (snd (engine_enroll e samples timeout shots)) = cam_opened (snd (engine_enroll e samples timeout shots))) \<and>
    ((\<exists>r \<in> fst ` set shots. \<not> in_time (start e) timeout r) \<longrightarrow> fst (engine_enroll e samples timeout shots) \<noteq> Running)"
proof (intro conjI impI)
  show "cam_released (snd (engine_verify e keeping encodings timeout certainty allowed rounds)) =
      cam_opened (snd (engine_verify e keeping encodings timeout certainty allowed rounds))"
    if "fst (engine_verify e keeping encodings timeout certainty allowed rounds) \<noteq> Running"
    using that assms
    by (auto simp: engine_verify_def acquire_def open_with_backend_def finish_def split: option.splits bool.splits run_end.splits if_splits)
  show "cam_released (snd (engine_enroll e samples timeout shots)) = cam_opened (snd (engine_enroll e samples timeout shots))"
    if "fst (engine_enroll e samples timeout shots) \<noteq> Running"
    using that assms
    by (auto simp: engine_enroll_def acquire_def open_with_backend_def finish_def Let_def
        split: option.splits bool.splits run_end.splits if_splits)
  show "fst (engine_verify e keeping encodings timeout certainty allowed rounds) \<noteq> Running"
    if "\<exists>r \<in> set rounds. \<not> in_time (start e) timeout r"
    by (auto simp: engine_verify_def finish_def elim!: notE [OF verify_loop_ends [OF that]]
        split: prod.split option.split bool.split)
  show "fst (engine_enroll e samples timeout shots) \<noteq> Running"
    if "\<exists>r \<in> fst ` set shots. \<not> in_time (start e) timeout r"
    by (auto simp: engine_enroll_def finish_def Let_def elim!: notE [OF enroll_loop_ends [OF that]]
        split: prod.split option.split bool.split)
qed

theorem camera_released_witness:
  "owned sample_engine \<and>
   fst (engine_verify sample_engine False [[2]] 4 3.5 True [sample_round 30 5]) \<noteq> Running \<and>
   cam_released (snd (engine_verify sample_engine False [[2]] 4 3.5 True [sample_round 30 5]))"
proof -
  have o: "owned sample_engine"
    by (simp add: sample_engine_def)
  have late: "\<exists>r \<in> set [sample_round 30 5]. \<not> in_time (start sample_engine) 4 r"
    by (simp add: sample_round_def in_time_def sample_engine_def)
  have opened: "cam_opened (snd (engine_verify sample_engine False [[2]] 4 3.5 True [sample_round 30 5]))"
    by (auto simp: engine_verify_def sample_engine_def acquire_def open_with_backend_def finish_def split: run_end.split)
  show ?thesis
    using camera_released [OF o, of False "[[2]]" 4 "3.5" True "[sample_round 30 5]" 0 "[]"] late opened o by blast
qed

section \<open>Samples of one face\<close>

text \<open>A sample: the encoding of the only face of a frame, wide enough.\<close>

definition good_sample :: "'i vision \<Rightarrow> real list \<Rightarrow> bool" where
  "good_sample v enc \<longleftrightarrow>
     (\<exists>frame gs loc. detect_faces v gs = [loc] \<and> compute_encoding v frame loc = Some enc \<and>
        fst (snd (snd (face_of (shape v gs) loc))) - fst (face_of (shape v gs) loc) \<ge> MIN_FACE_SHARE)"

lemma tell_captured [simp]: "captured (tell h f d s) = captured s" "last_capture (tell h f d s) = last_capture s"
  by (simp_all add: tell_def)

lemma sample_frame_cases:
  "(\<exists>s'. sample_frame v frame gs d check taken s = (False, s') \<and> captured s' = captured s \<and> last_capture s' = last_capture s) \<or>
   (\<exists>s' enc. sample_frame v frame gs d check taken s = (True, s') \<and> captured s' = captured s @ [enc] \<and> good_sample v enc \<and>
      last_capture s' = Some taken \<and> (\<forall>t. last_capture s = Some t \<longrightarrow> check - t \<ge> SAMPLE_SPACING))"
proof (cases "detect_faces v gs")
  case (Cons loc locs)
  show ?thesis
  proof (cases locs)
    case Nil
    then have one: "detect_faces v gs = [loc]"
      using Cons by simp
    let ?face = "face_of (shape v gs) loc"
    show ?thesis
    proof (cases "fst (snd (snd ?face)) - fst ?face < MIN_FACE_SHARE \<or>
        (case last_capture s of None \<Rightarrow> False | Some t \<Rightarrow> check - t < SAMPLE_SPACING) \<or> compute_encoding v frame loc = None")
      case True
      then show ?thesis
        by (auto simp: sample_frame_def one Let_def)
    next
      case False
      then obtain enc where enc: "compute_encoding v frame loc = Some enc"
        by auto
      then have "good_sample v enc"
        using False one unfolding good_sample_def by (meson not_less)
      moreover have "\<forall>t. last_capture s = Some t \<longrightarrow> check - t \<ge> SAMPLE_SPACING"
        using False by auto
      ultimately show ?thesis
        using False enc by (auto simp: sample_frame_def one Let_def)
    qed
  qed (simp add: sample_frame_def Cons)
qed (simp add: sample_frame_def)

lemma enroll_loop_samples:
  assumes "enroll_loop v c scale samples timeout t0 rounds l s = Some (r, s', sts)"
    and "length (captured s) < samples" and "\<forall>enc \<in> set (captured s). good_sample v enc"
  shows "length (captured s') \<le> samples \<and> (r = SUCCESS \<longleftrightarrow> length (captured s') = samples) \<and>
    (\<forall>enc \<in> set (captured s'). good_sample v enc)"
  using assms
proof (induction rounds arbitrary: l s)
  case (Cons x rs)
  obtain rd taken where x: "x = (rd, taken)"
    by fastforce
  show ?case
  proof (cases "shot rd")
    case None
    then show ?thesis
      using Cons.prems x by auto
  next
    case (Some fg)
    obtain f0 g0 where fg: "fg = (f0, g0)"
      by fastforce
    obtain pair d l1 where nf: "next_frame v c scale False f0 g0 l = (pair, d, l1)"
      by (metis prod_cases3)
    let ?l2 = "l1\<lparr>st := (st l1)\<lparr>elapsed := clock rd - t0\<rparr>\<rparr>"
    note run = Cons.prems(1) [unfolded x enroll_loop.simps Some fg option.case prod.case nf Let_def]
    show ?thesis
    proof (cases "stop rd \<or> elapsed (st ?l2) > timeout \<or> pair = None")
      case True
      then show ?thesis
        using run Cons.prems(2,3) Cons.IH [of ?l2 "tell TooDark None (Some d) s"]
        by (auto simp: timed_out_result_def split: if_splits)
    next
      case False
      then obtain frame gs where pair: "pair = Some (frame, gs)"
        by auto
      from sample_frame_cases [of v frame gs d "clock2 rd" taken s] show ?thesis
      proof (elim disjE exE conjE)
        fix s1 assume "sample_frame v frame gs d (clock2 rd) taken s = (False, s1)" "captured s1 = captured s"
        then show ?thesis
          using run False pair Cons.prems(2,3) Cons.IH [of ?l2 s1] by simp
      next
        fix s1 enc assume "sample_frame v frame gs d (clock2 rd) taken s = (True, s1)" "captured s1 = captured s @ [enc]" "good_sample v enc"
        then show ?thesis
          using run False pair Cons.prems(2,3) Cons.IH [of "apply_exposure c ?l2" s1] by (auto split: if_splits)
      qed
    qed
  qed
qed simp

text \<open>
  Enrolment takes samples of one face: it never returns more samples than asked for, it
  succeeds exactly when it has them all, and every sample is the encoding of the only face
  of its frame, at least as wide as the required share of it.
\<close>

theorem enrolment_samples:
  assumes "engine_enroll e samples timeout shots = (Ended (r, s, sts), use)" and "0 < samples"
  shows "length (captured s) \<le> samples \<and> (r = SUCCESS \<longleftrightarrow> length (captured s) = samples) \<and>
    (\<forall>enc \<in> set (captured s). good_sample (vis e) enc)"
proof (cases "fst (acquire (owned e) (camera_opens e) (backend_loads e)) = Some True")
  case True
  then obtain l where "enroll_loop (vis e) (conf e) (scaling (conf e) (cam_height e) (cam_width e)) samples timeout (start e) shots l
      (tell Searching None None \<lparr>captured = [], last_capture = None, reports = []\<rparr>) = Some (r, s, sts)"
    using assms(1) by (auto simp: engine_enroll_def finish_def Let_def split: prod.splits option.splits)
  then show ?thesis
    by (rule enroll_loop_samples) (simp_all add: assms(2))
next
  case False
  then show ?thesis
    using assms by (auto simp: engine_enroll_def Let_def split: prod.splits option.splits bool.splits)
qed

theorem enrolment_samples_witness:
  "\<exists>s sts use. engine_enroll sample_engine 1 20 [(sample_round 100 1, 1), (sample_round 30 2, 2)] = (Ended (SUCCESS, s, sts), use) \<and>
    captured s = [[30]] \<and> good_sample sample_vision [30]"
proof -
  have "\<exists>s sts use. engine_enroll sample_engine 1 20 [(sample_round 100 1, 1), (sample_round 30 2, 2)] = (Ended (SUCCESS, s, sts), use) \<and>
      captured s = [[30]]"
    by (simp add: engine_enroll_def sample_engine_def acquire_def open_with_backend_def new_loop_def new_dark_filter_def
        finish_def sample_vision_def sample_round_def scaling_def next_frame_def lit_pair_def new_pairing_def new_stats_def
        darkness_of_def dark_accept_def turn_def turned_def Let_def lower_def to_lower_char_def strip_def rstrip_def lstrip_def
        is_space_def tell_def sample_frame_def face_of_def round_to_def MIN_FACE_SHARE_def)
  then obtain s sts use where run: "engine_enroll sample_engine 1 20 [(sample_round 100 1, 1), (sample_round 30 2, 2)] = (Ended (SUCCESS, s, sts), use)"
      "captured s = [[30]]"
    by blast
  have "vis sample_engine = sample_vision"
    by (simp add: sample_engine_def)
  with enrolment_samples [OF run(1)] run show ?thesis
    by auto
qed

section \<open>The learned darkness limit\<close>

text \<open>The filter after a sequence of frames, and whether each was accepted.\<close>

fun dark_run :: "real list \<Rightarrow> dark_filter \<Rightarrow> bool list \<times> dark_filter" where
  "dark_run [] d = ([], d)"
| "dark_run (x # xs) d = (case dark_accept x d of (ok, d') \<Rightarrow> (case dark_run xs d' of (oks, d'') \<Rightarrow> (ok # oks, d'')))"

lemma dark_accept_auto:
  assumes "threshold d = None" and "length (history d) \<le> 30" and "dark_accept x d = (ok, d')"
  shows "threshold d' = None" "length (history d') \<le> 30" "min (length (history d)) 5 \<le> length (history d')"
    "ok \<Longrightarrow> 5 \<le> length (history d) \<Longrightarrow> x \<le> 95"
  using assms by (auto simp: dark_accept_def Let_def split: if_splits)

text \<open>
  The learned darkness limit stays bounded: whatever frames come, the filter remembers at most
  thirty accepted ones, the first five frames are always taken, and from then on no frame
  with more than 95 percent in the darkest bucket is ever accepted.
\<close>

theorem auto_filter_bounded:
  assumes "dark_run xs \<lparr>threshold = None, history = []\<rparr> = (oks, d)"
  shows "length (history d) \<le> 30 \<and> (\<forall>i < length xs. i < 5 \<longrightarrow> oks ! i) \<and> (\<forall>i < length xs. 5 \<le> i \<and> oks ! i \<longrightarrow> xs ! i \<le> 95)"
proof -
  have "dark_run xs d0 = (oks, d) \<Longrightarrow> threshold d0 = None \<Longrightarrow> length (history d0) \<le> 30 \<Longrightarrow> k = min 5 (length (history d0)) \<Longrightarrow>
      length (history d) \<le> 30 \<and> (\<forall>i < length xs. i + k < 5 \<longrightarrow> oks ! i) \<and> (\<forall>i < length xs. 5 \<le> i + k \<and> oks ! i \<longrightarrow> xs ! i \<le> 95)"
    for d0 k
  proof (induction xs arbitrary: d0 oks k)
    case (Cons x xs)
    obtain ok d1 where acc: "dark_accept x d0 = (ok, d1)"
      by fastforce
    obtain oks1 where run: "dark_run xs d1 = (oks1, d)" "oks = ok # oks1"
      using Cons.prems(1) acc by (auto split: prod.splits)
    note a = dark_accept_auto [OF Cons.prems(2,3) acc]
    have first: "ok" "length (history d1) = length (history d0) + 1" if "length (history d0) < 5"
      using that acc Cons.prems(2) by (auto simp: dark_accept_def Let_def)
    have "length (history d1) \<ge> 5" if "length (history d0) \<ge> 5"
      using a(3) that by simp
    with first have k1: "min 5 (length (history d1)) = min 5 (k + 1)"
      using Cons.prems(4) by (cases "length (history d0) < 5") auto
    note ih = Cons.IH [OF run(1) a(1,2) refl, unfolded k1]
    show ?case
    proof (intro conjI allI impI)
      show "length (history d) \<le> 30"
        using ih by blast
      fix i assume i: "i < length (x # xs)"
      show "oks ! i" if "i + k < 5"
        using that ih first Cons.prems(4) i run(2) by (cases i) auto
      show "(x # xs) ! i \<le> 95" if "5 \<le> i + k \<and> oks ! i"
        using that ih a(4) Cons.prems(4) i run(2) by (cases i) auto
    qed
  qed simp
  from this [OF assms] show ?thesis
    by simp
qed

theorem auto_filter_bounded_witness:
  "dark_run [90, 90, 90, 90, 90, 99, 50] \<lparr>threshold = None, history = []\<rparr> =
     ([True, True, True, True, True, False, True], \<lparr>threshold = None, history = [90, 90, 90, 90, 90, 50]\<rparr>) \<and>
   length (history (snd (dark_run [90, 90, 90, 90, 90, 99, 50] \<lparr>threshold = None, history = []\<rparr>))) \<le> 30"
proof -
  have run: "dark_run [90, 90, 90, 90, 90, 99, 50] \<lparr>threshold = None, history = []\<rparr> =
     ([True, True, True, True, True, False, True], \<lparr>threshold = None, history = [90, 90, 90, 90, 90, 50]\<rparr>)"
    by (simp add: dark_accept_def)
  then show ?thesis
    using auto_filter_bounded [OF run] by simp
qed

end
