(* ===== verification/Rubberstamps.thy ===== *)
theory Rubberstamps
  imports Engine Settings_Layers Host_Checks
begin

text \<open>
  \<^verbatim>\<open>rubberstamps/\<close>: the extra checks between a match and its success, and
  \<open>_rubberstamps\<close> of \<^verbatim>\<open>daemon/manager.py\<close>, which calls them.

  The directory of the stamps, what loading one gives, OpenCV, the face detector, the landmark
  predictor and the package \<open>keyboard\<close> are parameters. A call that may raise is an option with
  \<open>None\<close> for the exception. The service passes no user interface process, so that
  \<open>set_ui_text\<close> writes nothing. A finite float is a real number, infinite ones and what is not a number are values of their own; \<open>flt\<close> is
  Python's \<open>float\<close>.
\<close>

section \<open>Rules\<close>

text \<open>\<open>\w\<close> below 256: letters and digits, fractions and superscripts included, and the underscore.\<close>

definition is_word :: "char \<Rightarrow> bool" where
  "is_word c \<longleftrightarrow>
     (CHR ''a'' \<le> c \<and> c \<le> CHR ''z'') \<or> (CHR ''A'' \<le> c \<and> c \<le> CHR ''Z'') \<or> (CHR ''0'' \<le> c \<and> c \<le> CHR ''9'') \<or>
     c \<in> set [CHR ''_'', CHR 0xAA, CHR 0xB2, CHR 0xB3, CHR 0xB5, CHR 0xB9, CHR 0xBA, CHR 0xBC, CHR 0xBD, CHR 0xBE] \<or>
     (CHR 0xC0 \<le> c \<and> c \<noteq> CHR 0xD7 \<and> c \<noteq> CHR 0xF7)"

definition is_letter :: "char \<Rightarrow> bool" where
  "is_letter c \<longleftrightarrow> (CHR ''a'' \<le> c \<and> c \<le> CHR ''z'') \<or> (CHR ''A'' \<le> c \<and> c \<le> CHR ''Z'')"

definition is_word_dot :: "char \<Rightarrow> bool" where
  "is_word_dot c \<longleftrightarrow> is_word c \<or> c = CHR ''.''"

record stamp_rule =
  rule_type :: string
  rule_time :: string
  rule_mode :: string
  rule_rest :: string

text \<open>
  The regular expression on a rule, which has no line feed. White space is neither a word character nor a
  dot, and the last group takes whatever is left, so the longest match of each group is the only one.
\<close>

definition parse_rule :: "string \<Rightarrow> stamp_rule option" where
  "parse_rule s =
     (let t = takeWhile is_word s; s1 = dropWhile is_word s; s2 = dropWhile is_space s1;
          w = takeWhile is_word_dot s2; s3 = dropWhile is_word_dot s2; s4 = dropWhile is_space s3;
          m = takeWhile is_letter s4
      in if t = [] \<or> s2 = s1 \<or> w = [] \<or> s4 = s3 \<or> m = [] then None
         else Some \<lparr>rule_type = t, rule_time = w, rule_mode = m, rule_rest = dropWhile is_letter s4\<rparr>)"

text \<open>\<open>s.split("\n")\<close>.\<close>

fun split_LF :: "string \<Rightarrow> string list" where
  "split_LF [] = [[]]"
| "split_LF (c # cs) =
     (if c = LF then [] # split_LF cs
      else (case split_LF cs of [] \<Rightarrow> [[c]] | l # ls \<Rightarrow> (c # l) # ls))"

section \<open>Options\<close>

text \<open>A float: finite, infinite, or not a number.\<close>

datatype py_float = Fin real | Pos_Inf | Neg_Inf | NaN

datatype opt_value = Opt_Float py_float | Opt_Bool bool | Opt_Int int | Opt_Str string

type_synonym options = "(string \<times> opt_value) list"

datatype stamp_error = No_Rules | Bad_Flag | Load_Error | Bad_Timeout | Bad_Option | Bad_Number | No_Predictor

text \<open>The two options of every stamp.\<close>

definition base_options :: "(string \<Rightarrow> py_float option) \<Rightarrow> stamp_rule \<Rightarrow> options option" where
  "base_options flt r =
     map_option (\<lambda>x. [(''timeout'', Opt_Float x), (''failsafe'', Opt_Bool (rule_mode r \<noteq> ''faildeadly''))])
       (flt (filter (\<lambda>c. \<not> is_letter c) (rule_time r)))"

text \<open>One optional argument. The value takes the type of what it replaces; a flag counts as an integer.\<close>

definition read_option :: "(string \<Rightarrow> py_float option) \<Rightarrow> string \<Rightarrow> options \<Rightarrow> stamp_error + options" where
  "read_option flt arg opts =
     (if count_list arg (CHR ''='') \<noteq> 1 then Inl Bad_Option
      else let (key, v) = split1 (CHR ''='') arg in
        (case map_of opts key of
           None \<Rightarrow> Inr opts
         | Some (Opt_Float _) \<Rightarrow>
             (case flt v of None \<Rightarrow> Inl Bad_Number | Some x \<Rightarrow> Inr (AList.update key (Opt_Float x) opts))
         | Some (Opt_Str _) \<Rightarrow> Inr (AList.update key (Opt_Str v) opts)
         | Some _ \<Rightarrow>
             (case int_of_dec v of None \<Rightarrow> Inl Bad_Number | Some i \<Rightarrow> Inr (AList.update key (Opt_Int i) opts))))"

fun read_options :: "(string \<Rightarrow> py_float option) \<Rightarrow> string list \<Rightarrow> options \<Rightarrow> stamp_error + options" where
  "read_options flt [] opts = Inr opts"
| "read_options flt (arg # args) opts = rbind (read_option flt arg opts) (read_options flt args)"

section \<open>Running the rules\<close>

text \<open>How \<open>run\<close> of a stamp ends; \<open>Returns None\<close> is a value that is no boolean.\<close>

datatype ran = Returns "bool option" | Raised | Exited int | Runs_On

record stamp_class =
  declare_config :: "options \<Rightarrow> options option"
  run_stamp :: "options \<Rightarrow> ran"

text \<open>What loading a file and taking the class of its name gives.\<close>

datatype loaded = Load_Raises | No_Class | Class stamp_class

text \<open>The directory: names with whether each is a file. A stamp meets other frames and keys at each rule, so loading depends on its number.\<close>

record stamp_dir =
  dir_names :: "(string \<times> bool) list"
  load_stamp :: "nat \<Rightarrow> string \<Rightarrow> loaded"

definition installed_stamps :: "stamp_dir \<Rightarrow> string list" where
  "installed_stamps d =
     map (\<lambda>(name, _). takeWhile (\<lambda>c. c \<noteq> CHR ''.'') name)
       (filter (\<lambda>(name, is_file). is_file \<and> name \<notin> set [''__init__.py'', ''.gitignore'']) (dir_names d))"

text \<open>\<open>execute\<close> never returns: it exits, raises, or one of its stamps runs on.\<close>

datatype stamp_end = Exits int | Fails stamp_error | Waits

text \<open>What the loop over the rules makes of how a stamp ended.\<close>

definition after_run :: "ran \<Rightarrow> stamp_end option" where
  "after_run x =
     (case x of
        Raised \<Rightarrow> None
      | Returns (Some False) \<Rightarrow> Some (Exits 15)
      | Returns _ \<Rightarrow> None
      | Exited k \<Rightarrow> Some (Exits k)
      | Runs_On \<Rightarrow> Some Waits)"

text \<open>One turn of the loop over the rules: \<open>None\<close> goes on with the next rule.\<close>

definition run_rule :: "(string \<Rightarrow> py_float option) \<Rightarrow> stamp_dir \<Rightarrow> nat \<Rightarrow> string \<Rightarrow> stamp_end option" where
  "run_rule flt d n line =
     (let rule = strip line in
      if length rule \<le> 1 then None
      else case parse_rule rule of
        None \<Rightarrow> None
      | Some r \<Rightarrow>
          if rule_type r \<notin> set (installed_stamps d) then None
          else case load_stamp d n (rule_type r) of
            Load_Raises \<Rightarrow> Some (Fails Load_Error)
          | No_Class \<Rightarrow> None
          | Class c \<Rightarrow>
              (case base_options flt r of
                 None \<Rightarrow> Some (Fails Bad_Timeout)
               | Some base \<Rightarrow>
                   (case declare_config c base of
                      None \<Rightarrow> None
                    | Some opts \<Rightarrow>
                        (case read_options flt (split_ws (rule_rest r)) opts of
                           Inl e \<Rightarrow> Some (Fails e)
                         | Inr opts' \<Rightarrow> after_run (run_stamp c opts')))))"

fun run_rules :: "(string \<Rightarrow> py_float option) \<Rightarrow> stamp_dir \<Rightarrow> nat \<Rightarrow> string list \<Rightarrow> stamp_end" where
  "run_rules flt d n [] = Exits 0"
| "run_rules flt d n (line # ls) =
     (case run_rule flt d n line of None \<Rightarrow> run_rules flt d (Suc n) ls | Some e \<Rightarrow> e)"

definition execute :: "(string \<Rightarrow> py_float option) \<Rightarrow> config \<Rightarrow> stamp_dir \<Rightarrow> stamp_end" where
  "execute flt cfg d =
     (case get_boolean cfg ''debug'' ''verbose_stamps'' False of
        None \<Rightarrow> Fails Bad_Flag
      | Some _ \<Rightarrow>
          (case get_option cfg ''rubberstamps'' ''stamp_rules'' of
             None \<Rightarrow> Fails No_Rules
           | Some raw \<Rightarrow> run_rules flt d 0 (split_LF raw)))"

text \<open>
  \<open>_rubberstamps\<close> of the manager: \<open>Ended True\<close> accepts the match. \<open>predictor\<close> says
  whether reading the backend's \<open>pose_predictor\<close> succeeds, which loads it.
\<close>

definition mgr_rubberstamps :: "(string \<Rightarrow> py_float option) \<Rightarrow> config \<Rightarrow> bool \<Rightarrow> stamp_dir \<Rightarrow> bool run_end" where
  "mgr_rubberstamps flt cfg predictor d =
     (case get_boolean cfg ''rubberstamps'' ''enabled'' False of
        None \<Rightarrow> Raises
      | Some False \<Rightarrow> Ended True
      | Some True \<Rightarrow>
          if \<not> predictor then Raises
          else case execute flt cfg d of
            Exits k \<Rightarrow> Ended (k = 0)
          | Fails _ \<Rightarrow> Raises
          | Waits \<Rightarrow> Running)"

section \<open>nod\<close>

record landmarks =
  eye0_x :: int
  eye2_x :: int
  nose_x :: int
  nose_y :: int

text \<open>What the stamp calls; \<open>predict = None\<close> is a backend without a predictor.\<close>

record ('i, 'r) tracker =
  apply_clahe :: "'i \<Rightarrow> 'i option"
  find_faces :: "'i \<Rightarrow> 'r list option"
  predict :: "('i \<Rightarrow> 'r \<Rightarrow> landmarks option) option"

text \<open>One turn: the clock at the loop's condition and the frame read, \<open>None\<close> if that raises.\<close>

record 'i nod_round =
  nod_clock :: real
  nod_shot :: "('i \<times> 'i) option"

record nod_state =
  last_reldist :: int
  last_x :: int
  last_y :: int
  nods_x :: "bool list"
  nods_y :: "bool list"

definition new_nod :: nod_state where
  "new_nod = \<lparr>last_reldist = - 1, last_x = - 1, last_y = - 1, nods_x = [], nods_y = []\<rparr>"

definition nod_movement :: "real \<Rightarrow> int \<Rightarrow> int \<Rightarrow> real" where
  "nod_movement avg_reldist nosepoint last_nosepoint =
     (let prev = (if last_nosepoint = - 1 then nosepoint else last_nosepoint)
      in real_of_int (nosepoint - prev) * 100 / max avg_reldist 1)"

definition record_nod :: "int \<Rightarrow> real \<Rightarrow> bool list \<Rightarrow> bool list" where
  "record_nod mindist movement nods =
     (if movement < - real_of_int mindist \<or> movement > real_of_int mindist then
        if nods = [] then [movement < 0]
        else if last nods \<noteq> (movement < 0) then nods @ [movement < 0]
        else nods
      else nods)"

text \<open>A frame with one face: first the horizontal axis, then the vertical one. \<open>Inl\<close> is what \<open>run\<close> returns.\<close>

definition nod_frame :: "int \<Rightarrow> int \<Rightarrow> landmarks \<Rightarrow> nod_state \<Rightarrow> bool + nod_state" where
  "nod_frame mindist mindirs lm s =
     (let reldist = eye0_x lm - eye2_x lm;
          avg = real_of_int (last_reldist s + reldist) / 2;
          xs = record_nod mindist (nod_movement avg (nose_x lm) (last_x s)) (nods_x s)
      in if int (length xs) \<ge> mindirs then Inl False
         else let ys = record_nod mindist (nod_movement avg (nose_y lm) (last_y s)) (nods_y s)
           in if int (length ys) \<ge> mindirs then Inl True
              else Inr \<lparr>last_reldist = reldist, last_x = nose_x lm, last_y = nose_y lm, nods_x = xs, nods_y = ys\<rparr>)"

text \<open>The only face of a frame: \<open>None\<close> is an exception, \<open>Some None\<close> no face or several.\<close>

definition look :: "('i, 'r) tracker \<Rightarrow> 'i nod_round \<Rightarrow> landmarks option option" where
  "look tr r =
     Option.bind (nod_shot r) (\<lambda>(_, frame). Option.bind (apply_clahe tr frame) (\<lambda>f.
       Option.bind (find_faces tr f) (\<lambda>locs.
         if length locs \<noteq> 1 then Some None
         else Option.bind (predict tr) (\<lambda>p. map_option Some (p f (hd locs))))))"

fun nod_loop :: "('i, 'r) tracker \<Rightarrow> (real \<Rightarrow> bool) \<Rightarrow> bool \<Rightarrow> int \<Rightarrow> int \<Rightarrow> 'i nod_round list \<Rightarrow> nod_state \<Rightarrow> ran" where
  "nod_loop tr running failsafe mindist mindirs [] s = Runs_On"
| "nod_loop tr running failsafe mindist mindirs (r # rs) s =
     (if \<not> running (nod_clock r) then Returns (Some (\<not> failsafe))
      else case look tr r of
        None \<Rightarrow> Raised
      | Some None \<Rightarrow> nod_loop tr running failsafe mindist mindirs rs s
      | Some (Some lm) \<Rightarrow>
          (case nod_frame mindist mindirs lm s of
             Inl b \<Rightarrow> Returns (Some b)
           | Inr s' \<Rightarrow> nod_loop tr running failsafe mindist mindirs rs s'))"

definition nod_declare :: "options \<Rightarrow> options option" where
  "nod_declare opts = Some (AList.update ''min_directions'' (Opt_Int 2) (AList.update ''min_distance'' (Opt_Int 6) opts))"

text \<open>\<open>clock < t0 + timeout\<close>: an infinite time never runs out, and nothing is less than what is not a number.\<close>

definition clock_before :: "real \<Rightarrow> py_float \<Rightarrow> real \<Rightarrow> bool" where
  "clock_before t0 timeout c = (case timeout of Fin t \<Rightarrow> c < t0 + t | Pos_Inf \<Rightarrow> True | Neg_Inf \<Rightarrow> False | NaN \<Rightarrow> False)"

lemma clock_before_simps [simp]:
  "clock_before t0 (Fin t) c = (c < t0 + t)" "clock_before t0 Pos_Inf c" "\<not> clock_before t0 Neg_Inf c" "\<not> clock_before t0 NaN c"
  by (simp_all add: clock_before_def)

text \<open>Python's truth of an option; a missing key or a value of another type raises where it is used.\<close>

fun truth :: "opt_value \<Rightarrow> bool" where
  "truth (Opt_Float x) = (x \<noteq> Fin 0)"
| "truth (Opt_Bool b) = b"
| "truth (Opt_Int i) = (i \<noteq> 0)"
| "truth (Opt_Str s) = (s \<noteq> [])"

definition nod_run :: "('i, 'r) tracker \<Rightarrow> real \<Rightarrow> 'i nod_round list \<Rightarrow> options \<Rightarrow> ran" where
  "nod_run tr t0 rounds opts =
     (case (map_of opts ''timeout'', map_of opts ''failsafe'', map_of opts ''min_distance'', map_of opts ''min_directions'') of
        (Some (Opt_Float t), Some f, Some (Opt_Int mindist), Some (Opt_Int mindirs)) \<Rightarrow>
          nod_loop tr (clock_before t0 t) (truth f) mindist mindirs rounds new_nod
      | _ \<Rightarrow> Raised)"

section \<open>hotkey\<close>

datatype pressed_key = No_Key | Abort_Key | Confirm_Key

record keyboard_env =
  keyboard_there :: bool
  add_hotkey :: "string \<Rightarrow> bool"
  key_events :: "nat \<Rightarrow> pressed_key list"

definition on_key :: "pressed_key \<Rightarrow> pressed_key \<Rightarrow> pressed_key" where
  "on_key type pressed = type"

text \<open>\<open>key_events i\<close> are the callbacks between two looks at \<open>pressed_key\<close>.\<close>

function hotkey_loop :: "(nat \<Rightarrow> pressed_key list) \<Rightarrow> bool \<Rightarrow> nat \<Rightarrow> pressed_key \<Rightarrow> real \<Rightarrow> bool" where
  "hotkey_loop ev failsafe i pressed time_left =
     (if time_left > 0 then
        let p = fold on_key (ev i) pressed in
        (case p of
           Abort_Key \<Rightarrow> False
         | Confirm_Key \<Rightarrow> True
         | No_Key \<Rightarrow> hotkey_loop ev failsafe (Suc i) p (time_left - 1 / 10))
      else \<not> failsafe)"
  by pat_completeness auto
termination
proof (relation "measure (\<lambda>(_, _, _, _, t). nat \<lceil>10 * t\<rceil>)", goal_cases)
  case (2 ev failsafe i pressed time_left p)
  have "\<lceil>10 * (time_left - 1 / 10)\<rceil> = \<lceil>10 * time_left\<rceil> - 1"
    by (simp add: right_diff_distrib)
  moreover have "0 < \<lceil>10 * time_left\<rceil>"
    using 2 by simp
  ultimately show ?case
    by simp
qed simp

declare hotkey_loop.simps [simp del]

definition hotkey_declare :: "options \<Rightarrow> options option" where
  "hotkey_declare opts = Some (AList.update ''confirm_key'' (Opt_Str ''enter'') (AList.update ''abort_key'' (Opt_Str ''esc'') opts))"

text \<open>The text for the user has \<open>int(time_left)\<close> in it, which raises for a time that is not finite.\<close>

definition hotkey_run :: "keyboard_env \<Rightarrow> options \<Rightarrow> ran" where
  "hotkey_run k opts =
     (case (map_of opts ''timeout'', map_of opts ''failsafe'', map_of opts ''abort_key'', map_of opts ''confirm_key'') of
        (Some (Opt_Float t), Some f, Some (Opt_Str abort), Some (Opt_Str confirm)) \<Rightarrow>
          (case t of
             Fin x \<Rightarrow>
               if \<not> keyboard_there k then Exited 1
               else if \<not> add_hotkey k abort \<or> \<not> add_hotkey k confirm then Raised
               else Returns (Some (hotkey_loop (key_events k) (truth f) 0 No_Key x))
           | _ \<Rightarrow> Raised)
      | _ \<Rightarrow> Raised)"

section \<open>The shipped stamps\<close>

record ('i, 'r) stamp_world =
  sw_tracker :: "('i, 'r) tracker"
  sw_start :: "nat \<Rightarrow> real"
  sw_rounds :: "nat \<Rightarrow> 'i nod_round list"
  sw_keyboard :: "nat \<Rightarrow> keyboard_env"

definition shipped :: "('i, 'r) stamp_world \<Rightarrow> stamp_dir" where
  "shipped w =
     \<lparr>dir_names = [(''__init__.py'', True), (''hotkey.py'', True), (''nod.py'', True), (''__pycache__'', False)],
      load_stamp = (\<lambda>n name.
        if name = ''nod'' then Class \<lparr>declare_config = nod_declare, run_stamp = nod_run (sw_tracker w) (sw_start w n) (sw_rounds w n)\<rparr>
        else if name = ''hotkey'' then Class \<lparr>declare_config = hotkey_declare, run_stamp = hotkey_run (sw_keyboard w n)\<rparr>
        else Load_Raises)\<rparr>"


section \<open>What counts as a nod\<close>

text \<open>
  The reference definition. The movement of the nose between two sightings of a face, and the changes of
  direction: the signs of the movements over the threshold, runs of the same sign counted once.
\<close>

definition moves :: "(landmarks \<Rightarrow> int) \<Rightarrow> landmarks list \<Rightarrow> real list" where
  "moves nose ls =
     map (\<lambda>k. if k = 0 then 0
              else nod_movement (real_of_int ((eye0_x (ls ! (k - 1)) - eye2_x (ls ! (k - 1))) + (eye0_x (ls ! k) - eye2_x (ls ! k))) / 2)
                     (nose (ls ! k)) (nose (ls ! (k - 1))))
       [0..<length ls]"

definition turns :: "int \<Rightarrow> real list \<Rightarrow> bool list" where
  "turns mindist ms = remdups_adj (map (\<lambda>m. m < 0) (filter (\<lambda>m. m < - real_of_int mindist \<or> m > real_of_int mindist) ms))"

definition enough :: "int \<Rightarrow> int \<Rightarrow> (landmarks \<Rightarrow> int) \<Rightarrow> landmarks list \<Rightarrow> nat \<Rightarrow> bool" where
  "enough mindist mindirs nose ls k \<longleftrightarrow> mindirs \<le> int (length (turns mindist (moves nose (take (Suc k) ls))))"

definition nod_spec :: "int \<Rightarrow> int \<Rightarrow> landmarks list \<Rightarrow> bool option" where
  "nod_spec mindist mindirs ls =
     map_option (\<lambda>k. \<not> enough mindist mindirs nose_x ls k)
       (find (\<lambda>k. enough mindist mindirs nose_x ls k \<or> enough mindist mindirs nose_y ls k) [0..<length ls])"

text \<open>The faces seen before the time is up, and that no frame of them raises.\<close>

abbreviation in_time_rounds :: "(real \<Rightarrow> bool) \<Rightarrow> 'i nod_round list \<Rightarrow> 'i nod_round list" where
  "in_time_rounds running \<equiv> takeWhile (\<lambda>r. running (nod_clock r))"

definition sightings :: "('i, 'r) tracker \<Rightarrow> (real \<Rightarrow> bool) \<Rightarrow> 'i nod_round list \<Rightarrow> landmarks list" where
  "sightings tr running rounds =
     concat (map (\<lambda>r. case look tr r of Some (Some lm) \<Rightarrow> [lm] | _ \<Rightarrow> []) (in_time_rounds running rounds))"

definition frames_work :: "('i, 'r) tracker \<Rightarrow> (real \<Rightarrow> bool) \<Rightarrow> 'i nod_round list \<Rightarrow> bool" where
  "frames_work tr running rounds \<longleftrightarrow> (\<forall>r \<in> set (in_time_rounds running rounds). look tr r \<noteq> None)"

lemma remdups_adj_snoc:
  "remdups_adj (xs @ [x]) = (if xs \<noteq> [] \<and> last xs = x then remdups_adj xs else remdups_adj xs @ [x])"
  by (induction xs rule: remdups_adj.induct) auto

lemma record_nod_turns: "record_nod mindist m (turns mindist ms) = turns mindist (ms @ [m])"
  by (auto simp: record_nod_def turns_def remdups_adj_snoc)

lemma moves_snoc:
  "moves nose (ls @ [q]) = moves nose ls @
     [if ls = [] then 0
      else nod_movement (real_of_int ((eye0_x (last ls) - eye2_x (last ls)) + (eye0_x q - eye2_x q)) / 2) (nose q) (nose (last ls))]"
  by (auto simp: moves_def nth_append last_conv_nth)

definition nod_after :: "int \<Rightarrow> landmarks list \<Rightarrow> nod_state \<Rightarrow> bool" where
  "nod_after mindist ls s \<longleftrightarrow>
     nods_x s = turns mindist (moves nose_x ls) \<and> nods_y s = turns mindist (moves nose_y ls) \<and>
     (if ls = [] then last_x s = - 1 \<and> last_y s = - 1
      else last_reldist s = eye0_x (last ls) - eye2_x (last ls) \<and> last_x s = nose_x (last ls) \<and> last_y s = nose_y (last ls))"

lemma nod_after_new: "nod_after mindist [] new_nod"
  by (simp add: nod_after_def new_nod_def moves_def turns_def)

lemma nod_movement_first [simp]: "nod_movement avg n (- 1) = 0"
  by (simp add: nod_movement_def)

lemma nod_frame_spec:
  assumes "nod_after mindist ls s"
  shows "nod_frame mindist mindirs lm s =
    (if mindirs \<le> int (length (turns mindist (moves nose_x (ls @ [lm])))) then Inl False
     else if mindirs \<le> int (length (turns mindist (moves nose_y (ls @ [lm])))) then Inl True
     else Inr \<lparr>last_reldist = eye0_x lm - eye2_x lm, last_x = nose_x lm, last_y = nose_y lm,
       nods_x = turns mindist (moves nose_x (ls @ [lm])), nods_y = turns mindist (moves nose_y (ls @ [lm]))\<rparr>)"
proof -
  have step: "turns mindist (moves nose (ls @ [lm])) = record_nod mindist
      (if ls = [] then 0
       else nod_movement (real_of_int ((eye0_x (last ls) - eye2_x (last ls)) + (eye0_x lm - eye2_x lm)) / 2) (nose lm) (nose (last ls)))
      (turns mindist (moves nose ls))" for nose
    by (simp only: moves_snoc record_nod_turns)
  show ?thesis
    using assms unfolding step by (cases "ls = []") (simp_all add: nod_frame_def nod_after_def Let_def)
qed

lemma nod_loop_spec:
  assumes "nod_after mindist pre s" and "frames_work tr running rounds"
  shows "nod_loop tr running failsafe mindist mindirs rounds s =
    (case map_option (\<lambda>k. \<not> enough mindist mindirs nose_x (pre @ sightings tr running rounds) k)
        (find (\<lambda>k. enough mindist mindirs nose_x (pre @ sightings tr running rounds) k \<or>
                   enough mindist mindirs nose_y (pre @ sightings tr running rounds) k)
          [length pre..<length (pre @ sightings tr running rounds)]) of
       Some b \<Rightarrow> Returns (Some b)
     | None \<Rightarrow> if \<exists>r \<in> set rounds. \<not> running (nod_clock r) then Returns (Some (\<not> failsafe)) else Runs_On)"
  using assms
proof (induction rounds arbitrary: s pre)
  case Nil
  then show ?case
    by (simp add: sightings_def)
next
  case (Cons r rs)
  consider (late) "\<not> running (nod_clock r)" | (none) "running (nod_clock r)" "look tr r = Some None"
    | (face) lm where "running (nod_clock r)" "look tr r = Some (Some lm)"
    using Cons.prems(2) by (force simp: frames_work_def)
  then show ?case
  proof cases
    case late
    then show ?thesis
      by (simp add: sightings_def)
  next
    case none
    have same: "sightings tr running (r # rs) = sightings tr running rs" and work: "frames_work tr running rs"
      using none Cons.prems(2) by (simp_all add: sightings_def frames_work_def)
    show ?thesis
      unfolding same nod_loop.simps Cons.IH [OF Cons.prems(1) work] using none by auto
  next
    case face
    let ?ls = "pre @ [lm]"
    have split: "pre @ sightings tr running (r # rs) = ?ls @ sightings tr running rs"
      using face by (simp add: sightings_def)
    have upt: "[length pre..<length (?ls @ sightings tr running rs)] =
        length pre # [length ?ls..<length (?ls @ sightings tr running rs)]"
      by (subst upt_conv_Cons) simp_all
    have now: "enough mindist mindirs nose (?ls @ sightings tr running rs) (length pre) \<longleftrightarrow>
        mindirs \<le> int (length (turns mindist (moves nose ?ls)))" for nose
      by (simp add: enough_def)
    have work: "frames_work tr running rs"
      using Cons.prems(2) face by (simp add: frames_work_def)
    have ih: "nod_after mindist ?ls s' \<Longrightarrow> nod_loop tr running failsafe mindist mindirs rs s' =
      (case map_option (\<lambda>k. \<not> enough mindist mindirs nose_x (?ls @ sightings tr running rs) k)
        (find (\<lambda>k. enough mindist mindirs nose_x (?ls @ sightings tr running rs) k \<or>
                   enough mindist mindirs nose_y (?ls @ sightings tr running rs) k)
          [length ?ls..<length (?ls @ sightings tr running rs)]) of
       Some b \<Rightarrow> Returns (Some b)
     | None \<Rightarrow> if \<exists>r \<in> set rs. \<not> running (nod_clock r) then Returns (Some (\<not> failsafe)) else Runs_On)" for s'
      by (rule Cons.IH [OF _ work])
    show ?thesis
      unfolding split upt nod_loop.simps find.simps now nod_frame_spec [OF Cons.prems(1)] face(2)
      using face(1) by (auto simp add: ih nod_after_def now simp del: append_assoc length_append)
  qed
qed

text \<open>
  C26. The nod stamp decides as the reference definition says. As long as no frame raises, the
  loop gives the verdict of the faces seen in time: confirmed if the head changed direction often enough vertically before it
  did horizontally, refused if horizontally first or in the same frame; without a verdict it
  ends when the time is up, refusing exactly under failsafe.
\<close>

theorem nod_decides:
  assumes "frames_work tr running rounds"
  shows "nod_loop tr running failsafe mindist mindirs rounds new_nod =
    (case nod_spec mindist mindirs (sightings tr running rounds) of
       Some b \<Rightarrow> Returns (Some b)
     | None \<Rightarrow> if \<exists>r \<in> set rounds. \<not> running (nod_clock r) then Returns (Some (\<not> failsafe)) else Runs_On)"
  using nod_loop_spec [OF nod_after_new assms] by (simp add: nod_spec_def)


text \<open>An instance: an image is the height of the nose, in a face whose eyes are a hundred pixels apart.\<close>

definition sample_tracker :: "(int, unit) tracker" where
  "sample_tracker =
     \<lparr>apply_clahe = Some, find_faces = (\<lambda>i. Some [()]),
      predict = Some (\<lambda>i _. Some \<lparr>eye0_x = 100, eye2_x = 0, nose_x = 50, nose_y = i\<rparr>)\<rparr>"

definition sample_frames :: "int nod_round list" where
  "sample_frames = [\<lparr>nod_clock = 0, nod_shot = Some (0, 100)\<rparr>, \<lparr>nod_clock = 1, nod_shot = Some (0, 120)\<rparr>,
     \<lparr>nod_clock = 2, nod_shot = Some (0, 90)\<rparr>]"

lemma look_sample [simp]:
  "look sample_tracker \<lparr>nod_clock = t, nod_shot = Some (a, y)\<rparr> = Some (Some \<lparr>eye0_x = 100, eye2_x = 0, nose_x = 50, nose_y = y\<rparr>)"
  by (simp add: look_def sample_tracker_def)

lemma sample_works: "frames_work sample_tracker (clock_before 0 (Fin 5)) sample_frames"
  by (simp add: frames_work_def sample_frames_def)

theorem nod_decides_witness:
  "frames_work sample_tracker (clock_before 0 (Fin 5)) sample_frames \<and>
   nod_loop sample_tracker (clock_before 0 (Fin 5)) True 12 2 sample_frames new_nod = Returns (Some True) \<and>
   nod_spec 12 2 (sightings sample_tracker (clock_before 0 (Fin 5)) sample_frames) = Some True"
proof -
  have "nod_spec 12 2 (sightings sample_tracker (clock_before 0 (Fin 5)) sample_frames) = Some True"
    by (simp add: nod_spec_def sightings_def sample_frames_def enough_def turns_def moves_def nod_movement_def upt_rec numeral_2_eq_2)
  then show ?thesis
    using nod_decides [OF sample_works, of True 12 2] sample_works by simp
qed

section \<open>Options keep their types\<close>

fun fits :: "opt_value \<Rightarrow> opt_value \<Rightarrow> bool" where
  "fits (Opt_Float _) (Opt_Float _) = True"
| "fits (Opt_Str _) (Opt_Str _) = True"
| "fits (Opt_Int _) (Opt_Int _) = True"
| "fits (Opt_Bool _) (Opt_Bool _) = True"
| "fits (Opt_Bool _) (Opt_Int _) = True"
| "fits _ _ = False"

lemma fits_refl [simp]: "fits v v"
  by (cases v) simp_all

lemma fits_trans: "fits u v \<Longrightarrow> fits v w \<Longrightarrow> fits u w"
  by (cases u; cases v; cases w) simp_all

lemma fits_known [simp]:
  "fits (Opt_Float x) v \<longleftrightarrow> (\<exists>y. v = Opt_Float y)"
  "fits (Opt_Str s) v \<longleftrightarrow> (\<exists>y. v = Opt_Str y)"
  "fits (Opt_Int i) v \<longleftrightarrow> (\<exists>y. v = Opt_Int y)"
  "fits (Opt_Bool b) v \<longleftrightarrow> (\<exists>y. v = Opt_Bool y) \<or> (\<exists>y. v = Opt_Int y)"
  by (cases v; simp)+

lemma read_option_fits:
  assumes "read_option flt arg opts = Inr opts'" and "map_of opts k = Some v"
  shows "\<exists>v'. map_of opts' k = Some v' \<and> fits v v'"
proof -
  obtain key val where sp: "split1 (CHR ''='') arg = (key, val)"
    by fastforce
  show ?thesis
    using assms sp
    by (cases "map_of opts key"; cases "the (map_of opts key)"; cases "k = key")
      (auto simp: read_option_def update_Some_unfold split: if_splits option.splits)
qed

lemma read_options_fit:
  "read_options flt args opts = Inr opts' \<Longrightarrow> map_of opts k = Some v \<Longrightarrow> \<exists>v'. map_of opts' k = Some v' \<and> fits v v'"
proof (induction args arbitrary: opts v)
  case (Cons arg args)
  then obtain o1 where o1: "read_option flt arg opts = Inr o1" "read_options flt args o1 = Inr opts'"
    by (auto simp: rbind_def split: sum.splits)
  then show ?case
    using read_option_fits [OF o1(1) Cons.prems(2)] Cons.IH [OF o1(2)] fits_trans by blast
qed auto

text \<open>
  C39. Whatever arguments a rule gives, the shipped stamps find their options with the types they use:
  the time is a float, the flag a truth value, thresholds are integers and key names strings. So neither stamp raises over the type of an option: once
  the arguments are read, nod always comes to its loop, and hotkey does exactly when the time is finite, the keyboard package is there and takes both key names;
  without the package it exits with code 1, and for a time that is infinite or not a number, or a key name that the package does not know, it raises.
\<close>

theorem options_keep_types:
  assumes "base_options flt r = Some base"
  shows "(\<forall>opts o'. nod_declare base = Some opts \<longrightarrow> read_options flt args opts = Inr o' \<longrightarrow>
      (\<exists>t f mindist mindirs. map_of o' ''timeout'' = Some (Opt_Float t) \<and> map_of o' ''failsafe'' = Some f \<and>
        map_of o' ''min_distance'' = Some (Opt_Int mindist) \<and> map_of o' ''min_directions'' = Some (Opt_Int mindirs) \<and>
        nod_run tr t0 rounds o' = nod_loop tr (clock_before t0 t) (truth f) mindist mindirs rounds new_nod)) \<and>
    (\<forall>opts o'. hotkey_declare base = Some opts \<longrightarrow> read_options flt args opts = Inr o' \<longrightarrow>
      (\<exists>t f abort confirm. map_of o' ''timeout'' = Some (Opt_Float t) \<and> map_of o' ''failsafe'' = Some f \<and>
        map_of o' ''abort_key'' = Some (Opt_Str abort) \<and> map_of o' ''confirm_key'' = Some (Opt_Str confirm) \<and>
        hotkey_run k o' =
          (case t of
             Fin x \<Rightarrow>
               if \<not> keyboard_there k then Exited 1
               else if add_hotkey k abort \<and> add_hotkey k confirm
               then Returns (Some (hotkey_loop (key_events k) (truth f) 0 No_Key x)) else Raised
           | _ \<Rightarrow> Raised)))"
proof (intro conjI allI impI)
  obtain x b where base: "base = [(''timeout'', Opt_Float x), (''failsafe'', Opt_Bool b)]"
    using assms by (auto simp: base_options_def)
  fix opts o'
  show "\<exists>t f mindist mindirs. map_of o' ''timeout'' = Some (Opt_Float t) \<and> map_of o' ''failsafe'' = Some f \<and>
        map_of o' ''min_distance'' = Some (Opt_Int mindist) \<and> map_of o' ''min_directions'' = Some (Opt_Int mindirs) \<and>
        nod_run tr t0 rounds o' = nod_loop tr (clock_before t0 t) (truth f) mindist mindirs rounds new_nod"
    if "nod_declare base = Some opts" and "read_options flt args opts = Inr o'"
    using that(1) read_options_fit [OF that(2), of "''timeout''"] read_options_fit [OF that(2), of "''failsafe''"]
      read_options_fit [OF that(2), of "''min_distance''"] read_options_fit [OF that(2), of "''min_directions''"]
    by (auto simp: nod_declare_def base nod_run_def)
  show "\<exists>t f abort confirm. map_of o' ''timeout'' = Some (Opt_Float t) \<and> map_of o' ''failsafe'' = Some f \<and>
        map_of o' ''abort_key'' = Some (Opt_Str abort) \<and> map_of o' ''confirm_key'' = Some (Opt_Str confirm) \<and>
        hotkey_run k o' =
          (case t of
             Fin x \<Rightarrow>
               if \<not> keyboard_there k then Exited 1
               else if add_hotkey k abort \<and> add_hotkey k confirm
               then Returns (Some (hotkey_loop (key_events k) (truth f) 0 No_Key x)) else Raised
           | _ \<Rightarrow> Raised)"
    if declared: "hotkey_declare base = Some opts" and args: "read_options flt args opts = Inr o'"
  proof -
    obtain t f abort confirm where o': "map_of o' ''timeout'' = Some (Opt_Float t)" "map_of o' ''failsafe'' = Some f"
        "map_of o' ''abort_key'' = Some (Opt_Str abort)" "map_of o' ''confirm_key'' = Some (Opt_Str confirm)"
      using declared read_options_fit [OF args, of "''timeout''"] read_options_fit [OF args, of "''failsafe''"]
        read_options_fit [OF args, of "''abort_key''"] read_options_fit [OF args, of "''confirm_key''"]
      by (auto simp: hotkey_declare_def base)
    then show ?thesis
      by (intro exI conjI) (assumption+, simp add: hotkey_run_def split: py_float.split)
  qed
qed


definition sample_flt :: "string \<Rightarrow> py_float option" where
  "sample_flt s = map_option (\<lambda>i. Fin (real_of_int i)) (int_of_dec s)"

definition sample_rule :: stamp_rule where
  "sample_rule = \<lparr>rule_type = ''nod'', rule_time = ''5s'', rule_mode = ''failsafe'', rule_rest = ''     min_distance=12''\<rparr>"

lemma sample_base: "base_options sample_flt sample_rule = Some [(''timeout'', Opt_Float (Fin 5)), (''failsafe'', Opt_Bool True)]"
  by (simp add: base_options_def sample_flt_def sample_rule_def is_letter_def int_of_dec_def is_digit_def)

lemma sample_read:
  "read_options sample_flt [''min_distance=12''] (the (nod_declare [(''timeout'', Opt_Float (Fin 5)), (''failsafe'', Opt_Bool True)])) =
     Inr [(''timeout'', Opt_Float (Fin 5)), (''failsafe'', Opt_Bool True), (''min_distance'', Opt_Int 12), (''min_directions'', Opt_Int 2)]"
  by (simp add: nod_declare_def read_option_def split1_def int_of_dec_def is_digit_def rbind_def)

theorem options_keep_types_witness:
  "base_options sample_flt sample_rule \<noteq> None \<and>
   (\<exists>o' f. read_options sample_flt [''min_distance=12''] (the (nod_declare (the (base_options sample_flt sample_rule)))) = Inr o' \<and>
     nod_run sample_tracker 0 sample_frames o' = nod_loop sample_tracker (clock_before 0 (Fin 5)) f 12 2 sample_frames new_nod)"
  using options_keep_types [OF sample_base, of "[''min_distance=12'']" sample_tracker 0 sample_frames] sample_read
  by (fastforce simp: sample_base nod_declare_def)

section \<open>The rules together\<close>

text \<open>The time, the flag and the two thresholds a line gives the nod stamp, if it is a rule for it.\<close>

definition nod_settings :: "(string \<Rightarrow> py_float option) \<Rightarrow> string \<Rightarrow> (py_float \<times> bool \<times> int \<times> int) option" where
  "nod_settings flt line =
     (case parse_rule (strip line) of
        None \<Rightarrow> None
      | Some r \<Rightarrow>
          if rule_type r \<noteq> ''nod'' then None
          else (case Option.bind (base_options flt r) nod_declare of
             None \<Rightarrow> None
           | Some opts \<Rightarrow>
               (case read_options flt (split_ws (rule_rest r)) opts of
                  Inl _ \<Rightarrow> None
                | Inr o' \<Rightarrow>
                    (case (map_of o' ''timeout'', map_of o' ''failsafe'', map_of o' ''min_distance'', map_of o' ''min_directions'') of
                       (Some (Opt_Float t), Some f, Some (Opt_Int mindist), Some (Opt_Int mindirs)) \<Rightarrow>
                         Some (t, truth f, mindist, mindirs)
                     | _ \<Rightarrow> None))))"

lemma installed_shipped [simp]: "installed_stamps (shipped w) = [''hotkey'', ''nod'']"
  by (simp add: installed_stamps_def shipped_def)

lemma parse_rule_length: "parse_rule s = Some r \<Longrightarrow> 1 < length s"
proof -
  assume "parse_rule s = Some r"
  then have "takeWhile is_word s \<noteq> []" and "dropWhile is_space (dropWhile is_word s) \<noteq> dropWhile is_word s"
    by (auto simp: parse_rule_def Let_def split: if_splits)
  then have "takeWhile is_word s \<noteq> []" and "dropWhile is_word s \<noteq> []"
    by (simp, metis dropWhile.simps(1))
  moreover have "length s = length (takeWhile is_word s) + length (dropWhile is_word s)"
    by (metis length_append takeWhile_dropWhile_id)
  ultimately show ?thesis
    by (cases "takeWhile is_word s"; cases "dropWhile is_word s") simp_all
qed

lemma run_rule_nod:
  assumes "nod_settings flt line = Some (t, f, mindist, mindirs)"
  shows "run_rule flt (shipped w) n line =
    after_run (nod_loop (sw_tracker w) (clock_before (sw_start w n) t) f mindist mindirs (sw_rounds w n) new_nod)"
proof -
  obtain r where r: "parse_rule (strip line) = Some r" "rule_type r = ''nod''"
    using assms by (auto simp: nod_settings_def split: option.splits if_splits)
  then obtain base opts o' where o: "base_options flt r = Some base" "nod_declare base = Some opts"
      "read_options flt (split_ws (rule_rest r)) opts = Inr o'"
    using assms by (auto simp: nod_settings_def bind_eq_Some_conv split: option.splits sum.splits)
  have "nod_run (sw_tracker w) (sw_start w n) (sw_rounds w n) o' =
      nod_loop (sw_tracker w) (clock_before (sw_start w n) t) f mindist mindirs (sw_rounds w n) new_nod"
    using assms r o by (auto simp: nod_settings_def nod_run_def split: option.splits opt_value.splits)
  then show ?thesis
    using r o parse_rule_length [OF r(1)]
    by (simp add: run_rule_def Let_def shipped_def [of w] installed_shipped [of w, unfolded shipped_def])
qed

lemma nod_loop_not_exited: "nod_loop tr running f mindist mindirs rounds s \<noteq> Exited k"
  by (induction rounds arbitrary: s) (auto split: option.split sum.split)

lemma after_run_exits: "after_run x = Some (Exits k) \<longleftrightarrow> (x = Returns (Some False) \<and> k = 15) \<or> x = Exited k"
  by (auto simp: after_run_def split: ran.splits option.splits bool.splits)

lemma run_rule_exits:
  assumes "run_rule flt d n line = Some (Exits k)"
  shows "k = 15 \<or> (\<exists>name c opts. load_stamp d n name = Class c \<and> run_stamp c opts = Exited k)"
  using assms
  by (auto simp: run_rule_def Let_def after_run_exits split: option.splits if_splits sum.splits loaded.splits)

lemma nod_run_not_exited: "nod_run tr t0 rounds opts \<noteq> Exited k"
  unfolding nod_run_def by (auto simp: nod_loop_not_exited split: option.split opt_value.split)

lemma hotkey_run_exited: "hotkey_run kb opts = Exited k \<Longrightarrow> k = 1"
  unfolding hotkey_run_def by (auto split: option.splits opt_value.splits py_float.splits if_splits)

lemma shipped_exits: "load_stamp (shipped w) n name = Class c \<Longrightarrow> run_stamp c opts = Exited k \<Longrightarrow> k = 1"
  by (auto simp: shipped_def nod_run_not_exited hotkey_run_exited split: if_splits)

lemma run_rule_not_0: "run_rule flt (shipped w) n line \<noteq> Some (Exits 0)"
  using run_rule_exits [of flt "shipped w" n line 0] shipped_exits [of w n _ _ _ 0] by fastforce

lemma run_rules_pass:
  assumes "\<And>n line. run_rule flt d n line \<noteq> Some (Exits 0)"
  shows "run_rules flt d n ls = Exits 0 \<longleftrightarrow> (\<forall>i < length ls. run_rule flt d (n + i) (ls ! i) = None)"
proof (induction ls arbitrary: n)
  case (Cons l ls)
  then show ?case
    using assms by (auto simp: All_less_Suc2 split: option.splits)
qed simp

lemma accepted_rules:
  assumes "mgr_rubberstamps flt cfg p (shipped w) = Ended True"
    and "get_boolean cfg ''rubberstamps'' ''enabled'' False = Some True"
    and "get_option cfg ''rubberstamps'' ''stamp_rules'' = Some raw" and "i < length (split_LF raw)"
  shows "run_rule flt (shipped w) i (split_LF raw ! i) = None"
proof -
  have "run_rules flt (shipped w) 0 (split_LF raw) = Exits 0"
    using assms(1-3) by (auto simp: mgr_rubberstamps_def execute_def split: if_splits stamp_end.splits option.splits)
  then show ?thesis
    using run_rules_pass [OF run_rule_not_0, of flt w 0 "split_LF raw"] assms(4) by simp
qed

lemma engine_success_allowed:
  "engine_verify e keeping encodings timeout certainty allowed rounds = (Ended (SUCCESS, s), use) \<Longrightarrow> allowed"
  by (auto simp: engine_verify_def finish_def dest: verify_loop_success split: if_splits prod.splits option.splits bool.splits)

lemma nod_spec_True:
  assumes "nod_spec mindist mindirs ls = Some True"
  shows "\<exists>k < length ls. enough mindist mindirs nose_y ls k \<and> (\<forall>j \<le> k. \<not> enough mindist mindirs nose_x ls j)"
proof -
  obtain k where "find (\<lambda>k. enough mindist mindirs nose_x ls k \<or> enough mindist mindirs nose_y ls k) [0..<length ls] = Some k"
      "\<not> enough mindist mindirs nose_x ls k"
    using assms by (auto simp: nod_spec_def)
  then show ?thesis
    by (auto simp: find_Some_iff order_le_less intro!: exI [of _ k])
qed

text \<open>
  C7. With a nod required, a success was nodded for. Rubberstamps are on, a line of the rules asks for a nod under failsafe and
  no frame raises while it waits: if the face is verified with success, then in time the
  head had changed its vertical direction as often as the rule asks for, by more than the distance the rule asks for, and had not shaken
  as often before.
\<close>

theorem success_was_nodded:
  assumes "engine_verify e keeping encodings timeout certainty allowed rounds = (Ended (SUCCESS, s), use)"
    and "mgr_rubberstamps flt cfg p (shipped w) = Ended allowed"
    and "get_boolean cfg ''rubberstamps'' ''enabled'' False = Some True"
    and "get_option cfg ''rubberstamps'' ''stamp_rules'' = Some raw"
    and "i < length (split_LF raw)" and "nod_settings flt (split_LF raw ! i) = Some (t, True, mindist, mindirs)"
    and "frames_work (sw_tracker w) (clock_before (sw_start w i) t) (sw_rounds w i)"
  shows "\<exists>k < length (sightings (sw_tracker w) (clock_before (sw_start w i) t) (sw_rounds w i)).
    enough mindist mindirs nose_y (sightings (sw_tracker w) (clock_before (sw_start w i) t) (sw_rounds w i)) k \<and>
    (\<forall>j \<le> k. \<not> enough mindist mindirs nose_x (sightings (sw_tracker w) (clock_before (sw_start w i) t) (sw_rounds w i)) j)"
proof -
  have "mgr_rubberstamps flt cfg p (shipped w) = Ended True"
    using assms(2) engine_success_allowed [OF assms(1)] by simp
  then have "run_rule flt (shipped w) i (split_LF raw ! i) = None"
    by (rule accepted_rules [OF _ assms(3-5)])
  then have "after_run (nod_loop (sw_tracker w) (clock_before (sw_start w i) t) True mindist mindirs (sw_rounds w i) new_nod) = None"
    unfolding run_rule_nod [OF assms(6)] .
  then have "nod_spec mindist mindirs (sightings (sw_tracker w) (clock_before (sw_start w i) t) (sw_rounds w i)) = Some True"
    unfolding nod_loop_spec [OF nod_after_new assms(7)]
    by (auto simp: nod_spec_def after_run_def split: option.splits bool.splits if_splits)
  then show ?thesis
    by (rule nod_spec_True)
qed


text \<open>The shipped rule, and a user who nods.\<close>

definition sample_line :: string where
  "sample_line = ''nod'' @ [TAB, TAB] @ ''5s'' @ [TAB, TAB] @ ''failsafe     min_distance=12''"

definition sample_stamps :: config where
  "sample_stamps = [(''rubberstamps'', [(''enabled'', ''true''), (''stamp_rules'', LF # sample_line)])]"

definition sample_stamp_world :: "(int, unit) stamp_world" where
  "sample_stamp_world = \<lparr>sw_tracker = sample_tracker, sw_start = (\<lambda>n. 0), sw_rounds = (\<lambda>n. sample_frames),
     sw_keyboard = (\<lambda>n. \<lparr>keyboard_there = False, add_hotkey = (\<lambda>s. True), key_events = (\<lambda>i. [])\<rparr>)\<rparr>"

lemma parse_sample: "parse_rule (strip sample_line) = Some sample_rule"
  by (simp add: sample_line_def sample_rule_def parse_rule_def strip_def rstrip_def lstrip_def is_word_def is_word_dot_def
      is_letter_def is_space_def Let_def)

lemma split_sample: "split_ws (rule_rest sample_rule) = [''min_distance=12'']"
  by (simp add: sample_rule_def split_ws.simps is_space_def)

lemma settings_sample: "nod_settings sample_flt sample_line = Some (Fin 5, True, 12, 2)"
  using sample_read
  by (simp add: nod_settings_def parse_sample sample_base split_sample nod_declare_def sample_rule_def [THEN arg_cong, of rule_type])

lemma lines_sample: "split_LF (LF # sample_line) = [[], sample_line]"
  by (simp add: sample_line_def)

lemma config_sample:
  "get_boolean sample_stamps ''rubberstamps'' ''enabled'' False = Some True"
  "get_option sample_stamps ''rubberstamps'' ''stamp_rules'' = Some (LF # sample_line)"
  "get_boolean sample_stamps ''debug'' ''verbose_stamps'' False = Some False"
  by (simp_all add: get_boolean_def get_option_def sample_stamps_def lower_def to_lower_char_def)

lemma sample_nodded: "nod_loop sample_tracker (clock_before 0 (Fin 5)) True 12 2 sample_frames new_nod = Returns (Some True)"
  by (simp add: sample_frames_def new_nod_def nod_frame_def record_nod_def nod_movement_def Let_def)

lemma sample_accepted: "mgr_rubberstamps sample_flt sample_stamps True (shipped sample_stamp_world) = Ended True"
proof -
  have "run_rule sample_flt (shipped sample_stamp_world) (Suc 0) sample_line = None"
    unfolding run_rule_nod [OF settings_sample] by (simp add: sample_stamp_world_def sample_nodded after_run_def)
  moreover have "run_rule sample_flt (shipped sample_stamp_world) 0 [] = None"
    by (simp add: run_rule_def)
  ultimately show ?thesis
    by (simp add: mgr_rubberstamps_def execute_def config_sample lines_sample del: split_LF.simps)
qed

theorem success_was_nodded_witness:
  "\<exists>s use k. engine_verify sample_engine False [[2]] 4 3.5 True [sample_round 100 1, sample_round 30 2] = (Ended (SUCCESS, s), use) \<and>
     mgr_rubberstamps sample_flt sample_stamps True (shipped sample_stamp_world) = Ended True \<and>
     nod_settings sample_flt sample_line = Some (Fin 5, True, 12, 2) \<and> frames_work sample_tracker (clock_before 0 (Fin 5)) sample_frames \<and>
     enough 12 2 nose_y (sightings sample_tracker (clock_before 0 (Fin 5)) sample_frames) k"
proof -
  obtain s use where v: "engine_verify sample_engine False [[2]] 4 3.5 True [sample_round 100 1, sample_round 30 2] = (Ended (SUCCESS, s), use)"
    using sample_verify by blast
  have line: "Suc 0 < length (split_LF (LF # sample_line))" "nod_settings sample_flt (split_LF (LF # sample_line) ! Suc 0) = Some (Fin 5, True, 12, 2)"
    using settings_sample unfolding lines_sample by simp_all
  have work: "frames_work (sw_tracker sample_stamp_world) (clock_before (sw_start sample_stamp_world (Suc 0)) (Fin 5)) (sw_rounds sample_stamp_world (Suc 0))"
    using sample_works by (simp add: sample_stamp_world_def)
  have "\<exists>k. enough 12 2 nose_y (sightings sample_tracker (clock_before 0 (Fin 5)) sample_frames) k"
    using success_was_nodded [OF v sample_accepted config_sample(1,2) line work] by (auto simp: sample_stamp_world_def)
  then show ?thesis
    using v sample_accepted settings_sample sample_works by blast
qed

text \<open>
  A comment in \<open>execute\<close> says \<^verbatim>\<open>Make the stamp fail by default\<close>, but a stamp that does not work does not hold a match up. When every line of the rules is one
  the parser does not take, names no stamp there is, or asks for a nod while the first frame raises (a camera error, or
  a predictor that takes no such face), the match is accepted, also under failsafe.
\<close>

theorem broken_stamps_accept:
  assumes "get_boolean cfg ''rubberstamps'' ''enabled'' False = Some True"
    and "get_boolean cfg ''debug'' ''verbose_stamps'' False = Some v"
    and "get_option cfg ''rubberstamps'' ''stamp_rules'' = Some raw"
    and "\<forall>i < length (split_LF raw).
      (case parse_rule (strip (split_LF raw ! i)) of None \<Rightarrow> True | Some r \<Rightarrow> rule_type r \<notin> {''nod'', ''hotkey''}) \<or>
      (\<exists>t failsafe mindist mindirs r rs. nod_settings flt (split_LF raw ! i) = Some (t, failsafe, mindist, mindirs) \<and>
        sw_rounds w i = r # rs \<and> clock_before (sw_start w i) t (nod_clock r) \<and> look (sw_tracker w) r = None)"
  shows "mgr_rubberstamps flt cfg True (shipped w) = Ended True"
proof -
  have skipped: "run_rule flt (shipped w) i (split_LF raw ! i) = None" if "i < length (split_LF raw)" for i
    using assms(4) [rule_format, OF that]
  proof
    assume "case parse_rule (strip (split_LF raw ! i)) of None \<Rightarrow> True | Some r \<Rightarrow> rule_type r \<notin> {''nod'', ''hotkey''}"
    then show ?thesis
      by (auto simp: run_rule_def Let_def split: option.splits)
  next
    assume "\<exists>t failsafe mindist mindirs r rs. nod_settings flt (split_LF raw ! i) = Some (t, failsafe, mindist, mindirs) \<and>
        sw_rounds w i = r # rs \<and> clock_before (sw_start w i) t (nod_clock r) \<and> look (sw_tracker w) r = None"
    then show ?thesis
      by (auto simp: run_rule_nod after_run_def)
  qed
  then have "run_rules flt (shipped w) 0 (split_LF raw) = Exits 0"
    by (simp add: run_rules_pass [OF run_rule_not_0])
  then show ?thesis
    using assms(1-3) by (simp add: mgr_rubberstamps_def execute_def)
qed

text \<open>A predictor that refuses what the detector found.\<close>

definition broken_world :: "(int, unit) stamp_world" where
  "broken_world = sample_stamp_world\<lparr>sw_tracker := sample_tracker\<lparr>predict := Some (\<lambda>f r. None)\<rparr>\<rparr>"

theorem broken_stamps_accept_witness:
  "nod_settings sample_flt sample_line = Some (Fin 5, True, 12, 2) \<and>
   mgr_rubberstamps sample_flt sample_stamps True (shipped broken_world) = Ended True"
proof -
  have "parse_rule (strip []) = None"
    by (simp add: parse_rule_def)
  moreover have "sw_rounds broken_world 1 = hd sample_frames # tl sample_frames \<and> clock_before (sw_start broken_world 1) (Fin 5) (nod_clock (hd sample_frames)) \<and>
      look (sw_tracker broken_world) (hd sample_frames) = None"
    by (simp add: broken_world_def sample_stamp_world_def sample_tracker_def sample_frames_def look_def)
  ultimately have "\<forall>i < length (split_LF (LF # sample_line)).
      (case parse_rule (strip (split_LF (LF # sample_line) ! i)) of None \<Rightarrow> True | Some r \<Rightarrow> rule_type r \<notin> {''nod'', ''hotkey''}) \<or>
      (\<exists>t failsafe mindist mindirs r rs. nod_settings sample_flt (split_LF (LF # sample_line) ! i) = Some (t, failsafe, mindist, mindirs) \<and>
        sw_rounds broken_world i = r # rs \<and> clock_before (sw_start broken_world i) t (nod_clock r) \<and> look (sw_tracker broken_world) r = None)"
    using settings_sample unfolding lines_sample by (auto simp: less_Suc_eq)
  then show ?thesis
    using broken_stamps_accept [OF config_sample(1,3,2)] settings_sample by blast
qed

section \<open>Hotkeys\<close>

lemma fold_on_key: "ks \<noteq> [] \<Longrightarrow> fold on_key ks p = last ks"
  by (induction ks rule: rev_induct) (simp_all add: on_key_def)

lemma hotkey_loop_from:
  assumes "\<And>i. No_Key \<notin> set (ev i)"
  shows "hotkey_loop ev failsafe n No_Key t =
    (case find (\<lambda>i. ev i \<noteq> []) [n..<n + nat \<lceil>10 * t\<rceil>] of None \<Rightarrow> \<not> failsafe | Some i \<Rightarrow> last (ev i) = Confirm_Key)"
proof (induction "nat \<lceil>10 * t\<rceil>" arbitrary: n t)
  case 0
  then show ?case
    by (subst hotkey_loop.simps) simp
next
  case (Suc m)
  have pos: "0 < t"
    using Suc(2) by (metis ceiling_le_zero mult_nonneg_nonpos not_less nat_eq_iff2 nat_0_iff Zero_not_Suc zero_le_numeral)
  have m: "m = nat \<lceil>10 * (t - 1 / 10)\<rceil>"
    using Suc(2) by (simp add: right_diff_distrib)
  have upt: "[n..<n + Suc m] = n # [Suc n..<Suc n + m]"
    by (simp add: upt_conv_Cons)
  show ?case
  proof (cases "ev n = []")
    case True
    then have "hotkey_loop ev failsafe n No_Key t = hotkey_loop ev failsafe (Suc n) No_Key (t - 1 / 10)"
      using pos by (subst hotkey_loop.simps) simp
    also have "\<dots> = (case find (\<lambda>i. ev i \<noteq> []) [Suc n..<Suc n + m] of None \<Rightarrow> \<not> failsafe | Some i \<Rightarrow> last (ev i) = Confirm_Key)"
      using Suc(1) [OF m, of "Suc n"] m by simp
    finally show ?thesis
      unfolding Suc(2) [symmetric] upt using True by simp
  next
    case False
    then have "last (ev n) \<noteq> No_Key"
      using assms by (metis last_in_set)
    then have "hotkey_loop ev failsafe n No_Key t \<longleftrightarrow> last (ev n) = Confirm_Key"
      using pos False by (subst hotkey_loop.simps) (cases "last (ev n)"; simp add: fold_on_key)
    then show ?thesis
      unfolding Suc(2) [symmetric] upt using False by simp
  qed
qed

text \<open>
  The hotkey stamp ends after at most ten looks per second of its time, and what it decides is the last of
  the keys before the first look that sees one: confirming is accepted, aborting is not, and without a key the match
  is refused exactly under failsafe.
\<close>

theorem hotkey_decides:
  assumes "\<And>i. No_Key \<notin> set (ev i)"
  shows "hotkey_loop ev failsafe 0 No_Key t =
    (case find (\<lambda>i. ev i \<noteq> []) [0..<nat \<lceil>10 * t\<rceil>] of None \<Rightarrow> \<not> failsafe | Some i \<Rightarrow> last (ev i) = Confirm_Key)"
  using hotkey_loop_from [OF assms, where n = 0] by simp

theorem hotkey_decides_witness:
  "\<not> hotkey_loop (\<lambda>i. if i = 3 then [Confirm_Key, Abort_Key] else []) False 0 No_Key (1 / 2)"
  using hotkey_decides [of "\<lambda>i. if i = 3 then [Confirm_Key, Abort_Key] else []" False "1 / 2"]
  by (simp add: upt_rec)

end
