(* ===== verification/Ir_Emitter.thy ===== *)
theory Ir_Emitter
  imports Byte_Struct Complex_Main
begin

text \<open>
  \<^verbatim>\<open>recorders/uvc_xu.py\<close> and \<^verbatim>\<open>emitter.py\<close>: the extension unit controls of a camera and how
  the infrared emitter is switched on.

  The camera is a record: the current value of each control of a unit, what it answers to the other
  queries, and which writes it takes; a query it refuses is an \<open>OSError\<close>. The two state files
  are parsed JSON, \<open>None\<close> where they cannot be read. What the search sees and is told (frame
  intensities, confirmations) is given to it. Brightness is a real number.
\<close>

unbundle bit_operations_syntax

section \<open>uvc\_xu.py: controls\<close>

definition MS_CAMERA_CONTROL_XU :: string where "MS_CAMERA_CONTROL_XU = ''0f3f95dc-2632-4c4e-92c9-a04782f43bc8''"
definition MSXU_CONTROL_FACE_AUTHENTICATION :: nat where "MSXU_CONTROL_FACE_AUTHENTICATION = 0x06"
definition INFO_SET :: nat where "INFO_SET = 0x02"

datatype xu_code = GET_CUR | GET_MIN | GET_MAX | GET_DEF

text \<open>A control's address: unit and selector.\<close>

type_synonym xu_addr = "nat \<times> nat"

record camera =
  cur_value :: "xu_addr \<Rightarrow> byte list option"
  other_value :: "xu_code \<Rightarrow> xu_addr \<Rightarrow> byte list option"
  xu_info :: "xu_addr \<Rightarrow> nat option"
  takes :: "xu_addr \<Rightarrow> byte list \<Rightarrow> bool"

datatype em_error = EmOSError | EmValueError | SearchAborted

type_synonym 'a xu = "(camera, em_error, 'a) block"

definition xu_length :: "xu_addr \<Rightarrow> nat xu" where
  "xu_length a cam = (case cur_value cam a of None \<Rightarrow> (Inl EmOSError, cam) | Some v \<Rightarrow> (Inr (length v), cam))"

text \<open>A read of another length than the control's is refused.\<close>

definition xu_get :: "xu_addr \<Rightarrow> xu_code \<Rightarrow> nat \<Rightarrow> byte list xu" where
  "xu_get a code n cam =
     (case (if code = GET_CUR then cur_value cam a else other_value cam code a) of
        None \<Rightarrow> (Inl EmOSError, cam)
      | Some v \<Rightarrow> if length v = n then (Inr v, cam) else (Inl EmOSError, cam))"

definition xu_set :: "xu_addr \<Rightarrow> byte list \<Rightarrow> unit xu" where
  "xu_set a v cam =
     (case cur_value cam a of
        None \<Rightarrow> (Inl EmOSError, cam)
      | Some old \<Rightarrow>
          if length v = length old \<and> takes cam a v then (Inr (), cam\<lparr>cur_value := (cur_value cam)(a \<mapsto> v)\<rparr>)
          else (Inl EmOSError, cam))"

record control =
  c_unit :: nat
  c_selector :: nat
  c_length :: nat
  c_info :: nat
  c_cur :: "byte list option"
  c_minimum :: "byte list option"
  c_maximum :: "byte list option"
  c_default :: "byte list option"

definition writable :: "control \<Rightarrow> bool" where
  "writable c \<longleftrightarrow> c_info c AND INFO_SET \<noteq> 0"

definition value_or_none :: "(em_error + byte list) \<times> camera \<Rightarrow> byte list option" where
  "value_or_none r = (case fst r of Inl _ \<Rightarrow> None | Inr v \<Rightarrow> Some v)"

text \<open>\<open>XuDevice.control\<close>: \<open>None\<close> where the length or the info cannot be read.\<close>

definition read_control :: "camera \<Rightarrow> xu_addr \<Rightarrow> control option" where
  "read_control cam a =
     (case (fst (xu_length a cam), xu_info cam a) of
        (Inr n, Some info) \<Rightarrow>
          Some \<lparr>c_unit = fst a, c_selector = snd a, c_length = n, c_info = info,
            c_cur = value_or_none (xu_get a GET_CUR n cam), c_minimum = value_or_none (xu_get a GET_MIN n cam),
            c_maximum = value_or_none (xu_get a GET_MAX n cam), c_default = value_or_none (xu_get a GET_DEF n cam)\<rparr>
      | _ \<Rightarrow> None)"

definition xu_controls :: "camera \<Rightarrow> nat list \<Rightarrow> control list" where
  "xu_controls cam units = List.map_filter (read_control cam) (concat (map (\<lambda>u. map (Pair u) [1..<256]) units))"

section \<open>uvc\_xu.py: descriptors\<close>

definition hex_digit_of :: "nat \<Rightarrow> char" where
  "hex_digit_of n = ''0123456789abcdef'' ! n"

definition bytes_hex :: "byte list \<Rightarrow> string" where
  "bytes_hex bs = concat (map (\<lambda>b. [hex_digit_of (unat b div 16), hex_digit_of (unat b mod 16)]) bs)"

text \<open>\<open>str(uuid.UUID(bytes_le=\<dots>))\<close>\<close>

definition guid_text :: "byte list \<Rightarrow> string" where
  "guid_text b =
     bytes_hex (rev (take 4 b)) @ ''-'' @ bytes_hex (rev (take 2 (drop 4 b))) @ ''-'' @ bytes_hex (rev (take 2 (drop 6 b))) @ ''-''
     @ bytes_hex (take 2 (drop 8 b)) @ ''-'' @ bytes_hex (take 6 (drop 10 b))"

record vc_interface =
  vc_units :: "(nat \<times> string) list"
  vc_streaming :: "nat list"

text \<open>The interfaces so far and the one whose descriptors follow.\<close>

type_synonym vc_state = "(nat \<times> vc_interface) list \<times> nat option"

definition vc_update :: "nat \<Rightarrow> (vc_interface \<Rightarrow> vc_interface) \<Rightarrow> (nat \<times> vc_interface) list \<Rightarrow> (nat \<times> vc_interface) list" where
  "vc_update i g m = (case map_of m i of None \<Rightarrow> m | Some x \<Rightarrow> AList.update i (g x) m)"

definition vc_block :: "byte list \<Rightarrow> vc_state \<Rightarrow> vc_state" where
  "vc_block b s =
     (let (m, current) = s; n = length b; kind = unat (b ! 1) in
      if kind = 0x04 \<and> n \<ge> 9 then
        (if unat (b ! 5) = 0x0E \<and> unat (b ! 6) = 0x01
         then (let i = unat (b ! 2) in
               (if map_of m i = None then m @ [(i, \<lparr>vc_units = [], vc_streaming = []\<rparr>)] else m, Some i))
         else (m, None))
      else (case current of
          None \<Rightarrow> (m, current)
        | Some i \<Rightarrow>
            if kind = 0x24 \<and> n \<ge> 3 then
              (if unat (b ! 2) = 0x01 \<and> n \<ge> 12
               then (vc_update i (\<lambda>x. x\<lparr>vc_streaming := map unat (take (unat (b ! 11)) (drop 12 b))\<rparr>) m, current)
               else if unat (b ! 2) = 0x06 \<and> n \<ge> 21
               then (vc_update i (\<lambda>x. x\<lparr>vc_units := AList.update (unat (b ! 3)) (guid_text (take 16 (drop 4 b))) (vc_units x)\<rparr>) m, current)
               else (m, current))
            else (m, current)))"

text \<open>The loop over the descriptors: it stops at a block that is too short or does not fit.\<close>

function vc_scan :: "byte list \<Rightarrow> vc_state \<Rightarrow> (nat \<times> vc_interface) list" where
  "vc_scan d s =
     (if length d < 2 then fst s
      else if unat (d ! 0) < 2 \<or> unat (d ! 0) > length d then fst s
      else vc_scan (drop (unat (d ! 0)) d) (vc_block (take (unat (d ! 0)) d) s))"
  by pat_completeness auto
termination
  by (relation "measure (\<lambda>(d, s). length d)") auto

declare vc_scan.simps [simp del]

definition parse_video_control :: "byte list \<Rightarrow> (nat \<times> vc_interface) list" where
  "parse_video_control d = vc_scan d ([], None)"

type_synonym identity = "string \<times> nat"

definition find_unit :: "identity option \<Rightarrow> byte list option \<Rightarrow> string \<Rightarrow> nat option" where
  "find_unit ident descriptors guid =
     (case (ident, descriptors) of
        (Some i, Some d) \<Rightarrow>
          (case map_of (parse_video_control d) (snd i) of
             None \<Rightarrow> None
           | Some x \<Rightarrow> map_option fst (List.find (\<lambda>(u, g). g = guid) (vc_units x)))
      | _ \<Rightarrow> None)"

section \<open>emitter.py: the face authentication control\<close>

definition MODE_ALTERNATIVE_FRAME_ILLUMINATION :: nat where "MODE_ALTERNATIVE_FRAME_ILLUMINATION = 0x2"
definition MODE_BACKGROUND_SUBTRACTION :: nat where "MODE_BACKGROUND_SUBTRACTION = 0x4"

record fa_entry =
  fa_interface :: nat
  fa_flags :: nat
  fa_offset :: nat
  fa_size :: nat

definition fa_stride :: "byte list \<Rightarrow> nat" where
  "fa_stride value = (length value - 1) div unat (hd value)"

definition parse_face_auth :: "byte list \<Rightarrow> fa_entry list" where
  "parse_face_auth value =
     (if value = [] \<or> unat (hd value) = 0 \<or> fa_stride value < 2 then []
      else map (\<lambda>i. let start = 1 + i * fa_stride value in
             \<lparr>fa_interface = unat (value ! start), fa_flags = from_le (take (fa_stride value - 1) (drop (start + 1) value)),
              fa_offset = start + 1, fa_size = fa_stride value - 1\<rparr>) [0..<unat (hd value)])"

text \<open>\<open>target[offset:offset + size] = \<dots>\<close> with as many bytes as are replaced.\<close>

definition splice :: "nat \<Rightarrow> byte list \<Rightarrow> byte list \<Rightarrow> byte list" where
  "splice off new b = take off b @ new @ drop (off + length new) b"

text \<open>The mode an interface is switched to.\<close>

definition preferred_mode :: "nat \<Rightarrow> nat option" where
  "preferred_mode modes =
     (if modes AND MODE_ALTERNATIVE_FRAME_ILLUMINATION \<noteq> 0 then Some MODE_ALTERNATIVE_FRAME_ILLUMINATION
      else if modes AND MODE_BACKGROUND_SUBTRACTION \<noteq> 0 then Some MODE_BACKGROUND_SUBTRACTION
      else None)"

definition supported_modes :: "byte list \<Rightarrow> nat \<Rightarrow> nat" where
  "supported_modes maximum i =
     (case map_of (rev (map (\<lambda>e. (fa_interface e, fa_flags e)) (parse_face_auth maximum))) i of None \<Rightarrow> 0 | Some m \<Rightarrow> m)"

definition fa_step :: "byte list \<Rightarrow> fa_entry \<Rightarrow> byte list \<times> nat option \<Rightarrow> byte list \<times> nat option" where
  "fa_step maximum e s =
     (case preferred_mode (supported_modes maximum (fa_interface e)) of
        None \<Rightarrow> s
      | Some mode \<Rightarrow> (splice (fa_offset e) (to_le (fa_size e) mode) (fst s), (case snd s of None \<Rightarrow> Some mode | c \<Rightarrow> c)))"

definition face_auth_target :: "byte list \<Rightarrow> byte list \<Rightarrow> (byte list \<times> nat) option" where
  "face_auth_target current maximum =
     (case fold (fa_step maximum) (parse_face_auth current) (current, None) of
        (target, None) \<Rightarrow> None
      | (target, Some mode) \<Rightarrow> Some (target, mode))"

section \<open>emitter.py: stored vendor controls\<close>

record vendor_control =
  v_guid :: string
  v_selector :: nat
  v_value :: string

record device_entry =
  e_controls :: "vendor_control list option"
  e_blacklist :: "(string \<times> nat) list option"

type_synonym emitter_file = "(string \<times> device_entry) list option"

record emitter_state =
  found_here :: emitter_file
  shipped :: emitter_file
  state_writable :: bool

text \<open>\<open>_key\<close>: the identity as text, with the number as Python prints it.\<close>

definition device_key :: "identity \<Rightarrow> string" where
  "device_key i = fst i @ ''/'' @ nat_digits (snd i)"

definition load_devices :: "emitter_file \<Rightarrow> (string \<times> device_entry) list" where
  "load_devices f = (case f of None \<Rightarrow> [] | Some d \<Rightarrow> d)"

definition entry_controls :: "emitter_file \<Rightarrow> identity \<Rightarrow> vendor_control list" where
  "entry_controls f i =
     (case map_of (load_devices f) (device_key i) of
        None \<Rightarrow> []
      | Some e \<Rightarrow> (case e_controls e of None \<Rightarrow> [] | Some cs \<Rightarrow> cs))"

definition stored_controls :: "emitter_state \<Rightarrow> identity \<Rightarrow> vendor_control list" where
  "stored_controls s i = (if entry_controls (found_here s) i \<noteq> [] then entry_controls (found_here s) i else entry_controls (shipped s) i)"

definition save_devices :: "(string \<times> device_entry) list \<Rightarrow> (emitter_state, em_error, unit) block" where
  "save_devices d s = (if state_writable s then (Inr (), s\<lparr>found_here := Some d\<rparr>) else (Inl EmOSError, s))"

definition entry_of :: "emitter_state \<Rightarrow> identity \<Rightarrow> device_entry" where
  "entry_of s i =
     (case map_of (load_devices (found_here s)) (device_key i) of
        None \<Rightarrow> \<lparr>e_controls = None, e_blacklist = None\<rparr>
      | Some e \<Rightarrow> e)"

definition remember :: "identity \<Rightarrow> vendor_control list \<Rightarrow> (emitter_state, em_error, unit) block" where
  "remember i controls s =
     save_devices (AList.update (device_key i) ((entry_of s i)\<lparr>e_controls := Some controls\<rparr>) (load_devices (found_here s))) s"

definition forget :: "identity \<Rightarrow> (emitter_state, em_error, bool) block" where
  "forget i s =
     (if map_of (load_devices (found_here s)) (device_key i) = None then (Inr False, s)
      else pbind (save_devices (AList.delete (device_key i) (load_devices (found_here s)))) (\<lambda>_. pret True) s)"

definition blacklisted :: "emitter_state \<Rightarrow> identity \<Rightarrow> (string \<times> nat) set" where
  "blacklisted s i = (case e_blacklist (entry_of s i) of None \<Rightarrow> {} | Some b \<Rightarrow> set b)"

definition add_to_blacklist :: "identity \<Rightarrow> string \<Rightarrow> nat \<Rightarrow> (emitter_state, em_error, unit) block" where
  "add_to_blacklist i guid selector s =
     (let items = (case e_blacklist (entry_of s i) of None \<Rightarrow> [] | Some b \<Rightarrow> b);
          items' = (if (guid, selector) \<in> set items then items else items @ [(guid, selector)])
      in save_devices (AList.update (device_key i) ((entry_of s i)\<lparr>e_blacklist := Some items'\<rparr>) (load_devices (found_here s))) s)"

section \<open>emitter.py: sessions\<close>

text \<open>\<open>bytes.fromhex\<close>: pairs of digits, white space between them skipped.\<close>

definition hex_digit_value :: "char \<Rightarrow> nat option" where
  "hex_digit_value c =
     (let n = length (takeWhile (\<lambda>d. d \<noteq> to_lower_char c) ''0123456789abcdef'') in if n < 16 then Some n else None)"

fun fromhex :: "string \<Rightarrow> byte list option" where
  "fromhex [] = Some []"
| "fromhex [c] = (if is_space c then Some [] else None)"
| "fromhex (c # d # cs) =
     (if is_space c then fromhex (d # cs)
      else (case (hex_digit_value c, hex_digit_value d) of
          (Some a, Some b) \<Rightarrow> map_option ((#) (of_nat (16 * a + b))) (fromhex cs)
        | _ \<Rightarrow> None))"

declare fromhex.simps [simp del]

definition units_by_guid :: "identity option \<Rightarrow> byte list option \<Rightarrow> (string \<times> nat) list" where
  "units_by_guid ident descriptors =
     (case (ident, descriptors) of
        (Some i, Some d) \<Rightarrow>
          (case map_of (parse_video_control d) (snd i) of
             None \<Rightarrow> []
           | Some x \<Rightarrow> fold (\<lambda>(u, g). AList.update g u) (vc_units x) [])
      | _ \<Rightarrow> [])"

datatype emitter_method = FaceAuthentication nat | VendorControl

record emitter_plan =
  p_method :: emitter_method
  p_alternating :: bool
  p_writes :: "(xu_addr \<times> byte list) list"

fun vendor_writes :: "(string \<times> nat) list \<Rightarrow> vendor_control list \<Rightarrow> em_error + (xu_addr \<times> byte list) list option" where
  "vendor_writes units [] = Inr (Some [])"
| "vendor_writes units (c # cs) =
     (case map_of units (v_guid c) of
        None \<Rightarrow> Inr None
      | Some u \<Rightarrow> (case fromhex (v_value c) of
            None \<Rightarrow> Inl EmValueError
          | Some v \<Rightarrow> (case vendor_writes units cs of
                Inr (Some ws) \<Rightarrow> Inr (Some (((u, v_selector c), v) # ws))
              | r \<Rightarrow> r)))"

text \<open>The face authentication values, where the unit is there and answers.\<close>

definition face_auth_values :: "camera \<Rightarrow> nat option \<Rightarrow> (xu_addr \<times> byte list \<times> nat) option" where
  "face_auth_values cam msxu =
     (case msxu of
        None \<Rightarrow> None
      | Some u \<Rightarrow>
          let a = (u, MSXU_CONTROL_FACE_AUTHENTICATION) in
          (case pbind (xu_length a) (\<lambda>n. pbind (xu_get a GET_CUR n) (\<lambda>current. pbind (xu_get a GET_MAX n) (\<lambda>maximum.
                  pret (current, maximum)))) cam of
             (Inl _, _) \<Rightarrow> None
           | (Inr (current, maximum), _) \<Rightarrow> map_option (Pair a) (face_auth_target current maximum)))"

definition emitter_plan_of ::
    "emitter_state \<Rightarrow> identity option \<Rightarrow> byte list option \<Rightarrow> camera \<Rightarrow> em_error + emitter_plan option" where
  "emitter_plan_of s ident descriptors cam =
     (let units = units_by_guid ident descriptors in
      (case face_auth_values cam (map_of units MS_CAMERA_CONTROL_XU) of
         Some (a, value, mode) \<Rightarrow>
           Inr (Some \<lparr>p_method = FaceAuthentication mode, p_alternating = (mode = MODE_ALTERNATIVE_FRAME_ILLUMINATION),
                      p_writes = [(a, value)]\<rparr>)
       | None \<Rightarrow> (case ident of
             None \<Rightarrow> Inr None
           | Some i \<Rightarrow> (case vendor_writes units (stored_controls s i) of
                 Inl e \<Rightarrow> Inl e
               | Inr None \<Rightarrow> Inr None
               | Inr (Some ws) \<Rightarrow>
                   Inr (if ws = [] then None
                        else Some \<lparr>p_method = VendorControl, p_alternating = False, p_writes = ws\<rparr>)))))"

record emitter_session =
  s_method :: emitter_method
  s_alternating :: bool
  s_restore :: "(xu_addr \<times> byte list) list"

fun apply_writes :: "(xu_addr \<times> byte list) list \<Rightarrow> (xu_addr \<times> byte list) list xu" where
  "apply_writes [] = pret []"
| "apply_writes ((a, v) # ws) =
     pbind (xu_get a GET_CUR (length v)) (\<lambda>previous.
       if previous \<noteq> v then pbind (xu_set a v) (\<lambda>_. pbind (apply_writes ws) (\<lambda>rest. pret ((a, previous) # rest)))
       else apply_writes ws)"

text \<open>\<open>activate\<close>; \<open>openable\<close>: the node can be opened. Only an \<open>OSError\<close> is caught.\<close>

definition activate ::
    "emitter_state \<Rightarrow> identity option \<Rightarrow> byte list option \<Rightarrow> bool \<Rightarrow> camera \<Rightarrow> (em_error + emitter_session option) \<times> camera" where
  "activate s ident descriptors openable cam =
     (if \<not> openable then (Inr None, cam)
      else (case emitter_plan_of s ident descriptors cam of
          Inl e \<Rightarrow> (if e = EmOSError then Inr None else Inl e, cam)
        | Inr None \<Rightarrow> (Inr None, cam)
        | Inr (Some p) \<Rightarrow> (case apply_writes (p_writes p) cam of
              (Inl e, cam') \<Rightarrow> (if e = EmOSError then Inr None else Inl e, cam')
            | (Inr restore, cam') \<Rightarrow>
                (Inr (Some \<lparr>s_method = p_method p, s_alternating = p_alternating p, s_restore = restore\<rparr>), cam'))))"

text \<open>\<open>Session.close\<close>: in reverse, and a value that cannot be set is passed over.\<close>

definition close_session :: "emitter_session \<Rightarrow> camera \<Rightarrow> camera" where
  "close_session s cam = fold (\<lambda>(a, v) c. snd (xu_set a v c)) (rev (s_restore s)) cam"

definition emitter_status :: "emitter_state \<Rightarrow> identity option \<Rightarrow> byte list option \<Rightarrow> bool \<Rightarrow> camera \<Rightarrow> em_error + emitter_method option" where
  "emitter_status s ident descriptors openable cam =
     (if \<not> openable then Inr None
      else (case emitter_plan_of s ident descriptors cam of
          Inl e \<Rightarrow> if e = EmOSError then Inr None else Inl e
        | Inr p \<Rightarrow> Inr (map_option p_method p)))"

section \<open>emitter.py: flash analysis\<close>

definition FLOOR :: real where "FLOOR = 0.02"

record analyzer =
  reference :: "real option"
  previous_intensity :: "real option"
  previous_diff :: "real option"
  swings :: "real list"
  an_frames :: nat
  an_total :: real

definition reset_analyzer :: "analyzer \<Rightarrow> analyzer" where
  "reset_analyzer a = a\<lparr>previous_intensity := None, previous_diff := None, swings := [], an_frames := 0, an_total := 0\<rparr>"

definition new_analyzer :: analyzer where
  "new_analyzer = \<lparr>reference = None, previous_intensity = None, previous_diff = None, swings = [], an_frames = 0, an_total = 0\<rparr>"

definition feed_frame :: "real \<Rightarrow> analyzer \<Rightarrow> analyzer" where
  "feed_frame x a =
     (let a1 = a\<lparr>an_frames := an_frames a + 1, an_total := an_total a + x, previous_intensity := Some x\<rparr> in
      (case previous_intensity a of
         None \<Rightarrow> a1
       | Some p \<Rightarrow>
           let diff = x - p in
           a1\<lparr>swings := (case previous_diff a of None \<Rightarrow> swings a | Some d \<Rightarrow> swings a @ [\<bar>diff - d\<bar>]), previous_diff := Some diff\<rparr>))"

definition variation :: "analyzer \<Rightarrow> real" where
  "variation a = (if swings a = [] then 0 else sort (swings a) ! (length (swings a) div 2))"

definition set_reference :: "analyzer \<Rightarrow> analyzer" where
  "set_reference a =
     (let brightness = (if an_frames a = 0 then 0 else an_total a / real (an_frames a)) in
      reset_analyzer (a\<lparr>reference := Some (max (variation a * 50) (brightness * FLOOR))\<rparr>))"

definition an_lit :: "analyzer \<Rightarrow> bool \<times> analyzer" where
  "an_lit a = ((case reference a of None \<Rightarrow> False | Some r \<Rightarrow> an_frames a > 2 \<and> variation a > r), reset_analyzer a)"

section \<open>emitter.py: the search\<close>

definition candidate_controls :: "emitter_state \<Rightarrow> identity option \<Rightarrow> byte list option \<Rightarrow> camera \<Rightarrow> (string \<times> control) list" where
  "candidate_controls s ident descriptors cam =
     (let units = units_by_guid ident descriptors;
          skip = (case ident of None \<Rightarrow> {} | Some i \<Rightarrow> blacklisted s i);
          msxu = map_of units MS_CAMERA_CONTROL_XU;
          guid_of = fold (\<lambda>(g, u). AList.update u g) units [];
          keep = (\<lambda>c. \<not> (Some (c_unit c) = msxu \<or> \<not> writable c \<or> c_cur c = None) \<and> (the (map_of guid_of (c_unit c)), c_selector c) \<notin> skip)
      in map (\<lambda>c. (the (map_of guid_of (c_unit c)), c)) (filter keep (xu_controls cam (sort (map fst guid_of)))))"

fun byte_steps :: "nat \<Rightarrow> nat \<Rightarrow> nat \<Rightarrow> nat list" where
  "byte_steps 0 v limit = []"
| "byte_steps (Suc n) v limit = (if v + 1 > limit then [] else (v + 1) # byte_steps n (v + 1) limit)"

text \<open>At the default step of one and five values per byte.\<close>

definition candidate_values :: "byte list \<Rightarrow> byte list option \<Rightarrow> byte list list" where
  "candidate_values current maximum =
     (let m = (case maximum of None \<Rightarrow> replicate (length current) 255 | Some x \<Rightarrow> if x = [] then replicate (length current) 255 else x) in
      concat (map (\<lambda>i. map (\<lambda>v. current[i := of_nat v]) (byte_steps 5 (unat (current ! i)) (min 255 (unat (m ! i)))))
        [0..<length current]))"

text \<open>
  The values of one control: what each read of frames gives is taken from a list. The result is the
  accepted value, if any.
\<close>

fun try_values ::
    "xu_addr \<Rightarrow> (byte list \<Rightarrow> bool) \<Rightarrow> byte list list \<Rightarrow> real list list \<Rightarrow> analyzer \<Rightarrow> camera \<Rightarrow>
     byte list option \<times> real list list \<times> analyzer \<times> camera" where
  "try_values a confirm [] feeds an cam = (None, feeds, an, cam)"
| "try_values a confirm (v # vs) feeds an cam =
     (case xu_set a v cam of
        (Inl _, cam') \<Rightarrow> (None, feeds, an, cam')
      | (Inr _, cam') \<Rightarrow>
          let an1 = fold feed_frame (if feeds = [] then [] else hd feeds) an; (lit, an2) = an_lit an1 in
          if lit \<and> confirm v then (Some v, tl feeds, an2, cam')
          else try_values a confirm vs (tl feeds) an2 cam')"

text \<open>Each control in turn: try, remember what was found, restore; a control that stays changed is blacklisted.\<close>

fun search_controls ::
    "identity \<Rightarrow> (control \<Rightarrow> byte list \<Rightarrow> bool) \<Rightarrow> (string \<times> control) list \<Rightarrow> real list list \<Rightarrow> analyzer \<Rightarrow> emitter_state \<Rightarrow> camera \<Rightarrow>
     (em_error + vendor_control option) \<times> emitter_state \<times> camera" where
  "search_controls i confirm [] feeds an s cam = (Inr None, s, cam)"
| "search_controls i confirm ((guid, c) # cs) feeds an s cam =
     (let a = (c_unit c, c_selector c);
          (hit, feeds', an', cam1) = try_values a (confirm c) (candidate_values (the (c_cur c)) (c_maximum c)) feeds an cam;
          found = map_option (\<lambda>v. \<lparr>v_guid = guid, v_selector = c_selector c, v_value = bytes_hex v\<rparr>) hit;
          (saved, s1) = (case found of None \<Rightarrow> (Inr (), s) | Some f \<Rightarrow> remember i [f] s)
      in (case xu_set a (the (c_cur c)) cam1 of
            (Inl _, cam2) \<Rightarrow> (case add_to_blacklist i guid (c_selector c) s1 of
                (Inl e, s2) \<Rightarrow> (Inl e, s2, cam2)
              | (Inr _, s2) \<Rightarrow> (Inl SearchAborted, s2, cam2))
          | (Inr _, cam2) \<Rightarrow> (case saved of
                Inl e \<Rightarrow> (Inl e, s1, cam2)
              | Inr _ \<Rightarrow> (case found of
                    Some f \<Rightarrow> (Inr (Some f), s1, cam2)
                  | None \<Rightarrow> search_controls i confirm cs feeds' an' s1 cam2))))"

definition emitter_search ::
    "identity option \<Rightarrow> byte list option \<Rightarrow> (control \<Rightarrow> byte list \<Rightarrow> bool) \<Rightarrow> real list list \<Rightarrow> emitter_state \<Rightarrow> camera \<Rightarrow>
     (em_error + vendor_control option) \<times> emitter_state \<times> camera" where
  "emitter_search ident descriptors confirm feeds s cam =
     (case ident of
        None \<Rightarrow> (Inl SearchAborted, s, cam)
      | Some i \<Rightarrow>
          search_controls i confirm (candidate_controls s ident descriptors cam) (tl feeds)
            (set_reference (fold feed_frame (if feeds = [] then [] else hd feeds) new_analyzer)) s cam)"

section \<open>Sessions restore the camera\<close>

lemma xu_get_Inr: "xu_get a GET_CUR n cam = (Inr v, cam') \<Longrightarrow> cam' = cam \<and> cur_value cam a = Some v \<and> length v = n"
  by (auto simp: xu_get_def split: option.splits if_splits)

lemma xu_set_Inr:
  "xu_set a v cam = (Inr u, cam') \<Longrightarrow> cam' = cam\<lparr>cur_value := (cur_value cam)(a \<mapsto> v)\<rparr> \<and> (\<exists>old. cur_value cam a = Some old \<and> length old = length v)"
  by (auto simp: xu_set_def split: option.splits if_splits)

lemma xu_set_Inl: "xu_set a v cam = (Inl e, cam') \<Longrightarrow> cam' = cam \<and> e = EmOSError"
  by (auto simp: xu_set_def split: option.splits if_splits)

lemma apply_writes_undone:
  assumes "apply_writes ws cam = (Inr restore, cam')" and "\<forall>(a, v) \<in> set restore. takes cam a v"
  shows "takes cam' = takes cam \<and> fold (\<lambda>(a, v) c. snd (xu_set a v c)) (rev restore) cam' = cam"
  using assms
proof (induction ws arbitrary: cam restore)
  case (Cons w ws)
  obtain a v where w: "w = (a, v)"
    by fastforce
  obtain previous where g: "xu_get a GET_CUR (length v) cam = (Inr previous, cam)"
    using Cons.prems(1) by (cases "xu_get a GET_CUR (length v) cam") (auto simp: w pbind_def dest: xu_get_Inr split: sum.splits)
  note prev = xu_get_Inr [OF g]
  show ?case
  proof (cases "previous = v")
    case True
    then show ?thesis
      using Cons g by (simp add: w pbind_def)
  next
    case False
    let ?cam1 = "cam\<lparr>cur_value := (cur_value cam)(a \<mapsto> v)\<rparr>"
    obtain u cam1 where "xu_set a v cam = (Inr u, cam1)"
      using Cons.prems(1) g False by (cases "xu_set a v cam") (auto simp: w pbind_def split: sum.splits)
    then have s: "xu_set a v cam = (Inr u, ?cam1)"
      using xu_set_Inr by blast
    obtain rest where r: "apply_writes ws ?cam1 = (Inr rest, cam')" "restore = (a, previous) # rest"
      using Cons.prems(1) g False s by (auto simp: w pbind_def split: prod.splits sum.splits)
    have "\<forall>(a, v) \<in> set rest. takes ?cam1 a v"
      using Cons.prems(2) r(2) by auto
    then have ih: "takes cam' = takes ?cam1" "fold (\<lambda>(a, v) c. snd (xu_set a v c)) (rev rest) cam' = ?cam1"
      using Cons.IH [OF r(1)] by auto
    have "takes cam a previous"
      using Cons.prems(2) r(2) by simp
    then have "snd (xu_set a previous ?cam1) = cam"
      using prev by (simp add: xu_set_def fun_upd_idem)
    then show ?thesis
      using ih r(2) by simp
  qed
qed simp

text \<open>
  A capture leaves the camera as it found it: when the emitter was switched on, closing the
  session puts every control back to the value it had before, in whatever order and however often
  the plan wrote it, as long as the camera takes its own old values back.
\<close>

theorem session_restores_camera:
  assumes "activate s ident descriptors openable cam = (Inr (Some sess), cam')"
    and "\<forall>(a, v) \<in> set (s_restore sess). takes cam a v"
  shows "close_session sess cam' = cam"
proof -
  have "\<exists>ws. apply_writes ws cam = (Inr (s_restore sess), cam')"
    using assms(1) by (auto simp: activate_def split: if_splits sum.splits option.splits prod.splits)
  then show ?thesis
    using apply_writes_undone assms(2) by (auto simp: close_session_def)
qed

text \<open>One unit with two vendor controls, known for the camera.\<close>

definition sample_camera :: camera where
  "sample_camera = \<lparr>cur_value = [(4, 1) \<mapsto> [0], (4, 2) \<mapsto> [7]], other_value = (\<lambda>c a. None), xu_info = (\<lambda>a. Some 3), takes = (\<lambda>a v. True)\<rparr>"

definition sample_descriptors :: "byte list" where
  "sample_descriptors = [9, 4, 2, 0, 0, 0x0E, 1, 0, 0] @ [21, 0x24, 6, 4] @ replicate 16 0x11 @ [0]"

definition sample_emitter :: "vendor_control list \<Rightarrow> emitter_state" where
  "sample_emitter cs = \<lparr>found_here = Some [(''1:2/2'', \<lparr>e_controls = Some cs, e_blacklist = None\<rparr>)], shipped = None, state_writable = True\<rparr>"

definition sample_control :: "nat \<Rightarrow> string \<Rightarrow> vendor_control" where
  "sample_control sel v = \<lparr>v_guid = ''11111111-1111-1111-1111-111111111111'', v_selector = sel, v_value = v\<rparr>"

lemma sample_units: "units_by_guid (Some (''1:2'', 2)) (Some sample_descriptors) = [(''11111111-1111-1111-1111-111111111111'', 4)]"
  by code_simp

lemma sample_device_key: "device_key (''1:2'', 2) = ''1:2/2''"
  by code_simp

lemma sample_stored_controls: "stored_controls (sample_emitter cs) (''1:2'', 2) = cs"
  by (simp add: stored_controls_def entry_controls_def sample_emitter_def load_devices_def sample_device_key)

lemma sample_plan:
  "emitter_plan_of (sample_emitter cs) (Some (''1:2'', 2)) (Some sample_descriptors) cam =
    (case vendor_writes [(''11111111-1111-1111-1111-111111111111'', 4)] cs of
       Inl e \<Rightarrow> Inl e
     | Inr None \<Rightarrow> Inr None
     | Inr (Some ws) \<Rightarrow> Inr (if ws = [] then None else Some \<lparr>p_method = VendorControl, p_alternating = False, p_writes = ws\<rparr>))"
  by (simp add: emitter_plan_of_def sample_units sample_stored_controls MS_CAMERA_CONTROL_XU_def face_auth_values_def split: sum.split option.split)

lemma sample_fromhex: "fromhex ''01'' = Some [1]" "fromhex ''zz'' = None"
  by code_simp+

theorem session_restores_camera_witness:
  "\<exists>sess cam'. activate (sample_emitter [sample_control 1 ''01'']) (Some (''1:2'', 2)) (Some sample_descriptors) True sample_camera
      = (Inr (Some sess), cam') \<and> cur_value cam' (4, 1) = Some [1] \<and> close_session sess cam' = sample_camera"
proof -
  let ?sess = "\<lparr>s_method = VendorControl, s_alternating = False, s_restore = [((4, 1), [0])]\<rparr>"
  let ?cam = "sample_camera\<lparr>cur_value := (cur_value sample_camera)((4, 1) \<mapsto> [1])\<rparr>"
  have act: "activate (sample_emitter [sample_control 1 ''01'']) (Some (''1:2'', 2)) (Some sample_descriptors) True sample_camera
      = (Inr (Some ?sess), ?cam)"
    by (simp add: activate_def sample_plan sample_control_def sample_fromhex pbind_def xu_get_def xu_set_def sample_camera_def)
  have "close_session ?sess ?cam = sample_camera"
    by (rule session_restores_camera [OF act]) (simp add: sample_camera_def)
  with act show ?thesis
    by (intro exI [of _ ?sess] exI [of _ ?cam]) simp
qed

text \<open>
  An activation that fails half way is not undone: when the plan writes two controls and the
  second cannot be read, no session is returned, and the first control keeps the new value with
  nobody left to restore it.
\<close>

theorem failed_activation_keeps_writes:
  assumes "openable" and "emitter_plan_of s ident descriptors cam = Inr (Some p)" and "p_writes p = (a, v) # (b, w) # ws"
    and "cur_value cam a = Some old" and "old \<noteq> v" and "length old = length v" and "takes cam a v"
    and "a \<noteq> b" and "cur_value cam b = None"
  shows "activate s ident descriptors openable cam = (Inr None, cam\<lparr>cur_value := (cur_value cam)(a \<mapsto> v)\<rparr>)"
  using assms by (simp add: activate_def pbind_def xu_get_def xu_set_def)

theorem failed_activation_keeps_writes_witness:
  "activate (sample_emitter [sample_control 1 ''01'', sample_control 9 ''01'']) (Some (''1:2'', 2)) (Some sample_descriptors) True sample_camera
   = (Inr None, sample_camera\<lparr>cur_value := (cur_value sample_camera)((4, 1) \<mapsto> [1])\<rparr>)"
proof (rule failed_activation_keeps_writes [where ws = "[]" and w = "[1]" and b = "(4, 9)" and old = "[0]"])
  show "emitter_plan_of (sample_emitter [sample_control 1 ''01'', sample_control 9 ''01'']) (Some (''1:2'', 2)) (Some sample_descriptors) sample_camera
      = Inr (Some \<lparr>p_method = VendorControl, p_alternating = False, p_writes = [((4, 1), [1]), ((4, 9), [1])]\<rparr>)"
    by (simp add: sample_plan sample_control_def sample_fromhex)
qed (simp_all add: sample_camera_def)

section \<open>The search restores what it tries\<close>

lemma try_values_only:
  assumes "try_values a confirm vs feeds an cam = (hit, feeds', an', cam')"
  shows "takes cam' = takes cam \<and> (\<forall>b. b \<noteq> a \<longrightarrow> cur_value cam' b = cur_value cam b)"
  using assms
proof (induction a confirm vs feeds an cam rule: try_values.induct)
  case (2 a confirm v vs feeds an cam)
  obtain r cam1 where s: "xu_set a v cam = (r, cam1)"
    by fastforce
  show ?case
  proof (cases r)
    case (Inl e)
    then show ?thesis
      using "2.prems" s xu_set_Inl [of a v cam e cam1] by auto
  next
    case (Inr u)
    then have c: "cam1 = cam\<lparr>cur_value := (cur_value cam)(a \<mapsto> v)\<rparr>"
      using xu_set_Inr [of a v cam u cam1] s by blast
    obtain lit an2 where lit: "an_lit (fold feed_frame (if feeds = [] then [] else hd feeds) an) = (lit, an2)"
      by fastforce
    show ?thesis
    proof (cases "lit \<and> confirm v")
      case True
      then show ?thesis
        using "2.prems" s Inr lit c by (auto simp: Let_def split: if_splits)
    next
      case False
      then have "try_values a confirm vs (tl feeds) an2 cam1 = (hit, feeds', an', cam')"
        using "2.prems" s Inr lit by (simp add: Let_def split: if_splits)
      then show ?thesis
        using "2.IH" [of r cam1] s Inr lit False c by (auto simp: Let_def)
    qed
  qed
qed auto

lemma restored_control:
  assumes "try_values a confirm vs feeds an cam = (hit, feeds', an', cam1)" and "cur_value cam a = Some cur"
    and "xu_set a cur cam1 = (Inr u, cam2)"
  shows "cur_value cam2 = cur_value cam"
  using try_values_only [OF assms(1)] xu_set_Inr [OF assms(3)] assms(2) by (auto simp: fun_eq_iff)

lemma add_to_blacklist_listed:
  "add_to_blacklist i guid sel s = (Inr u, s') \<Longrightarrow> (guid, sel) \<in> blacklisted s' i"
  by (auto simp: add_to_blacklist_def save_devices_def blacklisted_def entry_of_def load_devices_def Let_def
      split: if_splits option.splits)

lemma search_controls_restore:
  assumes "search_controls i confirm cs feeds an s cam = (r, s', cam')"
    and "\<forall>(g, c) \<in> set cs. c_cur c \<noteq> None \<and> cur_value cam (c_unit c, c_selector c) = c_cur c"
  shows "(\<forall>x. r = Inr x \<longrightarrow> cur_value cam' = cur_value cam) \<and>
    (r = Inl SearchAborted \<longrightarrow> (\<exists>g c. (g, c) \<in> set cs \<and> (g, c_selector c) \<in> blacklisted s' i \<and>
       (\<forall>b. b \<noteq> (c_unit c, c_selector c) \<longrightarrow> cur_value cam' b = cur_value cam b)))"
  using assms
proof (induction cs arbitrary: feeds an s cam)
  case (Cons gc cs)
  obtain g c where gc: "gc = (g, c)"
    by fastforce
  let ?a = "(c_unit c, c_selector c)"
  obtain cur where cur: "c_cur c = Some cur" "cur_value cam ?a = Some cur"
    using Cons.prems(2) gc by auto
  obtain hit feeds' an' cam1 where t: "try_values ?a (confirm c) (candidate_values cur (c_maximum c)) feeds an cam = (hit, feeds', an', cam1)"
    using prod_cases4 by blast
  define found where "found = map_option (\<lambda>v. \<lparr>v_guid = g, v_selector = c_selector c, v_value = bytes_hex v\<rparr>) hit"
  obtain saved s1 where sv: "(case found of None \<Rightarrow> (Inr (), s) | Some f \<Rightarrow> remember i [f] s) = (saved, s1)"
    by fastforce
  have saved: "saved \<noteq> Inl SearchAborted"
    using sv by (auto simp: remember_def save_devices_def split: option.splits if_splits)
  obtain ru cam2 where set: "xu_set ?a cur cam1 = (ru, cam2)"
    by fastforce
  note run = Cons.prems(1) [unfolded gc search_controls.simps Let_def cur(1) option.sel t prod.case found_def [symmetric] sv set]
  show ?case
  proof (cases ru)
    case (Inl e)
    then have c2: "cam2 = cam1"
      using xu_set_Inl set by blast
    obtain rb s2 where bl: "add_to_blacklist i g (c_selector c) s1 = (rb, s2)"
      by fastforce
    have "rb \<noteq> Inl SearchAborted"
      using bl by (auto simp: add_to_blacklist_def save_devices_def Let_def split: if_splits)
    then show ?thesis
      using run Inl bl c2 try_values_only [OF t] add_to_blacklist_listed [of i g "c_selector c" s1 _ s2] gc
      by (cases rb) (auto intro!: exI [of _ g] exI [of _ c])
  next
    case (Inr u)
    have same: "cur_value cam2 = cur_value cam"
      using restored_control [OF t cur(2)] set Inr by blast
    show ?thesis
    proof (cases "saved = Inr () \<and> found = None")
      case True
      then have "search_controls i confirm cs feeds' an' s1 cam2 = (r, s', cam')"
        using run Inr by simp
      then show ?thesis
        using Cons.IH [of feeds' an' s1 cam2] Cons.prems(2) same gc by auto
    next
      case False
      then show ?thesis
        using run Inr same saved by (auto split: sum.splits option.splits)
    qed
  qed
qed auto

lemma map_filter_set: "x \<in> set (List.map_filter f xs) \<longleftrightarrow> (\<exists>y \<in> set xs. f y = Some x)"
  by (induction xs) (auto simp: List.map_filter_def)

lemma read_control_cur:
  "read_control cam a = Some c \<Longrightarrow> c_cur c \<noteq> None \<Longrightarrow> (c_unit c, c_selector c) = a \<and> cur_value cam a = c_cur c"
  by (auto simp: read_control_def value_or_none_def xu_get_def split: sum.splits option.splits if_splits)

lemma candidates_current:
  "(g, c) \<in> set (candidate_controls s ident descriptors cam) \<Longrightarrow>
    c_cur c \<noteq> None \<and> cur_value cam (c_unit c, c_selector c) = c_cur c"
  using read_control_cur [of cam _ c]
  by (fastforce simp: candidate_controls_def xu_controls_def map_filter_set Let_def)

text \<open>
  C34. The search leaves no control changed behind: whether it found a control or not, every control
  of the camera has the value it had before. Where a control could not be restored, the search
  stops at it: that control alone may differ, and it is on the list of those never tried again.
\<close>

theorem search_leaves_camera:
  assumes "emitter_search (Some i) descriptors confirm feeds s cam = (r, s', cam')"
  shows "(\<forall>x. r = Inr x \<longrightarrow> cur_value cam' = cur_value cam) \<and>
    (r = Inl SearchAborted \<longrightarrow> (\<exists>g c. (g, c) \<in> set (candidate_controls s (Some i) descriptors cam) \<and>
       (g, c_selector c) \<in> blacklisted s' i \<and> (\<forall>b. b \<noteq> (c_unit c, c_selector c) \<longrightarrow> cur_value cam' b = cur_value cam b)))"
proof -
  have "search_controls i confirm (candidate_controls s (Some i) descriptors cam) (tl feeds)
      (set_reference (fold feed_frame (if feeds = [] then [] else hd feeds) new_analyzer)) s cam = (r, s', cam')"
    using assms by (simp add: emitter_search_def)
  then show ?thesis
    by (rule search_controls_restore) (use candidates_current [of _ _ s "Some i" descriptors cam] in blast)
qed

definition sample_found :: "nat \<Rightarrow> byte list \<Rightarrow> control" where
  "sample_found sel v = \<lparr>c_unit = 4, c_selector = sel, c_length = 1, c_info = 3, c_cur = Some v, c_minimum = None, c_maximum = None,
     c_default = None\<rparr>"

lemma sample_candidates:
  "candidate_controls (sample_emitter []) (Some (''1:2'', 2)) (Some sample_descriptors) sample_camera =
    [(''11111111-1111-1111-1111-111111111111'', sample_found 1 [0]), (''11111111-1111-1111-1111-111111111111'', sample_found 2 [7])]"
  by code_simp

lemma sample_values: "candidate_values [0] None = [[1], [2], [3], [4], [5]]" "candidate_values [7] None = [[8], [9], [10], [11], [12]]"
  by code_simp+

theorem search_leaves_camera_witness:
  "\<exists>s' cam'. emitter_search (Some (''1:2'', 2)) (Some sample_descriptors) (\<lambda>c v. True) [] (sample_emitter []) sample_camera
     = (Inr None, s', cam') \<and> cur_value cam' = cur_value sample_camera"
proof -
  have "\<exists>s' cam'. emitter_search (Some (''1:2'', 2)) (Some sample_descriptors) (\<lambda>c v. True) [] (sample_emitter []) sample_camera
     = (Inr None, s', cam')"
    unfolding emitter_search_def option.case sample_candidates
    by (simp add: sample_found_def sample_values xu_set_def sample_camera_def an_lit_def set_reference_def reset_analyzer_def
        new_analyzer_def)
  then show ?thesis
    using search_leaves_camera by blast
qed

section \<open>Values that are tried\<close>

lemma byte_steps_bounds: "x \<in> set (byte_steps n v limit) \<Longrightarrow> v < x \<and> x \<le> v + n \<and> x \<le> limit"
  by (induction n arbitrary: v) (fastforce split: if_splits)+

text \<open>
  What the search writes to a camera stays near what was there: every value tried differs from the
  current one in one byte only, which is at most five higher and within the maximum
  the camera gives for it.
\<close>

theorem candidate_values_bounded:
  assumes "v \<in> set (candidate_values current (Some maximum))" and "length maximum = length current"
  shows "\<exists>i < length current. length v = length current \<and> (\<forall>j < length current. j \<noteq> i \<longrightarrow> v ! j = current ! j) \<and>
    unat (current ! i) < unat (v ! i) \<and> unat (v ! i) \<le> unat (current ! i) + 5 \<and> unat (v ! i) \<le> unat (maximum ! i)"
proof -
  have "maximum \<noteq> []"
    using assms by (auto simp: candidate_values_def Let_def split: if_splits)
  then obtain i x where i: "i < length current" "v = current[i := of_nat x]"
      "x \<in> set (byte_steps 5 (unat (current ! i)) (min 255 (unat (maximum ! i))))"
    using assms(1) by (auto simp: candidate_values_def Let_def)
  then have "unat (current ! i) < x" "x \<le> unat (current ! i) + 5" "x \<le> min 255 (unat (maximum ! i))"
    using byte_steps_bounds by blast+
  then show ?thesis
    using i(1,2) by (intro exI [of _ i]) auto
qed

theorem candidate_values_bounded_witness:
  "[3, 9] \<in> set (candidate_values [3, 7] (Some [4, 9])) \<and> unat ([3, 9] ! 1 :: byte) \<le> unat ([4, 9] ! 1 :: byte)"
proof
  show m: "[3, 9] \<in> set (candidate_values [3, 7] (Some [4, 9]))"
    by code_simp
  obtain i where "i < length [3, 7 :: byte]" "\<forall>j < length [3, 7 :: byte]. j \<noteq> i \<longrightarrow> [3, 9] ! j = ([3, 7] ! j :: byte)"
      "unat ([3, 9] ! i :: byte) \<le> unat ([4, 9] ! i :: byte)"
    using candidate_values_bounded [OF m] by auto
  moreover from this have "i = 1"
    by (cases i) (auto simp: less_Suc_eq)
  ultimately show "unat ([3, 9] ! 1 :: byte) \<le> unat ([4, 9] ! 1 :: byte)"
    by blast
qed

section \<open>Switching face authentication on\<close>

lemma length_splice: "off + length new \<le> length b \<Longrightarrow> length (splice off new b) = length b"
  by (simp add: splice_def)

lemma splice_nth: "off + length new \<le> length b \<Longrightarrow> p < off \<or> off + length new \<le> p \<Longrightarrow> splice off new b ! p = b ! p"
  by (auto simp: splice_def nth_append)

lemma splice_same: "off + length new \<le> length b \<Longrightarrow> take (length new) (drop off (splice off new b)) = new"
  by (simp add: splice_def)

lemma splice_other:
  "off + length new \<le> length b \<Longrightarrow> q + m \<le> off \<or> off + length new \<le> q \<Longrightarrow> take m (drop q (splice off new b)) = take m (drop q b)"
  by (auto simp: splice_def take_drop)

text \<open>The \<open>j\<close>th entry's flags in a payload with entries of \<open>k\<close> bytes.\<close>

definition flags_at :: "nat \<Rightarrow> nat \<Rightarrow> byte list \<Rightarrow> byte list" where
  "flags_at k j b = take (k - 1) (drop (2 + j * k) b)"

lemma entry_apart: "i < j \<Longrightarrow> i * k + k \<le> j * (k::nat)"
  using mult_le_mono1 [of "Suc i" j k] by simp

lemma splice_flags:
  assumes "2 \<le> k" and "1 + n * k \<le> length b" and "i < n" and "j < n" and "length new = k - 1"
  shows "flags_at k i (splice (2 + j * k) new b) = (if i = j then new else flags_at k i b)"
    and "splice (2 + j * k) new b ! (1 + i * k) = b ! (1 + i * k)" and "splice (2 + j * k) new b ! 0 = b ! 0"
    and "length (splice (2 + j * k) new b) = length b"
proof -
  have fit: "2 + j * k + length new \<le> length b"
    using entry_apart [OF assms(4), of k] assms(1,2,5) by linarith
  then show "length (splice (2 + j * k) new b) = length b" "splice (2 + j * k) new b ! 0 = b ! 0"
    by (simp_all add: length_splice splice_nth)
  have apart: "i * k + k \<le> j * k \<or> j * k + k \<le> i * k \<or> i = j"
    using entry_apart [of i j k] entry_apart [of j i k] by (cases i j rule: linorder_cases) auto
  show "flags_at k i (splice (2 + j * k) new b) = (if i = j then new else flags_at k i b)"
  proof (cases "i = j")
    case True
    then show ?thesis
      using splice_same [OF fit] assms(5) by (simp add: flags_at_def)
  next
    case False
    then have "2 + i * k + (k - 1) \<le> 2 + j * k \<or> 2 + j * k + length new \<le> 2 + i * k"
      using apart assms(1,5) by linarith
    then show ?thesis
      using splice_other [OF fit] False by (simp add: flags_at_def)
  qed
  have "1 + i * k < 2 + j * k \<or> 2 + j * k + length new \<le> 1 + i * k"
    using apart assms(1,5) by (cases "i = j") auto
  then show "splice (2 + j * k) new b ! (1 + i * k) = b ! (1 + i * k)"
    using splice_nth [OF fit] by blast
qed

definition entry_at :: "nat \<Rightarrow> byte list \<Rightarrow> nat \<Rightarrow> fa_entry" where
  "entry_at k b i = \<lparr>fa_interface = unat (b ! (1 + i * k)), fa_flags = from_le (flags_at k i b), fa_offset = 2 + i * k, fa_size = k - 1\<rparr>"

lemma parse_entries:
  "parse_face_auth b = (if b = [] \<or> unat (hd b) = 0 \<or> fa_stride b < 2 then [] else map (entry_at (fa_stride b) b) [0..<unat (hd b)])"
  by (simp add: parse_face_auth_def entry_at_def flags_at_def Let_def)

text \<open>The flags an entry has once its interface was switched.\<close>

definition switched :: "byte list \<Rightarrow> nat \<Rightarrow> byte list \<Rightarrow> nat \<Rightarrow> byte list" where
  "switched maximum k b i =
     (case preferred_mode (supported_modes maximum (unat (b ! (1 + i * k)))) of None \<Rightarrow> flags_at k i b | Some m \<Rightarrow> to_le (k - 1) m)"

lemma fa_fold:
  assumes "2 \<le> k" and "1 + n * k \<le> length b" and "m \<le> n"
    and "fold (fa_step maximum) (map (entry_at k b) [0..<m]) (b, None) = (t, chosen)"
  shows "length t = length b \<and> t ! 0 = b ! 0 \<and> (\<forall>i < n. t ! (1 + i * k) = b ! (1 + i * k)) \<and>
    (\<forall>i < n. flags_at k i t = (if i < m then switched maximum k b i else flags_at k i b))"
  using assms(3,4)
proof (induction m arbitrary: t chosen)
  case (Suc m)
  obtain t0 c0 where f0: "fold (fa_step maximum) (map (entry_at k b) [0..<m]) (b, None) = (t0, c0)"
    by fastforce
  note ih = Suc.IH [OF _ f0]
  have step: "fa_step maximum (entry_at k b m) (t0, c0) = (t, chosen)"
    using Suc.prems(2) f0 by simp
  show ?case
  proof (cases "preferred_mode (supported_modes maximum (unat (b ! (1 + m * k))))")
    case None
    then have "t = t0"
      using step by (simp add: fa_step_def entry_at_def)
    then show ?thesis
      using ih Suc.prems(1) None by (auto simp: less_Suc_eq switched_def)
  next
    case (Some mode)
    then have t: "t = splice (2 + m * k) (to_le (k - 1) mode) t0"
      using step by (simp add: fa_step_def entry_at_def)
    have len: "1 + n * k \<le> length t0"
      using ih Suc.prems(1) assms(2) by simp
    have m: "m < n"
      using Suc.prems(1) by simp
    note sp = splice_flags [OF assms(1) len _ m, of _ "to_le (k - 1) mode", folded t]
    have "length t = length t0" "t ! 0 = t0 ! 0"
      using sp(3,4) [OF m] by simp_all
    then show ?thesis
      using ih Suc.prems(1) sp(1,2) Some by (auto simp: less_Suc_eq switched_def)
  qed
qed simp

lemma preferred_mode_small: "preferred_mode modes = Some m \<Longrightarrow> m \<in> {2, 4}"
  by (auto simp: preferred_mode_def MODE_ALTERNATIVE_FRAME_ILLUMINATION_def MODE_BACKGROUND_SUBTRACTION_def split: if_splits)

text \<open>
  Switching face authentication on changes the modes and nothing else: the value written is as
  long as the one read and has the same interfaces in the same order; every interface for which the
  camera supports alternative frame illumination has exactly that mode, one that only supports
  background subtraction has that, and every other interface keeps its flags.
\<close>

theorem face_auth_target_modes:
  assumes "face_auth_target current maximum = Some (target, mode)"
  shows "length target = length current \<and>
    map fa_interface (parse_face_auth target) = map fa_interface (parse_face_auth current) \<and>
    map fa_flags (parse_face_auth target) =
      map (\<lambda>e. case preferred_mode (supported_modes maximum (fa_interface e)) of None \<Rightarrow> fa_flags e | Some m \<Rightarrow> m)
        (parse_face_auth current)"
proof -
  let ?n = "unat (hd current)" and ?k = "fa_stride current"
  have ok: "current \<noteq> []" "?n \<noteq> 0" "2 \<le> ?k"
    using assms by (auto simp: face_auth_target_def parse_entries split: if_splits)
  have "?n * ?k \<le> length current - 1"
    unfolding fa_stride_def by (simp add: div_times_less_eq_dividend mult.commute)
  then have fit: "1 + ?n * ?k \<le> length current"
    using ok(1) by (cases current) auto
  obtain chosen where "fold (fa_step maximum) (map (entry_at ?k current) [0..<?n]) (current, None) = (target, chosen)"
    using assms ok by (auto simp: face_auth_target_def parse_entries split: prod.splits option.splits)
  note t = fa_fold [OF ok(3) fit order_refl this]
  have tne: "target \<noteq> []"
    using t ok(1) by auto
  then have hd: "hd target = hd current"
    using t ok(1) by (simp add: hd_conv_nth)
  then have k: "fa_stride target = ?k"
    using t by (simp add: fa_stride_def)
  have parse: "parse_face_auth target = map (entry_at ?k target) [0..<?n]" "parse_face_auth current = map (entry_at ?k current) [0..<?n]"
    using ok tne hd k by (simp_all add: parse_entries)
  have "from_le (flags_at ?k i target) =
      (case preferred_mode (supported_modes maximum (unat (current ! (1 + i * ?k)))) of None \<Rightarrow> from_le (flags_at ?k i current) | Some m \<Rightarrow> m)"
    if "i < ?n" for i
  proof -
    have "from_le (to_le (?k - 1) m) = m" if "m \<in> {2, 4}" for m
    proof (rule from_to_le)
      have "(256::nat) ^ 1 \<le> 256 ^ (?k - 1)"
        using ok(3) by (intro power_increasing) auto
      then show "m < 256 ^ (?k - 1)"
        using that by auto
    qed
    then show ?thesis
      using t that by (auto simp: switched_def dest: preferred_mode_small split: option.split)
  qed
  then show ?thesis
    unfolding parse using t by (auto simp: entry_at_def split: option.split)
qed

theorem face_auth_target_modes_witness:
  "face_auth_target [2, 3, 1, 0, 5, 1, 0] [2, 3, 7, 0, 5, 1, 0] = Some ([2, 3, 2, 0, 5, 1, 0], 2) \<and>
   map fa_interface (parse_face_auth [2, 3, 2, 0, 5, 1, 0]) = map fa_interface (parse_face_auth [2, 3, 1, 0, 5, 1, 0])"
proof -
  have f: "face_auth_target [2, 3, 1, 0, 5, 1, 0] [2, 3, 7, 0, 5, 1, 0] = Some ([2, 3, 2, 0, 5, 1, 0], 2)"
    by code_simp
  show ?thesis
    using f face_auth_target_modes [OF f] by blast
qed

end
