(* ===== verification/Camera_Discovery.thy ===== *)
theory Camera_Discovery
  imports Byte_Struct Complex_Main "HOL-Library.Product_Lexorder"
begin

text \<open>
  \<^verbatim>\<open>recorders/device_discovery.py\<close>: which video node is used.

  The device directories are given as listings with the node each entry resolves to (\<open>None\<close>:
  the directory is missing), the ioctls as the answers of each node, and test streaming as what
  OpenCV measures on a node: \<open>None\<close> where it delivers no frame. Measurements are real numbers.
\<close>

unbundle bit_operations_syntax

section \<open>Nodes\<close>

record dev_tree =
  by_path :: "(string \<times> string) list option"
  by_id :: "(string \<times> string) list option"
  dev_dir :: "(string \<times> string) list option"

text \<open>The nodes in order and the stable link of each, the first one seen.\<close>

type_synonym found = "string list \<times> (string \<times> string) list"

definition add_link :: "string \<Rightarrow> string \<times> string \<Rightarrow> found \<Rightarrow> found" where
  "add_link dir e f =
     (let (nodes, links) = f; (entry, real_node) = e in
      (if real_node \<in> set nodes then nodes else nodes @ [real_node],
       if map_of links real_node = None then links @ [(real_node, path_join dir entry)] else links))"

definition add_node :: "string \<times> string \<Rightarrow> found \<Rightarrow> found" where
  "add_node e f =
     (let (nodes, links) = f; (entry, real_node) = e in
      if \<not> starts_with entry ''video'' \<or> real_node \<in> set nodes then f else (nodes @ [real_node], links))"

definition listing :: "(string \<times> string) list option \<Rightarrow> (string \<times> string) list" where
  "listing d = (case d of None \<Rightarrow> [] | Some es \<Rightarrow> es)"

definition candidate_nodes :: "dev_tree \<Rightarrow> (string \<times> string) list \<Rightarrow> found" where
  "candidate_nodes t links =
     fold add_node (listing (dev_dir t))
       (fold (add_link ''/dev/v4l/by-id'') (sort_key fst (listing (by_id t)))
         (fold (add_link ''/dev/v4l/by-path'') (sort_key fst (listing (by_path t))) ([], links)))"

definition stable_path :: "(string \<times> string) list \<Rightarrow> string \<Rightarrow> string" where
  "stable_path links node = (case map_of links node of None \<Rightarrow> node | Some p \<Rightarrow> p)"

section \<open>Formats\<close>

definition IR_FORMATS :: "string list" where
  "IR_FORMATS = [''GREY'', ''Y8  '', ''Y8I '', ''Y10 '', ''Y10B'', ''Y12 '', ''Y12I'', ''Y16 '', ''Y16I'']"

datatype fmt_answer = Pixelformat nat | FmtEinval | FmtError

record node_io =
  io_opens :: bool
  io_caps :: "(nat \<times> nat) option"
  io_format :: "nat \<Rightarrow> fmt_answer"

definition V4L2_CAP_VIDEO_CAPTURE :: nat where "V4L2_CAP_VIDEO_CAPTURE = 1"

definition fourcc :: "nat \<Rightarrow> string" where
  "fourcc code = map (\<lambda>shift. char_of ((code div 2 ^ shift) mod 256)) [0, 8, 16, 24]"

fun enum_formats :: "(nat \<Rightarrow> fmt_answer) \<Rightarrow> nat \<Rightarrow> nat \<Rightarrow> string list option" where
  "enum_formats answer 0 index = Some []"
| "enum_formats answer (Suc n) index =
     (case answer index of
        FmtEinval \<Rightarrow> Some []
      | FmtError \<Rightarrow> None
      | Pixelformat code \<Rightarrow> map_option ((#) (fourcc code)) (enum_formats answer n (index + 1)))"

definition capture_formats :: "node_io \<Rightarrow> string list option" where
  "capture_formats io =
     (if \<not> io_opens io then None
      else (case io_caps io of
          None \<Rightarrow> None
        | Some (capabilities, reserved0) \<Rightarrow>
            let caps = (if capabilities AND 0x80000000 \<noteq> 0 then reserved0 else capabilities) in
            if caps AND V4L2_CAP_VIDEO_CAPTURE = 0 then Some [] else enum_formats (io_format io) 64 0))"

definition any_infrared :: "string list \<Rightarrow> bool" where
  "any_infrared formats \<longleftrightarrow> list_ex (\<lambda>f. f \<in> set IR_FORMATS) formats"

section \<open>Probing and ranking\<close>

record probe =
  p_node :: string
  p_path :: string
  p_ok :: bool
  p_frames :: nat
  p_brightness :: real
  p_saturation :: real
  p_formats :: "string list"
  p_infrared :: bool

text \<open>What test streaming of a node gives: frames, brightness and saturation.\<close>

type_synonym streaming = "string \<Rightarrow> (nat \<times> real \<times> real) option"

definition infrared_result :: "string list \<Rightarrow> real \<Rightarrow> bool" where
  "infrared_result formats saturation \<longleftrightarrow> (if formats \<noteq> [] then any_infrared formats else saturation \<le> 16)"

definition probe_node :: "streaming \<Rightarrow> (string \<times> string) list \<Rightarrow> string \<times> string list option \<Rightarrow> probe" where
  "probe_node stream links nf =
     (let (node, formats) = nf; fs = (case formats of None \<Rightarrow> [] | Some x \<Rightarrow> x) in
      (case stream node of
         None \<Rightarrow> \<lparr>p_node = node, p_path = stable_path links node, p_ok = False, p_frames = 0, p_brightness = 255,
                  p_saturation = 255, p_formats = fs, p_infrared = any_infrared fs\<rparr>
       | Some (n, b, s) \<Rightarrow> \<lparr>p_node = node, p_path = stable_path links node, p_ok = True, p_frames = n, p_brightness = b,
                  p_saturation = s, p_formats = fs, p_infrared = infrared_result fs s\<rparr>))"

definition probe_key :: "probe \<Rightarrow> nat \<times> real \<times> int" where
  "probe_key p =
     (if \<not> p_ok p then (2, 0, 0)
      else (if infrared_result (p_formats p) (p_saturation p) then 0 else 1, p_brightness p, - int (p_frames p)))"

text \<open>The nodes that may capture, with their formats.\<close>

definition capture_nodes :: "(string \<Rightarrow> node_io) \<Rightarrow> string list \<Rightarrow> (string \<times> string list option) list" where
  "capture_nodes io nodes = filter (\<lambda>nf. snd nf \<noteq> Some []) (map (\<lambda>n. (n, capture_formats (io n))) nodes)"

definition advertises_infrared :: "string \<times> string list option \<Rightarrow> bool" where
  "advertises_infrared nf \<longleftrightarrow> (case snd nf of None \<Rightarrow> False | Some fs \<Rightarrow> any_infrared fs)"

definition discover_cameras :: "bool \<Rightarrow> streaming \<Rightarrow> (string \<Rightarrow> node_io) \<Rightarrow> found \<Rightarrow> probe list" where
  "discover_cameras probe_all stream io f =
     (let nodes = capture_nodes io (fst f);
          infrared = filter advertises_infrared nodes;
          chosen = (if \<not> probe_all \<and> infrared \<noteq> [] then infrared else nodes)
      in sort_key probe_key (map (probe_node stream (snd f)) chosen))"

datatype pick = NoCamera | CameraError "string list" | Use string

definition autodetect_device :: "streaming \<Rightarrow> (string \<Rightarrow> node_io) \<Rightarrow> dev_tree \<Rightarrow> (string \<times> string) list \<Rightarrow> pick" where
  "autodetect_device stream io t links0 =
     (let f = candidate_nodes t links0;
          infrared_nodes = filter (\<lambda>n. advertises_infrared (n, capture_formats (io n))) (fst f)
      in (case infrared_nodes of
            [n] \<Rightarrow> Use (stable_path (snd f) n)
          | _ \<Rightarrow>
              let results = discover_cameras False stream io f; infrared = filter p_infrared results in
              if infrared \<noteq> [] \<and> \<not> list_ex p_ok infrared then CameraError (map p_node infrared)
              else (case List.find p_ok results of None \<Rightarrow> NoCamera | Some r \<Rightarrow> Use (p_path r))))"

section \<open>Infrared first\<close>

lemma fold_distinct:
  assumes "\<And>e f. distinct (fst f) \<Longrightarrow> distinct (fst (step e f))"
  shows "distinct (fst f) \<Longrightarrow> distinct (fst (fold step es f))"
  using assms by (induction es arbitrary: f) auto

lemma candidate_nodes_distinct: "distinct (fst (candidate_nodes t links))"
  unfolding candidate_nodes_def
  by (intro fold_distinct) (auto simp: add_node_def add_link_def Let_def split: prod.split)

lemma advertises_not_empty: "advertises_infrared nf \<Longrightarrow> snd nf \<noteq> Some []"
  by (auto simp: advertises_infrared_def any_infrared_def)

lemma infrared_capture_nodes:
  "filter advertises_infrared (capture_nodes io nodes) =
    map (\<lambda>n. (n, capture_formats (io n))) (filter (\<lambda>n. advertises_infrared (n, capture_formats (io n))) nodes)"
  by (induction nodes) (auto simp: capture_nodes_def dest: advertises_not_empty)

lemma probe_infrared: "advertises_infrared nf \<Longrightarrow> p_infrared (probe_node stream links nf) \<and> p_path (probe_node stream links nf) = stable_path links (fst nf)"
  by (auto simp: advertises_infrared_def probe_node_def infrared_result_def any_infrared_def split: prod.split option.splits)

text \<open>
  C37. A machine with an infrared camera never falls back to a webcam: when some node advertises an infrared
  format, automatic detection picks a node that advertises one, by its stable link, or
  reports an error naming such nodes only; the nodes are looked at once each.
\<close>

theorem infrared_never_replaced:
  assumes "node \<in> set (fst (candidate_nodes t links0))" and "advertises_infrared (node, capture_formats (io node))"
  shows "(\<exists>n \<in> set (fst (candidate_nodes t links0)). advertises_infrared (n, capture_formats (io n)) \<and>
      autodetect_device stream io t links0 = Use (stable_path (snd (candidate_nodes t links0)) n)) \<or>
    (\<exists>ns. autodetect_device stream io t links0 = CameraError ns \<and> ns \<noteq> [] \<and>
      (\<forall>n \<in> set ns. advertises_infrared (n, capture_formats (io n))))"
proof -
  let ?f = "candidate_nodes t links0"
  let ?ir = "filter (\<lambda>n. advertises_infrared (n, capture_formats (io n))) (fst ?f)"
  let ?rs = "discover_cameras False stream io ?f"
  have ne: "?ir \<noteq> []"
    using assms by (auto simp: filter_empty_conv)
  show ?thesis
  proof (cases "\<exists>n. ?ir = [n]")
    case True
    then obtain n where n: "?ir = [n]"
      by blast
    then have "n \<in> set ?ir"
      by simp
    then have "n \<in> set (fst ?f)" "advertises_infrared (n, capture_formats (io n))"
      by simp_all
    moreover have "autodetect_device stream io t links0 = Use (stable_path (snd ?f) n)"
      using n by (simp add: autodetect_device_def)
    ultimately show ?thesis
      by blast
  next
    case False
    then have det: "autodetect_device stream io t links0 =
        (if filter p_infrared ?rs \<noteq> [] \<and> \<not> list_ex p_ok (filter p_infrared ?rs) then CameraError (map p_node (filter p_infrared ?rs))
         else (case List.find p_ok ?rs of None \<Rightarrow> NoCamera | Some r \<Rightarrow> Use (p_path r)))"
      using ne unfolding autodetect_device_def Let_def by (auto split: list.split)
    have rs: "?rs = sort_key probe_key (map (probe_node stream (snd ?f)) (map (\<lambda>n. (n, capture_formats (io n))) ?ir))"
      using ne by (simp add: discover_cameras_def infrared_capture_nodes)
    have each: "p_infrared r \<and> (\<exists>n \<in> set ?ir. p_path r = stable_path (snd ?f) n \<and> p_node r = n)" if r: "r \<in> set ?rs" for r
    proof -
      obtain n where "n \<in> set ?ir" "r = probe_node stream (snd ?f) (n, capture_formats (io n))"
        using r unfolding rs by auto
      moreover have "p_node (probe_node stream (snd ?f) (n, x)) = n" for x
        by (simp add: probe_node_def split: option.split prod.split)
      ultimately show ?thesis
        using probe_infrared [of "(n, capture_formats (io n))" stream "snd ?f"] by auto
    qed
    have all: "filter p_infrared ?rs = ?rs"
      using each by (auto simp: filter_id_conv)
    have "set ?rs \<noteq> {}"
      unfolding rs using assms by auto
    then have "?rs \<noteq> []"
      by (metis list.set(1))
    show ?thesis
    proof (cases "list_ex p_ok ?rs")
      case True
      then obtain r where "List.find p_ok ?rs = Some r"
        by (metis find_None_iff list_ex_iff not_None_eq)
      moreover from this have "r \<in> set ?rs"
        by (auto simp: find_Some_iff)
      ultimately show ?thesis
        using True det all each [of r] by auto
    next
      case False
      then show ?thesis
        using det all each \<open>?rs \<noteq> []\<close> by auto
    qed
  qed
qed

text \<open>A webcam, and an infrared node that answers no stream.\<close>

definition sample_tree :: dev_tree where
  "sample_tree = \<lparr>by_path = Some [(''usb-1'', ''/dev/video2'')], by_id = None,
     dev_dir = Some [(''video0'', ''/dev/video0''), (''video2'', ''/dev/video2''), (''null'', ''/dev/null'')]\<rparr>"

definition sample_io :: "string \<Rightarrow> node_io" where
  "sample_io node = \<lparr>io_opens = True, io_caps = Some (1, 0),
     io_format = (\<lambda>i. if i = 0 then Pixelformat (if node = ''/dev/video2'' then 0x59455247 else 0x47504A4D) else FmtEinval)\<rparr>"

lemma sample_nodes: "candidate_nodes sample_tree [] = ([''/dev/video2'', ''/dev/video0''], [(''/dev/video2'', ''/dev/v4l/by-path/usb-1'')])"
  by code_simp

lemma grey_code: "fourcc 0x59455247 = ''GREY''"
  by (simp add: fourcc_def char_of_def bit_iff_odd)

lemma sample_formats: "capture_formats (sample_io ''/dev/video2'') = Some [''GREY'']"
  using enum_formats.simps(2) [of "io_format (sample_io ''/dev/video2'')" 63 0]
    enum_formats.simps(2) [of "io_format (sample_io ''/dev/video2'')" 62 1]
  by (simp add: capture_formats_def sample_io_def V4L2_CAP_VIDEO_CAPTURE_def grey_code)

theorem infrared_never_replaced_witness:
  "(\<exists>n. autodetect_device (\<lambda>n. None) sample_io sample_tree [] = Use n) \<or>
   (\<exists>ns. autodetect_device (\<lambda>n. None) sample_io sample_tree [] = CameraError ns \<and> ns \<noteq> [])"
proof -
  have "advertises_infrared (''/dev/video2'', capture_formats (sample_io ''/dev/video2''))"
    by (simp add: sample_formats advertises_infrared_def any_infrared_def IR_FORMATS_def)
  then show ?thesis
    using infrared_never_replaced [of "''/dev/video2''" sample_tree "[]" sample_io "\<lambda>n. None"] by (auto simp: sample_nodes)
qed

end
