(* ===== verification/Frame_Readers.thy ===== *)
theory Frame_Readers
  imports Ir_Emitter Camera_Discovery Settings_Layers Host_Checks
begin

text \<open>
  \<^verbatim>\<open>recorders/video_capture.py\<close>, \<^verbatim>\<open>recorders/ffmpeg_reader.py\<close> and \<^verbatim>\<open>recorders/pyv4l2_reader.py\<close>: how
  a camera is opened, read and given back.

  OpenCV, ffmpeg, numpy's buffers and pyv4l2 are outside; what they answer is given with the call. An image is its
  height, its width and its bytes, three a pixel. An exception is the left value, with the state it was raised in.
\<close>

type_synonym image = "nat \<times> nat \<times> byte list"

datatype reader_exc = Index_Error | Value_Error | Attribute_Error | Library_Error

datatype cap_prop = PROP_FRAME_WIDTH | PROP_FRAME_HEIGHT | PROP_FPS | PROP_FOURCC

section \<open>The ffmpeg reader\<close>

text \<open>The object; \<open>ff_video\<close> is \<open>None\<close> for the empty tuple. The answers of the recordings to come go with it.\<close>

record ffmpeg_reader =
  ff_numframes :: nat
  ff_video :: "image list option"
  ff_num_read :: nat
  ff_height :: int
  ff_width :: int
  ff_init :: bool
  ff_recordings :: "byte list option list"

type_synonym 'a ff = "(ffmpeg_reader, reader_exc, 'a) block"

definition new_ffmpeg_reader :: "byte list option list \<Rightarrow> ffmpeg_reader" where
  "new_ffmpeg_reader recordings =
     \<lparr>ff_numframes = 10, ff_video = None, ff_num_read = 0, ff_height = 0, ff_width = 0, ff_init = True, ff_recordings = recordings\<rparr>"

definition ff_set :: "cap_prop \<Rightarrow> int \<Rightarrow> ffmpeg_reader \<Rightarrow> ffmpeg_reader" where
  "ff_set p v r =
     (if p = PROP_FRAME_WIDTH then r\<lparr>ff_width := v\<rparr> else if p = PROP_FRAME_HEIGHT then r\<lparr>ff_height := v\<rparr> else r)"

definition ff_get :: "cap_prop \<Rightarrow> ffmpeg_reader \<Rightarrow> int option" where
  "ff_get p r =
     (if p = PROP_FRAME_WIDTH then Some (ff_width r) else if p = PROP_FRAME_HEIGHT then Some (ff_height r) else None)"

text \<open>
  The first match of \<^verbatim>\<open>\s\d{3,4}x\d{3,4}\<close>, split at the x. Digits in front of the x are three or four
  exactly, those behind it the first three or four.
\<close>

definition resolution_at :: "string \<Rightarrow> (string \<times> string) option" where
  "resolution_at s =
     (case s of
        [] \<Rightarrow> None
      | c # cs \<Rightarrow>
          let a = takeWhile is_digit cs; rest = dropWhile is_digit cs; b = take 4 (takeWhile is_digit (tl rest)) in
          if is_space c \<and> length a \<in> {3, 4} \<and> rest \<noteq> [] \<and> hd rest = CHR ''x'' \<and> 3 \<le> length b then Some (a, b) else None)"

fun find_resolution :: "string \<Rightarrow> (string \<times> string) option" where
  "find_resolution [] = None"
| "find_resolution (c # cs) = (case resolution_at (c # cs) of Some r \<Rightarrow> Some r | None \<Rightarrow> find_resolution cs)"

text \<open>A number as it arrives: from JSON as an int, from the text as a string.\<close>

datatype probed = Probed_Int int | Probed_Text string

text \<open>What the two programs answer: exit code and error text of ffmpeg, height and width of ffprobe (\<open>None\<close> where it raises).\<close>

record probe_answer =
  pr_code :: int
  pr_err :: string
  pr_streams :: "(probed \<times> probed) option"

definition probe_dims :: "probe_answer \<Rightarrow> reader_exc + probed \<times> probed" where
  "probe_dims p =
     (case (if pr_code p = 1 then find_resolution (pr_err p) else None) of
        Some (height, width) \<Rightarrow> Inr (Probed_Text height, Probed_Text width)
      | None \<Rightarrow> (case pr_streams p of None \<Rightarrow> Inl Library_Error | Some d \<Rightarrow> Inr d))"

text \<open>\<open>x.isdigit()\<close>, which an int does not have, and \<open>int(x)\<close>.\<close>

definition probed_number :: "probed \<Rightarrow> reader_exc + int option" where
  "probed_number v =
     (case v of
        Probed_Int _ \<Rightarrow> Inl Attribute_Error
      | Probed_Text s \<Rightarrow> Inr (if s \<noteq> [] \<and> list_all is_digit s then int_of_dec s else None))"

definition ff_set_probed :: "cap_prop \<Rightarrow> probed \<Rightarrow> unit ff" where
  "ff_set_probed p v r =
     (case probed_number v of
        Inl e \<Rightarrow> (Inl e, r)
      | Inr None \<Rightarrow> (Inr (), r)
      | Inr (Some n) \<Rightarrow> (Inr (), if ff_get p r = Some 0 then ff_set p n r else r))"

definition ff_probe :: "probe_answer \<Rightarrow> unit ff" where
  "ff_probe p r =
     (case probe_dims p of
        Inl e \<Rightarrow> (Inl e, r)
      | Inr (height, width) \<Rightarrow>
          pbind (ff_set_probed PROP_FRAME_HEIGHT height) (\<lambda>_. ff_set_probed PROP_FRAME_WIDTH width) r)"

function chunks :: "nat \<Rightarrow> 'a list \<Rightarrow> 'a list list" where
  "chunks n xs = (if n = 0 \<or> xs = [] then [] else take n xs # chunks n (drop n xs))"
  by pat_completeness auto
termination
  by (relation "measure (\<lambda>(n, xs). length xs)") auto

declare chunks.simps [simp del]

text \<open>\<open>frombuffer(stream).reshape([-1, height, width, 3])\<close>; \<open>None\<close> where numpy raises.\<close>

definition reshape :: "int \<Rightarrow> int \<Rightarrow> byte list \<Rightarrow> image list option" where
  "reshape h w stream =
     (let n = nat h * nat w * 3 in
      if h \<le> 0 \<or> w \<le> 0 \<or> length stream mod n \<noteq> 0 then None
      else Some (map (\<lambda>d. (nat h, nat w, d)) (chunks n stream)))"

definition ff_record :: "probe_answer \<Rightarrow> unit ff" where
  "ff_record p r =
     pbind (if ff_get PROP_FRAME_WIDTH r = Some 0 \<or> ff_get PROP_FRAME_HEIGHT r = Some 0 then ff_probe p else pret ()) (\<lambda>_ r1.
       (case ff_recordings r1 of
          [] \<Rightarrow> (Inl Library_Error, r1\<lparr>ff_num_read := 0\<rparr>)
        | answer # rest \<Rightarrow>
            let r2 = r1\<lparr>ff_num_read := 0, ff_recordings := rest\<rparr> in
            (case answer of
               None \<Rightarrow> (Inl Library_Error, r2)
             | Some stream \<Rightarrow>
                 (case reshape (ff_height r2) (ff_width r2) stream of
                    None \<Rightarrow> (Inl Value_Error, r2)
                  | Some v \<Rightarrow> (Inr (), r2\<lparr>ff_video := Some v\<rparr>))))) r"

definition ff_frame :: "nat \<Rightarrow> image ff" where
  "ff_frame i r =
     (case ff_video r of
        None \<Rightarrow> (Inl Index_Error, r)
      | Some v \<Rightarrow> if i < length v then (Inr (v ! i), r) else (Inl Index_Error, r))"

text \<open>\<open>read\<close>, whose first component is always 1; \<open>grab\<close> is the same without a result.\<close>

definition ff_read :: "probe_answer \<Rightarrow> image ff" where
  "ff_read p r =
     (if ff_init r then pbind (ff_record p) (\<lambda>_. ff_frame 0) (r\<lparr>ff_init := False, ff_video := None\<rparr>)
      else
        pbind (if ff_video r = None then ff_record p else pret ()) (\<lambda>_.
        pbind (\<lambda>r1. if ff_num_read r1 \<ge> ff_numframes r1 - 1 then ff_record p r1 else (Inr (), r1)) (\<lambda>_ r2.
          let r3 = r2\<lparr>ff_num_read := ff_num_read r2 + 1\<rparr> in ff_frame (ff_num_read r3) r3)) r)"

definition ff_release :: "ffmpeg_reader \<Rightarrow> ffmpeg_reader" where
  "ff_release r = r\<lparr>ff_video := None, ff_num_read := 0\<rparr>"

section \<open>The pyv4l2 reader\<close>

record pyv4l2_reader =
  pv_height :: int
  pv_width :: int
  pv_frame :: bool

text \<open>
  \<open>probe\<close>, with the answer of the ioctl (\<open>None\<close> where opening or asking raises), and what ffprobe gives should it be
  non-zero.
\<close>

definition pv_init :: "(int \<times> int \<times> int) option \<Rightarrow> (int \<times> int) option \<Rightarrow> reader_exc + pyv4l2_reader" where
  "pv_init answer ffprobe =
     (case answer of
        None \<Rightarrow> Inl Library_Error
      | Some (ret, height, width) \<Rightarrow>
          if ret = 0 then Inr \<lparr>pv_height = height, pv_width = width, pv_frame = False\<rparr>
          else (case ffprobe of
              None \<Rightarrow> Inl Library_Error
            | Some (h, w) \<Rightarrow> Inr \<lparr>pv_height = h, pv_width = w, pv_frame = False\<rparr>))"

definition pv_set :: "cap_prop \<Rightarrow> int \<Rightarrow> pyv4l2_reader \<Rightarrow> pyv4l2_reader" where
  "pv_set p v r =
     (if p = PROP_FRAME_WIDTH then r\<lparr>pv_width := v\<rparr> else if p = PROP_FRAME_HEIGHT then r\<lparr>pv_height := v\<rparr> else r)"

text \<open>
  \<open>read\<close>: whether the device can be opened, and the raw frame (\<open>None\<close> where the call raises). A gray byte becomes three; the image
  has 352 rows of 352 pixels or the reshaping raises.
\<close>

definition pv_read :: "bool \<Rightarrow> byte list option \<Rightarrow> (pyv4l2_reader, reader_exc, int \<times> image) block" where
  "pv_read opens data r =
     (if \<not> pv_frame r \<and> \<not> opens then (Inl Library_Error, r)
      else
        let r1 = r\<lparr>pv_frame := True\<rparr> in
        (case data of
           None \<Rightarrow> (Inl Library_Error, r1)
         | Some d \<Rightarrow>
             if length d \<noteq> 352 * 352 then (Inl Value_Error, r1)
             else (Inr (0, (352, 352, concat (map (\<lambda>b. [b, b, b]) d))), r1)))"

section \<open>The capture\<close>

text \<open>\<open>video_index\<close> on the resolved path: \<^verbatim>\<open>/dev/video(\d+)\<close>.\<close>

definition video_index :: "string \<Rightarrow> int option" where
  "video_index path =
     (let n = drop (length ''/dev/video'') path in
      if starts_with path ''/dev/video'' \<and> n \<noteq> [] \<and> list_all is_digit n then int_of_dec n else None)"

text \<open>An OpenCV capture: what it was opened with, whether that worked, and the properties set.\<close>

record opencv_reader =
  oc_source :: "string + int"
  oc_opened :: bool
  oc_sets :: "(cap_prop \<times> int) list"

datatype frame_reader = Ffmpeg ffmpeg_reader | Pyv4l2 pyv4l2_reader | Opencv opencv_reader

fun reader_set :: "cap_prop \<Rightarrow> int \<Rightarrow> frame_reader \<Rightarrow> frame_reader" where
  "reader_set p v (Ffmpeg r) = Ffmpeg (ff_set p v r)"
| "reader_set p v (Pyv4l2 r) = Pyv4l2 (pv_set p v r)"
| "reader_set p v (Opencv r) = Opencv (r\<lparr>oc_sets := oc_sets r @ [(p, v)]\<rparr>)"

text \<open>What a read meets.\<close>

record meets =
  m_probe :: probe_answer
  m_opens :: bool
  m_data :: "byte list option"
  m_cv :: "bool \<times> image"

fun reader_read :: "meets \<Rightarrow> frame_reader \<Rightarrow> (reader_exc + int \<times> image) \<times> frame_reader" where
  "reader_read m (Ffmpeg r) = (case ff_read (m_probe m) r of (Inl e, r') \<Rightarrow> (Inl e, Ffmpeg r') | (Inr f, r') \<Rightarrow> (Inr (1, f), Ffmpeg r'))"
| "reader_read m (Pyv4l2 r) = (case pv_read (m_opens m) (m_data m) r of (x, r') \<Rightarrow> (x, Pyv4l2 r'))"
| "reader_read m (Opencv r) = (Inr (if fst (m_cv m) then 1 else 0, snd (m_cv m)), Opencv r)"

datatype capture_exc = Camera_Failed | Capture_Raised | Capture_Exit int

text \<open>
  What opening a camera meets: the automatic choice, existing paths, the emitter's files and the camera's descriptors, which optional
  packages are installed, and the answers of the libraries.
\<close>

record capture_env =
  v_pick :: pick
  v_exists :: "string \<Rightarrow> bool"
  v_emitter :: "string \<Rightarrow> emitter_state \<times> identity option \<times> byte list option \<times> bool"
  v_ffmpeg :: bool
  v_pyv4l2 :: bool
  v_recordings :: "byte list option list"
  v_ioctl :: "(int \<times> int \<times> int) option"
  v_ffprobe :: "(int \<times> int) option"
  v_opens :: "string + int \<Rightarrow> bool"
  v_realpath :: "string \<Rightarrow> string"
  v_first :: meets

record capture_world =
  cw_camera :: camera
  cw_config :: config

record capture =
  vc_path :: string
  vc_emitter :: "emitter_session option"
  vc_internal :: "frame_reader option"

definition config_int :: "config \<Rightarrow> string \<Rightarrow> string \<Rightarrow> int \<Rightarrow> capture_exc + int" where
  "config_int cfg sec key fallback =
     (case get_option cfg sec key of
        None \<Rightarrow> Inr fallback
      | Some v \<Rightarrow> (case int_of_dec (strip v) of None \<Rightarrow> Inl Capture_Raised | Some i \<Rightarrow> Inr i))"

definition option_or :: "config \<Rightarrow> string \<Rightarrow> string \<Rightarrow> string \<Rightarrow> string" where
  "option_or cfg sec key fallback = (case get_option cfg sec key of None \<Rightarrow> fallback | Some v \<Rightarrow> v)"

text \<open>The reader itself, and the properties of the settings on it.\<close>

definition plugin_reader :: "capture_env \<Rightarrow> config \<Rightarrow> string \<Rightarrow> capture_exc + frame_reader" where
  "plugin_reader env cfg path =
     (let plugin = option_or cfg ''video'' ''recording_plugin'' ''opencv'' in
      if plugin = ''ffmpeg'' then
        (if v_ffmpeg env then Inr (Ffmpeg (new_ffmpeg_reader (v_recordings env))) else Inl (Capture_Exit 12))
      else if plugin = ''pyv4l2'' then
        (if \<not> v_pyv4l2 env then Inl (Capture_Exit 13)
         else (case pv_init (v_ioctl env) (v_ffprobe env) of Inl _ \<Rightarrow> Inl Capture_Raised | Inr r \<Rightarrow> Inr (Pyv4l2 r)))
      else
        let direct = \<lparr>oc_source = Inl path, oc_opened = v_opens env (Inl path), oc_sets = []\<rparr>;
            chosen = (if oc_opened direct then direct
                      else (case video_index (v_realpath env path) of
                          None \<Rightarrow> direct
                        | Some i \<Rightarrow> \<lparr>oc_source = Inr i, oc_opened = v_opens env (Inr i), oc_sets = []\<rparr>))
        in rbind (config_int cfg ''video'' ''device_fps'' 0) (\<lambda>fps.
             Inr (if fps \<noteq> 0 then reader_set PROP_FPS fps (Opencv chosen) else Opencv chosen)))"

definition create_reader :: "capture_env \<Rightarrow> config \<Rightarrow> string \<Rightarrow> capture_exc + frame_reader" where
  "create_reader env cfg path =
     rbind (plugin_reader env cfg path) (\<lambda>r0.
     (case get_boolean cfg ''video'' ''force_mjpeg'' False of
        None \<Rightarrow> Inl Capture_Raised
      | Some mjpeg \<Rightarrow>
          rbind (config_int cfg ''video'' ''frame_width'' (- 1)) (\<lambda>fw.
          rbind (config_int cfg ''video'' ''frame_height'' (- 1)) (\<lambda>fh.
            let r1 = (if mjpeg then reader_set PROP_FOURCC 1196444237 r0 else r0);
                r2 = (if fw \<noteq> - 1 then reader_set PROP_FRAME_WIDTH fw r1 else r1)
            in Inr (if fh \<noteq> - 1 then reader_set PROP_FRAME_HEIGHT fh r2 else r2)))))"

text \<open>The device: configured, or chosen and then kept in the settings of the process.\<close>

definition resolve_device :: "capture_env \<Rightarrow> (capture_world, capture_exc, string) block" where
  "resolve_device env w =
     (let device = option_or (cw_config w) ''video'' ''device_path'' ''none'' in
      if device \<in> set [''none'', [], ''auto''] then
        (case v_pick env of
           Use path \<Rightarrow> (Inr path, w\<lparr>cw_config := set_option ''video'' ''device_path'' path (cw_config w)\<rparr>)
         | _ \<Rightarrow> (Inl Camera_Failed, w))
      else (Inr device, w))"

definition start_emitter :: "capture_env \<Rightarrow> string \<Rightarrow> (capture_world, capture_exc, emitter_session option) block" where
  "start_emitter env path w =
     (if lower (strip (option_or (cw_config w) ''video'' ''ir_emitter'' ''auto'')) = ''off'' then (Inr None, w)
      else
        let (s, ident, descriptors, openable) = v_emitter env path in
        (case activate s ident descriptors openable (cw_camera w) of
           (Inl _, cam) \<Rightarrow> (Inl Capture_Raised, w\<lparr>cw_camera := cam\<rparr>)
         | (Inr session, cam) \<Rightarrow> (Inr session, w\<lparr>cw_camera := cam\<rparr>)))"

text \<open>
  \<open>release\<close>: of the reader, which the libraries do without raising, and the emitter is handed back; a second time it does nothing.
\<close>

definition release :: "capture \<Rightarrow> capture_world \<Rightarrow> capture \<times> capture_world" where
  "release c w =
     (c\<lparr>vc_internal := None, vc_emitter := None\<rparr>,
      (case vc_emitter c of None \<Rightarrow> w | Some s \<Rightarrow> w\<lparr>cw_camera := close_session s (cw_camera w)\<rparr>))"

text \<open>
  \<open>__init__\<close>, with \<open>__del__\<close> for an object whose construction fails after the emitter was started.
\<close>

definition open_capture :: "capture_env \<Rightarrow> (capture_world, capture_exc, capture) block" where
  "open_capture env =
     pbind (resolve_device env) (\<lambda>path.
       if \<not> v_exists env path then praise Camera_Failed
       else pbind (start_emitter env path) (\<lambda>session w.
         let c = \<lparr>vc_path = path, vc_emitter = session, vc_internal = None\<rparr> in
         (case create_reader env (cw_config w) path of
            Inl e \<Rightarrow> (Inl e, snd (release c w))
          | Inr r \<Rightarrow>
              (case reader_read (v_first env) r of
                 (Inl _, r') \<Rightarrow> (Inl Capture_Raised, snd (release (c\<lparr>vc_internal := Some r'\<rparr>) w))
               | (Inr _, r') \<Rightarrow> (Inr (c\<lparr>vc_internal := Some r'\<rparr>), w)))))"

text \<open>\<open>read_frame\<close>; the conversion to gray returns, raises a \<open>RuntimeError\<close> (the frame is used as it is) or OpenCV's own.\<close>

datatype gray_result = Gray image | Gray_Runtime_Error | Gray_Error

definition read_frame :: "(image \<Rightarrow> gray_result) \<Rightarrow> meets \<Rightarrow> (capture, capture_exc, image \<times> image) block" where
  "read_frame to_gray m c =
     (case vc_internal c of
        None \<Rightarrow> (Inl Capture_Raised, c)
      | Some r \<Rightarrow>
          (case reader_read m r of
             (Inl _, r') \<Rightarrow> (Inl Capture_Raised, c\<lparr>vc_internal := Some r'\<rparr>)
           | (Inr (ret, frame), r') \<Rightarrow>
               (if ret = 0 then Inl Camera_Failed
                else (case to_gray frame of
                    Gray g \<Rightarrow> Inr (frame, g)
                  | Gray_Runtime_Error \<Rightarrow> Inr (frame, frame)
                  | Gray_Error \<Rightarrow> Inl Capture_Raised),
                c\<lparr>vc_internal := Some r'\<rparr>)))"

section \<open>Frames in order\<close>

lemma chunks_Nil [simp]: "chunks n [] = []"
  by (simp add: chunks.simps)

lemma chunks_length: "0 < n \<Longrightarrow> length xs = k * n \<Longrightarrow> length (chunks n xs) = k"
proof (induction k arbitrary: xs)
  case (Suc k)
  then have "xs \<noteq> []" "length (drop n xs) = k * n"
    by auto
  then show ?case
    using Suc.IH [of "drop n xs"] Suc.prems(1) by (subst chunks.simps) simp
qed simp

text \<open>The frames of a recording.\<close>

definition batch :: "int \<Rightarrow> int \<Rightarrow> byte list \<Rightarrow> image list" where
  "batch h w stream = map (\<lambda>d. (nat h, nat w, d)) (chunks (nat h * nat w * 3) stream)"

text \<open>A camera whose recordings have the number of frames asked for.\<close>

definition full_recordings :: "nat \<Rightarrow> int \<Rightarrow> int \<Rightarrow> byte list list \<Rightarrow> bool" where
  "full_recordings n h w streams \<longleftrightarrow> 2 \<le> n \<and> 0 < h \<and> 0 < w \<and> (\<forall>s \<in> set streams. length s = n * (nat h * nat w * 3))"

lemma full_batch:
  assumes "full_recordings n h w streams" and "s \<in> set streams"
  shows "reshape h w s = Some (batch h w s)" and "length (batch h w s) = n"
  using assms chunks_length [of "nat h * nat w * 3" s n] by (auto simp: full_recordings_def reshape_def batch_def Let_def)

text \<open>The reader in the middle of its work, and the frames it has ahead: of a later recording the first one is skipped.\<close>

definition reading :: "int \<Rightarrow> int \<Rightarrow> byte list list \<Rightarrow> image list \<Rightarrow> ffmpeg_reader \<Rightarrow> bool" where
  "reading h w streams v r \<longleftrightarrow>
     full_recordings (ff_numframes r) h w streams \<and> \<not> ff_init r \<and> ff_video r = Some v \<and> length v = ff_numframes r \<and>
     ff_num_read r < ff_numframes r \<and> ff_height r = h \<and> ff_width r = w \<and> ff_recordings r = map Some streams"

definition ahead :: "int \<Rightarrow> int \<Rightarrow> byte list list \<Rightarrow> image list \<Rightarrow> ffmpeg_reader \<Rightarrow> image list" where
  "ahead h w streams v r = drop (Suc (ff_num_read r)) v @ concat (map (\<lambda>s. tl (batch h w s)) streams)"

lemma record_full:
  assumes "full_recordings (ff_numframes r) h w (s # streams)" and "ff_height r = h" and "ff_width r = w"
    and "ff_recordings r = map Some (s # streams)"
  shows "ff_record p r = (Inr (), r\<lparr>ff_num_read := 0, ff_recordings := map Some streams, ff_video := Some (batch h w s)\<rparr>)"
  using assms full_batch(1) [OF assms(1), of s]
  by (auto simp: ff_record_def ff_get_def full_recordings_def Let_def pbind_def)

lemma tl_second: "2 \<le> length xs \<Longrightarrow> tl xs = xs ! 1 # drop 2 xs"
  by (cases xs; cases "tl xs") auto

lemma read_ahead:
  assumes good: "reading h w streams v r" and rest: "ahead h w streams v r = x # xs"
  shows "\<exists>r' streams' v'. ff_read p r = (Inr x, r') \<and> reading h w streams' v' r' \<and> ahead h w streams' v' r' = xs \<and>
    ff_numframes r' = ff_numframes r"
proof (cases "Suc (ff_num_read r) < ff_numframes r")
  case True
  let ?r = "r\<lparr>ff_num_read := ff_num_read r + 1\<rparr>"
  have v: "ff_video r = Some v" "length v = ff_numframes r" "\<not> ff_init r"
    using good by (simp_all add: reading_def)
  have "drop (Suc (ff_num_read r)) v = v ! Suc (ff_num_read r) # drop (Suc (Suc (ff_num_read r))) v"
    using True v by (intro Cons_nth_drop_Suc [symmetric]) simp
  then have x: "x = v ! Suc (ff_num_read r)" "ahead h w streams v ?r = xs"
    using rest by (simp_all add: ahead_def)
  have "\<not> ff_numframes r - 1 \<le> ff_num_read r"
    using True by simp
  then have "ff_read p r = (Inr x, ?r)"
    using True v x by (simp add: ff_read_def ff_frame_def pbind_def pret_def Let_def)
  moreover have "reading h w streams v ?r"
    using good True by (simp add: reading_def)
  ultimately show ?thesis
    using x(2) by auto
next
  case False
  have g: "ff_video r = Some v" "length v = ff_numframes r" "\<not> ff_init r" "ff_num_read r \<ge> ff_numframes r - 1"
    using good False by (auto simp: reading_def)
  have "drop (Suc (ff_num_read r)) v = []"
    using False g by simp
  then obtain s streams' where streams: "streams = s # streams'"
    using rest by (cases streams) (simp_all add: ahead_def)
  have full: "full_recordings (ff_numframes r) h w (s # streams')"
    using good by (simp add: reading_def streams)
  let ?b = "batch h w s"
  let ?r = "r\<lparr>ff_num_read := 1, ff_recordings := map Some streams', ff_video := Some ?b\<rparr>"
  have two: "2 \<le> length ?b" "length ?b = ff_numframes r"
    using full_batch(2) [OF full, of s] full by (auto simp: full_recordings_def)
  then have tl: "tl ?b = ?b ! 1 # drop 2 ?b"
    by (simp add: tl_second)
  have "ff_record p r = (Inr (), r\<lparr>ff_num_read := 0, ff_recordings := map Some streams', ff_video := Some ?b\<rparr>)"
    using good by (intro record_full [OF full]) (simp_all add: reading_def streams)
  then have "ff_read p r = (Inr (?b ! 1), ?r)"
    using g two by (simp add: ff_read_def ff_frame_def pbind_def pret_def Let_def)
  moreover have "x = ?b ! 1" "ahead h w streams' ?b ?r = xs"
    using rest \<open>drop (Suc (ff_num_read r)) v = []\<close> tl by (simp_all add: ahead_def streams numeral_2_eq_2)
  moreover have "reading h w streams' ?b ?r"
    using good full two by (auto simp: reading_def full_recordings_def)
  ultimately show ?thesis
    by auto
qed

fun ff_reads :: "probe_answer \<Rightarrow> nat \<Rightarrow> image list ff" where
  "ff_reads p 0 = pret []"
| "ff_reads p (Suc n) = pbind (ff_read p) (\<lambda>x. pbind (ff_reads p n) (\<lambda>xs. pret (x # xs)))"

lemma reads_ahead:
  "reading h w streams v r \<Longrightarrow> n \<le> length (ahead h w streams v r) \<Longrightarrow> fst (ff_reads p n r) = Inr (take n (ahead h w streams v r))"
proof (induction n arbitrary: streams v r)
  case (Suc n)
  then obtain x xs where xs: "ahead h w streams v r = x # xs"
    by (cases "ahead h w streams v r") auto
  obtain r' streams' v' where step: "ff_read p r = (Inr x, r')" "reading h w streams' v' r'" "ahead h w streams' v' r' = xs"
    using read_ahead [OF Suc.prems(1) xs] by blast
  obtain y r'' where rest: "ff_reads p n r' = (y, r'')"
    by fastforce
  then have "y = Inr (take n xs)"
    using Suc.IH [OF step(2)] step(3) Suc.prems(2) xs by simp
  then show ?case
    using step(1) rest xs by (simp add: pbind_def)
qed simp

text \<open>
  The ffmpeg reader hands out the recorded frames in order, from a new reader on: all frames of the first recording, of every later one all but the first,
  none twice, and never an index that is not there, as long as ffmpeg delivers the number of frames it was asked for.
\<close>

theorem ffmpeg_frames_in_order:
  assumes "full_recordings (ff_numframes r) h w (s # streams)" and "ff_init r" and "ff_height r = h" and "ff_width r = w"
    and "ff_recordings r = map Some (s # streams)" and "n \<le> length (batch h w s @ concat (map (\<lambda>t. tl (batch h w t)) streams))"
  shows "fst (ff_reads p n r) = Inr (take n (batch h w s @ concat (map (\<lambda>t. tl (batch h w t)) streams)))"
proof (cases n)
  case (Suc k)
  let ?fresh = "r\<lparr>ff_init := False, ff_video := None\<rparr>"
  let ?r = "r\<lparr>ff_init := False, ff_num_read := 0, ff_recordings := map Some streams, ff_video := Some (batch h w s)\<rparr>"
  have b: "2 \<le> length (batch h w s)" "length (batch h w s) = ff_numframes r"
    using full_batch(2) [OF assms(1), of s] assms(1) by (auto simp: full_recordings_def)
  have "ff_record p ?fresh = (Inr (), ?r)"
    by (subst record_full [of ?fresh h w s streams]) (use assms in simp_all)
  then have first: "ff_read p r = (Inr (batch h w s ! 0), ?r)"
    using assms(2) b by (simp add: ff_read_def ff_frame_def pbind_def)
  have good: "reading h w streams (batch h w s) ?r"
    using assms b by (auto simp: reading_def full_recordings_def)
  have cons: "batch h w s @ concat (map (\<lambda>t. tl (batch h w t)) streams) = batch h w s ! 0 # ahead h w streams (batch h w s) ?r"
    using b by (cases "batch h w s") (simp_all add: ahead_def)
  then have "k \<le> length (ahead h w streams (batch h w s) ?r)"
    using assms(6) Suc by simp
  from reads_ahead [OF good this, of p] show ?thesis
    unfolding cons Suc using first by (cases "ff_reads p k ?r") (simp add: pbind_def)
qed simp

text \<open>Two recordings of two frames of one pixel each.\<close>

definition tiny_reader :: ffmpeg_reader where
  "tiny_reader = (new_ffmpeg_reader [Some [1, 1, 1, 2, 2, 2], Some [3, 3, 3, 4, 4, 4]])\<lparr>ff_numframes := 2, ff_height := 1, ff_width := 1\<rparr>"

theorem ffmpeg_frames_in_order_witness:
  "fst (ff_reads \<lparr>pr_code = 1, pr_err = [], pr_streams = None\<rparr> 3 tiny_reader) = Inr [(1, 1, [1, 1, 1]), (1, 1, [2, 2, 2]), (1, 1, [4, 4, 4])]"
proof -
  have b: "batch 1 1 [1, 1, 1, 2, 2, 2] = [(1, 1, [1, 1, 1]), (1, 1, [2, 2, 2])]"
      "batch 1 1 [3, 3, 3, 4, 4, 4] = [(1, 1, [3, 3, 3]), (1, 1, [4, 4, 4])]"
    by (simp_all add: batch_def chunks.simps)
  show ?thesis
    using ffmpeg_frames_in_order [of tiny_reader 1 1 "[1, 1, 1, 2, 2, 2]" "[[3, 3, 3, 4, 4, 4]]" 3 "\<lparr>pr_code = 1, pr_err = [], pr_streams = None\<rparr>"]
    by (simp add: b tiny_reader_def new_ffmpeg_reader_def full_recordings_def)
qed

section \<open>Height and width\<close>

text \<open>
  ffmpeg lists resolutions as width x height, the reader takes the first number for the height: a camera of 640x480 is read as 640 rows of 480 pixels.
\<close>

lemma probe_swaps:
  "ff_probe \<lparr>pr_code = 1, pr_err = ''[video4linux2] Raw: gray : 8-bit Greyscale : 640x480'', pr_streams = None\<rparr> (new_ffmpeg_reader rs) =
    (Inr (), (new_ffmpeg_reader rs)\<lparr>ff_height := 640, ff_width := 480\<rparr>)"
proof -
  have "find_resolution ''[video4linux2] Raw: gray : 8-bit Greyscale : 640x480'' = Some (''640'', ''480'')"
    by code_simp
  moreover have "probed_number (Probed_Text ''640'') = Inr (Some 640)" "probed_number (Probed_Text ''480'') = Inr (Some 480)"
    by code_simp+
  ultimately show ?thesis
    by (simp add: ff_probe_def probe_dims_def ff_set_probed_def ff_get_def ff_set_def new_ffmpeg_reader_def pbind_def)
qed

text \<open>
  Numbers from ffprobe's JSON have no \<open>isdigit\<close>: without a resolution in ffmpeg's output, a reader of unknown size cannot read at all.
\<close>

theorem ffprobe_numbers_raise:
  assumes "pr_code p \<noteq> 1 \<or> find_resolution (pr_err p) = None" and "pr_streams p = Some (Probed_Int h, Probed_Int w)"
    and "ff_height r = 0 \<or> ff_width r = 0" and "ff_init r"
  shows "fst (ff_read p r) = Inl Attribute_Error"
  using assms
  by (auto simp: ff_read_def ff_record_def ff_get_def ff_probe_def probe_dims_def ff_set_probed_def probed_number_def pbind_def)

section \<open>The capture\<close>

text \<open>
  With the pyv4l2 plugin no frame is ever delivered: its \<open>read\<close> returns 0 with the image, which \<open>read_frame\<close> takes for a failed read, so
  every read of a camera that works raises \<open>CameraError\<close>, and otherwise another exception.
\<close>

theorem pyv4l2_never_delivers:
  assumes "vc_internal c = Some (Pyv4l2 r)"
  shows "(\<exists>e. fst (read_frame to_gray m c) = Inl e) \<and>
    (m_opens m \<and> (\<exists>d. m_data m = Some d \<and> length d = 352 * 352) \<longrightarrow> fst (read_frame to_gray m c) = Inl Camera_Failed) \<and>
    (\<exists>r'. vc_internal (snd (read_frame to_gray m c)) = Some (Pyv4l2 r'))"
  using assms by (auto simp: read_frame_def pv_read_def Let_def split: option.split)

text \<open>A session that can be undone, or an activation that wrote nothing.\<close>

definition clean_activation :: "capture_env \<Rightarrow> string \<Rightarrow> camera \<Rightarrow> bool" where
  "clean_activation env path cam =
     (let (s, ident, descriptors, openable) = v_emitter env path; (r, cam') = activate s ident descriptors openable cam in
      (case r of
         Inr (Some session) \<Rightarrow> list_all (\<lambda>(a, v). takes cam a v) (s_restore session)
       | _ \<Rightarrow> cam' = cam))"

lemma start_emitter_undone:
  assumes "clean_activation env path (cw_camera w)" and "start_emitter env path w = (r, w')"
  shows "cw_config w' = cw_config w" and "r = Inl e \<Longrightarrow> cw_camera w' = cw_camera w"
    and "r = Inr session \<Longrightarrow> cw_camera (snd (release (c\<lparr>vc_emitter := session\<rparr>) w')) = cw_camera w"
proof -
  obtain s ident descriptors openable where e: "v_emitter env path = (s, ident, descriptors, openable)"
    by (cases "v_emitter env path")
  obtain x cam where a: "activate s ident descriptors openable (cw_camera w) = (x, cam)"
    by fastforce
  show "cw_config w' = cw_config w"
    using assms(2) e a by (auto simp: start_emitter_def split: if_splits sum.splits)
  show "cw_camera w' = cw_camera w" if "r = Inl e"
    using assms that e a by (auto simp: start_emitter_def clean_activation_def split: if_splits sum.splits)
  show "cw_camera (snd (release (c\<lparr>vc_emitter := session\<rparr>) w')) = cw_camera w" if r: "r = Inr session"
  proof (cases session)
    case None
    then show ?thesis
      using assms r e a by (auto simp: start_emitter_def clean_activation_def release_def split: if_splits sum.splits)
  next
    case (Some sess)
    then have "x = Inr (Some sess)" "cw_camera w' = cam"
      using assms(2) r e a by (auto simp: start_emitter_def split: if_splits sum.splits)
    moreover have "\<forall>(a, v) \<in> set (s_restore sess). takes (cw_camera w) a v"
      using assms(1) e a calculation(1) by (simp add: clean_activation_def list_all_iff)
    ultimately show ?thesis
      using session_restores_camera [of s ident descriptors openable "cw_camera w" sess cam] a Some by (simp add: release_def)
  qed
qed

lemma resolve_device_keeps:
  assumes "resolve_device env w = (r, w')"
  shows "cw_camera w' = cw_camera w" and "r = Inr path \<Longrightarrow> get_option (cw_config w') ''video'' ''device_path'' = Some path"
  using assms
  by (auto simp: resolve_device_def option_or_def get_set_option split: if_splits pick.splits option.splits)

text \<open>
  C36. As long as switching on the infrared light is all or nothing (an activation that fails has left the camera as it was, and the old values of one that succeeds are taken back), a camera is given back as
  it was found: when opening it fails, at whatever step after the light was switched on, and when a capture is
  released, every control of the camera has the value it had before, and releasing again changes nothing; and the device that was opened is the one the settings of
  the process name from then on. Without that condition a failed activation keeps what it has written (\<open>failed_activation_keeps_writes\<close>).
\<close>

theorem capture_gives_camera_back:
  assumes "open_capture env w = (r, w')" and "\<forall>path. clean_activation env path (cw_camera w)"
  shows "(\<forall>e. r = Inl e \<longrightarrow> cw_camera w' = cw_camera w) \<and>
    (\<forall>c. r = Inr c \<longrightarrow>
       cw_camera (snd (release c w')) = cw_camera w \<and>
       (let (c', w'') = release c w' in release c' w'' = (c', w'')) \<and>
       get_option (cw_config w') ''video'' ''device_path'' = Some (vc_path c))"
proof -
  obtain rd w1 where d: "resolve_device env w = (rd, w1)"
    by fastforce
  note keep = resolve_device_keeps [OF d]
  show ?thesis
  proof (cases "\<exists>path. rd = Inr path \<and> v_exists env path")
    case False
    then have "\<exists>e. r = Inl e \<and> w' = w1"
      using assms(1) d by (cases rd) (auto simp: open_capture_def pbind_def praise_def)
    then show ?thesis
      using keep(1) by auto
  next
    case True
    then obtain path where path: "rd = Inr path" "v_exists env path"
      by blast
    obtain rs w2 where s: "start_emitter env path w1 = (rs, w2)"
      by fastforce
    have clean: "clean_activation env path (cw_camera w1)"
      using assms(2) keep(1) by simp
    note undo = start_emitter_undone [OF clean s]
    show ?thesis
    proof (cases rs)
      case (Inl e)
      then show ?thesis
        using assms(1) d path s undo(2) keep(1) by (auto simp: open_capture_def pbind_def)
    next
      case (Inr session)
      let ?c = "\<lparr>vc_path = path, vc_emitter = session, vc_internal = None\<rparr>"
      have restored: "cw_camera (snd (release (?c\<lparr>vc_internal := i\<rparr>) w2)) = cw_camera w" for i
        using undo(3) [OF Inr, of "?c\<lparr>vc_internal := i\<rparr>"] keep(1) by simp
      have sticky: "get_option (cw_config w2) ''video'' ''device_path'' = Some path"
        using keep(2) [OF path(1)] undo(1) by simp
      consider e i where "r = Inl e" "w' = snd (release (?c\<lparr>vc_internal := i\<rparr>) w2)" | i where "r = Inr (?c\<lparr>vc_internal := i\<rparr>)" "w' = w2"
      proof (cases "create_reader env (cw_config w2) path")
        case (Inl e)
        then show ?thesis
          using assms(1) d path s \<open>rs = Inr session\<close> that(1) [of e None] by (simp add: open_capture_def pbind_def)
      next
        case (Inr rd)
        then show ?thesis
          using assms(1) d path s \<open>rs = Inr session\<close> that
          by (cases "reader_read (v_first env) rd") (auto simp: open_capture_def pbind_def Let_def split: sum.splits)
      qed
      then show ?thesis
      proof cases
        case 1
        then show ?thesis
          using restored by simp
      next
        case 2
        then show ?thesis
          using restored [of i] sticky by (simp add: release_def Let_def)
      qed
    qed
  qed
qed

text \<open>A camera with a known control, opened and released, and one whose settings are broken.\<close>

definition sample_meets :: meets where
  "sample_meets = \<lparr>m_probe = \<lparr>pr_code = 0, pr_err = [], pr_streams = None\<rparr>, m_opens = True, m_data = None, m_cv = (True, (1, 1, [0, 0, 0]))\<rparr>"

definition sample_capture_env :: capture_env where
  "sample_capture_env =
     \<lparr>v_pick = Use ''/dev/video2'', v_exists = (\<lambda>p. True),
      v_emitter = (\<lambda>p. (sample_emitter [sample_control 1 ''01''], Some (''1:2'', 2), Some sample_descriptors, True)),
      v_ffmpeg = False, v_pyv4l2 = False, v_recordings = [], v_ioctl = None, v_ffprobe = None, v_opens = (\<lambda>x. True), v_realpath = (\<lambda>p. p),
      v_first = sample_meets\<rparr>"

lemma sample_clean: "clean_activation sample_capture_env path sample_camera"
  by (simp add: clean_activation_def sample_capture_env_def activate_def sample_plan sample_control_def sample_fromhex pbind_def xu_get_def
      xu_set_def sample_camera_def)

theorem capture_gives_camera_back_witness:
  "(\<exists>c w. open_capture sample_capture_env \<lparr>cw_camera = sample_camera, cw_config = []\<rparr> = (Inr c, w) \<and>
      cur_value (cw_camera w) (4, 1) = Some [1] \<and> cw_camera (snd (release c w)) = sample_camera) \<and>
   (\<exists>e w. open_capture sample_capture_env \<lparr>cw_camera = sample_camera, cw_config = [(''video'', [(''frame_width'', ''wide'')])]\<rparr> = (Inl e, w) \<and>
      cw_camera w = sample_camera)"
proof -
  have c: "\<forall>path. clean_activation sample_capture_env path (cw_camera \<lparr>cw_camera = sample_camera, cw_config = cfg\<rparr>)" for cfg
    by (simp add: sample_clean)
  let ?good = "open_capture sample_capture_env \<lparr>cw_camera = sample_camera, cw_config = []\<rparr>"
  let ?bad = "open_capture sample_capture_env \<lparr>cw_camera = sample_camera, cw_config = [(''video'', [(''frame_width'', ''wide'')])]\<rparr>"
  have "\<exists>x w. ?good = (Inr x, w) \<and> cur_value (cw_camera w) (4, 1) = Some [1]"
    by (simp add: open_capture_def resolve_device_def option_or_def get_option_def set_option_def sample_capture_env_def start_emitter_def lower_def
        activate_def sample_plan sample_control_def sample_fromhex pbind_def xu_get_def xu_set_def sample_camera_def create_reader_def
        plugin_reader_def config_int_def rbind_def get_boolean_def sample_meets_def Let_def strip_def rstrip_def lstrip_def is_space_def to_lower_char_def)
  moreover have "int_of_dec (strip ''wide'') = None"
    by code_simp
  then have "\<exists>e w. ?bad = (Inl e, w)"
    by (simp add: open_capture_def resolve_device_def option_or_def get_option_def set_option_def sample_capture_env_def start_emitter_def lower_def
        activate_def sample_plan sample_control_def sample_fromhex pbind_def xu_get_def xu_set_def sample_camera_def create_reader_def
        plugin_reader_def config_int_def rbind_def get_boolean_def sample_meets_def Let_def strip_def rstrip_def lstrip_def is_space_def to_lower_char_def)
  ultimately show ?thesis
    using capture_gives_camera_back [OF _ c] by fastforce
qed

end
