(* ===== verification/Service_Loop.thy ===== *)
theory Service_Loop
  imports Manager_Tasks Pam_System
begin

text \<open>
  \<^verbatim>\<open>linux_hello_daemon.py\<close>, with the task set of \<^verbatim>\<open>daemon/dispatch.py\<close>: how the service starts, when it ends by itself,
  and what happens to the requests it is working on when it does.

  The state is the manager's system of tasks (\<open>Manager_Tasks\<close>), the dispatcher's set of tasks, the time of the last activity and
  where the main coroutine is. \<open>serve_step\<close> interleaves messages, the stretches of the tasks, the clock and the main coroutine.
\<close>

section \<open>Starting\<close>

datatype name_reply = PRIMARY_OWNER | IN_QUEUE | EXISTS | ALREADY_OWNER

definition OBJECT_PATH :: string where "OBJECT_PATH = ''/io/github/LinuxHello1''"
definition INTERFACE :: string where "INTERFACE = ''io.github.LinuxHello1.Manager''"

text \<open>A task of the dispatcher: created, in its method, or in a request that waits, with its number among the manager's tasks.\<close>

datatype dtask = Created | Begun | Waiting nat

text \<open>
  The main coroutine: waiting for its name, in the loop, letting the tasks that were there finish (because it was idle or not, until when),
  ended with an exit code, or with an exception.
\<close>

datatype phase = Starting | Serving | Leaving bool real "nat list" | Exited int | Crashed

record service =
  sv_system :: system
  sv_tasks :: "(nat \<times> dtask) list"
  sv_next :: nat
  sv_activity :: real
  sv_since :: real
  sv_round :: real
  sv_stop :: bool
  sv_phase :: phase
  sv_log :: "real list"

text \<open>
  \<open>serve\<close> up to the name: PAM blocks are brought up to date, where a \<open>PamError\<close> or an \<open>OSError\<close> is only
  logged, and the message handlers are in place. \<open>sv_log\<close> collects the times of all activity.
\<close>

definition start_service :: "(string \<Rightarrow> string) \<Rightarrow> string \<Rightarrow> real \<Rightarrow> pworld \<Rightarrow> service \<times> pworld" where
  "start_service sha dir now w =
     (let (r, w') = refresh sha dir w;
          s = \<lparr>sv_system = idle_system now, sv_tasks = [], sv_next = 0, sv_activity = now, sv_since = now, sv_round = now,
               sv_stop = False, sv_phase = Starting, sv_log = []\<rparr>
      in (case r of
            Inl UnicodeDecodeError \<Rightarrow> (s\<lparr>sv_phase := Crashed\<rparr>, w')
          | Inl TypeError \<Rightarrow> (s\<lparr>sv_phase := Crashed\<rparr>, w')
          | _ \<Rightarrow> (s, w')))"

definition now_of :: "service \<Rightarrow> real" where
  "now_of s = clock (sv_system s)"

definition name_answer :: "name_reply \<Rightarrow> service \<Rightarrow> service" where
  "name_answer reply s =
     (if reply \<noteq> PRIMARY_OWNER \<and> reply \<noteq> ALREADY_OWNER then s\<lparr>sv_phase := Exited 1\<rparr>
      else s\<lparr>sv_phase := Serving, sv_since := now_of s, sv_round := now_of s\<rparr>)"

section \<open>The dispatcher's tasks\<close>

definition busy :: "service \<Rightarrow> bool" where
  "busy s \<longleftrightarrow> sv_tasks s \<noteq> []"

definition touch :: "service \<Rightarrow> service" where
  "touch s = s\<lparr>sv_activity := now_of s, sv_log := now_of s # sv_log s\<rparr>"

text \<open>A message: a call of one of the methods becomes a task at once.\<close>

definition take_message :: "message \<Rightarrow> service \<Rightarrow> dispatch \<times> service" where
  "take_message msg s =
     (let d = handle OBJECT_PATH INTERFACE method_signatures msg in
      (d, case d of
            StartTask _ \<Rightarrow> s\<lparr>sv_tasks := sv_tasks s @ [(sv_next s, Created)], sv_next := sv_next s + 1\<rparr>
          | _ \<Rightarrow> s))"

text \<open>\<open>_run\<close> begins, and \<open>_finished\<close> is called when it has ended.\<close>

definition task_begins :: "nat \<Rightarrow> service \<Rightarrow> service" where
  "task_begins k s = touch (s\<lparr>sv_tasks := AList.update k Begun (sv_tasks s)\<rparr>)"

definition task_finished :: "nat \<Rightarrow> service \<Rightarrow> service" where
  "task_finished k s = touch (s\<lparr>sv_tasks := AList.delete k (sv_tasks s)\<rparr>)"

section \<open>The main coroutine\<close>

text \<open>A signal on the bus: member, sender, and the name with its old and new owner.\<close>

record bus_signal =
  sg_signal :: bool
  sg_member :: string
  sg_sender :: string
  sg_name :: string
  sg_new :: string

definition caller_gone :: "bus_signal \<Rightarrow> mgr \<Rightarrow> mgr" where
  "caller_gone sg m =
     (if sg_signal sg \<and> sg_member sg = ''NameOwnerChanged'' \<and> sg_sender sg = ''org.freedesktop.DBus'' \<and> sg_new sg = [] then
        cancel_sender (sg_name sg) m
      else m)"

definition ROUND_SECONDS :: real where "ROUND_SECONDS = 15"
definition FINISH_SECONDS :: real where "FINISH_SECONDS = 10"

text \<open>\<open>for event in list(running.values()): event.set()\<close>\<close>

definition cancel_all :: "mgr \<Rightarrow> mgr" where
  "cancel_all m = fold cancel_sender (map fst (running m)) m"

definition leave :: "bool \<Rightarrow> service \<Rightarrow> service" where
  "leave idle s =
     s\<lparr>sv_phase := Leaving idle (now_of s + FINISH_SECONDS) (map fst (sv_tasks s)),
       sv_system := (sv_system s)\<lparr>memory := cancel_all (memory (sv_system s))\<rparr>\<rparr>"

text \<open>A round of the loop is over: by the time, or because the service was told to stop.\<close>

definition round_over :: "nat \<Rightarrow> service \<Rightarrow> service" where
  "round_over idle_timeout s =
     (if idle_timeout \<noteq> 0 \<and> now_of s - sv_activity s > real idle_timeout \<and> \<not> busy s then leave True s
      else if sv_stop s then leave False s
      else s\<lparr>sv_round := now_of s\<rparr>)"

text \<open>Not an exit of its own accord: the tasks that were running have ended, or the time for that is over.\<close>

definition service_ends :: "service \<Rightarrow> service option" where
  "service_ends s =
     (case sv_phase s of
        Leaving _ until ks \<Rightarrow>
          if (\<forall>k \<in> set ks. map_of (sv_tasks s) k = None) \<or> until \<le> now_of s then Some (s\<lparr>sv_phase := Exited 0\<rparr>) else None
      | _ \<Rightarrow> None)"

definition is_done :: "system \<Rightarrow> nat \<Rightarrow> bool" where
  "is_done sys i = (case t_pc (tasks sys ! i) of Done _ \<Rightarrow> True | _ \<Rightarrow> False)"

definition alive :: "service \<Rightarrow> bool" where
  "alive s = (case sv_phase s of Exited _ \<Rightarrow> False | Crashed \<Rightarrow> False | _ \<Rightarrow> True)"

inductive serve_step :: "bus \<Rightarrow> (nat \<Rightarrow> nat option) \<Rightarrow> nat \<Rightarrow> service \<Rightarrow> service \<Rightarrow> bool" for b real_uid idle_timeout where
  named:
    "sv_phase s = Starting \<Longrightarrow> serve_step b real_uid idle_timeout s (name_answer reply s)"
| message:
    "alive s \<Longrightarrow> take_message msg s = (d, s') \<Longrightarrow> serve_step b real_uid idle_timeout s s'"
| task_starts:
    "alive s \<Longrightarrow> map_of (sv_tasks s) k = Some Created \<Longrightarrow> serve_step b real_uid idle_timeout s (task_begins k s)"
| request_starts:
    "alive s \<Longrightarrow> map_of (sv_tasks s) k = Some Begun \<Longrightarrow> sys_step b real_uid (sv_system s) sys \<Longrightarrow>
     length (tasks sys) = length (tasks (sv_system s)) + 1 \<Longrightarrow>
     serve_step b real_uid idle_timeout s
       (s\<lparr>sv_system := sys, sv_tasks := AList.update k (Waiting (length (tasks (sv_system s)))) (sv_tasks s)\<rparr>)"
| goes_on:
    "alive s \<Longrightarrow> sys_step b real_uid (sv_system s) sys \<Longrightarrow> length (tasks sys) = length (tasks (sv_system s)) \<Longrightarrow>
     serve_step b real_uid idle_timeout s (s\<lparr>sv_system := sys\<rparr>)"
| task_ends:
    "alive s \<Longrightarrow> map_of (sv_tasks s) k = Some Begun \<or> (\<exists>i. map_of (sv_tasks s) k = Some (Waiting i) \<and> is_done (sv_system s) i) \<Longrightarrow>
     serve_step b real_uid idle_timeout s (task_finished k s)"
| signalled:
    "alive s \<Longrightarrow> serve_step b real_uid idle_timeout s
       (s\<lparr>sv_system := (sv_system s)\<lparr>memory := caller_gone sg (memory (sv_system s))\<rparr>\<rparr>)"
| told_to_stop:
    "alive s \<Longrightarrow> serve_step b real_uid idle_timeout s (s\<lparr>sv_stop := True\<rparr>)"
| round_ends:
    "sv_phase s = Serving \<Longrightarrow> sv_stop s \<or> sv_round s + ROUND_SECONDS \<le> now_of s \<Longrightarrow>
     serve_step b real_uid idle_timeout s (round_over idle_timeout s)"
| finishes:
    "service_ends s = Some s' \<Longrightarrow> serve_step b real_uid idle_timeout s s'"

definition served :: "bus \<Rightarrow> (nat \<Rightarrow> nat option) \<Rightarrow> nat \<Rightarrow> service \<Rightarrow> bool" where
  "served b real_uid idle_timeout s \<longleftrightarrow>
     (\<exists>sha dir now w. (serve_step b real_uid idle_timeout)\<^sup>*\<^sup>* (fst (start_service sha dir now w)) s)"

section \<open>The manager's tasks from outside\<close>

text \<open>The event a request that waits holds.\<close>

definition own_event :: "pc \<Rightarrow> nat option" where
  "own_event p =
     (case p of Window w e u \<Rightarrow> Some e | Activity e u \<Rightarrow> Some e | Queued e k \<Rightarrow> Some e | Scanning e k \<Rightarrow> Some e | Done a \<Rightarrow> None)"

lemma own_event_simps [simp]:
  "own_event (Window w e u) = Some e" "own_event (Activity e u) = Some e" "own_event (Queued e k) = Some e"
  "own_event (Scanning e k) = Some e" "own_event (Done a) = None"
  by (simp_all add: own_event_def)

definition holds :: "mgr \<Rightarrow> task list \<Rightarrow> bool" where
  "holds m ts \<longleftrightarrow> (\<forall>sd e. map_of (running m) sd = Some e \<longrightarrow> (\<exists>t \<in> set ts. sender (t_caller t) = sd \<and> own_event (t_pc t) = Some e))"

lemma holdsD:
  assumes "holds m ts" and "map_of (running m) sd = Some e"
  obtains j where "j < length ts" "sender (t_caller (ts ! j)) = sd" "own_event (t_pc (ts ! j)) = Some e"
  using assms unfolding holds_def by (metis in_set_conv_nth)

text \<open>What one stretch does to the register: entries stay, go, or the caller's is the new event; after the first stretch the old entry is gone.\<close>

definition adds :: "string \<Rightarrow> pc \<Rightarrow> mgr \<Rightarrow> mgr \<Rightarrow> bool" where
  "adds sd p m m' \<longleftrightarrow> (\<forall>x e. map_of (running m') x = Some e \<longrightarrow> map_of (running m) x = Some e \<or> x = sd \<and> own_event p = Some e)"

definition moves :: "string \<Rightarrow> pc \<Rightarrow> mgr \<Rightarrow> mgr \<Rightarrow> bool" where
  "moves sd p m m' \<longleftrightarrow> (\<forall>x e. map_of (running m') x = Some e \<longrightarrow> x \<noteq> sd \<and> map_of (running m) x = Some e \<or> x = sd \<and> own_event p = Some e)"

lemma running_register: "map_of (running (register sd m)) = (map_of (running m))(sd \<mapsto> fresh m)"
  by (simp add: register_def update_conv')

lemma running_unregister: "map_of (running (unregister sd m)) = (map_of (running m))(sd := None)"
  by (simp add: unregister_def delete_conv')

lemma adds_moves: "adds sd p (unregister sd m) m' \<Longrightarrow> moves sd p m m'"
  unfolding adds_def moves_def running_unregister by (metis fun_upd_apply option.distinct(1))

lemma adds_refl: "running m' = running m \<Longrightarrow> adds sd p m m'"
  by (simp add: adds_def)

lemma moves_unregister: "running m' = running (unregister sd m) \<Longrightarrow> moves sd p m m'"
  by (rule adds_moves) (simp add: adds_refl)

lemma holds_append:
  assumes "holds m ts" and "adds (sender c) p m m'"
  shows "holds m' (ts @ [\<lparr>t_caller = c, t_pc = p\<rparr>])"
  using assms unfolding holds_def adds_def by fastforce

lemma holds_same_event:
  assumes "holds m ts" and "running m' = running m" and "i < length ts" and "t_caller t = t_caller (ts ! i)"
    and "own_event (t_pc t) = own_event (t_pc (ts ! i))"
  shows "holds m' (ts[i := t])"
  unfolding holds_def
proof (intro allI impI)
  fix sd e assume "map_of (running m') sd = Some e"
  then obtain j where "j < length ts" "sender (t_caller (ts ! j)) = sd" "own_event (t_pc (ts ! j)) = Some e"
    using holdsD [OF assms(1)] unfolding assms(2) by blast
  then show "\<exists>t' \<in> set (ts[i := t]). sender (t_caller t') = sd \<and> own_event (t_pc t') = Some e"
    using assms(4,5) by (intro bexI [of _ "ts[i := t] ! j"]) (cases "i = j", simp_all)
qed

lemma holds_update:
  assumes "holds m ts" and "moves (sender c) p m m'" and "i < length ts" and "t_caller (ts ! i) = c"
  shows "holds m' (ts[i := \<lparr>t_caller = c, t_pc = p\<rparr>])"
  unfolding holds_def
proof (intro allI impI)
  fix sd e assume "map_of (running m') sd = Some e"
  then consider "sd \<noteq> sender c" "map_of (running m) sd = Some e" | "sd = sender c" "own_event p = Some e"
    using assms(2) unfolding moves_def by blast
  then show "\<exists>t \<in> set (ts[i := \<lparr>t_caller = c, t_pc = p\<rparr>]). sender (t_caller t) = sd \<and> own_event (t_pc t) = Some e"
  proof cases
    case 1
    then obtain j where "j < length ts" "sender (t_caller (ts ! j)) = sd" "own_event (t_pc (ts ! j)) = Some e"
      using holdsD [OF assms(1)] by blast
    moreover from this have "i \<noteq> j"
      using 1 assms(4) by auto
    ultimately show ?thesis
      by (metis length_list_update nth_list_update_neq nth_mem)
  next
    case 2
    then show ?thesis
      using assms(3) by (intro bexI [of _ "\<lparr>t_caller = c, t_pc = p\<rparr>"]) (simp_all add: set_update_memI)
  qed
qed

lemma camera_queue_adds: "camera_queue c k m = (p, m') \<Longrightarrow> adds (sender c) p m m'"
  by (auto simp: camera_queue_def adds_def running_register split: if_splits)

lemma verify_start_adds: "verify_start b c user pausable encoded now m = (p, m') \<Longrightarrow> adds (sender c) p m m'"
  by (auto simp: verify_start_def Let_def adds_refl camera_queue_adds split: sum.splits if_splits)
    (auto simp: adds_def running_register split: if_splits)

lemma confirm_start_adds: "confirm_start b real_uid c user requester enrolled now m = (p, m') \<Longrightarrow> adds (sender c) p m m'"
  by (drule confirm_start_cases) (auto simp: adds_def running_register split: if_splits)

lemma cancel_sender_running [simp]: "running (cancel_sender sd m) = running m"
  by (simp add: cancel_sender_def split: option.splits)

lemma confirm_end_moves:
  assumes "confirm_end b c w e user pressed encoded now m = (p, m')"
  shows "moves (sender c) p m m'"
proof -
  let ?m = "(unregister (sender c) m)\<lparr>confirm_window := None\<rparr>"
  have "adds (sender c) p (unregister (sender c) m) m'"
  proof (cases "w \<notin> set (overlapped ?m) \<and> pressed = ENTER \<and> \<not> is_set e ?m")
    case True
    then show ?thesis
      using assms verify_start_adds by (fastforce simp: confirm_end_def Let_def adds_def)
  next
    case False
    then have "running m' = running (unregister (sender c) m)"
      using assms by (auto simp: confirm_end_def Let_def split: if_splits)
    then show ?thesis
      by (rule adds_refl)
  qed
  then show ?thesis
    by (rule adds_moves)
qed

lemma activity_end_moves:
  assumes "activity_end c e user resumed now m = (p, m')"
  shows "moves (sender c) p m m'"
proof (rule adds_moves)
  show "adds (sender c) p (unregister (sender c) m) m'"
    using assms by (auto simp: activity_end_def camera_queue_def adds_def running_register Let_def split: if_splits prod.splits)
qed

lemma scan_end_moves:
  assumes "scan_end c k result certainty now m = (p, m')"
  shows "moves (sender c) p m m'"
  by (rule moves_unregister)
    (use assms in \<open>auto simp: scan_end_def unregister_def Let_def split: work.splits if_splits\<close>)

lemma sys_step_holds: "sys_step b real_uid s s' \<Longrightarrow> holds (memory s) (tasks s) \<Longrightarrow> holds (memory s') (tasks s')"
proof (induction rule: sys_step.induct)
  case (verify_request c user pausable encoded s p m')
  then show ?case
    using holds_append [OF _ verify_start_adds] by simp
next
  case (confirm_request c user requester enrolled s p m')
  then show ?case
    using holds_append [OF _ confirm_start_adds] by simp
next
  case (camera_request k user c s p m')
  then show ?case
    using holds_append [OF _ camera_queue_adds] by simp
next
  case (enter_wait_over i s c w e user pressed encoded p m')
  then show ?case
    using holds_update [OF _ confirm_end_moves] by simp
next
  case (activity_wait_over i s c e user resumed p m')
  then show ?case
    using holds_update [OF _ activity_end_moves] by simp
next
  case (camera_free i s c e k p m')
  show ?case
  proof (cases "p = Scanning e k")
    case True
    then have "running m' = running (memory s)"
      using camera_free(4) by (auto simp: camera_enter_def split: if_splits)
    then show ?thesis
      using holds_same_event [OF camera_free(5)] camera_free(1,2) True by simp
  next
    case False
    then have "running m' = running (unregister (sender c) (memory s))"
      using camera_free(4) by (auto simp: camera_enter_def split: if_splits)
    then show ?thesis
      using holds_update [OF camera_free(5) moves_unregister] camera_free(1,2) by simp
  qed
next
  case (scan_over i s c e k result certainty p m')
  then show ?case
    using holds_update [OF _ scan_end_moves] by simp
qed (simp_all add: holds_def)

text \<open>What a step of the manager does to its tasks: at most one more, and what is done stays done.\<close>

lemma sys_step_tasks:
  assumes "sys_step b real_uid s s'"
  shows "length (tasks s') = length (tasks s) \<or> length (tasks s') = length (tasks s) + 1"
    and "i < length (tasks s) \<Longrightarrow> is_done s i \<Longrightarrow> is_done s' i"
    and "clock s \<le> clock s'"
  using assms by (induction rule: sys_step.induct) (auto simp: is_done_def nth_append nth_list_update)

section \<open>The invariant of the service\<close>

definition serve_inv :: "bus \<Rightarrow> (nat \<Rightarrow> nat option) \<Rightarrow> nat \<Rightarrow> service \<Rightarrow> bool" where
  "serve_inv b real_uid idle_timeout s \<longleftrightarrow>
     reachable b real_uid (sv_system s) \<and> holds (memory (sv_system s)) (tasks (sv_system s)) \<and>
     (\<forall>k \<in> fst ` set (sv_tasks s). k < sv_next s) \<and>
     (\<forall>i < length (tasks (sv_system s)). is_done (sv_system s) i \<or> (\<exists>k. map_of (sv_tasks s) k = Some (Waiting i))) \<and>
     sv_activity s \<le> now_of s \<and> sv_round s \<le> now_of s \<and> (\<forall>t \<in> set (sv_log s). t \<le> sv_activity s) \<and>
     (idle_timeout \<noteq> 0 \<and> sv_phase s = Serving \<and> \<not> busy s \<longrightarrow> sv_round s \<le> max (sv_since s) (sv_activity s + real idle_timeout))"

lemma serve_inv_owned:
  assumes "serve_inv b real_uid n s" and "i < length (tasks (sv_system s))" and "\<not> is_done (sv_system s) i"
  obtains k where "map_of (sv_tasks s) k = Some (Waiting i)"
  using assms unfolding serve_inv_def by blast

lemma serve_inv_keys: "serve_inv b real_uid n s \<Longrightarrow> k \<in> fst ` set (sv_tasks s) \<Longrightarrow> k < sv_next s"
  unfolding serve_inv_def by blast

lemma reachable_step: "reachable b real_uid s \<Longrightarrow> sys_step b real_uid s s' \<Longrightarrow> reachable b real_uid s'"
  unfolding reachable_def by (meson rtranclp.rtrancl_into_rtrancl)

lemma cancel_sender_step: "sys_step b real_uid s (s\<lparr>memory := cancel_sender name (memory s)\<rparr>)"
  by (rule cancelled_or_gone)

lemma cancel_fold_steps: "(sys_step b real_uid)\<^sup>*\<^sup>* s (s\<lparr>memory := fold cancel_sender names (memory s)\<rparr>)"
proof (induction names arbitrary: s)
  case (Cons name names)
  have "(sys_step b real_uid)\<^sup>*\<^sup>* (s\<lparr>memory := cancel_sender name (memory s)\<rparr>) (s\<lparr>memory := fold cancel_sender (name # names) (memory s)\<rparr>)"
    using Cons.IH [of "s\<lparr>memory := cancel_sender name (memory s)\<rparr>"] by simp
  with cancel_sender_step [of b real_uid s name] show ?case
    by (rule converse_rtranclp_into_rtranclp)
qed simp

text \<open>The manager works on: nothing else changes.\<close>

lemma serve_inv_system:
  assumes "serve_inv b real_uid n s" and "(sys_step b real_uid)\<^sup>*\<^sup>* (sv_system s) sys" and "length (tasks sys) = length (tasks (sv_system s))"
  shows "serve_inv b real_uid n (s\<lparr>sv_system := sys\<rparr>)"
proof -
  let ?P = "\<lambda>x. reachable b real_uid x \<and> holds (memory x) (tasks x) \<and> clock (sv_system s) \<le> clock x \<and> length (tasks (sv_system s)) \<le> length (tasks x) \<and>
    (\<forall>i < length (tasks (sv_system s)). is_done (sv_system s) i \<longrightarrow> is_done x i)"
  have "?P sys"
    using assms(2)
  proof (induction rule: rtranclp_induct)
    case base
    then show ?case
      using assms(1) by (simp add: serve_inv_def)
  next
    case (step y z)
    note t = sys_step_tasks [OF step(2)]
    have "length (tasks y) \<le> length (tasks z)" "clock y \<le> clock z"
      using t(1,3) by linarith+
    moreover have "\<forall>i < length (tasks (sv_system s)). is_done (sv_system s) i \<longrightarrow> is_done z i"
      using step(3) t(2) by fastforce
    ultimately show ?case
      using step(3) reachable_step [OF _ step(2)] sys_step_holds [OF step(2)] by (meson order_trans)
  qed
  then show ?thesis
    using assms(1,3) by (auto simp: serve_inv_def now_of_def busy_def)
qed

lemma serve_inv_touch:
  assumes "serve_inv b real_uid n s" and "\<forall>k \<in> fst ` set ts. k < sv_next s"
    and "\<And>i. i < length (tasks (sv_system s)) \<Longrightarrow> \<not> is_done (sv_system s) i \<Longrightarrow> \<exists>k. map_of ts k = Some (Waiting i)"
  shows "serve_inv b real_uid n (touch (s\<lparr>sv_tasks := ts\<rparr>))"
  using assms by (fastforce simp: serve_inv_def touch_def now_of_def)

lemma map_of_append_fresh: "k \<notin> fst ` set xs \<Longrightarrow> map_of (xs @ [(k, v)]) = (map_of xs)(k \<mapsto> v)"
  by (auto simp: fun_eq_iff map_add_def dom_map_of_conv_image_fst [symmetric] domIff split: option.splits)

lemma serve_inv_message:
  assumes "serve_inv b real_uid n s" and "take_message msg s = (d, s')"
  shows "serve_inv b real_uid n s'"
proof (cases "\<exists>m. d = StartTask m")
  case True
  then have s': "s' = s\<lparr>sv_tasks := sv_tasks s @ [(sv_next s, Created)], sv_next := sv_next s + 1\<rparr>"
    using assms(2) by (auto simp: take_message_def Let_def)
  have new: "sv_next s \<notin> fst ` set (sv_tasks s)"
    using serve_inv_keys [OF assms(1)] by blast
  let ?ts = "sv_tasks s @ [(sv_next s, Created)]"
  have own: "is_done (sv_system s) i \<or> (\<exists>k. map_of ?ts k = Some (Waiting i))" if i: "i < length (tasks (sv_system s))" for i
  proof (rule disjCI)
    assume no: "\<not> (\<exists>k. map_of ?ts k = Some (Waiting i))"
    show "is_done (sv_system s) i"
    proof (rule ccontr)
      assume "\<not> is_done (sv_system s) i"
      from serve_inv_owned [OF assms(1) i this] obtain k where k: "map_of (sv_tasks s) k = Some (Waiting i)" .
      then have "k \<noteq> sv_next s"
        using new by (force dest: map_of_SomeD)
      then have "map_of ?ts k = Some (Waiting i)"
        using k by (simp add: map_of_append_fresh [OF new] del: map_of_append)
      then show False
        using no by blast
    qed
  qed
  have "\<forall>k \<in> fst ` set ?ts. k < sv_next s + 1"
    using serve_inv_keys [OF assms(1)] by fastforce
  then show ?thesis
    using assms(1) own unfolding s' serve_inv_def by (simp add: now_of_def busy_def del: map_of_append)
next
  case False
  then have "s' = s"
    using assms(2) by (auto simp: take_message_def Let_def split: dispatch.splits)
  then show ?thesis
    using assms(1) by simp
qed

lemma serve_inv_leave:
  assumes "serve_inv b real_uid n s"
  shows "serve_inv b real_uid n (leave idle s)"
proof -
  have "length (tasks ((sv_system s)\<lparr>memory := cancel_all (memory (sv_system s))\<rparr>)) = length (tasks (sv_system s))"
    by simp
  from serve_inv_system [OF assms _ this] have "serve_inv b real_uid n (s\<lparr>sv_system := (sv_system s)\<lparr>memory := cancel_all (memory (sv_system s))\<rparr>\<rparr>)"
    by (simp add: cancel_all_def cancel_fold_steps)
  then show ?thesis
    by (simp add: serve_inv_def leave_def now_of_def busy_def)
qed

lemma caller_gone_step:
  "(sys_step b real_uid)\<^sup>*\<^sup>* s (s\<lparr>memory := caller_gone sg (memory s)\<rparr>)"
  using cancel_fold_steps [of b real_uid s "[sg_name sg]"] by (simp add: caller_gone_def)

lemma serve_step_inv: "serve_step b real_uid n s s' \<Longrightarrow> serve_inv b real_uid n s \<Longrightarrow> serve_inv b real_uid n s'"
proof (induction rule: serve_step.induct)
  case (named s reply)
  then show ?case
    by (auto simp: name_answer_def serve_inv_def now_of_def busy_def)
next
  case (message s msg d s')
  then show ?case
    using serve_inv_message by blast
next
  case (task_starts s k)
  then have "k \<in> fst ` set (sv_tasks s)"
    by (metis map_of_eq_None_iff option.distinct(1))
  then show ?case
    unfolding task_begins_def
  proof (intro serve_inv_touch [OF task_starts(3)])
    show "\<forall>k' \<in> fst ` set (AList.update k Begun (sv_tasks s)). k' < sv_next s"
      using task_starts(3) \<open>k \<in> fst ` set (sv_tasks s)\<close> by (auto simp: serve_inv_def dom_update)
    fix i assume i: "i < length (tasks (sv_system s))" "\<not> is_done (sv_system s) i"
    then obtain k' where "map_of (sv_tasks s) k' = Some (Waiting i)"
      using serve_inv_owned [OF task_starts(3)] by blast
    moreover from this have "k' \<noteq> k"
      using task_starts(2) by auto
    ultimately show "\<exists>k'. map_of (AList.update k Begun (sv_tasks s)) k' = Some (Waiting i)"
      by (auto simp: update_conv')
  qed
next
  case (request_starts s k sys)
  have k: "k \<in> fst ` set (sv_tasks s)"
    using request_starts(2) by (metis map_of_eq_None_iff option.distinct(1))
  let ?i = "length (tasks (sv_system s))"
  have ended: "is_done sys j \<or> (\<exists>k'. map_of (AList.update k (Waiting ?i) (sv_tasks s)) k' = Some (Waiting j))" if j: "j < length (tasks sys)" for j
  proof (cases "j < ?i")
    case True
    then consider "is_done (sv_system s) j" | k' where "map_of (sv_tasks s) k' = Some (Waiting j)"
      using serve_inv_owned [OF request_starts(5) True] by blast
    then show ?thesis
    proof cases
      case 1
      then show ?thesis
        using sys_step_tasks(2) [OF request_starts(3)] True by simp
    next
      case 2
      then have "k' \<noteq> k"
        using request_starts(2) by auto
      then show ?thesis
        using 2 by (auto simp: update_conv')
    qed
  next
    case False
    then have "j = ?i"
      using j request_starts(4) by simp
    then show ?thesis
      by (auto simp: update_conv')
  qed
  have keys: "\<forall>k' \<in> fst ` set (AList.update k (Waiting ?i) (sv_tasks s)). k' < sv_next s"
    using serve_inv_keys [OF request_starts(5)] k by (auto simp: dom_update)
  have "AList.update k (Waiting ?i) (sv_tasks s) \<noteq> []"
    by (cases "sv_tasks s") auto
  then show ?case
    using request_starts(5) ended keys sys_step_tasks(3) [OF request_starts(3)] reachable_step [OF _ request_starts(3)] sys_step_holds [OF request_starts(3)]
    unfolding serve_inv_def now_of_def busy_def by (simp del: update.simps)
next
  case (goes_on s sys)
  then show ?case
    using serve_inv_system by blast
next
  case (task_ends s k)
  show ?case
    unfolding task_finished_def
  proof (rule serve_inv_touch [OF task_ends(3)])
    show "\<forall>k' \<in> fst ` set (AList.delete k (sv_tasks s)). k' < sv_next s"
      using task_ends(3) by (auto simp: serve_inv_def AList.delete_eq)
    fix i assume i: "i < length (tasks (sv_system s))" "\<not> is_done (sv_system s) i"
    then obtain k' where "map_of (sv_tasks s) k' = Some (Waiting i)"
      using serve_inv_owned [OF task_ends(3)] by blast
    moreover from this have "k' \<noteq> k"
      using task_ends(2) i(2) by auto
    ultimately show "\<exists>k'. map_of (AList.delete k (sv_tasks s)) k' = Some (Waiting i)"
      by (auto simp: delete_conv')
  qed
next
  case (signalled s sg)
  then show ?case
    using serve_inv_system [OF _ caller_gone_step] by simp
next
  case (told_to_stop s)
  then show ?case
    by (simp add: serve_inv_def now_of_def busy_def)
next
  case (round_ends s)
  then show ?case
    by (cases "n \<noteq> 0 \<and> now_of s - sv_activity s > real n \<and> \<not> busy s")
      (auto simp: round_over_def serve_inv_leave, auto simp: serve_inv_def now_of_def busy_def)
next
  case (finishes s s')
  then have "s' = s\<lparr>sv_phase := Exited 0\<rparr>"
    by (auto simp: service_ends_def split: phase.splits if_splits)
  then show ?case
    using finishes(2) by (simp add: serve_inv_def now_of_def busy_def)
qed

lemma start_service_inv: "serve_inv b real_uid n (fst (start_service sha dir now w))"
proof -
  have "reachable b real_uid (idle_system now)"
    by (auto simp: reachable_def)
  then show ?thesis
    by (auto simp: start_service_def serve_inv_def now_of_def holds_def busy_def Let_def idle_system_def new_manager_def
        split: prod.splits sum.splits pam_error.splits)
qed

lemma served_inv: "served b real_uid n s \<Longrightarrow> serve_inv b real_uid n s"
proof -
  assume "served b real_uid n s"
  then obtain sha dir now w where "(serve_step b real_uid n)\<^sup>*\<^sup>* (fst (start_service sha dir now w)) s"
    by (auto simp: served_def)
  then show ?thesis
    by (induction rule: rtranclp_induct) (blast intro: start_service_inv serve_step_inv)+
qed

section \<open>When the service ends by itself\<close>

text \<open>
  C19. The service ends by itself exactly when nobody needs it: when a round of the loop ends it for idleness, no call is being worked on, no request is
  registered, the camera is free, no window for Enter is open, and no call began or ended in the last \<open>idle_timeout\<close> seconds; it never does with a timeout of
  0. And while it has no call and is not told to stop, it does not outlive the timeout (or its start) by more than one round, \<open>d\<close> being what the
  clock is late with a round.
\<close>

theorem idle_exit_exact:
  assumes "served b real_uid idle_timeout s" and "sv_phase s = Serving"
  shows "(sv_phase (round_over idle_timeout s) = Leaving True until ks \<longrightarrow>
      idle_timeout \<noteq> 0 \<and> \<not> busy s \<and> running (memory (sv_system s)) = [] \<and> \<not> camera_lock (memory (sv_system s)) \<and>
      confirm_window (memory (sv_system s)) = None \<and> (\<forall>t \<in> set (sv_log s). now_of s - t > real idle_timeout)) \<and>
    (idle_timeout \<noteq> 0 \<and> \<not> busy s \<and> now_of s \<le> sv_round s + ROUND_SECONDS + d \<longrightarrow>
      now_of s \<le> max (sv_since s) (sv_activity s + real idle_timeout) + ROUND_SECONDS + d)"
proof (intro conjI impI)
  note inv = served_inv [OF assms(1)]
  show "now_of s \<le> max (sv_since s) (sv_activity s + real idle_timeout) + ROUND_SECONDS + d"
    if "idle_timeout \<noteq> 0 \<and> \<not> busy s \<and> now_of s \<le> sv_round s + ROUND_SECONDS + d"
    using inv that assms(2) by (auto simp: serve_inv_def)
  assume "sv_phase (round_over idle_timeout s) = Leaving True until ks"
  then have idle: "idle_timeout \<noteq> 0" "now_of s - sv_activity s > real idle_timeout" "\<not> busy s"
    using assms(2) by (auto simp: round_over_def leave_def split: if_splits)
  then show "idle_timeout \<noteq> 0" "\<not> busy s"
    by simp_all
  show "\<forall>t \<in> set (sv_log s). now_of s - t > real idle_timeout"
    using inv idle(2) by (fastforce simp: serve_inv_def)
  let ?sys = "sv_system s"
  have ended: "is_done ?sys i" if "i < length (tasks ?sys)" for i
    using serve_inv_owned [OF inv that] idle(3) by (fastforce simp: busy_def)
  then have pcs: "\<exists>a. t_pc t = Done a" if t: "t \<in> set (tasks ?sys)" for t
  proof -
    obtain i where "i < length (tasks ?sys)" "tasks ?sys ! i = t"
      using t by (auto simp: in_set_conv_nth)
    then have "case t_pc t of Done _ \<Rightarrow> True | _ \<Rightarrow> False"
      using ended [of i] by (simp add: is_done_def)
    then show ?thesis
      by (cases "t_pc t") auto
  qed
  have sys: "sys_inv ?sys"
    using inv reachable_inv by (auto simp: serve_inv_def)
  have "filter is_scanning (tasks ?sys) = []"
    using pcs by (fastforce simp: filter_empty_conv is_scanning_def)
  then show "\<not> camera_lock (memory ?sys)"
    using sys_invD(1) [OF sys] by (simp add: scanning_def split: if_splits)
  have "windows (tasks ?sys) = []"
    using pcs by (fastforce simp: windows_def window_of_def)
  then show "confirm_window (memory ?sys) = None"
    using sys_invD(2) [OF sys] by (auto simp: window_inv_def split: option.splits)
  have h: "holds (memory ?sys) (tasks ?sys)"
    using inv by (simp add: serve_inv_def)
  have "map_of (running (memory ?sys)) sd = None" for sd
  proof (rule ccontr)
    assume "map_of (running (memory ?sys)) sd \<noteq> None"
    then obtain e where "map_of (running (memory ?sys)) sd = Some e"
      by blast
    from holdsD [OF h this] pcs show False
      by (metis nth_mem option.distinct(1) own_event_simps(5))
  qed
  then show "running (memory ?sys) = []"
    by (metis list.exhaust map_of_Cons_code(2) option.distinct(1) surj_pair)
qed

section \<open>Requests cut short\<close>

lemma cancel_fold_sets:
  "map_of (running m) sd = Some e \<Longrightarrow> is_set e m \<or> sd \<in> set names \<Longrightarrow> is_set e (fold cancel_sender names m)"
proof (induction names arbitrary: m)
  case (Cons x names)
  have "is_set e (cancel_sender x m) \<or> sd \<in> set names"
    using Cons.prems by (auto simp: is_set_def cancel_sender_def split: option.splits)
  then show ?case
    using Cons.IH [of "cancel_sender x m"] Cons.prems(1) by simp
qed simp

lemma cancel_all_sets: "map_of (running m) sd = Some e \<Longrightarrow> is_set e (cancel_all m)"
  unfolding cancel_all_def by (rule cancel_fold_sets) (auto dest: map_of_SomeD simp: image_iff intro!: bexI)

text \<open>Once an event is set, no scan starts for it, whatever the service does.\<close>

definition stays_off :: "nat \<Rightarrow> system \<Rightarrow> bool" where
  "stays_off e sys \<longleftrightarrow> is_set e (memory sys) \<and> ScanStarted e \<notin> set (trace sys)"

lemma stays_off_steps: "(sys_step b real_uid)\<^sup>*\<^sup>* s s' \<Longrightarrow> stays_off e s \<Longrightarrow> stays_off e s'"
  by (induction rule: rtranclp_induct) (use set_events_step in \<open>fastforce simp: stays_off_def\<close>)+

lemma stays_off_service: "serve_step b real_uid n s s' \<Longrightarrow> stays_off e (sv_system s) \<Longrightarrow> stays_off e (sv_system s')"
proof (induction rule: serve_step.induct)
  case (message s msg d s')
  then have "sv_system s' = sv_system s"
    by (auto simp: take_message_def Let_def split: dispatch.splits)
  then show ?case
    using message by simp
next
  case (signalled s sg)
  then show ?case
    using stays_off_steps [OF caller_gone_step] by simp
next
  case (round_ends s)
  then show ?case
    using stays_off_steps [OF cancel_fold_steps] by (auto simp: round_over_def leave_def cancel_all_def)
next
  case (request_starts s k sys)
  then show ?case
    using stays_off_steps [OF r_into_rtranclp] by simp
next
  case (goes_on s sys)
  then show ?case
    using stays_off_steps [OF r_into_rtranclp] by simp
qed (auto simp: name_answer_def task_begins_def task_finished_def touch_def service_ends_def split: phase.splits if_splits)

text \<open>
  C20. Nothing goes on without its caller or after the service: when a caller leaves the bus, and when the service leaves its loop, for whatever reason, the event of the
  caller's request, or of every registered request, is set, and no scan starts for it any more in any continuation of the run, unless it had started before.
\<close>

theorem cut_requests_never_scan:
  assumes "map_of (running (memory (sv_system s))) sd = Some e" and "ScanStarted e \<notin> set (trace (sv_system s))"
    and "sv_system s' = (sv_system s)\<lparr>memory := caller_gone sg (memory (sv_system s))\<rparr> \<and>
        sg = \<lparr>sg_signal = True, sg_member = ''NameOwnerChanged'', sg_sender = ''org.freedesktop.DBus'', sg_name = sd, sg_new = []\<rparr> \<or>
      s' = round_over idle_timeout s \<and> sv_phase s = Serving \<and> sv_phase s' \<noteq> Serving"
    and "(serve_step b real_uid idle_timeout)\<^sup>*\<^sup>* s' s''"
  shows "is_set e (memory (sv_system s'')) \<and> ScanStarted e \<notin> set (trace (sv_system s''))"
proof -
  have "stays_off e (sv_system s')"
    using assms(3)
  proof
    assume "sv_system s' = (sv_system s)\<lparr>memory := caller_gone sg (memory (sv_system s))\<rparr> \<and>
        sg = \<lparr>sg_signal = True, sg_member = ''NameOwnerChanged'', sg_sender = ''org.freedesktop.DBus'', sg_name = sd, sg_new = []\<rparr>"
    then show ?thesis
      using assms(1,2) by (simp add: stays_off_def caller_gone_def cancel_sender_def is_set_def)
  next
    assume "s' = round_over idle_timeout s \<and> sv_phase s = Serving \<and> sv_phase s' \<noteq> Serving"
    then obtain idle where "s' = leave idle s"
      by (auto simp: round_over_def split: if_splits)
    then show ?thesis
      using assms(1,2) cancel_all_sets by (simp add: stays_off_def leave_def)
  qed
  with assms(4) have "stays_off e (sv_system s'')"
    by (induction rule: rtranclp_induct) (auto intro: stays_off_service)
  then show ?thesis
    by (simp add: stays_off_def)
qed

section \<open>A quiet run\<close>

text \<open>A service that was started at 0 and has its name, at the time \<open>t\<close>.\<close>

definition bare_world :: pworld where
  "bare_world = \<lparr>pfiles = [], readonly = (\<lambda>p. False), stored_state = NoState\<rparr>"

definition quiet_service :: "real \<Rightarrow> service" where
  "quiet_service t =
     \<lparr>sv_system = idle_system t, sv_tasks = [], sv_next = 0, sv_activity = 0, sv_since = 0, sv_round = 0, sv_stop = False,
      sv_phase = Serving, sv_log = []\<rparr>"

lemma bare_refresh: "fst (refresh (\<lambda>t. t) ''/'' bare_world) = Inr ()"
  by code_simp

lemma quiet_served: "0 \<le> t \<Longrightarrow> served b real_uid n (quiet_service t)"
proof -
  assume t: "0 \<le> t"
  let ?s = "fst (start_service (\<lambda>t. t) ''/'' 0 bare_world)"
  have s: "?s = (quiet_service 0)\<lparr>sv_phase := Starting\<rparr>"
    using bare_refresh by (auto simp: start_service_def quiet_service_def Let_def split: prod.splits sum.splits)
  have "serve_step b real_uid n ?s (name_answer PRIMARY_OWNER ?s)"
    by (rule named) (simp add: s)
  moreover have "name_answer PRIMARY_OWNER ?s = quiet_service 0"
    by (simp add: s name_answer_def now_of_def quiet_service_def idle_system_def)
  moreover have "serve_step b real_uid n (quiet_service 0) (quiet_service 0\<lparr>sv_system := (idle_system 0)\<lparr>clock := t\<rparr>\<rparr>)"
    by (rule goes_on) (use time_passes [of "idle_system 0" t b real_uid] t in \<open>simp_all add: alive_def quiet_service_def idle_system_def\<close>)
  moreover have "quiet_service 0\<lparr>sv_system := (idle_system 0)\<lparr>clock := t\<rparr>\<rparr> = quiet_service t"
    by (simp add: quiet_service_def idle_system_def)
  ultimately show ?thesis
    unfolding served_def by (metis r_into_rtranclp rtranclp.rtrancl_into_rtrancl)
qed

theorem idle_exit_exact_witness:
  "sv_phase (round_over 600 (quiet_service 601)) = Leaving True 611 [] \<and> running (memory (sv_system (quiet_service 601))) = [] \<and>
   now_of (quiet_service 612) \<le> 0 + 600 + ROUND_SECONDS"
proof -
  have q: "served sample_bus (\<lambda>_. None) 600 (quiet_service 601)" "served sample_bus (\<lambda>_. None) 600 (quiet_service 612)"
    by (rule quiet_served, simp)+
  have left: "sv_phase (round_over 600 (quiet_service 601)) = Leaving True 611 []"
    by (simp add: round_over_def leave_def quiet_service_def now_of_def busy_def idle_system_def FINISH_SECONDS_def)
  have "running (memory (sv_system (quiet_service 601))) = []"
    using idle_exit_exact [OF q(1), where until = 611 and ks = "[]"] left by (simp add: quiet_service_def)
  moreover have "now_of (quiet_service 612) \<le> 0 + 600 + ROUND_SECONDS"
    using idle_exit_exact [OF q(2), where d = 597]
    by (simp add: quiet_service_def now_of_def busy_def idle_system_def ROUND_SECONDS_def)
  ultimately show ?thesis
    using left by blast
qed

text \<open>A service with a request of one caller waiting for the camera.\<close>

definition waiting_service :: service where
  "waiting_service = (quiet_service 20)\<lparr>sv_system := (idle_system 20)\<lparr>memory := new_manager\<lparr>running := [('':1.5'', 3)]\<rparr>\<rparr>, sv_stop := True\<rparr>"

theorem cut_requests_never_scan_witness:
  "is_set 3 (memory (sv_system (round_over 600 waiting_service))) \<and>
   (let s = waiting_service\<lparr>sv_system := (sv_system waiting_service)\<lparr>memory := caller_gone
        \<lparr>sg_signal = True, sg_member = ''NameOwnerChanged'', sg_sender = ''org.freedesktop.DBus'', sg_name = '':1.5'', sg_new = []\<rparr>
        (memory (sv_system waiting_service))\<rparr>\<rparr> in is_set 3 (memory (sv_system s)))"
proof -
  have w: "map_of (running (memory (sv_system waiting_service))) '':1.5'' = Some 3" "ScanStarted 3 \<notin> set (trace (sv_system waiting_service))"
    by (simp_all add: waiting_service_def idle_system_def)
  have "round_over 600 waiting_service = leave False waiting_service" "sv_phase waiting_service = Serving"
    by (simp_all add: round_over_def waiting_service_def quiet_service_def now_of_def idle_system_def)
  then have "is_set 3 (memory (sv_system (round_over 600 waiting_service)))"
    using cut_requests_never_scan [OF w, of "round_over 600 waiting_service" undefined 600 sample_bus "\<lambda>_. None" "round_over 600 waiting_service"]
    by (simp add: leave_def)
  moreover let ?sg = "\<lparr>sg_signal = True, sg_member = ''NameOwnerChanged'', sg_sender = ''org.freedesktop.DBus'', sg_name = '':1.5'', sg_new = []\<rparr>"
  let ?s = "waiting_service\<lparr>sv_system := (sv_system waiting_service)\<lparr>memory := caller_gone ?sg (memory (sv_system waiting_service))\<rparr>\<rparr>"
  have "is_set 3 (memory (sv_system ?s))"
    using cut_requests_never_scan [OF w, of ?s ?sg 600 sample_bus "\<lambda>_. None" ?s] by simp
  ultimately show ?thesis
    by (simp add: Let_def)
qed

section \<open>Findings\<close>

text \<open>
  A service file that is not UTF-8 keeps the service from starting: reading it raises a \<open>UnicodeDecodeError\<close>, which is neither a \<open>PamError\<close> nor an
  \<open>OSError\<close>, although everything but the PAM integration would work.
\<close>

definition latin1_world :: pworld where
  "latin1_world = bare_world\<lparr>pfiles := [(''/etc/pam.d/polkit-1'', \<lparr>raw = ''auth required pam_unix.so'', utf8 = False, fmode = 420\<rparr>)]\<rparr>"

theorem undecodable_file_stops_start:
  "sv_phase (fst (start_service (\<lambda>t. t) ''/'' now latin1_world)) = Crashed \<and>
   \<not> serve_step b real_uid n (fst (start_service (\<lambda>t. t) ''/'' now latin1_world)) s'"
proof -
  have "fst (refresh (\<lambda>t. t) ''/'' latin1_world) = Inl UnicodeDecodeError"
    by code_simp
  then have c: "sv_phase (fst (start_service (\<lambda>t. t) ''/'' now latin1_world)) = Crashed"
    by (cases "refresh (\<lambda>t. t) ''/'' latin1_world") (simp add: start_service_def)
  then show ?thesis
    by (auto elim: serve_step.cases simp: alive_def service_ends_def)
qed

text \<open>
  A call that arrives after an idle service left its loop and before it gave up its name still becomes a task, and the service ends with the task in its
  set, so the call is never answered.
\<close>

theorem late_request_dropped:
  assumes "handle OBJECT_PATH INTERFACE method_signatures msg = StartTask member"
  shows "\<exists>s. served b real_uid 600 s \<and> sv_phase s = Exited 0 \<and> map_of (sv_tasks s) 0 = Some Created \<and> (\<forall>s'. \<not> serve_step b real_uid 600 s s')"
proof -
  let ?a = "round_over 600 (quiet_service 601)"
  let ?b = "snd (take_message msg ?a)"
  let ?c = "?b\<lparr>sv_phase := Exited 0\<rparr>"
  have a: "?a = leave True (quiet_service 601)"
    by (simp add: round_over_def quiet_service_def now_of_def busy_def idle_system_def)
  then have b0: "sv_tasks ?a = []" "sv_next ?a = 0"
    by (simp_all add: leave_def quiet_service_def)
  have b: "?b = ?a\<lparr>sv_tasks := [(0, Created)], sv_next := 1\<rparr>"
    using assms b0 by (simp add: take_message_def)
  have "sv_phase ?a = Leaving True 611 []"
    unfolding a by (simp add: leave_def now_of_def quiet_service_def idle_system_def FINISH_SECONDS_def)
  then have ph: "sv_phase ?b = Leaving True 611 []"
    unfolding b by simp
  have "serve_step b real_uid 600 (quiet_service 601) ?a"
    by (rule round_ends) (simp_all add: quiet_service_def now_of_def idle_system_def ROUND_SECONDS_def)
  moreover have "serve_step b real_uid 600 ?a ?b"
    by (rule message [of _ msg "fst (take_message msg ?a)"]) (simp_all add: a alive_def leave_def)
  moreover have "serve_step b real_uid 600 ?b ?c"
    by (rule finishes) (simp add: service_ends_def ph)
  ultimately have "served b real_uid 600 ?c"
    using quiet_served [of 601 b real_uid 600] unfolding served_def by (metis rtranclp.rtrancl_into_rtrancl of_nat_0_le_iff of_nat_numeral)
  moreover have "\<not> serve_step b real_uid 600 ?c s'" for s'
    by (auto elim: serve_step.cases simp: alive_def service_ends_def)
  ultimately show ?thesis
    using b by (intro exI [of _ ?c]) simp
qed

end
