(* ===== verification/Emitter_Cli.thy ===== *)
theory Emitter_Cli
  imports Ir_Emitter Camera_Discovery
begin

text \<open>
  \<^verbatim>\<open>cli/emitter.py\<close>: the commands around the infrared emitter, each over the state files of \<^verbatim>\<open>emitter.py\<close> and the camera.

  What a command meets is given: the device directories and ioctls, USB identities and descriptors, what the streams deliver and what the user
  answers. A command ends with an exit code, with an exception, or is still waiting for frames when the list of what the stream delivers is used up.
\<close>

section \<open>Nodes and frames\<close>

record emitter_env =
  ee_tree :: dev_tree
  ee_io :: "string \<Rightarrow> node_io"
  ee_ident :: "string \<Rightarrow> identity option"
  ee_descriptors :: "string \<Rightarrow> byte list option"
  ee_openable :: "string \<Rightarrow> bool"
  ee_first :: "real option list option"
  ee_second :: "real option list option"
  ee_feeds :: "real list list"
  ee_start :: string
  ee_confirm :: "control \<Rightarrow> byte list \<Rightarrow> string"

record emitter_disk =
  ed_state :: emitter_state
  ed_camera :: "string \<Rightarrow> camera"

datatype emitter_end = Exit_Code int | Raised em_error | Reading

definition ir_nodes :: "emitter_env \<Rightarrow> string list" where
  "ir_nodes env =
     filter (\<lambda>n. case capture_formats (ee_io env n) of None \<Rightarrow> False | Some formats \<Rightarrow> formats \<noteq> [] \<and> any_infrared formats)
       (fst (candidate_nodes (ee_tree env) []))"

text \<open>\<open>None\<close> where the command ends with exit code 1 because there is no infrared camera.\<close>

definition pick_node :: "emitter_env \<Rightarrow> string list \<Rightarrow> string option" where
  "pick_node env args =
     (case args of
        _ # node # _ \<Rightarrow> Some node
      | _ \<Rightarrow> (case ir_nodes env of [] \<Rightarrow> None | node # _ \<Rightarrow> Some node))"

definition WARMUP_FRAMES :: nat where "WARMUP_FRAMES = 5"

text \<open>
  A call of the \<open>FrameReader\<close>: reads that fail are tried again for as long as it takes. A stream is what each read gives; \<open>None\<close>: it was used up
  before all values were there.
\<close>

fun reader_values :: "nat \<Rightarrow> real option list \<Rightarrow> (real list \<times> real option list) option" where
  "reader_values 0 stream = Some ([], stream)"
| "reader_values (Suc n) [] = None"
| "reader_values (Suc n) (None # stream) = reader_values (Suc n) stream"
| "reader_values (Suc n) (Some x # stream) = map_option (\<lambda>(xs, rest). (x # xs, rest)) (reader_values n stream)"

text \<open>A reader that was opened has dropped the first frames.\<close>

definition opened_reader :: "real option list option \<Rightarrow> real option list option" where
  "opened_reader s = map_option (drop WARMUP_FRAMES) s"

section \<open>The commands\<close>

definition node_label :: "emitter_env \<Rightarrow> string \<Rightarrow> string" where
  "node_label env node = (case ee_ident env node of None \<Rightarrow> node | Some i \<Rightarrow> node @ '' ('' @ fst i @ '')'')"

definition node_status :: "emitter_env \<Rightarrow> emitter_disk \<Rightarrow> string \<Rightarrow> em_error + emitter_method option" where
  "node_status env d node = emitter_status (ed_state d) (ee_ident env node) (ee_descriptors env node) (ee_openable env node) (ed_camera d node)"

text \<open>What is printed: each node's label and what drives its emitter.\<close>

fun status_lines :: "emitter_env \<Rightarrow> emitter_disk \<Rightarrow> string list \<Rightarrow> (string \<times> emitter_method option) list \<times> emitter_end" where
  "status_lines env d [] = ([], Exit_Code 0)"
| "status_lines env d (node # nodes) =
     (case node_status env d node of
        Inl e \<Rightarrow> ([], Raised e)
      | Inr m \<Rightarrow> (let (out, r) = status_lines env d nodes in ((node_label env node, m) # out, r)))"

definition cmd_status :: "emitter_env \<Rightarrow> string list \<Rightarrow> emitter_disk \<Rightarrow> (string \<times> emitter_method option) list \<times> emitter_end" where
  "cmd_status env args d =
     (let nodes = (case args of _ # node # _ \<Rightarrow> [node] | _ \<Rightarrow> ir_nodes env) in
      if nodes = [] then ([], Exit_Code 1) else status_lines env d nodes)"

definition set_camera :: "string \<Rightarrow> camera \<Rightarrow> emitter_disk \<Rightarrow> emitter_disk" where
  "set_camera node cam d = d\<lparr>ed_camera := (ed_camera d)(node := cam)\<rparr>"

definition cmd_test :: "emitter_env \<Rightarrow> string list \<Rightarrow> emitter_disk \<Rightarrow> emitter_end \<times> emitter_disk" where
  "cmd_test env args d =
     (case pick_node env args of
        None \<Rightarrow> (Exit_Code 1, d)
      | Some node \<Rightarrow>
          (case opened_reader (ee_first env) of
             None \<Rightarrow> (Raised EmOSError, d)
           | Some stream \<Rightarrow>
               (case reader_values 30 stream of
                  None \<Rightarrow> (Reading, d)
                | Some (dark, _) \<Rightarrow>
                    let an = set_reference (fold feed_frame dark new_analyzer) in
                    (case activate (ed_state d) (ee_ident env node) (ee_descriptors env node) (ee_openable env node) (ed_camera d node) of
                       (Inl e, cam) \<Rightarrow> (Raised e, set_camera node cam d)
                     | (Inr session, cam) \<Rightarrow>
                         let closed = set_camera node (case session of None \<Rightarrow> cam | Some s \<Rightarrow> close_session s cam) d in
                         (case opened_reader (ee_second env) of
                            None \<Rightarrow> (Raised EmOSError, closed)
                          | Some stream' \<Rightarrow>
                              (case reader_values 60 stream' of
                                 None \<Rightarrow> (Reading, set_camera node cam d)
                               | Some (bright, _) \<Rightarrow>
                                   (Exit_Code (if fst (an_lit (fold feed_frame bright an)) then 0 else 1), closed)))))))"

text \<open>The user's answers count after \<open>strip\<close> and \<open>lower\<close>.\<close>

definition answered :: "string \<Rightarrow> string \<Rightarrow> bool" where
  "answered word answer \<longleftrightarrow> lower (strip answer) = word"

definition cmd_search :: "emitter_env \<Rightarrow> string list \<Rightarrow> emitter_disk \<Rightarrow> emitter_end \<times> emitter_disk" where
  "cmd_search env args d =
     (case pick_node env args of
        None \<Rightarrow> (Exit_Code 1, d)
      | Some node \<Rightarrow>
          (case node_status env d node of
             Inl e \<Rightarrow> (Raised e, d)
           | Inr (Some _) \<Rightarrow> (Exit_Code 0, d)
           | Inr None \<Rightarrow>
               if \<not> answered ''yes'' (ee_start env) then (Exit_Code 1, d)
               else (case opened_reader (ee_first env) of
                   None \<Rightarrow> (Raised EmOSError, d)
                 | Some _ \<Rightarrow>
                     if \<not> ee_openable env node then (Raised EmOSError, d)
                     else
                       let (r, s, cam) = emitter_search (ee_ident env node) (ee_descriptors env node)
                             (\<lambda>c v. answered ''y'' (ee_confirm env c v)) (ee_feeds env) (ed_state d) (ed_camera d node)
                       in (case r of
                             Inl SearchAborted \<Rightarrow> Exit_Code 1
                           | Inl e \<Rightarrow> Raised e
                           | Inr None \<Rightarrow> Exit_Code 1
                           | Inr (Some _) \<Rightarrow> Exit_Code 0,
                           (set_camera node cam d)\<lparr>ed_state := s\<rparr>))))"

definition cmd_forget :: "emitter_env \<Rightarrow> string list \<Rightarrow> emitter_disk \<Rightarrow> emitter_end \<times> emitter_disk" where
  "cmd_forget env args d =
     (case pick_node env args of
        None \<Rightarrow> (Exit_Code 1, d)
      | Some node \<Rightarrow>
          (case ee_ident env node of
             None \<Rightarrow> (Exit_Code 1, d)
           | Some i \<Rightarrow>
               let (r, s) = forget i (ed_state d)
               in (case r of Inl e \<Rightarrow> Raised e | Inr removed \<Rightarrow> Exit_Code (if removed then 0 else 1), d\<lparr>ed_state := s\<rparr>)))"

text \<open>The exported entry: the key of the device and its controls.\<close>

definition cmd_export :: "emitter_env \<Rightarrow> string list \<Rightarrow> emitter_disk \<Rightarrow> (string \<times> vendor_control list) option \<times> emitter_end" where
  "cmd_export env args d =
     (case pick_node env args of
        None \<Rightarrow> (None, Exit_Code 1)
      | Some node \<Rightarrow>
          (case ee_ident env node of
             None \<Rightarrow> (None, Exit_Code 1)
           | Some i \<Rightarrow>
               if stored_controls (ed_state d) i = [] then (None, Exit_Code 1)
               else (Some (device_key i, stored_controls (ed_state d) i), Exit_Code 0)))"

definition run_emitter :: "emitter_env \<Rightarrow> string list \<Rightarrow> emitter_disk \<Rightarrow> emitter_end \<times> emitter_disk" where
  "run_emitter env args d =
     (let action = (case args of [] \<Rightarrow> ''status'' | a # _ \<Rightarrow> a) in
      if action = ''status'' then (snd (cmd_status env args d), d)
      else if action = ''test'' then cmd_test env args d
      else if action = ''search'' then cmd_search env args d
      else if action = ''forget'' then cmd_forget env args d
      else if action = ''export'' then (snd (cmd_export env args d), d)
      else (Exit_Code 1, d))"

section \<open>Hexadecimal text\<close>

lemma hex_digit_ok: "n < 16 \<Longrightarrow> hex_digit_value (hex_digit_of n) = Some n \<and> \<not> is_space (hex_digit_of n)"
proof -
  have "\<forall>n \<in> set [0..<16]. hex_digit_value (hex_digit_of n) = Some n \<and> \<not> is_space (hex_digit_of n)"
    by code_simp
  then show "n < 16 \<Longrightarrow> hex_digit_value (hex_digit_of n) = Some n \<and> \<not> is_space (hex_digit_of n)"
    by simp
qed

lemma fromhex_bytes_hex: "fromhex (bytes_hex bs) = Some bs"
proof (induction bs)
  case Nil
  then show ?case
    by (simp add: bytes_hex_def fromhex.simps)
next
  case (Cons b bs)
  have "unat b < 16 * 16"
    using unat_byte_less [of b] by simp
  then have d: "unat b div 16 < 16" "unat b mod 16 < 16"
    by (simp_all add: less_mult_imp_div_less)
  have "(of_nat (16 * (unat b div 16) + unat b mod 16) :: byte) = b"
    using mult_div_mod_eq [of 16 "unat b"] by (simp only:) simp
  then show ?case
    using Cons.IH hex_digit_ok [OF d(1)] hex_digit_ok [OF d(2)]
    by (simp add: bytes_hex_def fromhex.simps)
qed

section \<open>What a search finds\<close>

text \<open>Writes change nothing of a camera but the values.\<close>

definition same_camera :: "camera \<Rightarrow> camera \<Rightarrow> bool" where
  "same_camera cam cam' \<longleftrightarrow> (\<exists>f. cam' = cam\<lparr>cur_value := f\<rparr>)"

lemma same_camera_refl: "same_camera cam cam"
  unfolding same_camera_def by (rule exI [of _ "cur_value cam"]) simp

lemma same_camera_trans: "same_camera a b \<Longrightarrow> same_camera b c \<Longrightarrow> same_camera a c"
  by (auto simp: same_camera_def)

lemma same_camera_eq: "same_camera cam cam' \<Longrightarrow> cur_value cam' = cur_value cam \<Longrightarrow> cam' = cam"
  by (auto simp: same_camera_def)

lemma xu_set_same: "xu_set a v cam = (r, cam') \<Longrightarrow> same_camera cam cam'"
proof (cases r)
  case (Inr u)
  assume "xu_set a v cam = (r, cam')"
  then have "cam' = cam\<lparr>cur_value := (cur_value cam)(a \<mapsto> v)\<rparr>"
    using Inr xu_set_Inr by blast
  then show ?thesis
    by (auto simp: same_camera_def)
next
  case (Inl e)
  assume "xu_set a v cam = (r, cam')"
  then show ?thesis
    using Inl xu_set_Inl same_camera_refl by blast
qed

text \<open>A value that is found was taken by the camera, and the user confirmed it.\<close>

lemma try_values_found:
  assumes "try_values a confirm vs feeds an cam = (hit, feeds', an', cam')"
  shows "same_camera cam cam' \<and> (\<forall>v. hit = Some v \<longrightarrow> v \<in> set vs \<and> confirm v \<and> takes cam a v)"
  using assms
proof (induction a confirm vs feeds an cam rule: try_values.induct)
  case (1 a confirm feeds an cam)
  then show ?case
    by (auto intro: same_camera_refl)
next
  case (2 a confirm v vs feeds an cam)
  obtain r cam1 where s: "xu_set a v cam = (r, cam1)"
    by fastforce
  note same = xu_set_same [OF s]
  show ?case
  proof (cases r)
    case (Inl e)
    then show ?thesis
      using "2.prems" s same by auto
  next
    case (Inr u)
    then have t: "takes cam a v"
      using s by (auto simp: xu_set_def split: option.splits if_splits)
    have takes: "takes cam1 = takes cam"
      using same by (auto simp: same_camera_def)
    obtain lit an2 where lit: "an_lit (fold feed_frame (if feeds = [] then [] else hd feeds) an) = (lit, an2)"
      by fastforce
    show ?thesis
    proof (cases "lit \<and> confirm v")
      case True
      then show ?thesis
        using "2.prems" s Inr lit same t by (auto simp: Let_def split: if_splits)
    next
      case False
      then have "try_values a confirm vs (tl feeds) an2 cam1 = (hit, feeds', an', cam')"
        using "2.prems" s Inr lit by (simp add: Let_def split: if_splits)
      then have "same_camera cam1 cam' \<and> (\<forall>v. hit = Some v \<longrightarrow> v \<in> set vs \<and> confirm v \<and> takes cam1 a v)"
        using "2.IH" [of r cam1] s Inr lit False by (auto simp: Let_def)
      then show ?thesis
        using same takes same_camera_trans by auto
    qed
  qed
qed

lemma search_controls_found:
  assumes "search_controls i confirm cs feeds an s cam = (Inr (Some f), s', cam')"
  shows "\<exists>g c v. (g, c) \<in> set cs \<and> v \<in> set (candidate_values (the (c_cur c)) (c_maximum c)) \<and> confirm c v \<and>
    takes cam (c_unit c, c_selector c) v \<and> f = \<lparr>v_guid = g, v_selector = c_selector c, v_value = bytes_hex v\<rparr> \<and>
    remember i [f] s = (Inr (), s') \<and> same_camera cam cam'"
  using assms
proof (induction cs arbitrary: feeds an s cam)
  case (Cons gc cs)
  obtain g c where gc: "gc = (g, c)"
    by fastforce
  let ?a = "(c_unit c, c_selector c)"
  let ?vs = "candidate_values (the (c_cur c)) (c_maximum c)"
  obtain hit feeds' an' cam1 where t: "try_values ?a (confirm c) ?vs feeds an cam = (hit, feeds', an', cam1)"
    using prod_cases4 by blast
  define found where "found = map_option (\<lambda>v. \<lparr>v_guid = g, v_selector = c_selector c, v_value = bytes_hex v\<rparr>) hit"
  obtain saved s1 where sv: "(case found of None \<Rightarrow> (Inr (), s) | Some f \<Rightarrow> remember i [f] s) = (saved, s1)"
    by fastforce
  obtain ru cam2 where set: "xu_set ?a (the (c_cur c)) cam1 = (ru, cam2)"
    by fastforce
  note run = Cons.prems [unfolded gc search_controls.simps Let_def t prod.case found_def [symmetric] sv set]
  note tried = try_values_found [OF t]
  have same: "same_camera cam cam2"
    using tried xu_set_same [OF set] same_camera_trans by blast
  show ?case
  proof (cases ru)
    case (Inl e)
    then show ?thesis
      using run by (cases "add_to_blacklist i g (c_selector c) s1") (auto split: sum.splits)
  next
    case (Inr u)
    show ?thesis
    proof (cases found)
      case None
      then have "s1 = s" "search_controls i confirm cs feeds' an' s cam2 = (Inr (Some f), s', cam')"
        using run Inr sv by auto
      then obtain g' c' v where "(g', c') \<in> set cs" "v \<in> set (candidate_values (the (c_cur c')) (c_maximum c'))" "confirm c' v"
          "takes cam2 (c_unit c', c_selector c') v" "f = \<lparr>v_guid = g', v_selector = c_selector c', v_value = bytes_hex v\<rparr>"
          "remember i [f] s = (Inr (), s')" "same_camera cam2 cam'"
        using Cons.IH by blast
      moreover have "takes cam2 = takes cam"
        using same by (auto simp: same_camera_def)
      ultimately show ?thesis
        using same same_camera_trans gc by (intro exI [of _ g'] exI [of _ c'] exI [of _ v]) auto
    next
      case (Some f')
      then obtain v where v: "hit = Some v" "f' = \<lparr>v_guid = g, v_selector = c_selector c, v_value = bytes_hex v\<rparr>"
        by (auto simp: found_def)
      have "saved = Inr ()" "f' = f" "s1 = s'" "cam2 = cam'"
        using run Inr Some by (auto split: sum.splits)
      then show ?thesis
        using v sv Some tried same gc by (intro exI [of _ g] exI [of _ c] exI [of _ v]) simp
    qed
  qed
qed simp

lemma remembered: "remember i cs s = (Inr (), s') \<Longrightarrow> cs \<noteq> [] \<Longrightarrow> stored_controls s' i = cs"
  by (auto simp: remember_def save_devices_def stored_controls_def entry_controls_def load_devices_def entry_of_def split: if_splits option.splits)

lemma fold_update_inverse:
  "map_of (fold (\<lambda>(g, u). AList.update u g) xs []) u = Some g \<Longrightarrow> (g, u) \<in> set xs"
proof (induction xs rule: rev_induct)
  case (snoc x xs)
  then show ?case
    by (auto simp: update_conv' split: prod.splits if_splits)
qed simp

lemma units_distinct: "distinct (map fst (units_by_guid ident descriptors))"
proof -
  have "distinct (map fst (fold (\<lambda>(u, g). AList.update g u) xs []))" for xs :: "(nat \<times> string) list"
    by (induction xs rule: rev_induct) (auto simp: distinct_update split: prod.splits)
  then show ?thesis
    by (auto simp: units_by_guid_def split: option.splits)
qed

lemma candidate_unit:
  assumes "(g, c) \<in> set (candidate_controls s ident descriptors cam)"
  shows "map_of (units_by_guid ident descriptors) g = Some (c_unit c)"
proof -
  let ?units = "units_by_guid ident descriptors"
  let ?g = "fold (\<lambda>(g, u). AList.update u g) ?units []"
  have c: "c \<in> set (xu_controls cam (sort (map fst ?g)))" "c_cur c \<noteq> None" "g = the (map_of ?g (c_unit c))"
    using assms by (auto simp: candidate_controls_def Let_def)
  then obtain a where "fst a \<in> set (map fst ?g)" "read_control cam a = Some c"
    by (force simp: xu_controls_def map_filter_set)
  then have "c_unit c \<in> set (map fst ?g)"
    using read_control_cur c(2) by (metis fst_conv)
  then obtain g' where "map_of ?g (c_unit c) = Some g'"
    by (metis map_of_eq_None_iff list.set_map option.exhaust)
  then have "(g, c_unit c) \<in> set ?units"
    using c(3) fold_update_inverse by fastforce
  then show ?thesis
    by (rule map_of_is_SomeI [OF units_distinct])
qed

lemma candidate_value_length: "v \<in> set (candidate_values current maximum) \<Longrightarrow> length v = length current"
  by (auto simp: candidate_values_def Let_def)

lemma vendor_writes_no_os: "vendor_writes units cs \<noteq> Inl EmOSError"
  by (induction cs) (auto split: option.splits sum.splits)

lemma no_method_no_plan:
  assumes "emitter_status s ident descriptors True cam = Inr None"
  shows "emitter_plan_of s ident descriptors cam = Inr None"
proof (cases "emitter_plan_of s ident descriptors cam")
  case (Inl e)
  then have "e \<noteq> EmOSError"
    using vendor_writes_no_os [of "units_by_guid ident descriptors"] by (auto simp: emitter_plan_of_def Let_def split: option.splits sum.splits)
  then show ?thesis
    using assms Inl by (simp add: emitter_status_def)
next
  case (Inr p)
  then show ?thesis
    using assms by (simp add: emitter_status_def)
qed

section \<open>From the search to the scan\<close>

text \<open>The command found something: what that says of the search.\<close>

lemma cmd_search_found:
  assumes "cmd_search env args d = (Exit_Code 0, d')" and "pick_node env args = Some node" and "node_status env d node = Inr None"
  obtains i f cam s where "ee_ident env node = Some i" "ee_openable env node" "d' = (set_camera node cam d)\<lparr>ed_state := s\<rparr>"
    "emitter_search (Some i) (ee_descriptors env node) (\<lambda>c v. answered ''y'' (ee_confirm env c v)) (ee_feeds env) (ed_state d) (ed_camera d node)
      = (Inr (Some f), s, cam)"
proof -
  obtain r s cam where e: "emitter_search (ee_ident env node) (ee_descriptors env node) (\<lambda>c v. answered ''y'' (ee_confirm env c v)) (ee_feeds env)
      (ed_state d) (ed_camera d node) = (r, s, cam)"
    using prod_cases3 by blast
  have "ee_openable env node" "d' = (set_camera node cam d)\<lparr>ed_state := s\<rparr>" "\<exists>f. r = Inr (Some f)"
    using assms e by (auto simp: cmd_search_def split: if_splits option.splits sum.splits em_error.splits)
  moreover have "ee_ident env node \<noteq> None"
    using e calculation(3) by (cases "ee_ident env node") (auto simp: emitter_search_def)
  ultimately show ?thesis
    using that e by fastforce
qed

text \<open>A camera with the control, driven by what was remembered.\<close>

lemma remembered_drives:
  assumes "emitter_plan_of s (Some i) descriptors cam = Inr None" and "remember i [f] s = (Inr (), s')"
    and "map_of (units_by_guid (Some i) descriptors) (v_guid f) = Some u" and "v_value f = bytes_hex v"
    and "cur_value cam (u, v_selector f) = Some cur" and "length v = length cur" and "takes cam (u, v_selector f) v"
  shows "emitter_status s' (Some i) descriptors True cam = Inr (Some VendorControl)"
    and "\<exists>session cam'. activate s' (Some i) descriptors True cam = (Inr (Some session), cam') \<and> cur_value cam' (u, v_selector f) = Some v"
proof -
  have "face_auth_values cam (map_of (units_by_guid (Some i) descriptors) MS_CAMERA_CONTROL_XU) = None"
    using assms(1) by (auto simp: emitter_plan_of_def Let_def split: option.splits)
  moreover have "stored_controls s' i = [f]"
    using remembered [OF assms(2)] by simp
  ultimately have plan: "emitter_plan_of s' (Some i) descriptors cam =
      Inr (Some \<lparr>p_method = VendorControl, p_alternating = False, p_writes = [((u, v_selector f), v)]\<rparr>)"
    using assms(3,4) by (simp add: emitter_plan_of_def fromhex_bytes_hex)
  then show "emitter_status s' (Some i) descriptors True cam = Inr (Some VendorControl)"
    by (simp add: emitter_status_def)
  show "\<exists>session cam'. activate s' (Some i) descriptors True cam = (Inr (Some session), cam') \<and> cur_value cam' (u, v_selector f) = Some v"
    using plan assms(5-7) by (cases "cur = v") (simp_all add: activate_def pbind_def xu_get_def xu_set_def)
qed

text \<open>
  C35. What the search finds is used from then on: after a search that succeeded on a camera nothing was known about, the camera is as before, and there is a control
  on it and a value, tried for it and confirmed by the user with y, such that the emitter has a method and every capture sets the control to the value. And
  exported, the entry makes the camera of every other computer work that way that has none of its own.
\<close>

theorem found_control_drives_emitter:
  assumes "cmd_search env args d = (Exit_Code 0, d')" and "pick_node env args = Some node" and "node_status env d node = Inr None"
  shows "ed_camera d' node = ed_camera d node \<and> node_status env d' node = Inr (Some VendorControl) \<and>
    (\<exists>i g c v. ee_ident env node = Some i \<and>
       (g, c) \<in> set (candidate_controls (ed_state d) (Some i) (ee_descriptors env node) (ed_camera d node)) \<and>
       v \<in> set (candidate_values (the (c_cur c)) (c_maximum c)) \<and> lower (strip (ee_confirm env c v)) = ''y'' \<and>
       (\<exists>session cam. activate (ed_state d') (Some i) (ee_descriptors env node) True (ed_camera d' node) = (Inr (Some session), cam) \<and>
          cur_value cam (c_unit c, c_selector c) = Some v) \<and>
       (\<exists>e. cmd_export env args d' = (Some (device_key i, [e]), Exit_Code 0) \<and>
          (\<forall>s. found_here s = None \<and> entry_controls (shipped s) i = [e] \<longrightarrow> stored_controls s i = stored_controls (ed_state d') i)))"
proof -
  obtain i f cam s where i: "ee_ident env node = Some i" and op: "ee_openable env node" and d': "d' = (set_camera node cam d)\<lparr>ed_state := s\<rparr>"
    and e: "emitter_search (Some i) (ee_descriptors env node) (\<lambda>c v. answered ''y'' (ee_confirm env c v)) (ee_feeds env) (ed_state d)
      (ed_camera d node) = (Inr (Some f), s, cam)"
    by (rule cmd_search_found [OF assms])
  let ?cs = "candidate_controls (ed_state d) (Some i) (ee_descriptors env node) (ed_camera d node)"
  let ?ref = "set_reference (fold feed_frame (if ee_feeds env = [] then [] else hd (ee_feeds env)) new_analyzer)"
  have run: "search_controls i (\<lambda>c v. answered ''y'' (ee_confirm env c v)) ?cs (tl (ee_feeds env)) ?ref (ed_state d) (ed_camera d node)
      = (Inr (Some f), s, cam)"
    using e by (simp add: emitter_search_def)
  from search_controls_found [OF this] obtain g c v where
    c: "(g, c) \<in> set ?cs" "v \<in> set (candidate_values (the (c_cur c)) (c_maximum c))" "answered ''y'' (ee_confirm env c v)"
      "takes (ed_camera d node) (c_unit c, c_selector c) v" "f = \<lparr>v_guid = g, v_selector = c_selector c, v_value = bytes_hex v\<rparr>"
      "remember i [f] (ed_state d) = (Inr (), s)" "same_camera (ed_camera d node) cam"
    by blast
  have current: "\<forall>(g, c) \<in> set ?cs. c_cur c \<noteq> None \<and> cur_value (ed_camera d node) (c_unit c, c_selector c) = c_cur c"
    using candidates_current [of _ _ "ed_state d" "Some i" "ee_descriptors env node" "ed_camera d node"] by blast
  have "cur_value cam = cur_value (ed_camera d node)"
    using search_controls_restore [OF run current] by blast
  then have cam: "ed_camera d' node = ed_camera d node"
    using same_camera_eq [OF c(7)] by (simp add: d' set_camera_def)
  have s: "ed_state d' = s"
    by (simp add: d')
  have "emitter_plan_of (ed_state d) (Some i) (ee_descriptors env node) (ed_camera d node) = Inr None"
    by (rule no_method_no_plan) (use assms(3) i op in \<open>simp add: node_status_def\<close>)
  moreover obtain cur where cur: "c_cur c = Some cur" "cur_value (ed_camera d node) (c_unit c, c_selector c) = Some cur"
    using current c(1) by fastforce
  ultimately have drives: "emitter_status s (Some i) (ee_descriptors env node) True (ed_camera d node) = Inr (Some VendorControl)"
      "\<exists>session cam. activate s (Some i) (ee_descriptors env node) True (ed_camera d node) = (Inr (Some session), cam) \<and>
        cur_value cam (c_unit c, c_selector c) = Some v"
    using remembered_drives [of "ed_state d" i "ee_descriptors env node" "ed_camera d node" f s "c_unit c" v cur] c candidate_unit [OF c(1)]
      candidate_value_length [of v cur "c_maximum c"] by simp_all
  have stored: "stored_controls s i = [f]"
    using remembered [OF c(6)] by simp
  have "cmd_export env args d' = (Some (device_key i, [f]), Exit_Code 0)"
    using assms(2) i stored by (simp add: cmd_export_def s)
  moreover have "\<forall>st. found_here st = None \<and> entry_controls (shipped st) i = [f] \<longrightarrow> stored_controls st i = stored_controls (ed_state d') i"
    using stored by (simp add: s stored_controls_def entry_controls_def load_devices_def)
  ultimately have "\<exists>e. cmd_export env args d' = (Some (device_key i, [e]), Exit_Code 0) \<and>
      (\<forall>st. found_here st = None \<and> entry_controls (shipped st) i = [e] \<longrightarrow> stored_controls st i = stored_controls (ed_state d') i)"
    by blast
  moreover have "node_status env d' node = Inr (Some VendorControl)"
    using drives(1) i op by (simp add: node_status_def s cam)
  ultimately show ?thesis
    using drives(2) i c(1-3) unfolding answered_def s cam by blast
qed

text \<open>A camera whose light flashes at the first value of the first control, and a user who says so.\<close>

definition sample_search :: emitter_env where
  "sample_search =
     \<lparr>ee_tree = \<lparr>by_path = None, by_id = None, dev_dir = None\<rparr>, ee_io = (\<lambda>n. \<lparr>io_opens = False, io_caps = None, io_format = (\<lambda>i. FmtEinval)\<rparr>),
      ee_ident = (\<lambda>n. Some (''1:2'', 2)), ee_descriptors = (\<lambda>n. Some sample_descriptors), ee_openable = (\<lambda>n. True), ee_first = Some [],
      ee_second = None, ee_feeds = [[1, 1, 1], [0, 10, 0, 10]], ee_start = ''yes'', ee_confirm = (\<lambda>c v. '' Y '')\<rparr>"

definition sample_disk :: emitter_disk where
  "sample_disk = \<lparr>ed_state = sample_emitter [], ed_camera = (\<lambda>n. sample_camera)\<rparr>"

lemma sample_answers: "answered ''yes'' ''yes''" "answered ''y'' '' Y ''"
  by code_simp+

lemma sample_no_method: "node_status sample_search sample_disk ''/dev/video2'' = Inr None"
  by (simp add: node_status_def sample_search_def sample_disk_def emitter_status_def sample_plan)

lemma sample_search_found:
  "\<exists>d'. cmd_search sample_search [''search'', ''/dev/video2''] sample_disk = (Exit_Code 0, d')"
proof -
  have "\<exists>f s cam. emitter_search (Some (''1:2'', 2)) (Some sample_descriptors) (\<lambda>c v. answered ''y'' '' Y '') [[1, 1, 1], [0, 10, 0, 10]]
      (sample_emitter []) sample_camera = (Inr (Some f), s, cam)"
    unfolding emitter_search_def option.case sample_candidates
    by (simp add: sample_answers sample_found_def sample_values xu_set_def sample_camera_def an_lit_def set_reference_def reset_analyzer_def variation_def
        new_analyzer_def feed_frame_def FLOOR_def remember_def save_devices_def sample_emitter_def Let_def)
  then show ?thesis
    using sample_no_method sample_answers
    by (auto simp: cmd_search_def pick_node_def sample_search_def sample_disk_def opened_reader_def)
qed

theorem found_control_drives_emitter_witness:
  "\<exists>d' v session cam. cmd_search sample_search [''search'', ''/dev/video2''] sample_disk = (Exit_Code 0, d') \<and> ed_camera d' ''/dev/video2'' = sample_camera \<and>
     activate (ed_state d') (Some (''1:2'', 2)) (Some sample_descriptors) True sample_camera = (Inr (Some session), cam) \<and>
     (cur_value cam (4, 1) = Some v \<or> cur_value cam (4, 2) = Some v)"
proof -
  obtain d' where d': "cmd_search sample_search [''search'', ''/dev/video2''] sample_disk = (Exit_Code 0, d')"
    using sample_search_found by blast
  have "pick_node sample_search [''search'', ''/dev/video2''] = Some ''/dev/video2''"
    by (simp add: pick_node_def)
  from found_control_drives_emitter [OF d' this sample_no_method] show ?thesis
    using d' by (auto simp: sample_search_def sample_disk_def sample_candidates sample_found_def)
qed

section \<open>The other commands\<close>

text \<open>A test leaves the camera as it was, whatever the streams do, once the second one was opened and read or could not be.\<close>

theorem test_restores_camera:
  assumes "cmd_test env args d = (r, d')" and "r \<noteq> Reading" and "pick_node env args = Some node"
    and "activate (ed_state d) (ee_ident env node) (ee_descriptors env node) (ee_openable env node) (ed_camera d node) = (Inr (Some session), cam)"
    and "\<forall>(a, v) \<in> set (s_restore session). takes (ed_camera d node) a v"
  shows "ed_camera d' = ed_camera d"
proof -
  have "close_session session cam = ed_camera d node"
    using session_restores_camera [OF assms(4,5)] .
  then show ?thesis
    using assms(1-4) by (auto simp: cmd_test_def set_camera_def Let_def split: option.splits)
qed

text \<open>
  Forgetting takes away what was found, and with it the list of controls that could not be restored: the next search tries them again.
\<close>

theorem forget_clears_blacklist:
  assumes "cmd_forget env args d = (Exit_Code 0, d')" and "pick_node env args = Some node" and "ee_ident env node = Some i"
    and "dict_ok (load_devices (found_here (ed_state d)))"
  shows "stored_controls (ed_state d') i = entry_controls (shipped (ed_state d)) i \<and> blacklisted (ed_state d') i = {}"
  using assms
  by (auto simp: cmd_forget_def forget_def save_devices_def pbind_def pret_def stored_controls_def entry_controls_def blacklisted_def entry_of_def
      load_devices_def delete_conv' split: if_splits sum.splits option.splits)

text \<open>A camera whose reads fail keeps the commands waiting for ever: no number of failed reads ends the loop.\<close>

lemma failed_reads_spin: "0 < n \<Longrightarrow> reader_values n (replicate k None) = None"
  by (induction k) (cases n; simp)+

text \<open>\<open>activate\<close> is documented never to raise; a stored value that is not hexadecimal raises through it.\<close>

lemma activation_may_raise:
  assumes "face_auth_values cam (map_of (units_by_guid (Some i) descriptors) MS_CAMERA_CONTROL_XU) = None"
    and "stored_controls s i = [c]" and "map_of (units_by_guid (Some i) descriptors) (v_guid c) = Some u" and "fromhex (v_value c) = None"
  shows "activate s (Some i) descriptors True cam = (Inl EmValueError, cam)"
  using assms by (simp add: activate_def emitter_plan_of_def)

end
