(* ===== verification/Diagnostics.thy ===== *)
theory Diagnostics
  imports Command_Line Ir_Emitter Camera_Discovery
begin

text \<open>
  \<^verbatim>\<open>daemon/manager.py\<close>, the requests that report on the computer: Diagnose, SecurityStatus, what ListCameras answers, the real uid of a
  process, the preview sent during a scan, and which attempts are kept as a snapshot.

  A check is its name, its state and what its message is about (the wording is left out, a target stands for its label).
\<close>

section \<open>What is looked at\<close>

record diag_env =
  dg_host :: host
  dg_isfile :: "string \<Rightarrow> bool"
  dg_realpath :: "string \<Rightarrow> string"
  dg_data_dir :: string
  dg_tree :: dev_tree
  dg_io :: "string \<Rightarrow> node_io"
  dg_emitter :: "string \<Rightarrow> emitter_state \<times> identity option \<times> byte list option \<times> bool \<times> camera"
  dg_version :: string

type_synonym check = "string \<times> string \<times> string list"

text \<open>\<open>_real_uid\<close> on the text of the status file, \<open>None\<close> for a process that is gone. Its lines end with a line feed.\<close>

function lines_LF :: "string \<Rightarrow> string list" where
  "lines_LF s =
     (if s = [] then []
      else let rest = dropWhile (\<lambda>c. c \<noteq> LF) s in takeWhile (\<lambda>c. c \<noteq> LF) s # lines_LF (tl rest))"
  by pat_completeness auto
termination
  by (relation "measure length")
    (auto simp: length_greater_0_conv [symmetric] simp del: length_greater_0_conv
      intro: le_less_trans [OF diff_le_mono [OF length_dropWhile_le]])

declare lines_LF.simps [simp del]

definition real_uid_of :: "string option \<Rightarrow> int option" where
  "real_uid_of status =
     (case status of
        None \<Rightarrow> None
      | Some t \<Rightarrow>
          (case List.find (\<lambda>line. starts_with line ''Uid:'') (lines_LF t) of
             None \<Rightarrow> None
           | Some line \<Rightarrow> (case split_ws line of _ # n # _ \<Rightarrow> int_of_dec n | _ \<Rightarrow> None)))"

definition DLIB_FILES :: "string list" where
  "DLIB_FILES = [''shape_predictor_5_face_landmarks.dat'', ''dlib_face_recognition_resnet_model_v1.dat'']"

definition dlib_data_present :: "diag_env \<Rightarrow> bool" where
  "dlib_data_present dg = list_all (\<lambda>f. dg_isfile dg (path_join (dg_data_dir dg) f)) DLIB_FILES"

definition PAM_MODULE_DIRS :: "string list" where
  "PAM_MODULE_DIRS =
     [''/usr/lib/security'', ''/usr/lib64/security'', ''/lib/security'', ''/lib64/security'', ''/usr/lib/x86_64-linux-gnu/security'',
      ''/usr/lib/aarch64-linux-gnu/security'', ''/usr/local/lib/security'', ''/usr/local/lib64/security'']"

definition module_found :: "diag_env \<Rightarrow> string \<Rightarrow> (string \<times> string) list \<Rightarrow> (string \<times> string) list" where
  "module_found dg directory found =
     (let path = path_join directory ''pam_linux_hello.so'' in
      if dg_isfile dg path \<and> map_of found (dg_realpath dg path) = None then found @ [(dg_realpath dg path, path)] else found)"

definition pam_modules :: "diag_env \<Rightarrow> string list \<Rightarrow> string list" where
  "pam_modules dg directories = sort (map snd (fold (module_found dg) directories []))"

definition mgr_ir_nodes :: "diag_env \<Rightarrow> string list" where
  "mgr_ir_nodes dg =
     filter (\<lambda>n. case capture_formats (dg_io dg n) of None \<Rightarrow> False | Some formats \<Rightarrow> formats \<noteq> [] \<and> any_infrared formats)
       (fst (candidate_nodes (dg_tree dg) []))"

definition camera_name :: "diag_env \<Rightarrow> string \<Rightarrow> string" where
  "camera_name dg node =
     (case host_text (dg_host dg) (''/sys/class/video4linux/'' @ basename node @ ''/name'') of None \<Rightarrow> basename node | Some t \<Rightarrow> strip t)"

definition selinux_enforcing :: "diag_env \<Rightarrow> bool" where
  "selinux_enforcing dg = (case host_text (dg_host dg) ''/sys/fs/selinux/enforce'' of None \<Rightarrow> False | Some t \<Rightarrow> strip t = ''1'')"

section \<open>Diagnose\<close>

definition camera_check :: "diag_env \<Rightarrow> config \<Rightarrow> check" where
  "camera_check dg cfg =
     (let device = (case get_option cfg ''video'' ''device_path'' of None \<Rightarrow> ''none'' | Some d \<Rightarrow> d) in
      if device \<in> set [''none'', [], ''auto''] then
        (''camera'', if fst (candidate_nodes (dg_tree dg) []) \<noteq> [] then ''ok'' else ''error'', [])
      else (''camera'', if host_exists (dg_host dg) device then ''ok'' else ''error'', [device]))"

text \<open>The caller's models; loading them may move old ones in.\<close>

definition models_check :: "string option \<Rightarrow> files \<Rightarrow> (failure + check list) \<times> files" where
  "models_check user w =
     (case user of
        Some u \<Rightarrow>
          if u \<noteq> [] \<and> u \<noteq> ''root'' then
            (case load_models u (f_store w) of
               (Inl ModelError, s) \<Rightarrow> (Inr [(''models'', ''error'', [u])], w\<lparr>f_store := s\<rparr>)
             | (Inl _, s) \<Rightarrow> (Inl INTERNAL, w\<lparr>f_store := s\<rparr>)
             | (Inr ms, s) \<Rightarrow>
                 (Inr [if ms \<noteq> [] then (''models'', ''ok'', [nat_digits (length ms), u]) else (''models'', ''warning'', [u])], w\<lparr>f_store := s\<rparr>))
          else (Inr [], w)
      | None \<Rightarrow> (Inr [], w))"

definition enabled_check :: "config \<Rightarrow> failure + check list" where
  "enabled_check cfg =
     (case get_boolean cfg ''core'' ''disabled'' False of
        None \<Rightarrow> Inl INTERNAL
      | Some off \<Rightarrow> Inr (if off then [(''enabled'', ''warning'', [])] else []))"

definition targets_check :: "pworld \<Rightarrow> string \<Rightarrow> failure + check list" where
  "targets_check p dir =
     (case targets p dir of
        Inl _ \<Rightarrow> Inl INTERNAL
      | Inr es \<Rightarrow>
          let on = filter te_enabled es in
          Inr [if on \<noteq> [] then (''targets'', ''ok'', map te_id on) else (''targets'', ''warning'', [])])"

definition emitter_check :: "diag_env \<Rightarrow> config \<Rightarrow> failure + check list" where
  "emitter_check dg cfg =
     (case mgr_ir_nodes dg of
        [] \<Rightarrow> Inr []
      | node # _ \<Rightarrow>
          let (s, ident, descriptors, openable, cam) = dg_emitter dg node in
          (case emitter_status s ident descriptors openable cam of
             Inl _ \<Rightarrow> Inl INTERNAL
           | Inr (Some m) \<Rightarrow> Inr [(''emitter'', ''ok'', [])]
           | Inr None \<Rightarrow>
               Inr [(''emitter'',
                     if lower (strip (case get_option cfg ''video'' ''ir_emitter'' of None \<Rightarrow> ''auto'' | Some v \<Rightarrow> v)) = ''off'' then ''info''
                     else ''warning'', [])]))"

definition modules_check :: "diag_env \<Rightarrow> check list" where
  "modules_check dg =
     (let modules = pam_modules dg PAM_MODULE_DIRS in if length modules > 1 then [(''duplicates'', ''warning'', modules)] else [])"

definition mgr_diagnose :: "env \<Rightarrow> diag_env \<Rightarrow> caller \<Rightarrow> check list request" where
  "mgr_diagnose env dg c w =
     (let cfg = load_settings (f_settings w);
          data = (''data-files'', if dlib_data_present dg then ''ok'' else ''error'', if dlib_data_present dg then [] else [dg_data_dir dg])
      in pbind (models_check (getpwuid (e_bus env) (uid c))) (\<lambda>models.
         pbind (lift_result (enabled_check cfg)) (\<lambda>enabled.
         pbind (\<lambda>w1. lift_result (targets_check (f_pam w1) (e_root env)) w1) (\<lambda>on.
         pbind (lift_result (emitter_check dg cfg)) (\<lambda>light.
           pret ([(''daemon'', ''ok'', [dg_version dg]), data, camera_check dg cfg] @ models @ enabled @ on @ light @ modules_check dg
             @ (if selinux_enforcing dg then [(''selinux'', ''info'', [])] else [])))))) w)"

section \<open>The other reports\<close>

record security_report =
  sr_home_encrypted :: bool
  sr_secure_boot :: string
  sr_tpm :: int
  sr_tpm_unlock :: bool

definition mgr_security_status :: "env \<Rightarrow> diag_env \<Rightarrow> caller \<Rightarrow> security_report" where
  "mgr_security_status env dg c =
     \<lparr>sr_home_encrypted = (case getpwuid (e_bus env) (uid c) of None \<Rightarrow> False | Some u \<Rightarrow> u \<noteq> [] \<and> e_home_encrypted env u),
      sr_secure_boot = secure_boot (dg_host dg) ''/sys/firmware/efi/efivars'', sr_tpm = tpm_version (dg_host dg) ''/sys/class/tpm'',
      sr_tpm_unlock = tpm_unlock (dg_host dg) ''/proc/cmdline'' [''/etc/crypttab'', ''/etc/crypttab.initramfs'']\<rparr>"

text \<open>\<open>list_cameras\<close>: who may ask, and the answer once the cameras were probed.\<close>

definition mgr_list_cameras :: "bus \<Rightarrow> caller \<Rightarrow> diag_env \<Rightarrow> probe list \<Rightarrow> failure + (string \<times> string \<times> string \<times> bool \<times> real) list" where
  "mgr_list_cameras b c dg probes =
     rbind (require b c ACTION_CONFIGURE) (\<lambda>_.
       Inr (map (\<lambda>p. (p_path p, p_node p, camera_name dg (p_node p), p_infrared p, p_brightness p)) (filter p_ok probes)))"

section \<open>Preview and snapshots\<close>

definition PREVIEW_FPS :: real where "PREVIEW_FPS = 12"

text \<open>A preview as it is sent: when, the name and the picture in it, and to whom.\<close>

record preview =
  pv_time :: real
  pv_user :: string
  pv_jpeg :: "byte list"
  pv_to :: string

text \<open>\<open>send\<close>: a frame at its time with its JPEG, \<open>None\<close> where it cannot be encoded; the state is the time of the last one.\<close>

definition preview_send :: "caller \<Rightarrow> string \<Rightarrow> real \<times> byte list option \<Rightarrow> real option \<times> preview list \<Rightarrow> real option \<times> preview list" where
  "preview_send c user frame st =
     (let (now, jpeg) = frame; (last_time, sent) = st in
      if (case last_time of None \<Rightarrow> False | Some t \<Rightarrow> now - t < 1 / PREVIEW_FPS) then st
      else (Some now,
            (case jpeg of None \<Rightarrow> sent | Some d \<Rightarrow> sent @ [\<lparr>pv_time = now, pv_user = user, pv_jpeg = d, pv_to = sender c\<rparr>])))"

definition previews :: "caller \<Rightarrow> string \<Rightarrow> (real \<times> byte list option) list \<Rightarrow> preview list" where
  "previews c user frames = snd (fold (preview_send c user) frames (None, []))"

text \<open>Whether frames are kept during a verification, and as what kind of attempt they are saved.\<close>

definition keeps_frames :: "bool \<Rightarrow> bool \<Rightarrow> bool" where
  "keeps_frames save_failed save_successful \<longleftrightarrow> save_failed \<or> save_successful"

definition snapshot_kind :: "bool \<Rightarrow> bool \<Rightarrow> vresult \<Rightarrow> string option" where
  "snapshot_kind save_failed save_successful result =
     (if (result = SUCCESS \<and> save_successful) \<or> (result \<in> {TIMEOUT_REACHED, TOO_DARK} \<and> save_failed)
      then Some (if result = SUCCESS then ''SUCCESSFUL'' else ''FAILED'') else None)"

record scan_summary =
  ss_seconds :: string
  ss_frames :: nat
  ss_fps :: string
  ss_certainty :: string

text \<open>The lines under the picture; nothing is saved without frames.\<close>

definition snapshot_lines :: "'f list \<Rightarrow> string \<Rightarrow> scan_summary \<Rightarrow> string \<Rightarrow> string \<Rightarrow> string list option" where
  "snapshot_lines frames kind s date host_name =
     (if frames = [] then None
      else Some [kind @ '' LOGIN'', ''Date: '' @ date, ''Scan time: '' @ ss_seconds s @ ''s'',
                 ''Frames: '' @ nat_digits (ss_frames s) @ '' ('' @ ss_fps s @ ''FPS)'', ''Hostname: '' @ host_name,
                 ''Best certainty value: '' @ ss_certainty s])"

section \<open>What a diagnosis says\<close>

definition reports_error :: "check list \<Rightarrow> bool" where
  "reports_error checks = list_ex (\<lambda>x. fst (snd x) = ''error'') checks"

lemma reports_error_simps [simp]:
  "\<not> reports_error []" "reports_error (x # xs) \<longleftrightarrow> fst (snd x) = ''error'' \<or> reports_error xs"
  "reports_error (xs @ ys) \<longleftrightarrow> reports_error xs \<or> reports_error ys"
  by (simp_all add: reports_error_def)

lemma reports_no_error: "\<forall>x \<in> set xs. fst x = n \<and> fst (snd x) \<noteq> ''error'' \<Longrightarrow> \<not> reports_error xs"
  by (auto simp: reports_error_def list_ex_iff)

lemma models_check_states:
  "models_check user w = (Inr ms, w') \<Longrightarrow>
    (reports_error ms \<longleftrightarrow> (\<exists>u. user = Some u \<and> u \<noteq> [] \<and> u \<noteq> ''root'' \<and> fst (load_models u (f_store w)) = Inl ModelError)) \<and>
    (\<exists>s. w' = w\<lparr>f_store := s\<rparr>)"
  by (auto simp: models_check_def split: option.splits if_splits prod.splits sum.splits store_error.splits intro: exI [of _ "f_store w"])

lemma models_check_names: "models_check user w = (Inr ms, w') \<Longrightarrow> \<forall>x \<in> set ms. fst x = ''models''"
  by (auto simp: models_check_def split: option.splits if_splits prod.splits sum.splits store_error.splits)

lemma enabled_check_states: "enabled_check cfg = Inr xs \<Longrightarrow> \<forall>x \<in> set xs. fst x = ''enabled'' \<and> fst (snd x) \<noteq> ''error''"
  by (auto simp: enabled_check_def split: option.splits if_splits)

lemma targets_check_states: "targets_check p dir = Inr xs \<Longrightarrow> \<forall>x \<in> set xs. fst x = ''targets'' \<and> fst (snd x) \<noteq> ''error''"
  by (auto simp: targets_check_def Let_def split: sum.splits if_splits)

lemma emitter_check_states: "emitter_check dg cfg = Inr xs \<Longrightarrow> \<forall>x \<in> set xs. fst x = ''emitter'' \<and> fst (snd x) \<noteq> ''error''"
proof (cases "mgr_ir_nodes dg")
  case (Cons node nodes)
  obtain s i d op cam where e: "dg_emitter dg node = (s, i, d, op, cam)"
    using prod_cases5 by blast
  assume "emitter_check dg cfg = Inr xs"
  then show ?thesis
    using Cons e by (auto simp: emitter_check_def split: sum.splits option.splits if_splits)
qed (simp add: emitter_check_def)

lemma modules_check_states: "\<forall>x \<in> set (modules_check dg). fst x = ''duplicates'' \<and> fst (snd x) \<noteq> ''error''"
  by (simp add: modules_check_def Let_def)

text \<open>
  What Diagnose says of the computer is so: when it answers, it reports an error exactly when the data files or the camera are missing or the
  caller's models are unreadable; face unlock counts as used exactly for the targets that are enabled; and nothing but old models being moved in is changed.
\<close>

theorem diagnose_exact:
  assumes "mgr_diagnose env dg c w = (Inr checks, w')"
  shows "(reports_error checks \<longleftrightarrow>
      \<not> dlib_data_present dg \<or> fst (snd (camera_check dg (load_settings (f_settings w)))) = ''error'' \<or>
      (\<exists>u. getpwuid (e_bus env) (uid c) = Some u \<and> u \<noteq> [] \<and> u \<noteq> ''root'' \<and> fst (load_models u (f_store w)) = Inl ModelError)) \<and>
    (\<forall>on. (''targets'', ''ok'', on) \<in> set checks \<longleftrightarrow>
      (\<exists>es. targets (f_pam w) (e_root env) = Inr es \<and> on = map te_id (filter te_enabled es) \<and> on \<noteq> [])) \<and>
    (\<exists>s. w' = w\<lparr>f_store := s\<rparr>)"
proof -
  let ?cfg = "load_settings (f_settings w)"
  obtain ms w1 where m: "models_check (getpwuid (e_bus env) (uid c)) w = (Inr ms, w1)"
    using assms by (cases "models_check (getpwuid (e_bus env) (uid c)) w") (auto simp: mgr_diagnose_def pbind_def Let_def split: sum.splits)
  note states = models_check_states [OF m]
  obtain enabled where en: "enabled_check ?cfg = Inr enabled"
    using assms m by (cases "enabled_check ?cfg") (auto simp: mgr_diagnose_def pbind_def lift_result_def Let_def)
  obtain on where on: "targets_check (f_pam w1) (e_root env) = Inr on"
    using assms m en by (cases "targets_check (f_pam w1) (e_root env)") (auto simp: mgr_diagnose_def pbind_def lift_result_def Let_def)
  obtain light where li: "emitter_check dg ?cfg = Inr light"
    using assms m en on by (cases "emitter_check dg ?cfg") (auto simp: mgr_diagnose_def pbind_def lift_result_def Let_def)
  have w': "w' = w1" and checks: "checks = [(''daemon'', ''ok'', [dg_version dg]),
      (''data-files'', if dlib_data_present dg then ''ok'' else ''error'', if dlib_data_present dg then [] else [dg_data_dir dg]), camera_check dg ?cfg]
      @ ms @ enabled @ on @ light @ modules_check dg @ (if selinux_enforcing dg then [(''selinux'', ''info'', [])] else [])"
    using assms m en on li by (auto simp: mgr_diagnose_def pbind_def lift_result_def Let_def)
  have pam: "f_pam w1 = f_pam w"
    using states by auto
  note no_error = reports_no_error [OF enabled_check_states [OF en]] reports_no_error [OF targets_check_states [OF on]]
    reports_no_error [OF emitter_check_states [OF li]] reports_no_error [OF modules_check_states [of dg]]
  have names: "(''targets'', ''ok'', xs) \<notin> set ms" "(''targets'', ''ok'', xs) \<notin> set enabled" "(''targets'', ''ok'', xs) \<notin> set light"
      "(''targets'', ''ok'', xs) \<notin> set (modules_check dg)" "(''targets'', ''ok'', xs) \<noteq> camera_check dg ?cfg" for xs
    using models_check_names [OF m] enabled_check_states [OF en] emitter_check_states [OF li] modules_check_states [of dg]
    by (fastforce, fastforce, fastforce, fastforce, simp add: camera_check_def Let_def)
  have "reports_error checks \<longleftrightarrow> \<not> dlib_data_present dg \<or> fst (snd (camera_check dg ?cfg)) = ''error'' \<or> reports_error ms"
    using no_error unfolding checks by simp
  moreover have "(''targets'', ''ok'', xs) \<in> set checks \<longleftrightarrow> (''targets'', ''ok'', xs) \<in> set on" for xs
    using names [of xs] unfolding checks by simp
  moreover have "(''targets'', ''ok'', xs) \<in> set on \<longleftrightarrow>
      (\<exists>es. targets (f_pam w) (e_root env) = Inr es \<and> xs = map te_id (filter te_enabled es) \<and> xs \<noteq> [])" for xs
    using on unfolding pam by (auto simp: targets_check_def Let_def split: sum.splits if_splits)
  ultimately show ?thesis
    using states unfolding w' by blast
qed

section \<open>Module files\<close>

lemma module_found_fold:
  assumes "distinct (map fst found)" and "\<forall>(r, p) \<in> set found. r = dg_realpath dg p \<and> dg_isfile dg p"
  shows "distinct (map fst (fold (module_found dg) ds found)) \<and>
    (\<forall>(r, p) \<in> set (fold (module_found dg) ds found). r = dg_realpath dg p \<and> dg_isfile dg p) \<and>
    fst ` set (fold (module_found dg) ds found) =
      fst ` set found \<union> {dg_realpath dg p | p. \<exists>d \<in> set ds. p = path_join d ''pam_linux_hello.so'' \<and> dg_isfile dg p}"
  using assms
proof (induction ds arbitrary: found)
  case (Cons d ds)
  let ?p = "path_join d ''pam_linux_hello.so''"
  let ?found = "module_found dg d found"
  have "distinct (map fst ?found)" "\<forall>(r, p) \<in> set ?found. r = dg_realpath dg p \<and> dg_isfile dg p"
      "fst ` set ?found = fst ` set found \<union> (if dg_isfile dg ?p then {dg_realpath dg ?p} else {})"
    using Cons.prems by (auto simp: module_found_def Let_def map_of_eq_None_iff split: if_splits)
  then show ?case
    using Cons.IH [of ?found] by auto
qed simp

text \<open>One path for each module file, however many directories it can be reached through.\<close>

theorem pam_modules_one_each:
  "length (pam_modules dg ds) = card {dg_realpath dg p | p. \<exists>d \<in> set ds. p = path_join d ''pam_linux_hello.so'' \<and> dg_isfile dg p}"
proof -
  let ?f = "fold (module_found dg) ds []"
  have f: "distinct (map fst ?f)" "fst ` set ?f = {dg_realpath dg p | p. \<exists>d \<in> set ds. p = path_join d ''pam_linux_hello.so'' \<and> dg_isfile dg p}"
    using module_found_fold [of "[]" dg ds] by auto
  have "length (pam_modules dg ds) = length (map fst ?f)"
    by (simp add: pam_modules_def)
  also have "\<dots> = card (set (map fst ?f))"
    using f(1) by (rule distinct_card [symmetric])
  finally show ?thesis
    using f(2) by simp
qed

section \<open>How often a preview is sent\<close>

lemma preview_fold:
  assumes "sorted (map fst frames)" and "\<forall>f \<in> set frames. (case last_time of None \<Rightarrow> t0 | Some t \<Rightarrow> t) \<le> fst f \<and> fst f \<le> t0 + T"
    and "case last_time of None \<Rightarrow> sent = [] | Some t \<Rightarrow> t0 \<le> t \<and> t \<le> t0 + T \<and> real (length sent) \<le> 12 * (t - t0) + 1"
    and "0 \<le> T" and "fold (preview_send c user) frames (last_time, sent) = (lt, sent')"
  shows "real (length sent') \<le> 12 * T + 1"
  using assms
proof (induction frames arbitrary: last_time sent)
  case Nil
  then show ?case
    by (cases last_time) (auto intro: order_trans)
next
  case (Cons f frames)
  obtain now jpeg where f: "f = (now, jpeg)"
    by fastforce
  show ?case
  proof (cases "\<exists>t. last_time = Some t \<and> now - t < 1 / PREVIEW_FPS")
    case True
    then have "preview_send c user f (last_time, sent) = (last_time, sent)"
      by (auto simp: preview_send_def f)
    then show ?thesis
      using Cons.IH [of last_time sent] Cons.prems by simp
  next
    case False
    let ?sent = "case jpeg of None \<Rightarrow> sent | Some d \<Rightarrow> sent @ [\<lparr>pv_time = now, pv_user = user, pv_jpeg = d, pv_to = sender c\<rparr>]"
    have "preview_send c user f (last_time, sent) = (Some now, ?sent)"
      using False by (cases last_time) (simp_all add: preview_send_def f)
    moreover have "length ?sent \<le> length sent + 1"
      by (cases jpeg) simp_all
    ultimately obtain sent1 where s: "preview_send c user f (last_time, sent) = (Some now, sent1)" "length sent1 \<le> length sent + 1"
      by blast
    have bounds: "t0 \<le> now" "now \<le> t0 + T"
      using Cons.prems(2,3) f by (auto split: option.splits)
    have "real (length sent1) \<le> 12 * (now - t0) + 1"
      using s(2) Cons.prems(3) False bounds by (cases last_time) (auto simp: PREVIEW_FPS_def)
    then show ?thesis
      using Cons.IH [of "Some now" sent1] Cons.prems s(1) bounds f by auto
  qed
qed

text \<open>
  The picture of the camera goes to the caller of the request and to nobody else, at most twelve times a second and once more, however many frames the camera delivers.
\<close>

theorem preview_rate:
  assumes "sorted (map fst frames)" and "\<forall>f \<in> set frames. t0 \<le> fst f \<and> fst f \<le> t0 + T" and "0 \<le> T"
  shows "real (length (previews c user frames)) \<le> 12 * T + 1 \<and> (\<forall>p \<in> set (previews c user frames). pv_to p = sender c \<and> pv_user p = user)"
proof
  obtain lt sent where "fold (preview_send c user) frames (None, []) = (lt, sent)"
    by fastforce
  then show "real (length (previews c user frames)) \<le> 12 * T + 1"
    using preview_fold [of frames t0 None T "[]" c user lt sent] assms by (simp add: previews_def)
  have "\<forall>p \<in> set (snd (fold (preview_send c user) frames st)). p \<in> set (snd st) \<or> pv_to p = sender c \<and> pv_user p = user" for st
    by (induction frames arbitrary: st) (fastforce simp: preview_send_def Let_def split: prod.splits option.splits if_splits)+
  from this [of "(None, [])"] show "\<forall>p \<in> set (previews c user frames). pv_to p = sender c \<and> pv_user p = user"
    by (auto simp: previews_def)
qed

section \<open>Doctor\<close>

text \<open>On a machine whose lock screen choice is in order, the command's exit code says whether there is an error.\<close>

theorem doctor_exit_code:
  assumes "fst (mgr_diagnose env dg c w) = Inr checks" and "ce_euid ce = 0" and "client_call ce (\<lambda>_. pret ()) u = (Inr (), u')"
  shows "exit_code (fst (cmd_doctor ce (map (fst \<circ> snd) checks) u)) = (if reports_error checks then 1 else 0)"
proof -
  have "''error'' \<in> set (map (fst \<circ> snd) checks) \<longleftrightarrow> reports_error checks"
    by (force simp: reports_error_def list_ex_iff)
  then show ?thesis
    using assms(2,3) by (simp add: cmd_doctor_def fail_def exit_code_def pbind_def pret_def praise_def)
qed

text \<open>
  A service file that cannot be read leaves nothing of the diagnosis: the request that should find such faults fails with an internal error, with every
  other check lost.
\<close>

theorem diagnose_lost:
  assumes "targets (f_pam w) (e_root env) = Inl e"
  shows "fst (mgr_diagnose env dg c w) = Inl INTERNAL"
proof -
  obtain r w1 where m: "models_check (getpwuid (e_bus env) (uid c)) w = (r, w1)"
    by fastforce
  show ?thesis
  proof (cases r)
    case (Inl x)
    then have "x = INTERNAL"
      using m by (auto simp: models_check_def split: option.splits if_splits prod.splits sum.splits store_error.splits)
    then show ?thesis
      using m Inl by (simp add: mgr_diagnose_def pbind_def Let_def)
  next
    case (Inr ms)
    then obtain s where "w1 = w\<lparr>f_store := s\<rparr>"
      using models_check_states m by blast
    then have "f_pam w1 = f_pam w"
      by simp
    then have "targets_check (f_pam w1) (e_root env) = Inl INTERNAL"
      using assms by (simp add: targets_check_def)
    moreover have "enabled_check (load_settings (f_settings w)) = Inl x \<Longrightarrow> x = INTERNAL" for x
      by (auto simp: enabled_check_def split: option.splits)
    ultimately show ?thesis
      using m Inr by (cases "enabled_check (load_settings (f_settings w))") (simp_all add: mgr_diagnose_def pbind_def lift_result_def Let_def)
  qed
qed

end
