(* ===== verification/Cli_Main.thy ===== *)
theory Cli_Main
  imports Command_Line Passkey_Cli Emitter_Cli Diagnostics
begin

text \<open>
  \<^verbatim>\<open>cli.py\<close>: \<open>main\<close>, which puts the commands together: the ones that call the service, the local ones that need root, and
  \<^verbatim>\<open>reset-system --purge\<close>, which deletes the directories of the installation; and \<^verbatim>\<open>cli/config.py\<close>.

  The state is that of all parts side by side. \<open>argparse\<close> is outside: the command line is what it makes of it. What the
  scripts for the camera (\<^verbatim>\<open>snapshot\<close>, \<^verbatim>\<open>test\<close>) come to is given.
\<close>

section \<open>The whole\<close>

record install =
  in_state :: string
  in_config :: string
  in_log :: string
  in_models :: string
  in_legacy :: string

record whole =
  wl_cli :: cli_world
  wl_emitter :: emitter_disk
  wl_passkey :: passkey_world
  wl_dirs :: "string list"

datatype script_end = Script_Done | Script_Camera_Error | Script_Exit int | Script_Raises

record ('k, 't, 'p) main_env =
  me_install :: install
  me_cli :: cli_env
  me_diag :: diag_env
  me_probes :: "probe list"
  me_scan :: "vresult \<times> real list list \<times> real"
  me_emitter :: emitter_env
  me_libs :: "('k, 't, 'p) passkey_libs"
  me_passkey :: "('k, 't) passkey_call"
  me_scripts :: "string \<Rightarrow> script_end"
  me_vars :: "(string \<times> string) list"
  me_account :: "int \<Rightarrow> string option"
  me_login :: string
  me_which :: "string \<Rightarrow> bool"
  me_rmtree :: "string \<Rightarrow> bool"

section \<open>Who is asking, and what is installed\<close>

definition env_var :: "(string \<times> string) list \<Rightarrow> string \<Rightarrow> string" where
  "env_var vars name = (case map_of vars name of None \<Rightarrow> [] | Some v \<Rightarrow> v)"

text \<open>\<open>invoking_user\<close>; the last resort is \<open>getpass.getuser()\<close>.\<close>

definition invoking_user :: "('k, 't, 'p) main_env \<Rightarrow> string" where
  "invoking_user me =
     (let vars = me_vars me; n = env_var vars ''PKEXEC_UID'' in
      if env_var vars ''SUDO_USER'' \<noteq> [] then env_var vars ''SUDO_USER''
      else if env_var vars ''DOAS_USER'' \<noteq> [] then env_var vars ''DOAS_USER''
      else if n \<noteq> [] \<and> list_all is_digit n then
        (case Option.bind (int_of_dec n) (me_account me) of Some name \<Rightarrow> name | None \<Rightarrow> me_login me)
      else me_login me)"

text \<open>The directories of \<open>PATH\<close>, split at colons.\<close>

fun split_at :: "char \<Rightarrow> string \<Rightarrow> string list" where
  "split_at s [] = [[]]"
| "split_at s (c # cs) =
     (if c = s then [] # split_at s cs
      else (case split_at s cs of [] \<Rightarrow> [[c]] | l # ls \<Rightarrow> (c # l) # ls))"

definition copy_found :: "(string \<Rightarrow> bool) \<Rightarrow> (string \<Rightarrow> string) \<Rightarrow> string \<Rightarrow> (string \<times> string) list \<Rightarrow> (string \<times> string) list" where
  "copy_found executable realpath directory found =
     (let path = path_join directory ''linux-hello-cli'' in
      if executable path \<and> map_of found (realpath path) = None then found @ [(realpath path, path)] else found)"

definition cli_copies :: "(string \<Rightarrow> bool) \<Rightarrow> (string \<Rightarrow> string) \<Rightarrow> string \<Rightarrow> string list" where
  "cli_copies executable realpath path_var =
     map snd (fold (copy_found executable realpath) (split_at (CHR '':'') path_var) [])"

section \<open>The remaining commands of the service\<close>

definition status_command :: "cli_env \<Rightarrow> status cli" where
  "status_command ce = client_call ce (\<lambda>env. mgr_get_status env (ce_caller ce) (ce_mgr ce))"

definition targets_command :: "cli_env \<Rightarrow> target_entry list cli" where
  "targets_command ce = client_call ce mgr_list_targets"

definition cameras_command :: "cli_env \<Rightarrow> cli_args \<Rightarrow> diag_env \<Rightarrow> probe list \<Rightarrow> unit cli" where
  "cameras_command ce a dg probes =
     pbind (client_call ce (\<lambda>env. lift_result (mgr_list_cameras (e_bus env) (ce_caller ce) dg probes))) (\<lambda>cameras.
       if \<not> as_json a \<and> cameras = [] then fail 1 else pret ())"

text \<open>\<open>doctor\<close> with the service's answer.\<close>

definition doctor_command :: "cli_env \<Rightarrow> diag_env \<Rightarrow> unit cli" where
  "doctor_command ce dg =
     pbind (client_call ce (\<lambda>env. mgr_diagnose env dg (ce_caller ce))) (\<lambda>checks. cmd_doctor ce (map (fst \<circ> snd) checks))"

section \<open>Purge\<close>

definition below :: "string \<Rightarrow> string \<Rightarrow> bool" where
  "below dir path \<longleftrightarrow> path = dir \<or> starts_with path (dir @ ''/'')"

text \<open>Deleting a directory, by what lies in it.\<close>

definition purge_files :: "install \<Rightarrow> string \<Rightarrow> string \<Rightarrow> files \<Rightarrow> files" where
  "purge_files ins sys_root dir f =
     (let here = below dir; store = f_store f in
      f\<lparr>f_store := store\<lparr>model_files := (if here (in_models ins) then [] else model_files store),
                           legacy_files := (if here (in_legacy ins) then None else legacy_files store)\<rparr>,
        f_vault := (if here (path_join (in_state ins) ''secrets'') then (f_vault f)\<lparr>secret_files := []\<rparr> else f_vault f),
        f_pam := (if here (path_join sys_root STATE_FILE) then (f_pam f)\<lparr>stored_state := NoState\<rparr> else f_pam f),
        f_settings := (if here (path_join (in_config ins) ''config.ini'') then (f_settings f)\<lparr>override := None\<rparr> else f_settings f)\<rparr>)"

definition purge_passkeys :: "install \<Rightarrow> string \<Rightarrow> passkey_world \<Rightarrow> passkey_world" where
  "purge_passkeys ins dir w =
     (let here = below dir; base = path_join (in_config ins) ''webauthn'' in
      w\<lparr>pw_state := (if here (path_join base ''state.json'') then No_State else pw_state w),
        pw_creds := (\<lambda>path. if here path then (pw_creds w path)\<lparr>disk := None\<rparr> else pw_creds w path),
        pw_master := (if here (path_join base ''keystore'') then None else pw_master w)\<rparr>)"

definition purge_dir :: "('k, 't, 'p) main_env \<Rightarrow> string \<Rightarrow> whole \<Rightarrow> whole" where
  "purge_dir me dir w =
     (let ins = me_install me; cli = wl_cli w in
      w\<lparr>wl_cli := cli\<lparr>cw_files := purge_files ins (e_root (ce_env (me_cli me))) dir (cw_files cli)\<rparr>,
        wl_emitter := (if below dir (path_join (in_state ins) ''emitter.json'')
                       then (wl_emitter w)\<lparr>ed_state := (ed_state (wl_emitter w))\<lparr>found_here := None\<rparr>\<rparr> else wl_emitter w),
        wl_passkey := purge_passkeys ins dir (wl_passkey w),
        wl_dirs := filter (\<lambda>d. \<not> below dir d) (wl_dirs w)\<rparr>)"

text \<open>The loop over the directories; one that cannot be deleted raises (whatever of it was already gone is left out).\<close>

fun purge_dirs :: "('k, 't, 'p) main_env \<Rightarrow> string list \<Rightarrow> (whole, cli_exit, unit) block" where
  "purge_dirs me [] w = (Inr (), w)"
| "purge_dirs me (d # ds) w =
     (if d \<notin> set (wl_dirs w) then purge_dirs me ds w
      else if me_rmtree me d then purge_dirs me ds (purge_dir me d w)
      else (Inl Uncaught, w))"

definition reset_command :: "('k, 't, 'p) main_env \<Rightarrow> bool \<Rightarrow> (whole, cli_exit, unit) block" where
  "reset_command me purge w =
     (case cmd_reset_system (me_cli me) (wl_cli w) of
        (Inl e, c) \<Rightarrow> (Inl e, w\<lparr>wl_cli := c\<rparr>)
      | (Inr _, c) \<Rightarrow>
          let ins = me_install me in
          if purge then purge_dirs me [in_state ins, in_config ins, in_log ins] (w\<lparr>wl_cli := c\<rparr>) else (Inr (), w\<lparr>wl_cli := c\<rparr>))"

section \<open>The editor\<close>

text \<open>\<^verbatim>\<open>cli/config.py\<close>: which editor is opened, after the override file was created.\<close>

definition choose_editor :: "('k, 't, 'p) main_env \<Rightarrow> string option" where
  "choose_editor me =
     (let preferred = env_var (me_vars me) ''EDITOR'' in
      if preferred \<noteq> [] \<and> me_which me preferred then Some preferred
      else if me_which me ''nano'' then Some ''nano''
      else if me_which me ''vi'' then Some ''vi''
      else None)"

definition config_command :: "('k, 't, 'p) main_env \<Rightarrow> whole \<Rightarrow> whole" where
  "config_command me w =
     (case choose_editor me of
        None \<Rightarrow> w
      | Some _ \<Rightarrow>
          let cli = wl_cli w; f = cw_files cli in
          w\<lparr>wl_cli := cli\<lparr>cw_files := f\<lparr>f_settings := ensure_override_file (f_settings f)\<rparr>\<rparr>\<rparr>)"

section \<open>main\<close>

datatype command_line =
    No_Arguments | Parse_Error
  | Line string cli_args "string option" bool

definition LOCAL_COMMANDS :: "string list" where
  "LOCAL_COMMANDS = [''config'', ''snapshot'', ''test'', ''webauthn'', ''reset-system'', ''emitter'']"

text \<open>A command that has an exit code, or (for the emitter's) still waits for its camera.\<close>

type_synonym ended = "int option"

definition on_cli :: "'a cli \<Rightarrow> whole \<Rightarrow> ended \<times> whole" where
  "on_cli m w = (case m (wl_cli w) of (r, c) \<Rightarrow> (Some (exit_code (case r of Inl e \<Rightarrow> Inl e | Inr _ \<Rightarrow> Inr ())), w\<lparr>wl_cli := c\<rparr>))"

text \<open>The passkey commands work on the same model files.\<close>

definition on_passkeys :: "unit passkey_cmd \<Rightarrow> whole \<Rightarrow> ended \<times> whole" where
  "on_passkeys m w =
     (let cli = wl_cli w; f = cw_files cli in
      (case m ((wl_passkey w)\<lparr>pw_models := f_store f\<rparr>) of
         (r, p) \<Rightarrow> (Some (exit_code r), w\<lparr>wl_passkey := p, wl_cli := cli\<lparr>cw_files := f\<lparr>f_store := pw_models p\<rparr>\<rparr>\<rparr>)))"

definition script_code :: "script_end \<Rightarrow> int" where
  "script_code s = (case s of Script_Done \<Rightarrow> 0 | Script_Camera_Error \<Rightarrow> 14 | Script_Exit k \<Rightarrow> k | Script_Raises \<Rightarrow> 1)"

definition emitter_code :: "emitter_end \<Rightarrow> ended" where
  "emitter_code e = (case e of Exit_Code k \<Rightarrow> Some k | Raised _ \<Rightarrow> Some 1 | Reading \<Rightarrow> None)"

definition run_local :: "('k, 't, 'p) main_env \<Rightarrow> string \<Rightarrow> cli_args \<Rightarrow> bool \<Rightarrow> whole \<Rightarrow> ended \<times> whole" where
  "run_local me command a purge w =
     (if ce_euid (me_cli me) \<noteq> 0 then (Some 1, w)
      else if command = ''reset-system'' then (case reset_command me purge w of (r, w') \<Rightarrow> (Some (exit_code r), w'))
      else if command = ''emitter'' then
        (case run_emitter (me_emitter me) (positional a) (wl_emitter w) of (e, d) \<Rightarrow> (emitter_code e, w\<lparr>wl_emitter := d\<rparr>))
      else if a_user a = ''root'' then (Some 1, w)
      else if command = ''config'' then (Some 0, config_command me w)
      else if command = ''webauthn'' then
        on_passkeys (passkey_action (me_libs me)
          ((me_passkey me)\<lparr>pc_user := a_user a, pc_args := positional a, pc_euid := ce_euid (me_cli me)\<rparr>)) w
      else (Some (script_code (me_scripts me command)), w))"

definition run_service_command :: "('k, 't, 'p) main_env \<Rightarrow> string \<Rightarrow> cli_args \<Rightarrow> whole \<Rightarrow> ended \<times> whole" where
  "run_service_command me command a =
     (let ce = me_cli me; (scanned, encodings, now) = me_scan me in
      if command = ''status'' then on_cli (status_command ce)
      else if command = ''doctor'' then on_cli (doctor_command ce (me_diag me))
      else if command = ''list'' then on_cli (cmd_list ce a)
      else if command = ''add'' then on_cli (cmd_add ce a scanned encodings now)
      else if command = ''remove'' then on_cli (cmd_remove ce a)
      else if command = ''rename'' then on_cli (cmd_rename ce a)
      else if command = ''clear'' then on_cli (cmd_clear ce a)
      else if command = ''targets'' then on_cli (targets_command ce)
      else if command = ''enable'' then on_cli (cmd_enable ce a True)
      else if command = ''disable'' then on_cli (cmd_disable ce a)
      else if command = ''set'' then on_cli (cmd_set ce a)
      else if command = ''cameras'' then on_cli (cameras_command ce a (me_diag me) (me_probes me))
      else (\<lambda>w. (Some 2, w)))"

definition cli_main :: "('k, 't, 'p) main_env \<Rightarrow> command_line \<Rightarrow> whole \<Rightarrow> ended \<times> whole" where
  "cli_main me line w =
     (case line of
        No_Arguments \<Rightarrow> (Some 0, w)
      | Parse_Error \<Rightarrow> (Some 2, w)
      | Line command a user purge \<Rightarrow>
          let args = a\<lparr>a_user := (case user of None \<Rightarrow> invoking_user me | Some u \<Rightarrow> u)\<rparr> in
          if command = ''version'' then (Some 0, w)
          else if command \<in> set LOCAL_COMMANDS then run_local me command args purge w
          else run_service_command me command args w)"

section \<open>What a purge leaves\<close>

lemma below_join: "\<not> ends_with d [SLASH] \<Longrightarrow> d \<noteq> [] \<Longrightarrow> \<not> starts_with x [SLASH] \<Longrightarrow> below d (path_join d x)"
  by (simp add: below_def path_join_def prefix_def)

lemma below_trans: "below a b \<Longrightarrow> below b c \<Longrightarrow> below a c"
  by (auto simp: below_def prefix_def)

text \<open>The usual layout: models in the state directory, old models in the configuration directory, both plain absolute paths that are there.\<close>

definition usual_layout :: "install \<Rightarrow> whole \<Rightarrow> bool" where
  "usual_layout ins w \<longleftrightarrow>
     below (in_state ins) (in_models ins) \<and> below (in_config ins) (in_legacy ins) \<and>
     in_state ins \<noteq> [] \<and> \<not> ends_with (in_state ins) [SLASH] \<and> in_config ins \<noteq> [] \<and> \<not> ends_with (in_config ins) [SLASH] \<and>
     \<not> below (in_state ins) (in_config ins) \<and> in_state ins \<in> set (wl_dirs w) \<and> in_config ins \<in> set (wl_dirs w)"

text \<open>What is gone once a directory was deleted stays gone.\<close>

definition models_gone :: "whole \<Rightarrow> bool" where
  "models_gone w \<longleftrightarrow> model_files (f_store (cw_files (wl_cli w))) = [] \<and> secret_files (f_vault (cw_files (wl_cli w))) = [] \<and>
     found_here (ed_state (wl_emitter w)) = None"

definition config_gone :: "install \<Rightarrow> whole \<Rightarrow> bool" where
  "config_gone ins w \<longleftrightarrow> legacy_files (f_store (cw_files (wl_cli w))) = None \<and> override (f_settings (cw_files (wl_cli w))) = None \<and>
     pw_state (wl_passkey w) = No_State \<and> pw_master (wl_passkey w) = None \<and>
     (\<forall>path. below (in_config ins) path \<longrightarrow> disk (pw_creds (wl_passkey w) path) = None)"

lemma purge_dir_keeps:
  "models_gone w \<Longrightarrow> models_gone (purge_dir me d w)" "config_gone ins w \<Longrightarrow> config_gone ins (purge_dir me d w)"
  "pfiles (f_pam (cw_files (wl_cli (purge_dir me d w)))) = pfiles (f_pam (cw_files (wl_cli w)))"
  by (simp_all add: models_gone_def config_gone_def purge_dir_def purge_files_def purge_passkeys_def Let_def)

lemma purge_state: "usual_layout (me_install me) w \<Longrightarrow> models_gone (purge_dir me (in_state (me_install me)) w')"
  by (simp add: models_gone_def purge_dir_def purge_files_def usual_layout_def below_join Let_def)

lemma purge_config: "usual_layout (me_install me) w \<Longrightarrow> config_gone (me_install me) (purge_dir me (in_config (me_install me)) w')"
proof -
  assume l: "usual_layout (me_install me) w"
  let ?d = "in_config (me_install me)"
  have "below ?d (path_join ?d ''webauthn'')"
    using l by (simp add: usual_layout_def below_join)
  moreover have "path_join ?d ''webauthn'' = ?d @ ''/webauthn''"
    using l by (simp add: usual_layout_def path_join_def)
  ultimately have "below ?d (path_join (path_join ?d ''webauthn'') x)" if "\<not> starts_with x [SLASH]" for x
    using below_join [of "path_join ?d ''webauthn''" x] that below_trans by (force simp: suffix_def)
  then show ?thesis
    using l by (simp add: config_gone_def purge_dir_def purge_files_def purge_passkeys_def usual_layout_def below_join Let_def)
qed

lemma purge_dirs_keeps:
  assumes "purge_dirs me ds w = (r, w')"
  shows "(models_gone w \<longrightarrow> models_gone w') \<and> (config_gone ins w \<longrightarrow> config_gone ins w') \<and>
    pfiles (f_pam (cw_files (wl_cli w'))) = pfiles (f_pam (cw_files (wl_cli w)))"
  using assms
proof (induction ds arbitrary: w)
  case (Cons d ds)
  then show ?case
    by (auto simp: purge_dir_keeps split: if_splits)
qed simp

lemma purge_deletes:
  assumes "purge_dirs me [in_state ins, in_config ins, in_log ins] w = (Inr (), w')" and "usual_layout ins w" and "ins = me_install me"
  shows "models_gone w' \<and> config_gone ins w'"
proof -
  let ?w1 = "purge_dir me (in_state ins) w"
  have s: "me_rmtree me (in_state ins)"
    using assms by (auto simp: usual_layout_def split: if_splits)
  have "in_config ins \<in> set (wl_dirs ?w1)"
    using assms(2,3) by (simp add: usual_layout_def purge_dir_def Let_def)
  then have "purge_dirs me [in_log ins] (purge_dir me (in_config ins) ?w1) = (Inr (), w')"
    using assms(1,2) s by (auto simp: usual_layout_def split: if_splits)
  from purge_dirs_keeps [OF this, of ins] show ?thesis
    using purge_state [where me = me and w = w and w' = w] purge_config [where me = me and w = w and w' = ?w1]
      purge_dir_keeps(1) [of ?w1 me "in_config ins"] assms(2,3) by simp
qed

lemma module_free_cong:
  assumes "pfiles w' = pfiles w"
  shows "module_free w' p = module_free w p" "foreign_unchanged v w' p = foreign_unchanged v w p" "isfile w' p = isfile w p"
  by (simp_all add: assms module_free_def foreign_unchanged_def isfile_def)

lemma reset_users_files: "cw_files (snd (reset_users us w)) = cw_files w"
proof (induction us arbitrary: w)
  case (Cons u us)
  have "cw_files (snd (write_choice p v w)) = cw_files w" for p v
    by (simp add: write_choice_def split: option.split)
  with Cons show ?case
    by (cases u) (simp add: case_prod_beta Let_def)
qed simp

lemma reset_system_runs:
  assumes "cmd_reset_system ce w = (Inr (), c)"
  obtains changed where "reset (e_sha (ce_env ce)) (e_root (ce_env ce)) (f_pam (cw_files w)) = (Inr changed, f_pam (cw_files c))"
  using assms by (auto simp: cmd_reset_system_def reset_all_users_def reset_users_files Let_def split: if_splits prod.splits sum.splits)

text \<open>
  C17. After \<^verbatim>\<open>reset-system --purge\<close> as root, in the usual layout: no drop-in logs in, and each service file is either text without a line that loads the
  module, or it is not UTF-8 and the very file that was there before; nobody has a face model, also not one that older versions left and the next
  request would move in; no password is kept, no setting and no emitter control; and no passkey: no credential file, no master key, and
  the passkey commands say so.
\<close>

theorem purge_leaves_nothing:
  assumes "reset_command me True w = (Inr (), w')" and "usual_layout (me_install me) w" and "SLASH \<notin> set name"
  shows "(let path = path_join (path_join (e_root (ce_env (me_cli me))) ETC_DIR) name in
      module_free (f_pam (cw_files (wl_cli w'))) path \<or>
      foreign_unchanged (f_pam (cw_files (wl_cli w))) (f_pam (cw_files (wl_cli w'))) path) \<and>
    \<not> isfile (f_pam (cw_files (wl_cli w'))) (path_join (e_root (ce_env (me_cli me))) AUTOLOGIN_FILE) \<and>
    fst (users (f_store (cw_files (wl_cli w')))) = Inr [] \<and>
    (\<forall>user creds. load_secret creds user (f_vault (cw_files (wl_cli w'))) = None) \<and>
    load_settings (f_settings (cw_files (wl_cli w'))) = merge (vendor (f_settings (cw_files (wl_cli w')))) [] \<and>
    (\<forall>i. stored_controls (ed_state (wl_emitter w')) i = entry_controls (shipped (ed_state (wl_emitter w'))) i) \<and>
    (\<forall>path. below (in_config (me_install me)) path \<longrightarrow> disk (pw_creds (wl_passkey w') path) = None) \<and> pw_master (wl_passkey w') = None \<and>
    (\<forall>l c. fst (passkey_authenticate l c (wl_passkey w')) = Inl (Exit 1))"
proof -
  let ?ins = "me_install me"
  obtain c where r: "cmd_reset_system (me_cli me) (wl_cli w) = (Inr (), c)"
      "purge_dirs me [in_state ?ins, in_config ?ins, in_log ?ins] (w\<lparr>wl_cli := c\<rparr>) = (Inr (), w')"
    using assms(1) by (auto simp: reset_command_def Let_def split: prod.splits sum.splits)
  have gone: "models_gone w'" "config_gone ?ins w'"
    using purge_deletes [OF r(2)] assms(2) by (simp_all add: usual_layout_def)
  have same: "pfiles (f_pam (cw_files (wl_cli w'))) = pfiles (f_pam (cw_files c))"
    using purge_dirs_keeps [OF r(2)] by simp
  obtain changed where
    "reset (e_sha (ce_env (me_cli me))) (e_root (ce_env (me_cli me))) (f_pam (cw_files (wl_cli w))) = (Inr changed, f_pam (cw_files c))"
    using reset_system_runs [OF r(1)] .
  note pam = reset_clean [OF this assms(3)]
  have "fst (users (f_store (cw_files (wl_cli w')))) = Inr []"
    using gone by (simp add: users_def migrate_legacy_def models_gone_def config_gone_def)
  moreover have "fst (passkey_authenticate l c (wl_passkey w')) = Inl (Exit 1)" for l :: "('d, 'e, 'f) passkey_libs" and c
    using gone(2) by (simp add: passkey_authenticate_def require_state_def passkey_state_def config_gone_def pbind_def praise_def Let_def)
  ultimately show ?thesis
    using gone pam module_free_cong [OF same]
    by (simp add: models_gone_def config_gone_def load_secret_def load_settings_def overrides_def stored_controls_def entry_controls_def
        load_devices_def Let_def)
qed

text \<open>A computer with a usual installation and a face model.\<close>

definition usual_install :: install where
  "usual_install = \<lparr>in_state = ''/var/lib/linux-hello'', in_config = ''/etc/linux-hello'', in_log = ''/var/log/linux-hello'',
     in_models = ''/var/lib/linux-hello/models'', in_legacy = ''/etc/linux-hello/models''\<rparr>"

definition sample_main :: "(byte list, byte list, byte list) main_env" where
  "sample_main =
     \<lparr>me_install = usual_install, me_cli = root_cli,
      me_diag = \<lparr>dg_host = sample_host, dg_isfile = (\<lambda>_. True), dg_realpath = (\<lambda>p. p), dg_data_dir = ''/usr/share/dlib'', dg_tree = sample_tree,
        dg_io = ee_io sample_search, dg_emitter = (\<lambda>_. (sample_emitter [], None, None, False, sample_camera)), dg_version = ''1''\<rparr>,
      me_probes = [], me_scan = (SUCCESS, [], 0), me_emitter = sample_search, me_libs = sample_libs,
      me_passkey = sample_passkey_call [] [], me_scripts = (\<lambda>_. Script_Done), me_vars = [], me_account = (\<lambda>_. None), me_login = ''alice'',
      me_which = (\<lambda>_. False), me_rmtree = (\<lambda>_. True)\<rparr>"

definition bare_pam :: pworld where
  "bare_pam = \<lparr>pfiles = [], readonly = (\<lambda>_. False), stored_state = NoState\<rparr>"

definition sample_whole :: whole where
  "sample_whole =
     \<lparr>wl_cli = \<lparr>cw_files = sample_files\<lparr>f_pam := bare_pam\<rparr>,
         cw_states = (\<lambda>_. None), cw_state_w = (\<lambda>_. True)\<rparr>,
      wl_emitter = sample_disk, wl_passkey = empty_disk, wl_dirs = [''/var/lib/linux-hello'', ''/etc/linux-hello'', ''/var/log/linux-hello'']\<rparr>"

lemma sample_layout: "usual_layout (me_install sample_main) sample_whole"
  by (simp add: usual_layout_def sample_main_def usual_install_def sample_whole_def below_def suffix_def)

lemma sample_resets: "(case reset (\<lambda>t. t) ''/'' bare_pam of (Inr _, _) \<Rightarrow> True | _ \<Rightarrow> False)"
  by code_simp

lemma reset_system_files:
  "cmd_reset_system ce w = (r, c) \<Longrightarrow> f_store (cw_files c) = f_store (cw_files w)"
  by (auto simp: cmd_reset_system_def reset_all_users_def reset_users_files Let_def split: prod.splits sum.splits if_splits)

lemma sample_purged: "\<exists>w'. reset_command sample_main True sample_whole = (Inr (), w')"
proof -
  obtain changed p where "reset (\<lambda>t. t) ''/'' bare_pam = (Inr changed, p)"
    using sample_resets by (auto split: prod.splits sum.splits)
  then have "\<exists>c. cmd_reset_system root_cli (wl_cli sample_whole) = (Inr (), c)"
    by (simp add: cmd_reset_system_def reset_all_users_def reset_users_files root_cli_def sample_env_def sample_whole_def Let_def)
  then show ?thesis
    by (auto simp: reset_command_def sample_main_def Let_def)
qed

theorem purge_leaves_nothing_witness:
  "\<exists>w'. reset_command sample_main True sample_whole = (Inr (), w') \<and> fst (users (f_store (cw_files (wl_cli w')))) = Inr [] \<and>
    f_store (cw_files (wl_cli sample_whole)) = sample_saved \<and> model_files sample_saved \<noteq> []"
proof -
  obtain w' where run: "reset_command sample_main True sample_whole = (Inr (), w')"
    using sample_purged by blast
  have "SLASH \<notin> set ''sudo''"
    by simp
  from purge_leaves_nothing [OF run sample_layout this] run show ?thesis
    by (auto simp: sample_whole_def sample_files_def sample_saved_def)
qed

section \<open>Where models are not deleted\<close>

lemma purge_dirs_elsewhere:
  assumes "purge_dirs me ds w = (r, w')" and "\<forall>d\<in>set ds. \<not> below d (in_models (me_install me))"
  shows "model_files (f_store (cw_files (wl_cli w'))) = model_files (f_store (cw_files (wl_cli w)))"
  using assms
proof (induction ds arbitrary: w)
  case (Cons d ds)
  have "model_files (f_store (cw_files (wl_cli (purge_dir me d w)))) = model_files (f_store (cw_files (wl_cli w)))"
    using Cons.prems(2) by (simp add: purge_dir_def purge_files_def Let_def)
  then show ?case
    using Cons by (auto split: if_splits)
qed simp

text \<open>With models in a directory of their own (the option \<^verbatim>\<open>user_models_dir\<close>), \<^verbatim>\<open>--purge\<close> deletes none of them.\<close>

theorem purge_keeps_models_elsewhere:
  assumes "reset_command me True w = (r, w')"
    and "\<forall>d\<in>{in_state (me_install me), in_config (me_install me), in_log (me_install me)}. \<not> below d (in_models (me_install me))"
  shows "model_files (f_store (cw_files (wl_cli w'))) = model_files (f_store (cw_files (wl_cli w)))"
proof -
  obtain r1 c where reset: "cmd_reset_system (me_cli me) (wl_cli w) = (r1, c)"
    by force
  show ?thesis
  proof (cases r1)
    case (Inr u)
    with reset assms(1) have "purge_dirs me [in_state (me_install me), in_config (me_install me), in_log (me_install me)] (w\<lparr>wl_cli := c\<rparr>) = (r, w')"
      by (simp add: reset_command_def Let_def)
    from purge_dirs_elsewhere [OF this] assms(2) reset_system_files [OF reset] show ?thesis
      by simp
  qed (use assms(1) reset reset_system_files [OF reset] in \<open>auto simp: reset_command_def\<close>)
qed

section \<open>Local commands need root\<close>

theorem local_needs_root:
  assumes "ce_euid (me_cli me) \<noteq> 0" and "command \<in> set LOCAL_COMMANDS"
  shows "cli_main me (Line command a user purge) w = (Some 1, w)"
proof -
  have "command \<noteq> ''version''"
    using assms(2) by (auto simp: LOCAL_COMMANDS_def)
  then show ?thesis
    using assms by (simp add: cli_main_def run_local_def Let_def)
qed

end
