(* ===== verification/Recognition.thy ===== *)
theory Recognition
  imports Engine Models_Store
begin

text \<open>
  \<^verbatim>\<open>recog/\<close> and \<^verbatim>\<open>openvino_face.py\<close>: which recognition backend is used, what it makes of a
  frame, and how it compares encodings.

  The packages (dlib, OpenVINO, OpenCV) are a record: what a detector or a network returns for an
  image, and whether a file loads. Images are opaque; comparing encodings, which numpy does in the code, is written out. A
  comparison numpy refuses (its \<open>ValueError\<close>) is \<open>None\<close>. Floats are real numbers.
\<close>

section \<open>The packages\<close>

datatype recog_error = Import_Failed | No_Data_Files | Load_Failed

record 'i face_libs =
  rl_isfile :: "string \<Rightarrow> bool"
  rl_isdir :: "string \<Rightarrow> bool"
  rl_face_module :: bool
  rl_openvino :: "string list \<Rightarrow> bool"
  rl_cache_ok :: bool
  rl_compiles :: "string \<Rightarrow> bool"
  rl_dlib :: bool
  rl_loads :: "string \<Rightarrow> bool"
  rl_data_dir :: string
  rl_hog :: "'i \<Rightarrow> nat \<Rightarrow> location list"
  rl_mmod :: "'i \<Rightarrow> nat \<Rightarrow> location list"
  rl_landmarks :: "'i \<Rightarrow> location \<Rightarrow> (int \<times> int) list"
  rl_descriptor :: "'i \<Rightarrow> location \<times> (int \<times> int) list \<Rightarrow> nat \<Rightarrow> real list"
  rl_detections :: "'i \<Rightarrow> real list list"
  rl_embedding :: "'i \<Rightarrow> real list"
  rl_dim :: nat
  rl_gray :: "'i \<Rightarrow> bool"
  rl_color :: "'i \<Rightarrow> 'i"
  rl_size :: "'i \<Rightarrow> int \<times> int"
  rl_crop :: "nat \<times> nat \<Rightarrow> nat \<times> nat \<Rightarrow> 'i \<Rightarrow> 'i"

definition MODEL_DIR :: string where "MODEL_DIR = ''/usr/share/linux-hello/openvino-models''"
definition DET_XML :: string where "DET_XML = path_join MODEL_DIR ''face-detection-adas-0001.xml''"
definition REID_XML :: string where "REID_XML = path_join MODEL_DIR ''face-reidentification-retail-0095.xml''"
definition CACHE_DIR :: string where "CACHE_DIR = ''/var/cache/linux-hello/openvino''"
definition EXTRA_PATHS :: "string list" where
  "EXTRA_PATHS = [''/usr/local/lib64/python3.14/site-packages'', ''/usr/local/lib/python3.14/site-packages'']"

definition shape_predictor_path :: "'i face_libs \<Rightarrow> string" where
  "shape_predictor_path L = path_join (rl_data_dir L) ''shape_predictor_5_face_landmarks.dat''"
definition mmod_path :: "'i face_libs \<Rightarrow> string" where
  "mmod_path L = path_join (rl_data_dir L) ''mmod_human_face_detector.dat''"
definition resnet_path :: "'i face_libs \<Rightarrow> string" where
  "resnet_path L = path_join (rl_data_dir L) ''dlib_face_recognition_resnet_model_v1.dat''"

section \<open>Loading a backend\<close>

text \<open>What the process keeps: \<open>_core\<close>, and what loading it changed.\<close>

record core_state =
  core_cached :: bool
  sys_path :: "string list"
  telemetry_off :: bool
  cache_set :: bool

type_synonym 'a loading = "(core_state, recog_error, 'a) block"

definition extend_path :: "'i face_libs \<Rightarrow> string \<Rightarrow> string list \<Rightarrow> string list" where
  "extend_path L p path = (if p \<notin> set path \<and> rl_isdir L p then p # path else path)"

definition get_core :: "'i face_libs \<Rightarrow> unit loading" where
  "get_core L s =
     (if core_cached s then (Inr (), s)
      else
        let s1 = s\<lparr>telemetry_off := True, sys_path := fold (extend_path L) EXTRA_PATHS (sys_path s)\<rparr> in
        if \<not> rl_openvino L (sys_path s1) then (Inl Import_Failed, s1)
        else
          let s2 = s1\<lparr>core_cached := True\<rparr> in
          if \<not> rl_isdir L CACHE_DIR then (Inr (), s2)
          else if rl_cache_ok L then (Inr (), s2\<lparr>cache_set := True\<rparr>)
          else (Inl Load_Failed, s2))"

definition is_available :: "'i face_libs \<Rightarrow> bool" where
  "is_available L \<longleftrightarrow> rl_isfile L DET_XML \<and> rl_isfile L REID_XML"

text \<open>A \<open>FaceDetector\<close> or \<open>FaceEncoder\<close>, by the file of its network.\<close>

definition load_network :: "'i face_libs \<Rightarrow> string \<Rightarrow> unit loading" where
  "load_network L path = pbind (get_core L) (\<lambda>_. if rl_compiles L path then pret () else praise Load_Failed)"

text \<open>The backends; the OpenVINO one loads dlib's landmarks when they are first asked for.\<close>

datatype backend = Dlib (use_cnn: bool) | OpenVino (pose_loaded: bool)

definition openvino_backend :: "'i face_libs \<Rightarrow> backend loading" where
  "openvino_backend L =
     pbind (load_network L DET_XML) (\<lambda>_. pbind (load_network L REID_XML) (\<lambda>_. pret (OpenVino False)))"

definition dlib_backend :: "'i face_libs \<Rightarrow> bool \<Rightarrow> backend loading" where
  "dlib_backend L cnn =
     (if \<not> rl_dlib L then praise Import_Failed
      else if \<not> rl_isfile L (shape_predictor_path L) then praise No_Data_Files
      else if (cnn \<and> \<not> rl_loads L (mmod_path L)) \<or> \<not> rl_loads L (shape_predictor_path L) \<or> \<not> rl_loads L (resnet_path L)
      then praise Load_Failed
      else pret (Dlib cnn))"

definition create_backend :: "'i face_libs \<Rightarrow> bool \<Rightarrow> nat set \<Rightarrow> backend loading" where
  "create_backend L cnn enrolled_dims s =
     (if \<not> rl_face_module L \<or> \<not> is_available L then dlib_backend L cnn s
      else
        (case openvino_backend L s of
           (Inl _, s1) \<Rightarrow> dlib_backend L cnn s1
         | (Inr b, s1) \<Rightarrow>
             if enrolled_dims \<noteq> {} \<and> {rl_dim L} \<noteq> enrolled_dims then dlib_backend L cnn s1 else (Inr b, s1)))"

section \<open>Faces\<close>

text \<open>One row of the detection network's output: number, label, confidence, corners relative to the frame.\<close>

definition detection :: "int \<Rightarrow> int \<Rightarrow> real list \<Rightarrow> location option" where
  "detection h w det =
     (if det ! 2 > 1 / 2
      then Some \<lparr>loc_left = max 0 (int_of_float (det ! 3 * of_int w)), loc_top = max 0 (int_of_float (det ! 4 * of_int h)),
                 loc_right = min w (int_of_float (det ! 5 * of_int w)), loc_bottom = min h (int_of_float (det ! 6 * of_int h))\<rparr>
      else None)"

definition colored :: "'i face_libs \<Rightarrow> 'i \<Rightarrow> 'i" where
  "colored L frame = (if rl_gray L frame then rl_color L frame else frame)"

definition backend_detect :: "'i face_libs \<Rightarrow> backend \<Rightarrow> 'i \<Rightarrow> nat \<Rightarrow> location list" where
  "backend_detect L b frame upsample =
     (case b of
        Dlib cnn \<Rightarrow> if cnn then rl_mmod L frame upsample else rl_hog L frame upsample
      | OpenVino _ \<Rightarrow> let (h, w) = rl_size L frame in List.map_filter (detection h w) (rl_detections L (colored L frame)))"

definition backend_landmarks :: "'i face_libs \<Rightarrow> 'i \<Rightarrow> location \<Rightarrow> (backend, recog_error, (int \<times> int) list) block" where
  "backend_landmarks L frame rect b =
     (case b of
        Dlib _ \<Rightarrow> (Inr (rl_landmarks L frame rect), b)
      | OpenVino loaded \<Rightarrow>
          if loaded then (Inr (rl_landmarks L frame rect), b)
          else if \<not> rl_dlib L then (Inl Import_Failed, b)
          else if \<not> rl_loads L (shape_predictor_path L) then (Inl Load_Failed, b)
          else (Inr (rl_landmarks L frame rect), OpenVino True))"

text \<open>\<open>part(index)\<close> of a \<open>LandmarkSet\<close>: a Python index, \<open>None\<close> out of range.\<close>

definition part :: "(int \<times> int) list \<Rightarrow> int \<Rightarrow> (int \<times> int) option" where
  "part points i =
     (let n = int (length points) in
      if 0 \<le> i \<and> i < n then Some (points ! nat i) else if - n \<le> i \<and> i < 0 then Some (points ! nat (i + n)) else None)"

section \<open>Encodings\<close>

text \<open>The bounds of a slice \<open>a:b\<close> of \<open>n\<close> rows or columns; negative indices count from the end.\<close>

definition slice_index :: "int \<Rightarrow> int \<Rightarrow> nat" where
  "slice_index n i = nat (if i < 0 then max 0 (i + n) else min i n)"

definition slice_bounds :: "int \<Rightarrow> int \<Rightarrow> int \<Rightarrow> nat \<times> nat" where
  "slice_bounds n a b = (slice_index n a, slice_index n b)"

definition sq :: "real list \<Rightarrow> real" where
  "sq v = sum_list (map (\<lambda>x. x * x) v)"

definition face_slices :: "int \<times> int \<Rightarrow> location \<Rightarrow> (nat \<times> nat) \<times> (nat \<times> nat)" where
  "face_slices hw rect =
     (let (h, w) = hw in
      (slice_bounds h (max 0 (loc_top rect)) (min h (loc_bottom rect)),
       slice_bounds w (max 0 (loc_left rect)) (min w (loc_right rect))))"

definition openvino_encode :: "'i face_libs \<Rightarrow> 'i \<Rightarrow> location \<Rightarrow> real list option" where
  "openvino_encode L frame0 rect =
     (let frame = colored L frame0; (rows, cols) = face_slices (rl_size L frame) rect in
      if snd rows \<le> fst rows \<or> snd cols \<le> fst cols then None
      else
        let embedding = rl_embedding L (rl_crop L rows cols frame); norm = sqrt (sq embedding)
        in Some (if norm > 0 then map (\<lambda>x. x / norm) embedding else embedding))"

definition backend_encode :: "'i face_libs \<Rightarrow> backend \<Rightarrow> 'i \<Rightarrow> location \<Rightarrow> real list option" where
  "backend_encode L b frame rect =
     (case b of
        Dlib _ \<Rightarrow> Some (rl_descriptor L frame (rect, rl_landmarks L frame rect) 1)
      | OpenVino _ \<Rightarrow> openvino_encode L frame rect)"

text \<open>numpy's broadcasting of two rows.\<close>

definition broadcast :: "real list \<Rightarrow> real list \<Rightarrow> (real list \<times> real list) option" where
  "broadcast a b =
     (if length a = length b then Some (a, b)
      else if length a = 1 then Some (replicate (length b) (hd a), b)
      else if length b = 1 then Some (a, replicate (length a) (hd b))
      else None)"

definition euclid :: "real list \<Rightarrow> real list \<Rightarrow> real" where
  "euclid a b = sqrt (sum_list (map2 (\<lambda>x y. (x - y) * (x - y)) a b))"

definition dot :: "real list \<Rightarrow> real list \<Rightarrow> real" where
  "dot a b = sum_list (map2 (*) a b)"

definition cosine :: "real list \<Rightarrow> real list \<Rightarrow> real" where
  "cosine a b = 1 - dot a b"

text \<open>\<open>np.asarray\<close> makes a matrix of rows of one length only.\<close>

definition rectangular :: "real list list \<Rightarrow> bool" where
  "rectangular m \<longleftrightarrow> m \<noteq> [] \<and> list_all (\<lambda>r. length r = length (hd m)) m"

definition dlib_match :: "real list list \<Rightarrow> real list \<Rightarrow> real list option" where
  "dlib_match encodings encoding =
     (if \<not> rectangular encodings then None
      else those (map (\<lambda>r. map_option (\<lambda>(a, b). euclid a b) (broadcast r encoding)) encodings))"

definition openvino_match :: "real list list \<Rightarrow> real list \<Rightarrow> real list option" where
  "openvino_match encodings encoding =
     (if \<not> rectangular encodings \<or> length (hd encodings) \<noteq> length encoding then None
      else Some (map (\<lambda>r. cosine r encoding) encodings))"

definition backend_match :: "backend \<Rightarrow> real list list \<Rightarrow> real list \<Rightarrow> real list option" where
  "backend_match b = (case b of Dlib _ \<Rightarrow> dlib_match | OpenVino _ \<Rightarrow> openvino_match)"

text \<open>
  The engine's vision with a backend. The engine has no branch for a comparison that raises, so one
  is an empty list of distances here; the theorems below say when there is none.
\<close>

definition with_backend :: "'i face_libs \<Rightarrow> backend \<Rightarrow> 'i vision \<Rightarrow> 'i vision" where
  "with_backend L b v =
     v\<lparr>detect_faces := (\<lambda>gs. backend_detect L b gs 1), compute_encoding := backend_encode L b,
       distances := (\<lambda>encodings e. case backend_match b encodings e of None \<Rightarrow> [] | Some ds \<Rightarrow> ds)\<rparr>"

section \<open>The interface of a backend\<close>

text \<open>
  What the engine relies on: encodings that fit a backend can be compared, one distance per
  enrolled encoding, not depending on the others, and for the encodings a backend makes no distance is negative.
\<close>

locale recognition =
  fixes fits :: "real list \<Rightarrow> bool" and valid :: "real list \<Rightarrow> bool" and dist :: "real list \<Rightarrow> real list \<Rightarrow> real"
    and compare :: "real list list \<Rightarrow> real list \<Rightarrow> real list option"
  assumes compared: "encodings \<noteq> [] \<Longrightarrow> \<forall>a\<in>set encodings. fits a \<Longrightarrow> fits x \<Longrightarrow>
      compare encodings x = Some (map (\<lambda>a. dist a x) encodings)"
    and valid_fits: "valid a \<Longrightarrow> fits a"
    and nonneg: "valid a \<Longrightarrow> valid x \<Longrightarrow> 0 \<le> dist a x"
begin

lemma closest:
  assumes "encodings \<noteq> []" "\<forall>a\<in>set encodings. fits a" "fits x" "compare encodings x = Some ds"
  shows "argmin ds < length encodings" "ds ! argmin ds = dist (encodings ! argmin ds) x"
    "\<forall>a\<in>set encodings. ds ! argmin ds \<le> dist a x"
proof -
  have ds: "ds = map (\<lambda>a. dist a x) encodings"
    using compared assms by simp
  then have "ds \<noteq> []"
    using assms(1) by simp
  then show "argmin ds < length encodings"
    using argmin_less [of ds] ds by simp
  then show "ds ! argmin ds = dist (encodings ! argmin ds) x"
    unfolding ds by simp
  show "\<forall>a\<in>set encodings. ds ! argmin ds \<le> dist a x"
    using argmin_nth [OF \<open>ds \<noteq> []\<close>] ds by simp
qed

text \<open>A face that matches a frame of the engine is the closest of the enrolled ones, and below the limit.\<close>

lemma match_is_near:
  assumes v: "\<And>encs x. distances v encs x = (case compare encs x of None \<Rightarrow> [] | Some ds \<Rightarrow> ds)"
    and enc: "\<And>loc e. compute_encoding v frame loc = Some e \<Longrightarrow> fits e"
    and ok: "encodings \<noteq> []" "\<forall>a\<in>set encodings. fits a"
    and m: "face_matches v encodings certainty frame locs i"
  shows "\<exists>loc\<in>set locs. \<exists>e. compute_encoding v frame loc = Some e \<and> i < length encodings \<and>
    dist (encodings ! i) e < certainty \<and> (\<forall>a\<in>set encodings. dist (encodings ! i) e \<le> dist a e)"
proof -
  obtain loc e where f: "loc \<in> set locs" "compute_encoding v frame loc = Some e" "i = argmin (distances v encodings e)"
      "distances v encodings e ! i < certainty"
    using m unfolding face_matches_def by blast
  have "compare encodings e = Some (distances v encodings e)"
    using compared [OF ok enc [OF f(2)]] by (simp add: v)
  from closest [OF ok enc [OF f(2)] this] f show ?thesis
    by auto
qed

text \<open>A face that matched still matches when there are more enrolled encodings.\<close>

lemma more_still_match:
  assumes v: "\<And>encs x. distances v encs x = (case compare encs x of None \<Rightarrow> [] | Some ds \<Rightarrow> ds)"
    and enc: "\<And>loc e. compute_encoding v frame loc = Some e \<Longrightarrow> valid e"
    and ok: "encodings \<noteq> []" "\<forall>a\<in>set encodings \<union> set further. valid a"
  shows "fst (scan_faces v encodings certainty frame locs s) \<noteq> None \<Longrightarrow>
    fst (scan_faces v (encodings @ further) certainty frame locs t) \<noteq> None"
proof (induction locs arbitrary: s t)
  case (Cons loc locs)
  show ?case
  proof (cases "compute_encoding v frame loc")
    case (Some e)
    let ?a = "distances v encodings e" and ?b = "distances v (encodings @ further) e"
    have fit: "fits e" "\<forall>a\<in>set encodings. fits a" "\<forall>a\<in>set (encodings @ further). fits a" "encodings @ further \<noteq> []"
      using valid_fits enc [OF Some] ok by auto
    have c: "compare encodings e = Some ?a" "compare (encodings @ further) e = Some ?b"
      using compared [OF ok(1) fit(2,1)] compared [OF fit(4,3,1)] by (simp_all add: v)
    note a = closest [OF ok(1) fit(2,1) c(1)] and b = closest [OF fit(4,3,1) c(2)]
    have "(encodings @ further) ! argmin ?b \<in> set encodings \<union> set further"
      using nth_mem [OF b(1)] by simp
    then have "0 \<le> ?b ! argmin ?b"
      using nonneg enc [OF Some] ok(2) b(2) by simp
    moreover have "?b ! argmin ?b \<le> ?a ! argmin ?a"
      using a(1,2) b(3) by simp
    ultimately show ?thesis
      using Cons Some by (auto simp: Let_def split: if_splits)
  qed (use Cons in simp)
qed simp

end

section \<open>Both backends provide it\<close>

lemma rectangular_if: "m \<noteq> [] \<Longrightarrow> \<forall>a\<in>set m. length a = n \<Longrightarrow> rectangular m"
  by (simp add: rectangular_def list_all_iff)

lemma squares_nonneg: "0 \<le> sum_list (map2 (\<lambda>x y. (x - y) * (x - y)) a (b :: real list))"
  by (rule sum_list_nonneg) auto

lemma diff_squares:
  "length a = length b \<Longrightarrow> sum_list (map2 (\<lambda>x y. (x - y) * (x - y)) a b) = sq a + sq b - 2 * dot a b"
  by (induction rule: list_induct2) (auto simp: sq_def dot_def algebra_simps)

lemma dot_le: "length a = length b \<Longrightarrow> sq a \<le> 1 \<Longrightarrow> sq b \<le> 1 \<Longrightarrow> dot a b \<le> 1"
  using squares_nonneg [of a b] diff_squares [of a b] by simp

interpretation dlib: recognition "\<lambda>e. length e = 128" "\<lambda>e. length e = 128" euclid dlib_match
proof
  fix encodings :: "real list list" and x :: "real list"
  assume "encodings \<noteq> []" "\<forall>a\<in>set encodings. length a = 128" "length x = 128"
  then show "dlib_match encodings x = Some (map (\<lambda>a. euclid a x) encodings)"
    by (simp add: dlib_match_def rectangular_if [where n = 128] broadcast_def those_map_id)
qed (simp_all add: euclid_def squares_nonneg)

interpretation openvino: recognition "\<lambda>e. length e = n" "\<lambda>e. length e = n \<and> sq e \<le> 1" cosine openvino_match
proof
  fix encodings :: "real list list" and x :: "real list"
  assume "encodings \<noteq> []" "\<forall>a\<in>set encodings. length a = n" "length x = n"
  then show "openvino_match encodings x = Some (map (\<lambda>a. cosine a x) encodings)"
    by (simp add: openvino_match_def rectangular_if [where n = n])
qed (simp_all add: cosine_def dot_le)

text \<open>What the packages are documented to return: embeddings of the announced size, dlib's of 128 numbers.\<close>

definition recog_laws :: "'i face_libs \<Rightarrow> bool" where
  "recog_laws L \<longleftrightarrow> (\<forall>i. length (rl_embedding L i) = rl_dim L) \<and> (\<forall>i r n. length (rl_descriptor L i r n) = 128)"

definition encoding_length :: "'i face_libs \<Rightarrow> backend \<Rightarrow> nat" where
  "encoding_length L b = (case b of Dlib _ \<Rightarrow> 128 | OpenVino _ \<Rightarrow> rl_dim L)"

definition valid_encoding :: "'i face_libs \<Rightarrow> backend \<Rightarrow> real list \<Rightarrow> bool" where
  "valid_encoding L b e = (case b of Dlib _ \<Rightarrow> length e = 128 | OpenVino _ \<Rightarrow> length e = rl_dim L \<and> sq e \<le> 1)"

definition distance :: "backend \<Rightarrow> real list \<Rightarrow> real list \<Rightarrow> real" where
  "distance b = (case b of Dlib _ \<Rightarrow> euclid | OpenVino _ \<Rightarrow> cosine)"

lemma sq_scaled: "sq (map (\<lambda>x. x / c) v) = sq v / (c * c)"
  by (induction v) (auto simp: sq_def add_divide_distrib)

lemma sq_nonneg: "0 \<le> sq v"
  unfolding sq_def by (rule sum_list_nonneg) auto

text \<open>What a backend makes of a face is an encoding of its kind.\<close>

lemma encode_valid:
  assumes "recog_laws L" and "backend_encode L b frame rect = Some e"
  shows "valid_encoding L b e"
proof (cases b)
  case (OpenVino p)
  have "sq (map (\<lambda>x. x / sqrt (sq v)) v) \<le> 1" if "sqrt (sq v) > 0" for v
    using that sq_nonneg [of v] by (simp add: sq_scaled)
  moreover have "sq v \<le> 1" if "\<not> sqrt (sq v) > 0" for v
    using that sq_nonneg [of v] by simp
  ultimately show ?thesis
    using assms OpenVino
    by (auto simp: valid_encoding_def backend_encode_def openvino_encode_def recog_laws_def Let_def split: prod.splits if_splits)
qed (use assms in \<open>auto simp: valid_encoding_def backend_encode_def recog_laws_def\<close>)

lemma encode_length: "recog_laws L \<Longrightarrow> backend_encode L b frame rect = Some e \<Longrightarrow> length e = encoding_length L b"
  using encode_valid [of L b frame rect e] by (cases b) (auto simp: valid_encoding_def encoding_length_def)

lemma backend_recognition:
  "recognition (\<lambda>e. length e = encoding_length L b) (valid_encoding L b) (distance b) (backend_match b)"
  using dlib.recognition_axioms openvino.recognition_axioms
  by (cases b) (simp_all add: valid_encoding_def [abs_def] encoding_length_def distance_def backend_match_def)

text \<open>The OpenVINO backend is chosen only for models its encodings can be compared with.\<close>

lemma chosen_fits:
  assumes "create_backend L cnn (set (map length encodings)) s0 = (Inr b, s1)" and "encodings \<noteq> []"
    and "is_Dlib b \<longrightarrow> (\<forall>a\<in>set encodings. length a = 128)"
  shows "\<forall>a\<in>set encodings. length a = encoding_length L b"
proof (cases b)
  case (OpenVino p)
  then have "set (map length encodings) = {rl_dim L}"
    using assms(1,2) by (auto simp: create_backend_def dlib_backend_def split: prod.splits sum.splits if_splits)
  with OpenVino show ?thesis
    by (auto simp: encoding_length_def)
qed (use assms(3) in \<open>simp add: encoding_length_def\<close>)

section \<open>What a success means\<close>

text \<open>
  C6. A successful verification with the backend that \<open>create_backend\<close> chose for the enrolled models saw an enrolled
  face: in a frame the engine looked at, a face the backend detected has an encoding whose distance to the
  reported model, Euclidean for dlib, one minus the cosine for OpenVINO, is below the configured certainty, and no
  enrolled encoding is closer. And comparing cannot fail: whatever face of whatever frame the backend encodes, the encoding can be compared with all
  enrolled ones, and gives these distances. Where dlib was chosen, the enrolled encodings are supposed to be dlib's, 128 numbers long; with others the
  choice falls on dlib too and comparing fails (\<open>fallback_cannot_compare\<close>). For OpenVINO nothing is supposed of them.
\<close>

theorem success_is_a_near_face:
  assumes "recog_laws L" and "create_backend L cnn (set (map length encodings)) s0 = (Inr b, s1)"
    and "is_Dlib b \<longrightarrow> (\<forall>a\<in>set encodings. length a = 128)" and "vis e = with_backend L b v"
    and "engine_verify e keeping encodings timeout certainty allowed rounds = (Ended (SUCCESS, s), use)"
  shows "(\<exists>r\<in>set rounds. \<exists>frame gs loc enc i. in_time (start e) timeout r \<and>
    looked_at (vis e) (conf e) (scaling (conf e) (cam_height e) (cam_width e)) keeping (dark_limit e) r frame gs \<and>
    loc \<in> set (backend_detect L b gs 1) \<and> backend_encode L b frame loc = Some enc \<and>
    model_index s = Some i \<and> i < length encodings \<and> distance b (encodings ! i) enc < certainty / 10 \<and>
    (\<forall>a\<in>set encodings. distance b (encodings ! i) enc \<le> distance b a enc)) \<and>
    (\<forall>frame loc x. backend_encode L b frame loc = Some x \<longrightarrow>
       backend_match b encodings x = Some (map (\<lambda>a. distance b a x) encodings))"
proof
  let ?near = "\<exists>r\<in>set rounds. \<exists>frame gs loc enc i. in_time (start e) timeout r \<and>
    looked_at (vis e) (conf e) (scaling (conf e) (cam_height e) (cam_width e)) keeping (dark_limit e) r frame gs \<and>
    loc \<in> set (backend_detect L b gs 1) \<and> backend_encode L b frame loc = Some enc \<and>
    model_index s = Some i \<and> i < length encodings \<and> distance b (encodings ! i) enc < certainty / 10 \<and>
    (\<forall>a\<in>set encodings. distance b (encodings ! i) enc \<le> distance b a enc)"
  note kind = chosen_fits [OF assms(2) engine_success(1) [OF assms(5)] assms(3)]
  show "\<forall>frame loc x. backend_encode L b frame loc = Some x \<longrightarrow>
      backend_match b encodings x = Some (map (\<lambda>a. distance b a x) encodings)"
    using recognition.compared [OF backend_recognition engine_success(1) [OF assms(5)] kind] encode_length [OF assms(1)] by blast
  obtain pre r post frame gs i where m: "rounds = pre @ r # post" "\<forall>q \<in> set (pre @ [r]). in_time (start e) timeout q"
      "looked_at (vis e) (conf e) (scaling (conf e) (cam_height e) (cam_width e)) keeping (dark_limit e) r frame gs"
      "face_matches (vis e) encodings (certainty / 10) frame (detect_faces (vis e) gs) i" "model_index s = Some i"
    using engine_success(2) [OF assms(5)] by blast
  have v: "distances (vis e) encs x = (case backend_match b encs x of None \<Rightarrow> [] | Some ds \<Rightarrow> ds)"
      "compute_encoding (vis e) = backend_encode L b" "detect_faces (vis e) = (\<lambda>gs. backend_detect L b gs 1)" for encs x
    by (simp_all add: assms(4) with_backend_def)
  have fit: "length x = encoding_length L b" if "compute_encoding (vis e) frame loc = Some x" for loc x
    using encode_length [OF assms(1)] that by (simp add: v)
  have "\<exists>loc\<in>set (detect_faces (vis e) gs). \<exists>enc. compute_encoding (vis e) frame loc = Some enc \<and> i < length encodings \<and>
      distance b (encodings ! i) enc < certainty / 10 \<and> (\<forall>a\<in>set encodings. distance b (encodings ! i) enc \<le> distance b a enc)"
    by (rule recognition.match_is_near [OF backend_recognition v(1) _ engine_success(1) [OF assms(5)]
        kind m(4)]) (rule fit)
  then obtain loc enc where "loc \<in> set (detect_faces (vis e) gs)" "compute_encoding (vis e) frame loc = Some enc" "i < length encodings"
      "distance b (encodings ! i) enc < certainty / 10" "\<forall>a\<in>set encodings. distance b (encodings ! i) enc \<le> distance b a enc"
    by blast
  then show ?near
    using m by (intro bexI [of _ r] exI [of _ frame] exI [of _ gs] exI [of _ loc] exI [of _ enc] exI [of _ i]) (simp_all add: v)
qed

text \<open>An instance: every image shows one face, and the network answers with the same embedding for it.\<close>

definition sample_face_libs :: "real face_libs" where
  "sample_face_libs =
     \<lparr>rl_isfile = (\<lambda>_. True), rl_isdir = (\<lambda>_. False), rl_face_module = True, rl_openvino = (\<lambda>_. True), rl_cache_ok = True,
      rl_compiles = (\<lambda>_. True), rl_dlib = True, rl_loads = (\<lambda>_. True), rl_data_dir = ''/usr/share/dlib-data'',
      rl_hog = (\<lambda>_ _. []), rl_mmod = (\<lambda>_ _. []), rl_landmarks = (\<lambda>_ _. []), rl_descriptor = (\<lambda>_ _ _. replicate 128 0),
      rl_detections = (\<lambda>_. [[0, 1, 9 / 10, 1 / 10, 1 / 10, 6 / 10, 6 / 10]]), rl_embedding = (\<lambda>_. [2]), rl_dim = 1,
      rl_gray = (\<lambda>_. False), rl_color = id, rl_size = (\<lambda>_. (100, 100)), rl_crop = (\<lambda>_ _ i. i)\<rparr>"

definition fresh_core :: core_state where
  "fresh_core = \<lparr>core_cached = False, sys_path = [], telemetry_off = False, cache_set = False\<rparr>"

definition sample_recognizer :: "real engine_env" where
  "sample_recognizer = sample_engine\<lparr>vis := with_backend sample_face_libs (OpenVino False) sample_vision\<rparr>"

lemma sample_chosen: "\<exists>s. create_backend sample_face_libs False {1} fresh_core = (Inr (OpenVino False), s)"
  by (simp add: create_backend_def sample_face_libs_def is_available_def openvino_backend_def load_network_def get_core_def pbind_def
      fresh_core_def Let_def)

lemma sample_recognized:
  "\<exists>s use. engine_verify sample_recognizer False [[1]] 4 3.5 True [sample_round 100 1, sample_round 30 2] = (Ended (SUCCESS, s), use)"
proof -
  have d: "backend_detect sample_face_libs (OpenVino False) i (Suc 0) = [\<lparr>loc_left = 10, loc_top = 10, loc_right = 60, loc_bottom = 60\<rparr>]" for i
    by (simp add: backend_detect_def sample_face_libs_def detection_def map_filter_def int_of_float_def)
  have e: "backend_encode sample_face_libs (OpenVino False) i \<lparr>loc_left = 10, loc_top = 10, loc_right = 60, loc_bottom = 60\<rparr> = Some [1]" for i
    by (simp add: backend_encode_def openvino_encode_def sample_face_libs_def face_slices_def slice_bounds_def slice_index_def sq_def colored_def)
  have m: "backend_match (OpenVino False) [[1]] [1] = Some [0]"
    by (simp add: backend_match_def openvino_match_def rectangular_def cosine_def dot_def)
  show ?thesis
    by (simp add: sample_recognizer_def with_backend_def d e m engine_verify_def sample_engine_def acquire_def open_with_backend_def
        new_loop_def new_dark_filter_def finish_def sample_vision_def sample_round_def scaling_def next_frame_def lit_pair_def
        new_pairing_def new_stats_def darkness_of_def dark_accept_def turn_def turned_def argmin_def Let_def lower_def to_lower_char_def
        strip_def rstrip_def lstrip_def is_space_def)
qed

theorem success_is_a_near_face_witness:
  "\<exists>s use enc. engine_verify sample_recognizer False [[1]] 4 3.5 True [sample_round 100 1, sample_round 30 2] = (Ended (SUCCESS, s), use) \<and>
    length enc = 1 \<and> cosine [1] enc < 35 / 100"
proof -
  obtain s use where run: "engine_verify sample_recognizer False [[1]] 4 3.5 True [sample_round 100 1, sample_round 30 2] = (Ended (SUCCESS, s), use)"
    using sample_recognized by blast
  obtain s1 where b: "create_backend sample_face_libs False (set (map length [[1 :: real]])) fresh_core = (Inr (OpenVino False), s1)"
    using sample_chosen by auto
  have laws: "recog_laws sample_face_libs"
    by (simp add: recog_laws_def sample_face_libs_def)
  obtain frame loc enc i where "backend_encode sample_face_libs (OpenVino False) frame loc = Some enc" "i < length [[1 :: real]]"
      "distance (OpenVino False) ([[1]] ! i) enc < 3.5 / 10"
    using success_is_a_near_face [OF laws b _ _ run, of sample_vision] by (auto simp: sample_recognizer_def)
  with encode_length [OF laws this(1)] run show ?thesis
    by (auto simp: distance_def encoding_length_def sample_face_libs_def)
qed

section \<open>More models\<close>

text \<open>
  More enrolled encodings never make a face that matched not match: with encodings of the backend's kind, a frame that
  matches keeps matching, whatever is enrolled on top.
\<close>

theorem more_models_still_match:
  assumes "recog_laws L" and "encodings \<noteq> []" and "\<forall>a\<in>set encodings \<union> set further. valid_encoding L b a"
    and "fst (scan_faces (with_backend L b v) encodings certainty frame locs s) \<noteq> None"
  shows "fst (scan_faces (with_backend L b v) (encodings @ further) certainty frame locs t) \<noteq> None"
  by (rule recognition.more_still_match [OF backend_recognition _ _ assms(2,3,4)])
    (use encode_valid [OF assms(1)] in \<open>simp_all add: with_backend_def\<close>)

section \<open>Models the backend cannot compare\<close>

text \<open>
  Models of OpenVINO with the OpenVINO files gone, or models of both kinds: dlib is used, and numpy refuses the
  comparison with the first face, so the request fails with an error. \<open>DimensionMismatchError\<close> is never raised.
\<close>

theorem fallback_cannot_compare:
  assumes "\<not> is_available L" and "recog_laws L" and "a \<in> set encodings" and "length a \<notin> {1, 128}"
    and "create_backend L cnn (set (map length encodings)) s0 = (Inr b, s1)"
    and "backend_encode L b frame loc = Some enc"
  shows "is_Dlib b \<and> backend_match b encodings enc = None"
proof -
  have b: "is_Dlib b"
    using assms(1,5) by (auto simp: create_backend_def dlib_backend_def split: if_splits)
  then have "length enc = 128"
    using encode_length [OF assms(2,6)] by (cases b) (auto simp: encoding_length_def)
  then have "broadcast a enc = None"
    using assms(4) by (simp add: broadcast_def)
  moreover have "those xs = None" if "None \<in> set xs" for xs :: "real option list"
    using that by (induction xs) (auto split: option.split)
  ultimately have "dlib_match encodings enc = None"
    using assms(3) by (force simp: dlib_match_def image_iff)
  then show ?thesis
    using b by (cases b) (auto simp: backend_match_def)
qed

section \<open>Boxes and crops\<close>

text \<open>A detected box does not leave the frame to the left, top, right or bottom.\<close>

lemma detection_clamped:
  "detection h w det = Some loc \<Longrightarrow> 0 \<le> loc_left loc \<and> 0 \<le> loc_top loc \<and> loc_right loc \<le> w \<and> loc_bottom loc \<le> h"
  by (auto simp: detection_def split: if_splits)

text \<open>The crop is the part of the box inside the frame, if the box does not end before the frame begins.\<close>

lemma crop_inside:
  assumes "0 \<le> loc_right rect" "0 \<le> loc_bottom rect" "0 \<le> h" "0 \<le> w"
  shows "face_slices (h, w) rect =
    ((nat (min (max 0 (loc_top rect)) h), nat (min h (loc_bottom rect))), (nat (min (max 0 (loc_left rect)) w), nat (min w (loc_right rect))))"
  using assms by (simp add: face_slices_def slice_bounds_def slice_index_def)

text \<open>
  A box above the frame ends at a negative row, which Python counts from the end: the crop is the whole height of the
  frame but a few rows, not nothing.
\<close>

theorem box_above_takes_frame:
  "\<exists>loc. detection 480 640 [0, 1, 9 / 10, 1 / 10, - 1 / 10, 2 / 10, - 1 / 100] = Some loc \<and>
    face_slices (480, 640) loc = ((0, 476), (64, 128))"
  by (simp add: detection_def int_of_float_def face_slices_def slice_bounds_def slice_index_def)

end
