(* ===== verification/Spec2Isabelle.thy ===== *)
theory Spec2Isabelle
  imports Passkey_Cli Rubberstamps Frame_Readers Service_Loop Cli_Main Recognition
begin

text \<open>
  \<^bold>\<open>Linux Hello: face unlock for Linux desktops, a verification development.\<close>

  The program is a Python service that recognises an enrolled face, with PAM integration, a settings
  layer, a passkey authenticator and camera support. All files named below are under
  \<^verbatim>\<open>src/linux-hello/src/\<close>.

  \<^bold>\<open>The parts and how they work together.\<close> A PAM module asks the service
  (\<^verbatim>\<open>daemon/\<close>) over D-Bus to verify a user. The service checks the caller (access), for
  elevations waits for Enter on a keyboard no program can fake (confirm), takes the
  camera (engine, device discovery, emitter) and answers with a result code. Requests that change
  files go to the model store, the settings, the kept passwords and the PAM integration, each
  behind polkit. A second service (\<^verbatim>\<open>webauthn/\<close>) is a virtual security key: the kernel's HID
  events reach the CTAPHID transport, whole messages the authenticator, which asks the first
  service for a face check before it uses the credential store.

  \<^bold>\<open>Theories.\<close>

  \<^item> \<open>LH_Prelude\<close>: what the sources use of Python's strings, paths and dicts, blocks with
    exceptions as state transformers (\<open>block\<close>, \<open>pbind\<close>), and the interface
    \<open>file_store\<close> of a keyed store, interpreted by the model store and the kept passwords.
    \<open>Byte_Struct\<close>: \<open>struct\<close> fields over bytes, which are \<open>8 word\<close>.
  \<^item> \<open>Pam_Text\<close>, \<open>Pam_System\<close> (\<^verbatim>\<open>integration/pam.py\<close>): the texts of service files, then
    \<open>PamIntegration\<close> over a file tree with the manifest of what was changed. Shown: enabling is all
    or nothing, disabling gives the administrator's file back, a reset leaves no text file that loads the module,
    the inserted block stands behind copies of the lockout checks of the service's stack, its includes followed.
  \<^item> \<open>Input_Devices\<close> (\<^verbatim>\<open>daemon/confirm.py\<close>, \<^verbatim>\<open>daemon/presence.py\<close>): which input
    devices count (exactly the trusted ones, for devices as the kernel and udev show them), the wait for Enter and the wait for activity.
  \<^item> \<open>Daemon_Access\<close> (\<^verbatim>\<open>verification.py\<close>, \<^verbatim>\<open>daemon/access.py\<close>,
    \<^verbatim>\<open>daemon/dispatch.py\<close>): result codes, polkit and logind rules, dispatch.
  \<^item> \<open>Models_Store\<close> (\<^verbatim>\<open>models.py\<close>), \<open>Login_Secrets\<close> (\<^verbatim>\<open>daemon/secrets.py\<close>),
    \<open>Settings_Layers\<close> (\<^verbatim>\<open>settings.py\<close>), \<open>Host_Checks\<close>
    (\<^verbatim>\<open>integration/encryption.py\<close>, \<^verbatim>\<open>security.py\<close>, \<^verbatim>\<open>kscreenlocker.py\<close>): the files
    of the service and what it reads of the host.
  \<^item> \<open>Manager_Tasks\<close> (\<^verbatim>\<open>daemon/manager.py\<close>, the requests that wait): tasks of one event loop as a
    step relation from await to await, with the trace of windows and scans. Shown by
    rule induction over every run: one Enter approves one request, and the camera has one user.
  \<^item> \<open>Manager_Requests\<close> (the same file, the requests that touch files): each request over the stores
    above, and who may change what over all of them.
  \<^item> \<open>Service_Loop\<close> (\<^verbatim>\<open>linux_hello_daemon.py\<close>, the task set of \<^verbatim>\<open>daemon/dispatch.py\<close>): the whole service as a step relation over the
    manager's. Shown: it ends by itself only when nobody needs it, then soon, and what it or a leaving caller cancels never scans.
  \<^item> \<open>Command_Line\<close> (\<^verbatim>\<open>cli.py\<close>, \<^verbatim>\<open>client.py\<close>, the writing functions of \<^verbatim>\<open>integration/kscreenlocker.py\<close>): the
    commands as calls to these requests, with the lock screen choices in the homes. Shown: no command that
    turns face unlock off leaves a lock screen that starts with an option that is off.
  \<^item> \<open>Diagnostics\<close> (\<^verbatim>\<open>daemon/manager.py\<close>): the requests Diagnose, SecurityStatus and ListCameras, the rate of previews and the
    decision for a snapshot.
  \<^item> \<open>Cli_Main\<close> (\<^verbatim>\<open>cli.py\<close>, \<^verbatim>\<open>cli/config.py\<close>): \<open>main\<close>, which runs every command over the states of all parts side by side.
    Shown: what \<^verbatim>\<open>reset-system --purge\<close> leaves, and that local commands do nothing without root.
  \<^item> \<open>Ctaphid\<close> (\<^verbatim>\<open>webauthn/ctaphid.py\<close>): channels, reassembly, framing, the worker's transaction;
    fragmentation and reassembly are inverse, and the device's invariant holds under every
    interleaving of its entry points.
  \<^item> \<open>Cred_Store\<close> (\<^verbatim>\<open>webauthn/store.py\<close>): base64, JSON rows and the store's operations, which refine a list of
    credentials; the interface \<open>persisted_counter\<close>, interpreted on the sign counters, gives that
    no counter value is handed out twice.
  \<^item> \<open>Authenticator\<close> (\<^verbatim>\<open>webauthn/authenticator.py\<close>): every CTAP2 command as a block over the store;
    without a successful face check nothing changes and nothing is signed that claims the user.
  \<^item> \<open>Passkey_Service\<close> (\<^verbatim>\<open>webauthn/uhid.py\<close>, \<^verbatim>\<open>webauthn/service.py\<close>): kernel events, the loop, and a
    request's whole way through transport and authenticator.
  \<^item> \<open>Engine\<close> (\<^verbatim>\<open>engine.py\<close>): dark frame filter, ambient pairing, the frame loop, verification and enrolment.
  \<^item> \<open>Recognition\<close> (\<^verbatim>\<open>recog/\<close>, \<^verbatim>\<open>openvino_face.py\<close>): which backend is used, its boxes, crops and encodings, and how encodings are
    compared. The interface \<open>recognition\<close>, what the engine relies on, is interpreted by both backends; with it a success of the
    engine is a face near an enrolled one in the backend's distance, and more models never lose a match.
  \<^item> \<open>Rubberstamps\<close> (\<^verbatim>\<open>rubberstamps/\<close>, and \<open>_rubberstamps\<close> of \<^verbatim>\<open>daemon/manager.py\<close>): the rules, their options, the nod and
    hotkey stamps. The nod stamp is equivalent to a definition over the faces seen; a
    success with a nod required was nodded for.
  \<^item> \<open>Keystores\<close> (\<^verbatim>\<open>webauthn/keystore.py\<close>, \<^verbatim>\<open>webauthn/keystore_tpm.py\<close>): the interface \<open>keystore\<close>, interpreted by the
    software and by the TPM keystore, gives that keys keep working; a reset of the first is final, the slots of
    the second do not fill up.
  \<^item> \<open>Passkey_Cli\<close> (\<^verbatim>\<open>cli/webauthn.py\<close>, \<^verbatim>\<open>webauthn/__init__.py\<close>): the passkey commands, which put the authenticator, the
    store and either keystore together: the sum of the keystores is a third instance of \<open>keystore\<close>. \<open>run\<close> is the service of its user with the requests it gets
    (\<open>serve_requests\<close>); what comes before them, reports and transport, is in \<open>Passkey_Service\<close>. Over all runs of commands one after the other, without a reset,
    what was registered authenticates, with a signature the stored public key verifies. A service and a command at the same time, and a process that is killed within a
    request, are not modelled.
  \<^item> \<open>Ir_Emitter\<close> (\<^verbatim>\<open>emitter.py\<close>, \<^verbatim>\<open>recorders/uvc_xu.py\<close>): USB descriptors, the controls of a camera, sessions
    that restore it, and the search.
  \<^item> \<open>Emitter_Cli\<close> (\<^verbatim>\<open>cli/emitter.py\<close>): the emitter commands over these. Shown: what a search finds drives the light at every later
    capture, here and, exported, on other computers.
  \<^item> \<open>Camera_Discovery\<close> (\<^verbatim>\<open>recorders/device_discovery.py\<close>): which camera is used.
  \<^item> \<open>Frame_Readers\<close> (\<^verbatim>\<open>recorders/video_capture.py\<close>, \<^verbatim>\<open>ffmpeg_reader.py\<close>, \<^verbatim>\<open>pyv4l2_reader.py\<close>): opening a
    camera with its light, the three readers, and giving it back. Shown: the ffmpeg reader hands its recordings out in order, and a camera
    is given back as it was found, also when opening it fails, unless switching on its light failed half way.

  \<^bold>\<open>Conventions.\<close> State is a record passed along; a dict is an association list with \<open>AList.update\<close>; an exception is the left value of
  a sum, with the state reached when it was raised. What is outside the repository (files, kernel, D-Bus
  services, python-fido2, OpenCV, the recognition backend, clocks) is a parameter or an input, and a loop that
  waits for the outside gets a list of what it meets: \<open>None\<close>, or the constructor \<open>Running\<close>, means that
  the list ran out first, and the theorems \<open>enter_wait_ends\<close> and \<open>camera_released\<close> say when it does not.
  Recursion depth is bounded where the code bounds it (\<open>MAX_DEPTH\<close>, \<open>MAX_INCLUDE_DEPTH\<close>). Text is a list of
  characters below 256; Python's floats are real numbers, in the options of the stamps with the infinite ones and what is not a number beside them.

  \<^bold>\<open>Findings\<close> proved here: \<open>removal_revives_legacy\<close>, \<open>cancel_reaches_newest_only\<close>,
  \<open>slow_misses_never_pause\<close>, \<open>own_stack_keeps_sufficient\<close>, \<open>short_report_stops_service\<close>,
  \<open>silent_ignores_cred_protect\<close>, \<open>failed_activation_keeps_writes\<close>,
  \<open>broken_stamps_accept\<close>, \<open>remove_negative_index\<close>, \<open>reset_loses_others\<close>, \<open>reset_passes_over_foreign\<close>,
  \<open>forget_clears_blacklist\<close>, \<open>failed_reads_spin\<close>, \<open>activation_may_raise\<close>, \<open>undecodable_file_stops_start\<close>, \<open>late_request_dropped\<close>, \<open>pyv4l2_never_delivers\<close>, \<open>probe_swaps\<close>, \<open>ffprobe_numbers_raise\<close>,
  \<open>fallback_cannot_compare\<close>, \<open>box_above_takes_frame\<close>, \<open>diagnose_lost\<close>, \<open>purge_keeps_models_elsewhere\<close>.

  \<^bold>\<open>Not modelled:\<close> the C++ PAM module and the settings module (\<^verbatim>\<open>pam/\<close>, \<^verbatim>\<open>src/kcm/\<close>), the V4L2 constants and packaging. Within the modelled files: log messages, fsync and the temporary file of an atomic
  write, the drawing of previews and snapshots. Of the command line: argument
  parsing, output, the polkit agent of the terminal, and the windows of \<^verbatim>\<open>cli/snap.py\<close> and \<^verbatim>\<open>cli/test.py\<close>.
\<close>

end
